(* ===== verification/Prelude.thy ===== *)
theory Prelude imports Main "HOL-Library.Word" begin

text \<open>
  Shared vocabulary of the development: the machine arithmetic of the C code (\<open>size_t\<close> and
  \<open>zend_ulong\<close> as natural numbers with the wrap-around modulo \<open>2 ^ 64\<close> written out,
  \<open>zend_long\<close> and \<open>time_t\<close> as integers with the two's complement reduction written out),
  the alignment macro, object copies of a typed memory (\<open>memmove\<close>), and generic facts
  about lists and options.
  The platform is LP64 (8-byte \<open>size_t\<close>, pointers, \<open>zend_long\<close>, \<open>time_t\<close>).
\<close>

named_theorems word_arith "rules that turn wrap-around arithmetic into plain arithmetic"
named_theorems frame "what an operation leaves alone"

subsection \<open>Unsigned 64-bit arithmetic\<close>

abbreviation U64 :: nat where
  "U64 \<equiv> 18446744073709551616"

abbreviation SIZE_MAX :: nat where
  "SIZE_MAX \<equiv> 18446744073709551615"

definition uadd :: "nat \<Rightarrow> nat \<Rightarrow> nat" where
  "uadd a b = (a + b) mod U64"

definition usub :: "nat \<Rightarrow> nat \<Rightarrow> nat" where
  "usub a b = (if b \<le> a then (a - b) mod U64 else (U64 - (b - a) mod U64) mod U64)"

definition umul :: "nat \<Rightarrow> nat \<Rightarrow> nat" where
  "umul a b = (a * b) mod U64"

lemma uadd_small [word_arith]: "a + b < U64 \<Longrightarrow> uadd a b = a + b"
  by (simp add: uadd_def)

lemma usub_small [word_arith]: "b \<le> a \<Longrightarrow> a < U64 \<Longrightarrow> usub a b = a - b"
  by (simp add: usub_def)

lemma umul_small [word_arith]: "a * b < U64 \<Longrightarrow> umul a b = a * b"
  by (simp add: umul_def)

lemma uadd_lt [simp]: "uadd a b < U64"
  by (simp add: uadd_def)

lemma usub_lt [simp]: "usub a b < U64"
  by (simp add: usub_def)

lemma umul_lt [simp]: "umul a b < U64"
  by (simp add: umul_def)

text \<open>The models above are the operations of the 64-bit machine words.\<close>

lemma unat_plus_uadd: "unat (x + y :: 64 word) = uadd (unat x) (unat y)"
  by (simp add: uadd_def unat_word_ariths)

lemma unat_times_umul: "unat (x * y :: 64 word) = umul (unat x) (unat y)"
  by (simp add: umul_def unat_word_ariths)

lemma unat_minus_usub: "unat (x - y :: 64 word) = usub (unat x) (unat y)"
proof (cases "unat y \<le> unat x")
  case True
  then have "unat (x - y) = unat x - unat y"
    by (simp add: unat_sub word_le_nat_alt)
  moreover have "unat x - unat y < U64"
    using unsigned_less [of x, where 'a = nat] by simp
  ultimately show ?thesis using True by (simp add: usub_def)
next
  case False
  have lt: "unat x < U64" "unat y < U64"
    using unsigned_less [of x, where 'a = nat] unsigned_less [of y, where 'a = nat] by simp_all
  from False have "unat (x - y) = unat x + U64 - unat y"
    by (simp add: unat_sub_if' not_le)
  with False lt show ?thesis by (simp add: usub_def)
qed

subsection \<open>Signed integers\<close>

definition int32_of :: "int \<Rightarrow> int" where
  "int32_of x = (x + 2147483648) mod 4294967296 - 2147483648"

definition int64_of :: "int \<Rightarrow> int" where
  "int64_of x = (x + 9223372036854775808) mod 18446744073709551616 - 9223372036854775808"

definition uint32_of :: "int \<Rightarrow> int" where
  "uint32_of x = x mod 4294967296"

lemma int32_of_id: "- 2147483648 \<le> x \<Longrightarrow> x < 2147483648 \<Longrightarrow> int32_of x = x"
  by (simp add: int32_of_def)

lemma int64_of_id:
  "- 9223372036854775808 \<le> x \<Longrightarrow> x < 9223372036854775808 \<Longrightarrow> int64_of x = x"
  by (simp add: int64_of_def)

lemma int32_of_range: "- 2147483648 \<le> int32_of x \<and> int32_of x < 2147483648"
  by (simp add: int32_of_def)

lemma int32_of_uint32_of: "int32_of (uint32_of x) = int32_of x"
  by (simp add: int32_of_def uint32_of_def mod_simps)

subsection \<open>Alignment\<close>

text \<open>
  \<open>ALIGNWORD\<close> of \<open>apc_sma.h\<close> is Zend's \<open>ZEND_MM_ALIGNED_SIZE\<close>: add 7 (wrapping) and clear
  the three low bits.
\<close>

definition alignword :: "nat \<Rightarrow> nat" where
  "alignword x = uadd x 7 div 8 * 8"

lemma alignword_dvd [simp]: "8 dvd alignword x"
  by (simp add: alignword_def)

lemma alignword_ge: "x + 7 < U64 \<Longrightarrow> x \<le> alignword x"
  by (simp add: alignword_def uadd_small)

lemma alignword_le: "alignword x \<le> x + 7"
proof -
  have "alignword x \<le> uadd x 7" by (simp add: alignword_def)
  also have "\<dots> \<le> x + 7" by (simp add: uadd_def)
  finally show ?thesis .
qed

lemma alignword_lt [simp]: "alignword x < U64"
proof -
  have "alignword x \<le> uadd x 7" by (simp add: alignword_def)
  also have "\<dots> < U64" by simp
  finally show ?thesis .
qed

lemma alignword_id: "8 dvd x \<Longrightarrow> x + 7 < U64 \<Longrightarrow> alignword x = x"
  by (auto simp: alignword_def uadd_small elim!: dvdE)

lemma alignword_mono: "x \<le> y \<Longrightarrow> y + 7 < U64 \<Longrightarrow> alignword x \<le> alignword y"
  by (simp add: alignword_def uadd_small div_le_mono)

lemma alignword_add:
  assumes "8 dvd y" and "x + y + 7 < U64"
  shows "alignword (x + y) = alignword x + y"
proof -
  from assms(1) obtain k where y: "y = 8 * k" ..
  have "(x + 8 * k + 7) div 8 = (x + 7) div 8 + k" by linarith
  with assms(2) y show ?thesis
    by (simp add: alignword_def uadd_small)
qed

lemma dvd8_less: "(8::nat) dvd a \<Longrightarrow> 8 dvd b \<Longrightarrow> a < b \<Longrightarrow> a + 8 \<le> b"
  by (elim dvdE) simp

subsection \<open>Typed memory and memmove\<close>

text \<open>
  A typed view of the shared segment is a function from offsets to the object that starts
  there. Moving \<open>n\<close> bytes moves every object that starts in the source range.
\<close>

definition memmove :: "(nat \<Rightarrow> 'a) \<Rightarrow> nat \<Rightarrow> nat \<Rightarrow> nat \<Rightarrow> (nat \<Rightarrow> 'a)" where
  "memmove m dst src n = (\<lambda>x. if dst \<le> x \<and> x < dst + n then m (src + (x - dst)) else m x)"

lemma memmove_inside: "dst \<le> x \<Longrightarrow> x < dst + n \<Longrightarrow> memmove m dst src n x = m (src + (x - dst))"
  by (simp add: memmove_def)

lemma memmove_outside: "x < dst \<or> dst + n \<le> x \<Longrightarrow> memmove m dst src n x = m x"
  by (auto simp: memmove_def)

subsection \<open>Lists and options\<close>

lemma split_list_pair: "x \<in> set xs \<Longrightarrow> \<exists>ys zs. xs = ys @ x # zs"
  by (rule split_list)

lemma sum_list_nat_mem: "x \<in> set xs \<Longrightarrow> f x \<le> (\<Sum>y\<leftarrow>xs. f y)" for f :: "'a \<Rightarrow> nat"
  by (induction xs) auto

lemma last_Cons_snoc: "last (a # xs @ [b]) = b"
  by simp

lemma bind_Some_conv: "Option.bind x f = Some y \<longleftrightarrow> (\<exists>a. x = Some a \<and> f a = Some y)"
  by (cases x) auto

end
