(* ===== verification/Sma_Blocks.thy ===== *)
theory Sma_Blocks imports Prelude begin

text \<open>
  The block headers of the shared memory allocator (\<open>apc_sma.c\<close>): the record \<open>block_t\<close>, the
  memory of headers indexed by segment offset, the doubly linked free list
  (\<open>link_free_block_at_start\<close>, \<open>unlink_free_block\<close>) and the two structural predicates the
  allocator maintains: \<open>dll\<close>, the free list, and \<open>chain\<close>, the sequence of physically adjacent
  blocks with their boundary tags.
\<close>

subsection \<open>Block headers\<close>

record block_t =
  bsize :: nat
  prev_size :: nat
  fnext :: nat
  fprev :: nat

text \<open>The headers by segment offset: \<open>BLOCKAT(offset)\<close> is \<open>m offset\<close>.\<close>

type_synonym bmem = "nat \<Rightarrow> block_t"

text \<open>\<open>ALIGNWORD(sizeof(block_t))\<close>: four \<open>size_t\<close> fields (no canary, as in a release build).\<close>

abbreviation BHDR :: nat where
  "BHDR \<equiv> 32"

definition set_size :: "bmem \<Rightarrow> nat \<Rightarrow> nat \<Rightarrow> bmem" where
  "set_size m b v = m(b := (m b)\<lparr>bsize := v\<rparr>)"

definition set_prev_size :: "bmem \<Rightarrow> nat \<Rightarrow> nat \<Rightarrow> bmem" where
  "set_prev_size m b v = m(b := (m b)\<lparr>prev_size := v\<rparr>)"

definition set_fnext :: "bmem \<Rightarrow> nat \<Rightarrow> nat \<Rightarrow> bmem" where
  "set_fnext m b v = m(b := (m b)\<lparr>fnext := v\<rparr>)"

definition set_fprev :: "bmem \<Rightarrow> nat \<Rightarrow> nat \<Rightarrow> bmem" where
  "set_fprev m b v = m(b := (m b)\<lparr>fprev := v\<rparr>)"

lemma set_size_sel [simp]:
  "bsize (set_size m b v x) = (if x = b then v else bsize (m x))"
  "prev_size (set_size m b v x) = prev_size (m x)"
  "fnext (set_size m b v x) = fnext (m x)"
  "fprev (set_size m b v x) = fprev (m x)"
  by (simp_all add: set_size_def)

lemma set_prev_size_sel [simp]:
  "bsize (set_prev_size m b v x) = bsize (m x)"
  "prev_size (set_prev_size m b v x) = (if x = b then v else prev_size (m x))"
  "fnext (set_prev_size m b v x) = fnext (m x)"
  "fprev (set_prev_size m b v x) = fprev (m x)"
  by (simp_all add: set_prev_size_def)

lemma set_fnext_sel [simp]:
  "bsize (set_fnext m b v x) = bsize (m x)"
  "prev_size (set_fnext m b v x) = prev_size (m x)"
  "fnext (set_fnext m b v x) = (if x = b then v else fnext (m x))"
  "fprev (set_fnext m b v x) = fprev (m x)"
  by (simp_all add: set_fnext_def)

lemma set_fprev_sel [simp]:
  "bsize (set_fprev m b v x) = bsize (m x)"
  "prev_size (set_fprev m b v x) = prev_size (m x)"
  "fnext (set_fprev m b v x) = fnext (m x)"
  "fprev (set_fprev m b v x) = (if x = b then v else fprev (m x))"
  by (simp_all add: set_fprev_def)

text \<open>\<open>NEXT_SBLOCK\<close> and \<open>PREV_SBLOCK\<close>.\<close>

definition next_sblock :: "bmem \<Rightarrow> nat \<Rightarrow> nat" where
  "next_sblock m b = uadd b (bsize (m b))"

definition prev_sblock :: "bmem \<Rightarrow> nat \<Rightarrow> nat" where
  "prev_sblock m b = usub b (prev_size (m b))"

subsection \<open>The free list\<close>

text \<open>
  \<open>hs\<close> is \<open>ALIGNWORD(sizeof(sma_header_t))\<close>, the offset of the first, zero-sized block that
  heads the free list.
\<close>

definition link_free_block_at_start :: "nat \<Rightarrow> bmem \<Rightarrow> nat \<Rightarrow> bmem" where
  "link_free_block_at_start hs m cur =
     (let dst = hs;
          m1 = set_fnext m cur (fnext (m dst));
          m2 = set_fprev m1 cur dst;
          m3 = set_fnext m2 dst cur
      in set_fprev m3 (fnext (m3 cur)) (fnext (m3 dst)))"

definition unlink_free_block :: "bmem \<Rightarrow> nat \<Rightarrow> bmem" where
  "unlink_free_block m cur =
     (let m1 = set_fnext m (fprev (m cur)) (fnext (m cur))
      in set_fprev m1 (fnext (m1 cur)) (fprev (m1 cur)))"

text \<open>The doubly linked list from the head \<open>a\<close> through \<open>fs\<close> to the last block \<open>z\<close>.\<close>

fun dll :: "bmem \<Rightarrow> nat \<Rightarrow> nat list \<Rightarrow> nat \<Rightarrow> bool" where
  "dll m a [] z \<longleftrightarrow> fnext (m a) = z \<and> fprev (m z) = a"
| "dll m a (f # fs) z \<longleftrightarrow> fnext (m a) = f \<and> fprev (m f) = a \<and> dll m f fs z"

lemma dll_append: "dll m a (xs @ c # ys) z \<longleftrightarrow> dll m a xs c \<and> dll m c ys z"
  by (induction xs arbitrary: a) auto

lemma dll_cong:
  assumes "\<And>x. x \<in> set (a # fs) \<Longrightarrow> fnext (m' x) = fnext (m x)"
    and "\<And>x. x \<in> set (fs @ [z]) \<Longrightarrow> fprev (m' x) = fprev (m x)"
  shows "dll m' a fs z = dll m a fs z"
  using assms by (induction fs arbitrary: a) auto

lemma dll_fprev_end: "dll m a xs c \<Longrightarrow> fprev (m c) = last (a # xs)"
  by (induction xs arbitrary: a) auto

lemma dll_fnext_start: "dll m a ys z \<Longrightarrow> fnext (m a) = hd (ys @ [z])"
  by (cases ys) auto

lemma dll_fnext_mem:
  assumes "dll m a fs z" and "x \<in> set (a # fs)"
  shows "fnext (m x) \<in> set (fs @ [z])"
  using assms by (induction fs arbitrary: a) auto

lemma last_in_set: "last (a # xs) \<in> set (a # xs)"
  by (rule last_in_set) simp

lemma hd_in_set_snoc: "hd (ys @ [z]) \<in> set (ys @ [z])"
  by (rule hd_in_set) simp

text \<open>Unlinking takes exactly that block out of the list.\<close>

lemma dll_unlink:
  assumes "dll m a (xs @ c # ys) z" and "distinct (a # xs @ c # ys @ [z])"
  shows "dll (unlink_free_block m c) a (xs @ ys) z"
  using assms
proof (induction xs arbitrary: a)
  case Nil
  then have "fnext (m a) = c" "fprev (m c) = a" "dll m c ys z" by auto
  moreover from this have "fnext (m c) = hd (ys @ [z])" by (simp add: dll_fnext_start)
  ultimately show ?case using Nil.prems(2)
  proof (cases ys)
    case (Cons y ys')
    with Nil.prems have "dll (unlink_free_block m c) y ys' z = dll m y ys' z"
      by (intro dll_cong) (auto simp: unlink_free_block_def Let_def)
    with Cons Nil.prems show ?thesis by (auto simp: unlink_free_block_def Let_def)
  qed (auto simp: unlink_free_block_def Let_def)
next
  case (Cons x xs)
  have IH: "dll (unlink_free_block m c) x (xs @ ys) z"
    using Cons by simp
  from Cons.prems(1) have l: "dll m x xs c" "dll m c ys z"
    by (simp_all add: dll_append)
  have "fprev (m c) \<in> set (x # xs)"
    using dll_fprev_end [OF l(1)] last_in_set [of x xs] by simp
  moreover have "fnext (m c) \<in> set (ys @ [z])"
    using dll_fnext_start [OF l(2)] hd_in_set_snoc [of ys z] by simp
  ultimately have "fprev (m c) \<noteq> a" "fnext (m c) \<noteq> x"
    using Cons.prems(2) by auto
  with IH Cons.prems show ?case by (auto simp: unlink_free_block_def Let_def)
qed

text \<open>Linking puts the block right behind the head.\<close>

lemma dll_link:
  assumes "dll m a fs z" and "distinct (a # fs @ [z])" and "c \<notin> set (a # fs @ [z])"
  shows "dll (link_free_block_at_start a m c) a (c # fs) z"
proof (cases fs)
  case Nil
  with assms show ?thesis by (auto simp: link_free_block_at_start_def Let_def)
next
  case (Cons f fs')
  let ?m = "link_free_block_at_start a m c"
  from assms Cons have "dll ?m f fs' z = dll m f fs' z"
    by (intro dll_cong) (auto simp: link_free_block_at_start_def Let_def)
  with assms Cons show ?thesis by (auto simp: link_free_block_at_start_def Let_def)
qed

text \<open>Sizes and boundary tags are left alone; only neighbours in the list change.\<close>

lemma unlink_frame [frame, simp]:
  "bsize (unlink_free_block m c x) = bsize (m x)"
  "prev_size (unlink_free_block m c x) = prev_size (m x)"
  by (simp_all add: unlink_free_block_def Let_def)

lemma link_frame [frame, simp]:
  "bsize (link_free_block_at_start hs m c x) = bsize (m x)"
  "prev_size (link_free_block_at_start hs m c x) = prev_size (m x)"
  by (simp_all add: link_free_block_at_start_def Let_def)

lemma unlink_fnext:
  "fnext (unlink_free_block m c x) = (if x = fprev (m c) then fnext (m c) else fnext (m x))"
  by (simp add: unlink_free_block_def Let_def)

lemma unlink_fprev_other:
  "x \<noteq> fnext (m c) \<Longrightarrow> c \<noteq> fprev (m c) \<Longrightarrow> fprev (unlink_free_block m c x) = fprev (m x)"
  by (simp add: unlink_free_block_def Let_def)

lemma link_fnext:
  "fnext (link_free_block_at_start hs m c x) =
     (if x = hs then c else if x = c then fnext (m hs) else fnext (m x))"
  by (simp add: link_free_block_at_start_def Let_def)

lemma link_fprev_other:
  "x \<noteq> c \<Longrightarrow> hs \<noteq> c \<Longrightarrow> x \<noteq> fnext (m hs) \<Longrightarrow>
     fprev (link_free_block_at_start hs m c x) = fprev (m x)"
  by (simp add: link_free_block_at_start_def Let_def)

end
