(* ===== verification/Sma_Chain.thy ===== *)
theory Sma_Chain imports Sma_Blocks begin

text \<open>
  The structural invariant of the segment, at the level of block headers. \<open>chain\<close> says that
  blocks tile an interval with correct boundary tags; \<open>heap_inv\<close> adds the free list and the
  two zero-sized end blocks; \<open>pend\<close> is the intermediate shape in which one block has been
  taken out of the free list and is about to be handed out, merged or put back. The lemmas
  \<open>pend_*\<close> are the building blocks from which \<open>sma_allocate\<close>, \<open>sma_deallocate\<close> and
  \<open>apc_sma_defrag\<close> are put together.
\<close>

subsection \<open>Chains of adjacent blocks\<close>

text \<open>
  A block is free exactly when its \<open>fnext\<close> is not zero. The boundary tag of the next block is
  the size of a free block and 0 for an allocated one. An allocated block keeps the size that
  was asked for in \<open>fprev\<close>.
\<close>

definition is_free :: "bmem \<Rightarrow> nat \<Rightarrow> bool" where
  "is_free m b \<longleftrightarrow> fnext (m b) \<noteq> 0"

definition tag :: "bmem \<Rightarrow> nat \<Rightarrow> nat" where
  "tag m b = (if is_free m b then bsize (m b) else 0)"

definition block_ok :: "bmem \<Rightarrow> nat \<Rightarrow> bool" where
  "block_ok m b \<longleftrightarrow> 8 dvd bsize (m b) \<and> BHDR \<le> bsize (m b) \<and>
     (if is_free m b then prev_size (m b) = 0
      else 8 dvd fprev (m b) \<and> BHDR \<le> fprev (m b) \<and> fprev (m b) \<le> bsize (m b))"

fun chain :: "bmem \<Rightarrow> nat \<Rightarrow> nat list \<Rightarrow> nat \<Rightarrow> bool" where
  "chain m a [] e \<longleftrightarrow> a = e"
| "chain m a (b # bs) e \<longleftrightarrow> b = a \<and> block_ok m b \<and> prev_size (m (b + bsize (m b))) = tag m b \<and>
     chain m (b + bsize (m b)) bs e"

lemma chain_append: "chain m a (xs @ ys) e \<longleftrightarrow> (\<exists>c. chain m a xs c \<and> chain m c ys e)"
  by (induction xs arbitrary: a) auto

lemma chain_mid:
  "chain m a (xs @ b # ys) e \<longleftrightarrow> chain m a xs b \<and> block_ok m b \<and>
     prev_size (m (b + bsize (m b))) = tag m b \<and> chain m (b + bsize (m b)) ys e"
  by (auto simp: chain_append)

lemma chain_le: "chain m a bs e \<Longrightarrow> a \<le> e"
  by (induction bs arbitrary: a) (fastforce simp: block_ok_def)+

lemma chain_mem:
  assumes "chain m a bs e" and "b \<in> set bs"
  shows "a \<le> b" and "b + bsize (m b) \<le> e" and "block_ok m b"
    and "prev_size (m (b + bsize (m b))) = tag m b" and "b + bsize (m b) \<in> set (bs @ [e])"
proof -
  from assms(2) obtain xs ys where bs: "bs = xs @ b # ys" by (meson split_list)
  with assms(1) have c: "chain m a xs b" "block_ok m b" "chain m (b + bsize (m b)) ys e"
    "prev_size (m (b + bsize (m b))) = tag m b"
    by (simp_all add: chain_mid)
  show "a \<le> b" using c(1) by (rule chain_le)
  show "b + bsize (m b) \<le> e" using c(3) by (rule chain_le)
  show "block_ok m b" by fact
  show "prev_size (m (b + bsize (m b))) = tag m b" by fact
  show "b + bsize (m b) \<in> set (bs @ [e])"
    using c(3) bs by (cases ys) auto
qed

lemma chain_lt_end: "chain m a bs e \<Longrightarrow> b \<in> set bs \<Longrightarrow> b < e"
  using chain_mem(2,3) [of m a bs e b] by (auto simp: block_ok_def)

lemma chain_above: "chain m a bs e \<Longrightarrow> b \<in> set bs \<Longrightarrow> a \<le> b"
  by (rule chain_mem(1))

lemma chain_hd: "chain m a bs e \<Longrightarrow> bs \<noteq> [] \<Longrightarrow> hd bs = a"
  by (cases bs) auto

lemma chain_distinct: "chain m a bs e \<Longrightarrow> distinct bs"
proof (induction bs arbitrary: a)
  case (Cons b bs)
  then have "chain m (b + bsize (m b)) bs e" "block_ok m b" by auto
  then have "b \<notin> set bs" by (fastforce simp: block_ok_def dest: chain_mem(1))
  with Cons show ?case by auto
qed simp

text \<open>Two different blocks of a chain do not overlap.\<close>

lemma chain_disjoint:
  assumes "chain m a bs e" and "b \<in> set bs" and "c \<in> set bs" and "b < c"
  shows "b + bsize (m b) \<le> c"
proof -
  from assms(2) obtain xs ys where bs: "bs = xs @ b # ys" by (meson split_list)
  with assms(1) have ch: "chain m a xs b" "chain m (b + bsize (m b)) ys e"
    by (simp_all add: chain_mid)
  from assms(3,4) bs have "c \<in> set xs \<or> c \<in> set ys" by auto
  then show ?thesis
  proof
    assume "c \<in> set xs"
    then have "c < b" using ch(1) by (rule chain_lt_end [rotated])
    with assms(4) show ?thesis by simp
  next
    assume "c \<in> set ys"
    with ch(2) show ?thesis by (rule chain_mem(1))
  qed
qed

lemma chain_cong:
  assumes "\<And>x. x \<in> set bs \<Longrightarrow> bsize (m' x) = bsize (m x) \<and> is_free m' x = is_free m x \<and>
             (\<not> is_free m x \<longrightarrow> fprev (m' x) = fprev (m x))"
    and "\<And>x. x \<in> set bs \<Longrightarrow> is_free m x \<Longrightarrow> prev_size (m' x) = prev_size (m x)"
    and "\<And>x. x \<in> set bs \<Longrightarrow> prev_size (m' (x + bsize (m x))) = prev_size (m (x + bsize (m x)))"
  shows "chain m' a bs e = chain m a bs e"
  using assms by (induction bs arbitrary: a) (auto simp: block_ok_def tag_def)

text \<open>Changing a header outside a chain, or a boundary tag at its start.\<close>

lemma chain_same_tags:
  assumes "chain m a bs e"
    and "\<And>x. x \<in> set bs \<Longrightarrow> bsize (m' x) = bsize (m x) \<and> is_free m' x = is_free m x \<and>
             (\<not> is_free m x \<longrightarrow> fprev (m' x) = fprev (m x))"
    and "\<And>x. x \<in> set (bs @ [e]) \<Longrightarrow> x \<noteq> a \<Longrightarrow> prev_size (m' x) = prev_size (m x)"
    and "bs \<noteq> [] \<Longrightarrow> is_free m a \<Longrightarrow> prev_size (m' a) = 0"
  shows "chain m' a bs e"
  using assms
proof (cases bs)
  case (Cons b bs')
  with assms(1) have b: "b = a" "block_ok m a" "prev_size (m (a + bsize (m a))) = tag m a"
    and ch: "chain m (a + bsize (m a)) bs' e" by auto
  have eq: "bsize (m' a) = bsize (m a)" "is_free m' a = is_free m a"
    "\<not> is_free m a \<longrightarrow> fprev (m' a) = fprev (m a)"
    using assms(2) [of a] Cons b by auto
  have gt: "x \<noteq> a" if "a + bsize (m a) \<le> x" for x
    using that b(2) by (auto simp: block_ok_def)
  have "chain m' (a + bsize (m a)) bs' e = chain m (a + bsize (m a)) bs' e"
  proof (rule chain_cong)
    fix x assume x: "x \<in> set bs'"
    have ge: "a + bsize (m a) \<le> x" using ch x by (rule chain_mem(1))
    show "bsize (m' x) = bsize (m x) \<and> is_free m' x = is_free m x \<and>
          (\<not> is_free m x \<longrightarrow> fprev (m' x) = fprev (m x))"
      using assms(2) [of x] x Cons by simp
    show "prev_size (m' x) = prev_size (m x)"
      using assms(3) [of x] x Cons gt ge by simp
    have "x + bsize (m x) \<in> set (bs' @ [e])" using ch x by (rule chain_mem(5))
    then show "prev_size (m' (x + bsize (m x))) = prev_size (m (x + bsize (m x)))"
      using assms(3) [of "x + bsize (m x)"] Cons gt ge by simp
  qed
  moreover have "a + bsize (m a) \<in> set (bs' @ [e])" using ch by (cases bs') auto
  then have "prev_size (m' (a + bsize (m a))) = prev_size (m (a + bsize (m a)))"
    using assms(3) [of "a + bsize (m a)"] Cons gt [of "a + bsize (m a)"] by auto
  ultimately show ?thesis
    using Cons b eq ch assms(4) by (simp add: block_ok_def tag_def)
qed simp


subsection \<open>The invariant of the segment\<close>

text \<open>
  \<open>hs\<close> is the offset of the first zero-sized block, \<open>e\<close> that of the last one, \<open>bs\<close> the blocks
  between them by position and \<open>fs\<close> the free blocks in the order of the free list.
\<close>

abbreviation first_block :: "nat \<Rightarrow> nat" where
  "first_block hs \<equiv> hs + BHDR"

abbreviation SEG_MAX :: nat where
  "SEG_MAX \<equiv> 9223372036854775808"

definition frame_ok :: "bmem \<Rightarrow> nat \<Rightarrow> nat \<Rightarrow> bool" where
  "frame_ok m hs e \<longleftrightarrow> 0 < hs \<and> 8 dvd hs \<and> e + BHDR < SEG_MAX \<and>
     \<not> is_free m e \<and> bsize (m e) = 0 \<and> bsize (m hs) = 0 \<and> prev_size (m (first_block hs)) = 0"

definition heap_inv :: "bmem \<Rightarrow> nat \<Rightarrow> nat \<Rightarrow> nat list \<Rightarrow> nat list \<Rightarrow> bool" where
  "heap_inv m hs e bs fs \<longleftrightarrow> frame_ok m hs e \<and> chain m (first_block hs) bs e \<and>
     dll m hs fs e \<and> distinct fs \<and> set fs = {b \<in> set bs. is_free m b}"

text \<open>The block \<open>c\<close> lies between the chains \<open>xs\<close> and \<open>ys\<close> and belongs to neither the free
  list nor the allocated blocks; its predecessor is not free.\<close>

definition pend ::
  "bmem \<Rightarrow> nat \<Rightarrow> nat \<Rightarrow> nat list \<Rightarrow> nat \<Rightarrow> nat list \<Rightarrow> nat list \<Rightarrow> bool" where
  "pend m hs e xs c ys fs \<longleftrightarrow> frame_ok m hs e \<and> chain m (first_block hs) xs c \<and>
     prev_size (m c) = 0 \<and> 8 dvd bsize (m c) \<and> BHDR \<le> bsize (m c) \<and>
     chain m (c + bsize (m c)) ys e \<and> dll m hs fs e \<and> distinct fs \<and>
     set fs = {b \<in> set xs \<union> set ys. is_free m b}"

lemma heap_inv_mem:
  assumes "heap_inv m hs e bs fs" and "b \<in> set bs"
  shows "first_block hs \<le> b" "b + bsize (m b) \<le> e" "BHDR \<le> bsize (m b)" "b < e" "0 < b"
    "b \<noteq> hs" "b \<noteq> e" "8 dvd bsize (m b)" "e < SEG_MAX"
  using assms chain_mem [of m "first_block hs" bs e b]
  by (auto simp: heap_inv_def block_ok_def frame_ok_def)

lemma heap_inv_fs: "heap_inv m hs e bs fs \<Longrightarrow> f \<in> set fs \<Longrightarrow> f \<in> set bs \<and> is_free m f"
  by (auto simp: heap_inv_def)

lemma heap_inv_distinct:
  assumes "heap_inv m hs e bs fs"
  shows "distinct (hs # fs @ [e])"
  using assms heap_inv_mem(6,7) [OF assms] chain_le [of m "first_block hs" bs e]
  by (fastforce simp: heap_inv_def)

lemma pend_bounds:
  assumes "pend m hs e xs c ys fs"
  shows "first_block hs \<le> c" "c + bsize (m c) \<le> e" "0 < bsize (m c)" "e < SEG_MAX" "0 < c"
    "\<And>b. b \<in> set xs \<Longrightarrow> first_block hs \<le> b \<and> b + bsize (m b) \<le> c \<and> 0 < bsize (m b)"
    "\<And>b. b \<in> set ys \<Longrightarrow> c + bsize (m c) \<le> b \<and> b + bsize (m b) \<le> e \<and> 0 < bsize (m b)"
proof -
  from assms have ch: "chain m (first_block hs) xs c" "chain m (c + bsize (m c)) ys e"
    by (simp_all add: pend_def)
  show "first_block hs \<le> c" using ch(1) by (rule chain_le)
  show "c + bsize (m c) \<le> e" using ch(2) by (rule chain_le)
  show "0 < bsize (m c)" "e < SEG_MAX" using assms by (auto simp: pend_def frame_ok_def)
  show "0 < c" using chain_le [OF ch(1)] assms by (simp add: pend_def frame_ok_def)
  fix b
  show "first_block hs \<le> b \<and> b + bsize (m b) \<le> c \<and> 0 < bsize (m b)" if "b \<in> set xs"
    using chain_mem [OF ch(1) that] by (auto simp: block_ok_def)
  show "c + bsize (m c) \<le> b \<and> b + bsize (m b) \<le> e \<and> 0 < bsize (m b)" if "b \<in> set ys"
    using chain_mem [OF ch(2) that] by (auto simp: block_ok_def)
qed

text \<open>Neither end block is one of the blocks, and no block occurs twice.\<close>

lemma pend_distinct:
  assumes "pend m hs e xs c ys fs"
  shows "distinct (hs # fs @ [e])" "c \<notin> set (hs # fs @ [e])" "distinct (xs @ c # ys)"
proof -
  from assms have fs: "set fs \<subseteq> set xs \<union> set ys" "distinct fs" by (auto simp: pend_def)
  have b: "x \<noteq> hs \<and> x \<noteq> e \<and> x \<noteq> c" if "x \<in> set xs \<union> set ys" for x
    using that pend_bounds [OF assms] by fastforce
  show "distinct (hs # fs @ [e])" using b fs pend_bounds(1,2) [OF assms] by auto
  show "c \<notin> set (hs # fs @ [e])" using b fs pend_bounds(1-3) [OF assms] by auto
  have "distinct xs" "distinct ys" using assms by (auto simp: pend_def dest: chain_distinct)
  then show "distinct (xs @ c # ys)" using pend_bounds [OF assms] by fastforce
qed

subsection \<open>Taking a block out\<close>

text \<open>Removing \<open>c\<close> from the free list changes neither sizes nor tags nor which other blocks are
  free, nor what an allocated block keeps in \<open>fprev\<close>.\<close>

lemma unlink_keeps:
  assumes "dll m hs (xs @ c # ys) e" and "distinct (hs # xs @ c # ys @ [e])"
    and "0 < e" and "0 \<notin> set ys" and "\<And>f. f \<in> set (xs @ c # ys) \<Longrightarrow> is_free m f"
  shows "x \<noteq> hs \<Longrightarrow> is_free (unlink_free_block m c) x = is_free m x"
    and "\<not> is_free m x \<Longrightarrow> x \<noteq> e \<Longrightarrow> fprev (unlink_free_block m c x) = fprev (m x)"
proof -
  from assms(1) have d: "dll m hs xs c" "dll m c ys e" by (simp_all add: dll_append)
  have p: "fprev (m c) \<in> set (hs # xs)"
    using dll_fprev_end [OF d(1)] last_in_set [of hs xs] by simp
  have n: "fnext (m c) \<in> set (ys @ [e])"
    using dll_fnext_start [OF d(2)] hd_in_set_snoc [of ys e] by simp
  then have "fnext (m c) \<noteq> 0"
    using assms(3,4) by (cases "fnext (m c) = 0") auto
  with p show "x \<noteq> hs \<Longrightarrow> is_free (unlink_free_block m c) x = is_free m x"
    using assms(5) by (auto simp: is_free_def unlink_fnext)
  show "\<not> is_free m x \<Longrightarrow> x \<noteq> e \<Longrightarrow> fprev (unlink_free_block m c x) = fprev (m x)"
    by (rule unlink_fprev_other) (use p n assms(2,5) in auto)
qed

lemma unlink_keeps_chain:
  assumes "dll m hs (xs @ c # ys) e" and "distinct (hs # xs @ c # ys @ [e])"
    and "0 < e" and "0 \<notin> set ys" and "\<And>f. f \<in> set (xs @ c # ys) \<Longrightarrow> is_free m f"
    and "hs \<notin> set zs" and "e \<notin> set zs"
  shows "chain (unlink_free_block m c) a zs z = chain m a zs z"
proof (rule chain_cong)
  fix x assume "x \<in> set zs"
  with assms(6,7) have x: "x \<noteq> hs" "x \<noteq> e" by auto
  show "bsize (unlink_free_block m c x) = bsize (m x) \<and>
        is_free (unlink_free_block m c) x = is_free m x \<and>
        (\<not> is_free m x \<longrightarrow> fprev (unlink_free_block m c x) = fprev (m x))"
    using unlink_keeps [OF assms(1-5)] x by simp
qed simp_all

lemma unlink_keeps_frame:
  assumes "dll m hs (xs @ c # ys) e" and "distinct (hs # xs @ c # ys @ [e])"
    and "0 < e" and "0 \<notin> set ys" and "\<And>f. f \<in> set (xs @ c # ys) \<Longrightarrow> is_free m f"
  shows "frame_ok (unlink_free_block m c) hs e = frame_ok m hs e"
proof -
  have "e \<noteq> hs" using assms(2) by auto
  with unlink_keeps(1) [OF assms] show ?thesis by (simp add: frame_ok_def)
qed

lemma heap_inv_zero: "heap_inv m hs e bs fs \<Longrightarrow> 0 \<notin> set bs"
  using heap_inv_mem(5) [of m hs e bs fs 0] by auto

text \<open>Unlinking a free block.\<close>

lemma pend_unlink:
  assumes inv: "heap_inv m hs e (xs @ c # ys) (fxs @ c # fys)"
  shows "pend (unlink_free_block m c) hs e xs c ys (fxs @ fys)"
proof -
  let ?m = "unlink_free_block m c" and ?bs = "xs @ c # ys" and ?fs = "fxs @ c # fys"
  have d: "dll m hs ?fs e" and dist: "distinct (hs # fxs @ c # fys @ [e])"
    and fs: "set ?fs = {b \<in> set ?bs. is_free m b}" and ch: "chain m (first_block hs) ?bs e"
    and fr: "frame_ok m hs e"
    using inv heap_inv_distinct [OF inv] by (auto simp: heap_inv_def)
  have e0: "0 < e" using heap_inv_mem(4) [OF inv, of c] by simp
  have z: "0 \<notin> set fys" using heap_inv_zero [OF inv] fs by auto
  have ff: "\<And>f. f \<in> set ?fs \<Longrightarrow> is_free m f" using fs by auto
  note keeps = unlink_keeps [OF d dist e0 z ff]
  have ne: "x \<noteq> hs \<and> x \<noteq> e" if "x \<in> set ?bs" for x
    using heap_inv_mem(6,7) [OF inv that] by simp
  have cong: "chain ?m a zs z = chain m a zs z" if "set zs \<subseteq> set ?bs" for a zs z
    by (rule unlink_keeps_chain [OF d dist e0 z ff]) (use that ne in auto)
  have c: "chain m (first_block hs) xs c" "block_ok m c" "chain m (c + bsize (m c)) ys e"
    using ch by (simp_all add: chain_mid)
  have cf: "is_free m c" using fs by auto
  have dxy: "c \<notin> set xs \<union> set ys"
    using chain_distinct [OF ch] by auto
  have "set (fxs @ fys) = set ?fs - {c}" using dist by auto
  also have "\<dots> = {b \<in> set xs \<union> set ys. is_free m b}" using fs dxy by auto
  also have "\<dots> = {b \<in> set xs \<union> set ys. is_free ?m b}" using keeps(1) ne by auto
  finally have set: "set (fxs @ fys) = {b \<in> set xs \<union> set ys. is_free ?m b}" .
  have "frame_ok ?m hs e" using fr unlink_keeps_frame [OF d dist e0 z ff] by simp
  moreover have "dll ?m hs (fxs @ fys) e"
    by (rule dll_unlink [OF d]) (use dist in auto)
  ultimately show ?thesis
    using c cf dist set cong by (auto simp: pend_def block_ok_def)
qed

text \<open>An allocated block behind an allocated one.\<close>

lemma pend_alloc:
  assumes "heap_inv m hs e (xs @ c # ys) fs" and "\<not> is_free m c" and "prev_size (m c) = 0"
  shows "pend m hs e xs c ys fs"
  using assms by (auto simp: heap_inv_def pend_def chain_mid block_ok_def)

text \<open>A non-zero boundary tag finds the free predecessor.\<close>

lemma chain_pred:
  assumes "chain m a xs c" and "prev_size (m c) \<noteq> 0" and "xs = [] \<Longrightarrow> prev_size (m a) = 0"
  obtains xs' p where "xs = xs' @ [p]" "is_free m p" "bsize (m p) = prev_size (m c)"
    "c = p + bsize (m p)"
proof (cases xs rule: rev_cases)
  case Nil
  with assms show ?thesis by auto
next
  case (snoc xs' p)
  with assms(1) have "prev_size (m c) = tag m p" "c = p + bsize (m p)"
    by (auto simp: chain_append)
  with assms(2) snoc that show ?thesis by (auto simp: tag_def split: if_splits)
qed

subsection \<open>Merging the pending block with its neighbours\<close>

text \<open>Changing the size of the pending block touches nothing else.\<close>

lemma pend_resize:
  assumes "frame_ok m hs e" and "chain m (first_block hs) xs c" and "prev_size (m c) = 0"
    and "8 dvd v" and "BHDR \<le> v" and "chain m (c + v) ys e" and "dll m hs fs e" and "distinct fs"
    and "set fs = {b \<in> set xs \<union> set ys. is_free m b}"
  shows "pend (set_size m c v) hs e xs c ys fs"
proof -
  let ?m = "set_size m c v"
  have lt: "x < c" if "x \<in> set xs" for x using chain_lt_end [OF assms(2) that] .
  have gt: "c < x" if "x \<in> set ys" for x using chain_above [OF assms(6) that] assms(5) by simp
  have "chain ?m (first_block hs) xs c = chain m (first_block hs) xs c"
    by (rule chain_cong) (use lt in \<open>auto simp: is_free_def\<close>)
  moreover have "chain ?m (c + v) ys e = chain m (c + v) ys e"
    by (rule chain_cong) (use gt in \<open>auto simp: is_free_def\<close>)
  moreover have "dll ?m hs fs e = dll m hs fs e" by (rule dll_cong) auto
  moreover have "c \<noteq> e" "c \<noteq> hs"
    using chain_le [OF assms(2)] chain_le [OF assms(6)] assms(5) by auto
  ultimately show ?thesis
    using assms by (auto simp: pend_def frame_ok_def is_free_def)
qed

text \<open>The freed block joins a free predecessor (already unlinked).\<close>

lemma pend_absorb_alloc:
  assumes p: "pend m hs e xs c (n # ys) fs" and "\<not> is_free m n"
  shows "pend (set_size m c (bsize (m c) + bsize (m n))) hs e xs c ys fs"
proof (rule pend_resize)
  have n: "n = c + bsize (m c)" "block_ok m n" "chain m (n + bsize (m n)) ys e"
    using p by (auto simp: pend_def)
  show "chain m (c + (bsize (m c) + bsize (m n))) ys e"
    using n by (simp add: add.assoc)
  show "8 dvd bsize (m c) + bsize (m n)" "BHDR \<le> bsize (m c) + bsize (m n)"
    using p n by (auto simp: pend_def block_ok_def)
  show "set fs = {b \<in> set xs \<union> set ys. is_free m b}"
    using p assms(2) by (auto simp: pend_def)
qed (use p in \<open>auto simp: pend_def\<close>)

text \<open>The pending block takes in a free successor.\<close>

lemma pend_absorb_free:
  assumes p: "pend m hs e xs c (n # ys) (fxs @ n # fys)"
  shows "pend (set_size (unlink_free_block m n) c (bsize (m c) + bsize (m n))) hs e xs c ys (fxs @ fys)"
proof (rule pend_resize)
  let ?m = "unlink_free_block m n" and ?fs = "fxs @ n # fys"
  have d: "dll m hs ?fs e" and dist: "distinct (hs # fxs @ n # fys @ [e])"
    and fs: "set ?fs = {b \<in> set xs \<union> set (n # ys). is_free m b}"
    using p pend_distinct(1) [OF p] by (auto simp: pend_def)
  have e0: "0 < e" using pend_bounds [OF p] by simp
  have z: "0 \<notin> set fys" using fs pend_bounds(5-7) [OF p] by fastforce
  have ff: "\<And>f. f \<in> set ?fs \<Longrightarrow> is_free m f" using fs by auto
  note keeps = unlink_keeps [OF d dist e0 z ff]
  have ne: "x \<noteq> hs \<and> x \<noteq> e" if "x \<in> set xs \<union> set (n # ys)" for x
    using that pend_bounds [OF p] by fastforce
  have cong: "chain ?m a zs z = chain m a zs z" if "set zs \<subseteq> set xs \<union> set (n # ys)" for a zs z
    by (rule unlink_keeps_chain [OF d dist e0 z ff]) (use that ne in auto)
  have n: "n = c + bsize (m c)" "block_ok m n" "chain m (n + bsize (m n)) ys e"
    using p by (auto simp: pend_def)
  show "frame_ok ?m hs e"
    using p unlink_keeps_frame [OF d dist e0 z ff] by (simp add: pend_def)
  have "chain ?m (first_block hs) xs c = chain m (first_block hs) xs c" by (rule cong) auto
  then show "chain ?m (first_block hs) xs c" using p by (simp add: pend_def)
  show "prev_size (?m c) = 0" using p by (simp add: pend_def)
  have "chain ?m (n + bsize (m n)) ys e = chain m (n + bsize (m n)) ys e" by (rule cong) auto
  with n show "chain ?m (c + (bsize (m c) + bsize (m n))) ys e"
    by (simp add: add.assoc)
  show "8 dvd bsize (m c) + bsize (m n)" "BHDR \<le> bsize (m c) + bsize (m n)"
    using p n by (auto simp: pend_def block_ok_def)
  show "dll ?m hs (fxs @ fys) e" by (rule dll_unlink [OF d]) (use dist in auto)
  show "distinct (fxs @ fys)" using dist by auto
  have nn: "n \<notin> set xs" "n \<notin> set ys" using pend_distinct(3) [OF p] by simp_all
  have "set (fxs @ fys) = set ?fs - {n}" using dist by auto
  also have "\<dots> = {b \<in> set xs \<union> set (n # ys). is_free m b} - {n}" by (simp only: fs)
  also have "\<dots> = {b \<in> set xs \<union> set ys. is_free m b}" using nn by auto
  finally have "set (fxs @ fys) = {b \<in> set xs \<union> set ys. is_free m b}" .
  moreover have "is_free ?m b = is_free m b" if "b \<in> set xs \<union> set ys" for b
    using ne [of b] that by (intro keeps(1)) auto
  ultimately show "set (fxs @ fys) = {b \<in> set xs \<union> set ys. is_free ?m b}" by blast
qed


subsection \<open>Putting the pending block back\<close>

lemma bmem_eqI:
  assumes "\<And>x. bsize (m x) = bsize (m' x)" "\<And>x. prev_size (m x) = prev_size (m' x)"
    "\<And>x. fnext (m x) = fnext (m' x)" "\<And>x. fprev (m x) = fprev (m' x)"
  shows "m = (m' :: bmem)"
  using assms by (intro ext block_t.equality) auto

lemma link_keeps:
  assumes "dll m hs fs e" and "0 < e" and "0 \<notin> set fs" and "c \<noteq> hs"
  shows "x \<noteq> hs \<Longrightarrow> x \<noteq> c \<Longrightarrow> is_free (link_free_block_at_start hs m c) x = is_free m x"
    and "is_free (link_free_block_at_start hs m c) c"
    and "x \<notin> set fs \<Longrightarrow> x \<noteq> e \<Longrightarrow> x \<noteq> c \<Longrightarrow>
           fprev (link_free_block_at_start hs m c x) = fprev (m x)"
proof -
  have n: "fnext (m hs) \<in> set (fs @ [e])"
    using dll_fnext_start [OF assms(1)] hd_in_set_snoc [of fs e] by simp
  show "x \<noteq> hs \<Longrightarrow> x \<noteq> c \<Longrightarrow> is_free (link_free_block_at_start hs m c) x = is_free m x"
    by (simp add: is_free_def link_fnext)
  from n have "fnext (m hs) \<noteq> 0" using assms(2,3) by (cases "fnext (m hs) = 0") auto
  then show "is_free (link_free_block_at_start hs m c) c"
    using assms(4) by (simp add: is_free_def link_fnext)
  show "x \<notin> set fs \<Longrightarrow> x \<noteq> e \<Longrightarrow> x \<noteq> c \<Longrightarrow>
          fprev (link_free_block_at_start hs m c x) = fprev (m x)"
    by (rule link_fprev_other) (use n assms(4) in auto)
qed

lemma pend_zero: "pend m hs e xs c ys fs \<Longrightarrow> 0 \<notin> set xs \<union> set ys"
  using pend_bounds(5-7) [of m hs e xs c ys fs] by fastforce

text \<open>The boundary tag behind the pending block may be set to 0 at any time, and to the size of
  the block if what follows is not free.\<close>

lemma pend_tag:
  assumes p: "pend m hs e xs c ys fs"
    and v: "is_free m (c + bsize (m c)) \<Longrightarrow> v = 0"
  shows "pend (set_prev_size m (c + bsize (m c)) v) hs e xs c ys fs"
proof -
  let ?n = "c + bsize (m c)" and ?m = "set_prev_size m (c + bsize (m c)) v"
  have b: "0 < bsize (m c)" "first_block hs \<le> c" using pend_bounds [OF p] by auto
  have st: "is_free ?m x = is_free m x" for x by (simp add: is_free_def)
  have "chain ?m (first_block hs) xs c = chain m (first_block hs) xs c"
  proof (rule chain_cong)
    fix x assume "x \<in> set xs"
    then have "x + bsize (m x) \<le> c" "x < c"
      using pend_bounds(6) [OF p] by force+
    with b show "prev_size (?m x) = prev_size (m x)"
      "prev_size (?m (x + bsize (m x))) = prev_size (m (x + bsize (m x)))" by auto
  qed (simp_all add: st)
  moreover have "chain ?m ?n ys e"
    by (rule chain_same_tags [where m = m]) (use p v in \<open>auto simp: st pend_def\<close>)
  moreover have "dll ?m hs fs e = dll m hs fs e" by (rule dll_cong) auto
  ultimately show ?thesis
    using p b by (auto simp: pend_def frame_ok_def st)
qed

text \<open>Giving the pending block back to the free list.\<close>

lemma pend_release:
  assumes p: "pend m hs e xs c ys fs" and nf: "\<not> is_free m (c + bsize (m c))"
  shows "heap_inv (link_free_block_at_start hs (set_prev_size m (c + bsize (m c)) (bsize (m c))) c)
           hs e (xs @ c # ys) (c # fs)"
proof -
  let ?m = "set_prev_size m (c + bsize (m c)) (bsize (m c))"
  let ?l = "link_free_block_at_start hs ?m c"
  have q: "pend ?m hs e xs c ys fs" using nf by (intro pend_tag [OF p]) simp
  have dist: "distinct (hs # fs @ [e])" "c \<notin> set (hs # fs @ [e])" "c \<notin> set xs \<union> set ys"
    using pend_distinct [OF q] by auto
  have d: "dll ?m hs fs e" and fs: "set fs = {b \<in> set xs \<union> set ys. is_free ?m b}"
    using q by (auto simp: pend_def)
  have z: "0 < e" "0 \<notin> set fs" "c \<noteq> hs"
    using pend_bounds(3,5) [OF q] pend_bounds(2) [OF q] pend_zero [OF q] fs dist by auto
  note keeps = link_keeps [OF d z]
  have ne: "x \<noteq> hs \<and> x \<noteq> e \<and> x \<noteq> c" if "x \<in> set xs \<union> set ys" for x
    using that pend_bounds [OF q] by fastforce
  have cong: "chain ?l a zs z = chain ?m a zs z" if "set zs \<subseteq> set xs \<union> set ys" for a zs z
  proof (rule chain_cong)
    fix x assume "x \<in> set zs"
    with that have x: "x \<in> set xs \<union> set ys" by auto
    with ne fs show "bsize (?l x) = bsize (?m x) \<and> is_free ?l x = is_free ?m x \<and>
        (\<not> is_free ?m x \<longrightarrow> fprev (?l x) = fprev (?m x))"
      using keeps(1,3) [of x] by auto
  qed simp_all
  have "block_ok ?l c \<and> prev_size (?l (c + bsize (?l c))) = tag ?l c"
    using q keeps(2) by (auto simp: block_ok_def pend_def tag_def)
  then have "chain ?l (first_block hs) (xs @ c # ys) e"
    using q cong by (auto simp: chain_mid pend_def)
  moreover have "dll ?l hs (c # fs) e" by (rule dll_link [OF d dist(1,2)])
  moreover have "set (c # fs) = {b \<in> set (xs @ c # ys). is_free ?l b}"
  proof -
    have "{b \<in> set (xs @ c # ys). is_free ?l b} = insert c {b \<in> set xs \<union> set ys. is_free ?l b}"
      using keeps(2) by auto
    also have "{b \<in> set xs \<union> set ys. is_free ?l b} = {b \<in> set xs \<union> set ys. is_free ?m b}"
      using keeps(1) ne by blast
    finally show ?thesis using fs by simp
  qed
  moreover have "is_free ?l e = is_free ?m e"
    using dist by (intro keeps(1)) auto
  then have "frame_ok ?l hs e" using q by (auto simp: pend_def frame_ok_def)
  ultimately show ?thesis using dist q by (auto simp: heap_inv_def pend_def)
qed

text \<open>Handing the pending block out as a whole.\<close>

lemma pend_hand_out:
  assumes p: "pend m hs e xs c ys fs" and t: "prev_size (m (c + bsize (m c))) = 0"
    and r: "8 dvd r" "BHDR \<le> r" "r \<le> bsize (m c)"
  shows "heap_inv (set_fprev (set_fnext m c 0) c r) hs e (xs @ c # ys) fs"
proof -
  let ?m = "set_fprev (set_fnext m c 0) c r"
  have dist: "distinct (hs # fs @ [e])" "c \<notin> set (hs # fs @ [e])" "c \<notin> set xs \<union> set ys"
    using pend_distinct [OF p] by auto
  have st: "is_free ?m x = (x \<noteq> c \<and> is_free m x)" for x by (simp add: is_free_def)
  have cong: "chain ?m a zs z = chain m a zs z" if "set zs \<subseteq> set xs \<union> set ys" for a zs z
    by (rule chain_cong) (use that dist st in auto)
  have "block_ok ?m c \<and> prev_size (?m (c + bsize (?m c))) = tag ?m c"
    using p r t by (auto simp: block_ok_def pend_def tag_def st)
  then have "chain ?m (first_block hs) (xs @ c # ys) e"
    using p cong by (auto simp: chain_mid pend_def)
  moreover have "dll ?m hs fs e = dll m hs fs e" by (rule dll_cong) (use dist in auto)
  moreover have "{b \<in> set (xs @ c # ys). is_free ?m b} = {b \<in> set xs \<union> set ys. is_free m b}"
    using dist st by auto
  moreover have "frame_ok ?m hs e" using p dist by (auto simp: pend_def frame_ok_def st)
  ultimately show ?thesis using p by (auto simp: heap_inv_def pend_def)
qed

text \<open>Splitting the pending block: the front is handed out, the rest is the new pending block.\<close>

lemma pend_split:
  assumes p: "pend m hs e xs c ys fs"
    and r: "8 dvd r" "BHDR \<le> r" "r + BHDR \<le> bsize (m c)"
  defines "n \<equiv> c + r"
  defines "m3 \<equiv> set_size (set_prev_size (set_size m c r) n 0) n (bsize (m c) - r)"
  shows "pend (set_fprev (set_fnext m3 c 0) c r) hs e (xs @ [c]) n ys fs"
proof -
  let ?m = "set_fprev (set_fnext m3 c 0) c r" and ?old = "bsize (m c)"
  have b: "first_block hs \<le> c" "c + ?old \<le> e" using pend_bounds [OF p] by auto
  have dist: "distinct (hs # fs @ [e])" "c \<notin> set (hs # fs @ [e])" "c \<notin> set xs \<union> set ys"
    using pend_distinct [OF p] by auto
  have n: "n \<noteq> c" "n < c + ?old" using r by (auto simp: n_def)
  have out: "x \<noteq> n \<and> x \<noteq> c" if "x \<in> set xs \<union> set ys" for x
    using that pend_bounds [OF p] n by (fastforce simp: n_def)
  have st: "is_free ?m x = (x \<noteq> c \<and> is_free m x)" for x
    by (simp add: is_free_def m3_def)
  have "chain ?m (first_block hs) xs c = chain m (first_block hs) xs c"
  proof (rule chain_cong)
    fix x assume x: "x \<in> set xs"
    then show "bsize (?m x) = bsize (m x) \<and> is_free ?m x = is_free m x \<and>
        (\<not> is_free m x \<longrightarrow> fprev (?m x) = fprev (m x))" "prev_size (?m x) = prev_size (m x)"
      using out [of x] st by (auto simp: m3_def)
    have "x + bsize (m x) \<le> c" using pend_bounds(6) [OF p x] by simp
    then show "prev_size (?m (x + bsize (m x))) = prev_size (m (x + bsize (m x)))"
      using r by (auto simp: m3_def n_def)
  qed
  then have cx: "chain ?m (first_block hs) xs c" using p by (simp add: pend_def)
  have "chain ?m (c + ?old) ys e = chain m (c + ?old) ys e"
  proof (rule chain_cong)
    fix x assume x: "x \<in> set ys"
    then show "bsize (?m x) = bsize (m x) \<and> is_free ?m x = is_free m x \<and>
        (\<not> is_free m x \<longrightarrow> fprev (?m x) = fprev (m x))" "prev_size (?m x) = prev_size (m x)"
      using out [of x] st by (auto simp: m3_def)
    have "c + ?old \<le> x" using pend_bounds(7) [OF p x] by simp
    then show "prev_size (?m (x + bsize (m x))) = prev_size (m (x + bsize (m x)))"
      using n by (auto simp: m3_def)
  qed
  then have cy: "chain ?m (c + ?old) ys e" using p by (simp add: pend_def)
  have sz: "bsize (?m c) = r" "bsize (?m n) = ?old - r" "n + bsize (?m n) = c + ?old"
    using n r by (simp_all add: m3_def n_def)
  have c: "block_ok ?m c \<and> prev_size (?m (c + bsize (?m c))) = tag ?m c"
    using n r st [of c] by (simp add: block_ok_def tag_def) (simp add: m3_def n_def)
  have "chain ?m (first_block hs) (xs @ [c]) n"
    unfolding chain_mid using cx c sz(1) by (simp add: n_def)
  moreover have "chain ?m (n + bsize (?m n)) ys e" using cy by (simp only: sz(3))
  moreover have "8 dvd bsize (?m n)" "BHDR \<le> bsize (?m n)" "prev_size (?m n) = 0"
    using p r n unfolding sz(2) by (auto simp: pend_def m3_def intro: dvd_diff_nat)
  moreover have "dll ?m hs fs e = dll m hs fs e"
    by (rule dll_cong) (use dist in \<open>auto simp: m3_def\<close>)
  moreover have "e \<noteq> c" "hs \<noteq> c" "hs \<noteq> n" "e \<noteq> n" using b r n by (auto simp: n_def)
  then have "frame_ok ?m hs e"
    using p by (simp add: pend_def frame_ok_def st) (simp add: m3_def)
  moreover have "{b \<in> set (xs @ [c]) \<union> set ys. is_free ?m b} = {b \<in> set xs \<union> set ys. is_free m b}"
    using dist st by auto
  ultimately show ?thesis
    using p unfolding pend_def by blast
qed

end
