(* ===== verification/Sma.thy ===== *)
theory Sma imports Sma_Chain "HOL-Library.Monad_Syntax" begin

text \<open>
  The shared memory allocator of \<open>apc_sma.c\<close>: its state (the process-local descriptor
  \<open>apc_sma_t\<close> and the shared header \<open>sma_header_t\<close>), initialisation, the best-fit search, and the
  API functions. Every loop over the free list is a \<open>partial_function\<close> whose value \<open>None\<close> means
  that the C loop does not end; the lemmas show that under the invariant it always does.
  A pointer into the segment is modelled by its offset from \<open>shmaddr\<close>.
\<close>

subsection \<open>State\<close>

text \<open>
  \<open>hdr_size\<close> is the constant \<open>ALIGNWORD(sizeof(sma_header_t))\<close>, which depends on the platform's
  mutex type. \<open>blk\<close> views the segment as block headers, \<open>dat\<close> as the objects that callers keep
  in their allocations. \<open>sma_lock_results\<close> lists how the next acquisitions of \<open>sma_lock\<close> turn out
  (the empty list: they succeed). The fields from \<open>abi_version\<close> on exist on Windows only.
\<close>

record 'p sma =
  sma_initialized :: bool
  sma_size :: nat
  sma_max_alloc_size :: nat
  hdr_size :: nat
  sma_locked :: bool
  sma_lock_results :: "bool list"
  min_block_size :: nat
  avail :: nat
  blk :: bmem
  dat :: "nat \<Rightarrow> 'p"
  abi_version :: nat
  cache_header_offset :: nat
  shm_nslots :: nat
  shm_max_alloc_size :: nat
  seg_size :: nat
  shm_serializer_name :: string
  init_complete :: bool

definition MINBLOCKSIZE :: nat where
  "MINBLOCKSIZE = uadd (alignword 1) BHDR"

definition SMA_DEFAULT_SEGSIZE :: nat where
  "SMA_DEFAULT_SEGSIZE = 30 * 1024 * 1024"

text \<open>\<open>SMA_LOCK\<close> and \<open>SMA_UNLOCK\<close>: acquiring a mutex the caller already holds never returns.\<close>

definition sma_lock :: "('p, 'z) sma_scheme \<Rightarrow> (bool \<times> ('p, 'z) sma_scheme) option" where
  "sma_lock s =
     (if sma_locked s then None
      else case sma_lock_results s of
        [] \<Rightarrow> Some (True, s\<lparr>sma_locked := True\<rparr>)
      | True # rs \<Rightarrow> Some (True, s\<lparr>sma_locked := True, sma_lock_results := rs\<rparr>)
      | False # rs \<Rightarrow> Some (False, s\<lparr>sma_lock_results := rs\<rparr>))"

definition sma_unlock :: "('p, 'z) sma_scheme \<Rightarrow> ('p, 'z) sma_scheme" where
  "sma_unlock s = s\<lparr>sma_locked := False\<rparr>"

subsection \<open>Initialisation\<close>

definition sma_init_free_list :: "('p, 'z) sma_scheme \<Rightarrow> ('p, 'z) sma_scheme" where
  "sma_init_free_list s =
     (let first = hdr_size s;
          m = blk s;
          m = set_size m first 0;
          m = set_fnext m first (uadd first BHDR);
          m = set_fprev m first 0;
          m = set_prev_size m first 0;
          empty = fnext (m first);
          m = set_size m empty (avail s);
          m = set_fnext m empty (uadd empty (bsize (m empty)));
          m = set_fprev m empty first;
          m = set_prev_size m empty 0;
          last = fnext (m empty);
          m = set_size m last 0;
          m = set_fnext m last 0;
          m = set_fprev m last empty;
          m = set_prev_size m last (bsize (m empty))
      in s\<lparr>blk := m\<rparr>)"

definition apc_sma_init :: "nat \<Rightarrow> nat \<Rightarrow> ('p, 'z) sma_scheme \<Rightarrow> ('p, 'z) sma_scheme" where
  "apc_sma_init sz0 min_alloc_size s =
     (if sma_initialized s then s
      else
        let sz = alignword (if 0 < sz0 then sz0 else SMA_DEFAULT_SEGSIZE);
            av = usub (usub (usub sz (hdr_size s)) BHDR) BHDR
        in sma_init_free_list (s\<lparr>sma_initialized := True, sma_size := sz, sma_locked := False,
             min_block_size :=
               (if 0 < min_alloc_size then alignword (uadd min_alloc_size BHDR) else MINBLOCKSIZE),
             avail := av, sma_max_alloc_size := usub av BHDR\<rparr>))"

definition apc_sma_detach :: "('p, 'z) sma_scheme \<Rightarrow> ('p, 'z) sma_scheme" where
  "apc_sma_detach s = s\<lparr>sma_initialized := False\<rparr>"

subsection \<open>Searching the free list\<close>

definition BEST_FIT_LIMIT :: nat where
  "BEST_FIT_LIMIT = 3"

partial_function (option) first_fit :: "bmem \<Rightarrow> nat \<Rightarrow> nat \<Rightarrow> nat option option" where
  "first_fit m realsize cur =
     (if fnext (m cur) = 0 then Some None
      else if realsize \<le> bsize (m (fnext (m cur))) then Some (Some (fnext (m cur)))
      else first_fit m realsize (fnext (m cur)))"

fun best_fit :: "nat \<Rightarrow> bmem \<Rightarrow> nat \<Rightarrow> nat \<Rightarrow> nat \<Rightarrow> nat" where
  "best_fit 0 m realsize cur found = found"
| "best_fit (Suc i) m realsize cur found =
     (if fnext (m cur) = 0 then found
      else let cur' = fnext (m cur)
           in best_fit i m realsize cur'
                (if realsize \<le> bsize (m cur') \<and> bsize (m cur') < bsize (m found) then cur' else found))"

definition find_block :: "nat \<Rightarrow> ('p, 'z) sma_scheme \<Rightarrow> nat option option" where
  "find_block realsize s =
     (if avail s < realsize then Some None
      else do {
        found \<leftarrow> first_fit (blk s) realsize (hdr_size s);
        case found of
          None \<Rightarrow> Some None
        | Some cur \<Rightarrow> Some (Some (best_fit BEST_FIT_LIMIT (blk s) realsize cur cur))
      })"

subsection \<open>Allocation and deallocation\<close>

text \<open>Carving \<open>realsize\<close> bytes out of the unlinked block \<open>cur\<close>.\<close>

definition sma_carve :: "nat \<Rightarrow> nat \<Rightarrow> bmem \<Rightarrow> nat \<Rightarrow> nat \<Rightarrow> bmem" where
  "sma_carve hs minb m cur realsize =
     (let m = (if realsize \<le> bsize (m cur) \<and> bsize (m cur) < uadd realsize minb
               then set_prev_size m (next_sblock m cur) 0
               else
                 let oldsize = bsize (m cur);
                     m = set_size m cur realsize;
                     nxt = next_sblock m cur;
                     m = set_prev_size m nxt 0;
                     m = set_size m nxt (usub oldsize realsize);
                     m = set_prev_size m (next_sblock m nxt) (bsize (m nxt))
                 in link_free_block_at_start hs m nxt);
          m = set_fnext m cur 0
      in set_fprev m cur realsize)"

text \<open>\<open>sma_allocate\<close> returns \<open>SIZE_MAX\<close> if there is no suitable block.\<close>

definition sma_allocate :: "nat \<Rightarrow> ('p, 'z) sma_scheme \<Rightarrow> (nat \<times> ('p, 'z) sma_scheme) option" where
  "sma_allocate n s =
     (let realsize = alignword (uadd n BHDR) in
      do {
        found \<leftarrow> find_block realsize s;
        case found of
          None \<Rightarrow> Some (SIZE_MAX, s)
        | Some cur \<Rightarrow>
            let m = sma_carve (hdr_size s) (min_block_size s) (unlink_free_block (blk s) cur) cur realsize
            in Some (uadd cur BHDR, s\<lparr>blk := m, avail := usub (avail s) (bsize (m cur))\<rparr>)
      })"

definition sma_deallocate :: "nat \<Rightarrow> ('p, 'z) sma_scheme \<Rightarrow> nat \<times> ('p, 'z) sma_scheme" where
  "sma_deallocate offset s =
     (let m = blk s;
          cur = usub offset BHDR;
          sz = bsize (m cur);
          av = uadd (avail s) sz;
          (cur, m) =
            (if prev_size (m cur) \<noteq> 0
             then let prv = prev_sblock m cur;
                      m = unlink_free_block m prv
                  in (prv, set_size m prv (uadd (bsize (m prv)) (bsize (m cur))))
             else (cur, m));
          nxt = next_sblock m cur;
          m = (if fnext (m nxt) \<noteq> 0
               then let m = unlink_free_block m nxt
                    in set_size m cur (uadd (bsize (m cur)) (bsize (m nxt)))
               else m);
          m = set_prev_size m (next_sblock m cur) (bsize (m cur))
      in (sz, s\<lparr>blk := link_free_block_at_start (hdr_size s) m cur, avail := av\<rparr>))"

subsection \<open>The API\<close>

text \<open>
  \<open>expunge\<close> is the callback \<open>sma->expunge\<close> (with \<open>*sma->data\<close> part of the state), \<open>init\<close> the
  \<open>init_callback\<close>, which writes to the new allocation before the lock is released. The result
  is \<open>None\<close> for a \<open>NULL\<close> pointer.
\<close>

partial_function (option) apc_sma_malloc_loop ::
  "(nat \<Rightarrow> ('p, 'z) sma_scheme \<Rightarrow> (bool \<times> ('p, 'z) sma_scheme) option) \<Rightarrow>
   (nat \<Rightarrow> (nat \<Rightarrow> 'p) \<Rightarrow> (nat \<Rightarrow> 'p)) \<Rightarrow> nat \<Rightarrow> bool \<Rightarrow> ('p, 'z) sma_scheme \<Rightarrow>
   (nat option \<times> ('p, 'z) sma_scheme) option" where
  "apc_sma_malloc_loop expunge init n nuked s =
     (if sma_max_alloc_size s < n then Some (None, s)
      else do {
        r \<leftarrow> sma_lock s;
        if \<not> fst r then Some (None, snd r)
        else do {
          a \<leftarrow> sma_allocate n (snd r);
          if fst a \<noteq> SIZE_MAX
          then Some (Some (fst a), sma_unlock ((snd a)\<lparr>dat := init (fst a) (dat (snd a))\<rparr>))
          else if \<not> nuked
          then do {
            x \<leftarrow> expunge n (sma_unlock (snd a));
            apc_sma_malloc_loop expunge init n (fst x) (snd x)
          }
          else Some (None, sma_unlock (snd a))
        }
      })"

definition apc_sma_malloc ::
  "(nat \<Rightarrow> ('p, 'z) sma_scheme \<Rightarrow> (bool \<times> ('p, 'z) sma_scheme) option) \<Rightarrow>
   (nat \<Rightarrow> (nat \<Rightarrow> 'p) \<Rightarrow> (nat \<Rightarrow> 'p)) \<Rightarrow> nat \<Rightarrow> ('p, 'z) sma_scheme \<Rightarrow>
   (nat option \<times> ('p, 'z) sma_scheme) option" where
  "apc_sma_malloc expunge init n s = apc_sma_malloc_loop expunge init n False s"

text \<open>What \<open>apc_sma_free\<close> did: the pointer was \<open>NULL\<close>, lay outside the segment (an error is
  raised), the lock failed, or the block was freed. A pointer is its distance from \<open>shmaddr\<close>.\<close>

datatype free_status = Free_null | Free_foreign | Free_no_lock | Freed

definition apc_sma_free ::
  "int option \<Rightarrow> ('p, 'z) sma_scheme \<Rightarrow> (free_status \<times> ('p, 'z) sma_scheme) option" where
  "apc_sma_free p s =
     (case p of
        None \<Rightarrow> Some (Free_null, s)
      | Some d \<Rightarrow>
          if d < 0 \<or> sma_size s \<le> nat d then Some (Free_foreign, s)
          else do {
            r \<leftarrow> sma_lock s;
            if \<not> fst r then Some (Free_no_lock, snd r)
            else Some (Freed, sma_unlock (snd (sma_deallocate (nat d) (snd r))))
          })"

partial_function (option) sma_info_links :: "bmem \<Rightarrow> nat \<Rightarrow> (nat \<times> nat) list option" where
  "sma_info_links m cur =
     (if fnext (m cur) = 0 then Some []
      else do {
        rest \<leftarrow> sma_info_links m (fnext (m cur));
        Some ((bsize (m cur), cur) # rest)
      })"

text \<open>The segment size and the free blocks (size, offset); the outer option is \<open>NULL\<close>.\<close>

definition apc_sma_info ::
  "bool \<Rightarrow> ('p, 'z) sma_scheme \<Rightarrow> ((nat \<times> (nat \<times> nat) list) option \<times> ('p, 'z) sma_scheme) option" where
  "apc_sma_info limited s =
     (if \<not> sma_initialized s then Some (None, s)
      else
        let sz = usub (sma_size s) (uadd (uadd (hdr_size s) BHDR) BHDR) in
        if limited then Some (Some (sz, []), s)
        else do {
          r \<leftarrow> sma_lock s;
          if \<not> fst r then Some (None, snd r)
          else do {
            l \<leftarrow> sma_info_links (blk s) (fnext (blk s (hdr_size s)));
            Some (Some (sz, l), sma_unlock (snd r))
          }
        })"

definition apc_sma_get_avail_mem :: "('p, 'z) sma_scheme \<Rightarrow> nat" where
  "apc_sma_get_avail_mem s = avail s"

definition apc_sma_check_avail :: "nat \<Rightarrow> ('p, 'z) sma_scheme \<Rightarrow> bool" where
  "apc_sma_check_avail n s \<longleftrightarrow> alignword (uadd n BHDR) \<le> avail s"

partial_function (option) contiguous_loop :: "bmem \<Rightarrow> nat \<Rightarrow> nat \<Rightarrow> bool option" where
  "contiguous_loop m realsize cur =
     (if fnext (m cur) = 0 then Some False
      else if realsize \<le> bsize (m (fnext (m cur))) then Some True
      else contiguous_loop m realsize (fnext (m cur)))"

definition apc_sma_check_avail_contiguous ::
  "nat \<Rightarrow> ('p, 'z) sma_scheme \<Rightarrow> (bool \<times> ('p, 'z) sma_scheme) option" where
  "apc_sma_check_avail_contiguous n s =
     (let realsize = alignword (uadd n BHDR) in
      if avail s < realsize then Some (False, s)
      else do {
        r \<leftarrow> sma_lock s;
        if \<not> fst r then Some (False, snd r)
        else do {
          found \<leftarrow> contiguous_loop (blk s) realsize (hdr_size s);
          Some (found, sma_unlock (snd r))
        }
      })"

end
