(* ===== verification/Sma_Correct.thy ===== *)
theory Sma_Correct imports Sma begin

text \<open>
  Correctness of the shared memory allocator: the searches over the free list end and find what
  they should, and every operation keeps the segment invariant \<open>sma_inv\<close>, hands out memory that
  overlaps no other allocation, and gives back exactly what it took.
\<close>

subsection \<open>The invariant\<close>

text \<open>
  \<open>bs\<close> are the blocks of the segment by position, \<open>fs\<close> the free ones in list order. The last
  zero-sized block lies at the end of the segment.
\<close>

abbreviation seg_end :: "('p, 'z) sma_scheme \<Rightarrow> nat" where
  "seg_end s \<equiv> sma_size s - BHDR"

definition free_bytes :: "bmem \<Rightarrow> nat list \<Rightarrow> nat" where
  "free_bytes m fs = (\<Sum>b\<leftarrow>fs. bsize (m b))"

definition sma_inv :: "('p, 'z) sma_scheme \<Rightarrow> nat list \<Rightarrow> nat list \<Rightarrow> bool" where
  "sma_inv s bs fs \<longleftrightarrow> heap_inv (blk s) (hdr_size s) (seg_end s) bs fs \<and>
     avail s = free_bytes (blk s) fs \<and> BHDR \<le> min_block_size s \<and> min_block_size s < SEG_MAX \<and>
     sma_max_alloc_size s + hdr_size s + 3 * BHDR = sma_size s"

text \<open>The allocated blocks, and the size of the payload each of them was asked for (rounded up).\<close>

definition live_blocks :: "('p, 'z) sma_scheme \<Rightarrow> nat list \<Rightarrow> nat set" where
  "live_blocks s bs = {b \<in> set bs. \<not> is_free (blk s) b}"

subsection \<open>The free list walks\<close>

lemma dll_tail_nonzero:
  assumes "dll m a (f # fs) z" "0 \<notin> set (f # fs)" "z \<noteq> 0"
  shows "fnext (m f) \<noteq> 0"
proof -
  have "fnext (m f) \<in> set (fs @ [z])"
    using assms(1) by (auto dest: dll_fnext_start intro: hd_in_set_snoc simp del: set_append)
  with assms(2,3) show ?thesis by (cases "fnext (m f) = 0") auto
qed

lemma first_fit_find:
  assumes "dll m a fs z" "0 \<notin> set fs" "z \<noteq> 0" "fnext (m z) = 0" "bsize (m z) < r"
  shows "first_fit m r a = Some (find (\<lambda>f. r \<le> bsize (m f)) fs)"
  using assms
proof (induction fs arbitrary: a)
  case Nil
  then show ?case by (simp add: first_fit.simps [of m r a] first_fit.simps [of m r z])
next
  case (Cons f fs)
  then have "first_fit m r f = Some (find (\<lambda>f. r \<le> bsize (m f)) fs)" by simp
  with Cons.prems show ?case by (simp add: first_fit.simps [of m r a])
qed

lemma contiguous_loop_ex:
  assumes "dll m a fs z" "0 \<notin> set fs" "z \<noteq> 0" "fnext (m z) = 0" "bsize (m z) < r"
  shows "contiguous_loop m r a = Some (\<exists>f\<in>set fs. r \<le> bsize (m f))"
  using assms
proof (induction fs arbitrary: a)
  case Nil
  then show ?case by (simp add: contiguous_loop.simps [of m r a] contiguous_loop.simps [of m r z])
next
  case (Cons f fs)
  then have "contiguous_loop m r f = Some (\<exists>f\<in>set fs. r \<le> bsize (m f))" by simp
  with Cons.prems show ?case by (simp add: contiguous_loop.simps [of m r a])
qed

lemma sma_info_links_map:
  assumes "dll m a fs z" "0 \<notin> set fs" "z \<noteq> 0" "fnext (m z) = 0"
  shows "sma_info_links m (fnext (m a)) = Some (map (\<lambda>f. (bsize (m f), f)) fs)"
  using assms
proof (induction fs arbitrary: a)
  case Nil
  then show ?case by (simp add: sma_info_links.simps [of m z])
next
  case (Cons f fs)
  then have "sma_info_links m (fnext (m f)) = Some (map (\<lambda>f. (bsize (m f), f)) fs)" by simp
  with Cons.prems dll_tail_nonzero [OF Cons.prems(1-3)] show ?case
    by (simp add: sma_info_links.simps [of m f])
qed

text \<open>The second phase only ever trades the block for a smaller one that still fits.\<close>

lemma best_fit_fits:
  assumes "dll m a fs z" "0 \<notin> set fs" "z \<noteq> 0" "fnext (m z) = 0" "bsize (m z) < r" "r \<le> bsize (m c)"
  shows "best_fit i m r a c \<in> set (c # take i fs) \<and> r \<le> bsize (m (best_fit i m r a c)) \<and>
    bsize (m (best_fit i m r a c)) \<le> bsize (m c) \<and>
    (\<forall>f \<in> set (take i fs). r \<le> bsize (m f) \<longrightarrow> bsize (m (best_fit i m r a c)) \<le> bsize (m f))"
  using assms
proof (induction i arbitrary: a c fs)
  case 0
  then show ?case by simp
next
  case (Suc i)
  show ?case
  proof (cases fs)
    case Nil
    have "best_fit j m r z c = c" for j using Suc.prems(4) by (cases j) auto
    with Suc Nil show ?thesis by simp
  next
    case (Cons f fs')
    define c' where "c' = (if r \<le> bsize (m f) \<and> bsize (m f) < bsize (m c) then f else c)"
    have nz: "fnext (m a) = f" "f \<noteq> 0" "dll m f fs' z" "0 \<notin> set fs'" using Suc.prems Cons by auto
    then have step: "best_fit (Suc i) m r a c = best_fit i m r f c'"
      by (simp add: c'_def Let_def)
    have c': "r \<le> bsize (m c')" "bsize (m c') \<le> bsize (m c)" "c' \<in> {c, f}"
      "r \<le> bsize (m f) \<longrightarrow> bsize (m c') \<le> bsize (m f)"
      using Suc.prems(6) by (simp_all add: c'_def)
    define d where "d = best_fit i m r f c'"
    have d: "d \<in> set (c' # take i fs')" "r \<le> bsize (m d)" "bsize (m d) \<le> bsize (m c')"
      "\<forall>g \<in> set (take i fs'). r \<le> bsize (m g) \<longrightarrow> bsize (m d) \<le> bsize (m g)"
      using Suc.IH [OF nz(3,4) Suc.prems(3-5) c'(1)] unfolding d_def by blast+
    have "d \<in> set (c # take (Suc i) fs)" using d(1) c'(3) Cons by auto
    moreover have "bsize (m d) \<le> bsize (m c)" using d(3) c'(2) by simp
    moreover have "bsize (m d) \<le> bsize (m g)" if "g \<in> set (take (Suc i) fs)" "r \<le> bsize (m g)" for g
      using that Cons d(3,4) c'(4) by auto
    ultimately show ?thesis unfolding step d_def [symmetric] using d(2) by blast
  qed
qed

lemma heap_inv_walk:
  assumes "heap_inv m hs e bs fs"
  shows "dll m hs fs e" "0 \<notin> set fs" "e \<noteq> 0" "fnext (m e) = 0" "bsize (m e) = 0"
    "0 < hs" "first_block hs \<le> e" "e + BHDR < SEG_MAX"
  using assms heap_inv_zero [OF assms] chain_le [of m "first_block hs" bs e]
  by (auto simp: heap_inv_def frame_ok_def is_free_def)

lemma find_None_ex: "find P xs = None \<longleftrightarrow> (\<forall>x\<in>set xs. \<not> P x)"
  by (auto simp: find_None_iff)

lemma free_bytes_mem: "b \<in> set fs \<Longrightarrow> bsize (m b) \<le> free_bytes m fs"
  unfolding free_bytes_def by (rule sum_list_nat_mem)

lemma find_block_spec:
  assumes "sma_inv s bs fs" and "0 < r"
  shows "\<exists>f. find_block r s = Some f \<and>
    (case f of None \<Rightarrow> \<forall>b\<in>set fs. bsize (blk s b) < r
     | Some c \<Rightarrow> c \<in> set fs \<and> r \<le> bsize (blk s c))"
proof -
  have h: "heap_inv (blk s) (hdr_size s) (seg_end s) bs fs" and a: "avail s = free_bytes (blk s) fs"
    using assms(1) by (simp_all add: sma_inv_def)
  note w = heap_inv_walk [OF h]
  have ff: "first_fit (blk s) r (hdr_size s) = Some (find (\<lambda>f. r \<le> bsize (blk s f)) fs)"
    by (rule first_fit_find [OF w(1-4)]) (use w(5) assms(2) in simp)
  show ?thesis
  proof (cases "find (\<lambda>f. r \<le> bsize (blk s f)) fs")
    case None
    then have "\<forall>b\<in>set fs. bsize (blk s b) < r" by (simp add: find_None_ex not_le)
    then show ?thesis by (simp add: find_block_def ff None)
  next
    case (Some c)
    then obtain i where i: "i < length fs" "fs ! i = c" "r \<le> bsize (blk s c)"
      by (auto simp: find_Some_iff)
    then have fs: "fs = take i fs @ c # drop (Suc i) fs" by (metis id_take_nth_drop)
    then have "dll (blk s) c (drop (Suc i) fs) (seg_end s)" using w(1) by (metis dll_append)
    moreover have "0 \<notin> set (drop (Suc i) fs)" using w(2) by (metis in_set_dropD)
    ultimately have "best_fit BEST_FIT_LIMIT (blk s) r c c \<in>
        set (c # take BEST_FIT_LIMIT (drop (Suc i) fs)) \<and>
      r \<le> bsize (blk s (best_fit BEST_FIT_LIMIT (blk s) r c c))"
      using best_fit_fits [where fs = "drop (Suc i) fs"] w(3-5) i(3) assms(2) by simp
    moreover have "set (c # take BEST_FIT_LIMIT (drop (Suc i) fs)) \<subseteq> set fs"
      using i by (auto dest: in_set_takeD in_set_dropD)
    moreover have "r \<le> avail s"
      using free_bytes_mem [of c fs "blk s"] i a by (auto intro: order_trans)
    ultimately show ?thesis
      unfolding find_block_def ff Some by auto
  qed
qed

subsection \<open>Carving a block\<close>

text \<open>What an operation that works on the block \<open>c\<close> leaves alone elsewhere.\<close>

definition same_live :: "bmem \<Rightarrow> bmem \<Rightarrow> nat set \<Rightarrow> bool" where
  "same_live m m' X \<longleftrightarrow> (\<forall>x\<in>X. bsize (m' x) = bsize (m x) \<and> is_free m' x = is_free m x \<and>
     (\<not> is_free m x \<longrightarrow> fprev (m' x) = fprev (m x)))"

lemma same_liveD:
  assumes "same_live m m' X" "x \<in> X"
  shows "bsize (m' x) = bsize (m x)" "is_free m' x = is_free m x"
    "\<not> is_free m x \<Longrightarrow> fprev (m' x) = fprev (m x)"
  using assms by (auto simp: same_live_def)

lemma same_live_trans: "same_live m m' X \<Longrightarrow> same_live m' m'' X \<Longrightarrow> same_live m m'' X"
  by (auto simp: same_live_def)

lemma same_live_mono: "same_live m m' X \<Longrightarrow> Y \<subseteq> X \<Longrightarrow> same_live m m' Y"
  by (auto simp: same_live_def)

lemma heap_inv_unlink_same:
  assumes inv: "heap_inv m hs e bs (fxs @ c # fys)"
  shows "same_live m (unlink_free_block m c) (set bs)"
proof -
  have d: "dll m hs (fxs @ c # fys) e" and fs: "set (fxs @ c # fys) = {b \<in> set bs. is_free m b}"
    using inv by (auto simp: heap_inv_def)
  have z: "0 \<notin> set fys" using heap_inv_walk(2) [OF inv] by simp
  have e: "0 < e" using heap_inv_walk(3) [OF inv] by simp
  have dist: "distinct (hs # fxs @ c # fys @ [e])" using heap_inv_distinct [OF inv] by simp
  have "\<And>f. f \<in> set (fxs @ c # fys) \<Longrightarrow> is_free m f" using fs by blast
  from unlink_keeps [OF d dist e z this] show ?thesis
    using heap_inv_mem(6,7) [OF inv] by (auto simp: same_live_def)
qed

lemma pend_unlink_same:
  assumes inv: "pend m hs e xs c ys (fxs @ n # fys)"
  shows "same_live m (unlink_free_block m n) (insert c (set xs \<union> set ys))"
proof -
  have d: "dll m hs (fxs @ n # fys) e" and fs: "set (fxs @ n # fys) = {b \<in> set xs \<union> set ys. is_free m b}"
    using inv by (auto simp: pend_def)
  have z: "0 \<notin> set fys" using pend_zero [OF inv] fs by auto
  have e: "0 < e" using pend_bounds [OF inv] by simp
  have dist: "distinct (hs # fxs @ n # fys @ [e])" using pend_distinct(1) [OF inv] by simp
  have "\<And>f. f \<in> set (fxs @ n # fys) \<Longrightarrow> is_free m f" using fs by blast
  moreover have "x \<noteq> hs \<and> x \<noteq> e" if "x \<in> insert c (set xs \<union> set ys)" for x
    using that pend_bounds [OF inv] by fastforce
  ultimately show ?thesis
    using unlink_keeps [OF d dist e z] by (auto simp: same_live_def)
qed

lemma pend_link_same:
  assumes inv: "pend m hs e xs c ys fs" and "c \<noteq> hs"
  shows "same_live m (link_free_block_at_start hs m c) (set xs \<union> set ys)"
proof -
  have d: "dll m hs fs e" and fs: "set fs = {b \<in> set xs \<union> set ys. is_free m b}"
    using inv by (auto simp: pend_def)
  have z: "0 \<notin> set fs" using pend_zero [OF inv] fs by auto
  have e: "0 < e" using pend_bounds [OF inv] by simp
  have "x \<noteq> hs \<and> x \<noteq> e \<and> x \<noteq> c" if "x \<in> set xs \<union> set ys" for x
    using that pend_bounds [OF inv] by fastforce
  then show ?thesis
    using link_keeps [OF d e z assms(2)] fs by (auto simp: same_live_def)
qed

lemma pend_next: "pend m hs e xs c ys fs \<Longrightarrow> next_sblock m c = c + bsize (m c)"
  using pend_bounds(2,4) [of m hs e xs c ys fs] by (simp add: next_sblock_def uadd_small)

text \<open>Handing the whole block out.\<close>

lemma carve_whole:
  assumes p: "pend m hs e xs c ys fs"
    and r: "8 dvd r" "BHDR \<le> r" "r \<le> bsize (m c)"
    and small: "bsize (m c) < uadd r minb"
  defines "m' \<equiv> sma_carve hs minb m c r"
  shows "heap_inv m' hs e (xs @ c # ys) fs" "bsize (m' c) = bsize (m c)" "fprev (m' c) = r"
    "\<not> is_free m' c" "same_live m m' (set xs \<union> set ys)"
proof -
  let ?m1 = "set_prev_size m (c + bsize (m c)) 0"
  have eq: "m' = set_fprev (set_fnext ?m1 c 0) c r"
    unfolding m'_def sma_carve_def using small r(3) pend_next [OF p] by (simp add: Let_def)
  have "pend ?m1 hs e xs c ys fs" by (rule pend_tag [OF p]) simp
  then show "heap_inv m' hs e (xs @ c # ys) fs"
    unfolding eq by (rule pend_hand_out) (use r in simp_all)
  show "bsize (m' c) = bsize (m c)" "fprev (m' c) = r" "\<not> is_free m' c"
    by (simp_all add: eq is_free_def)
  show "same_live m m' (set xs \<union> set ys)"
    using pend_distinct(3) [OF p] by (auto simp: same_live_def eq is_free_def)
qed

text \<open>Splitting it: the rest goes back to the free list.\<close>

lemma carve_split:
  assumes p: "pend m hs e xs c ys fs" and nf: "\<not> is_free m (c + bsize (m c))"
    and r: "8 dvd r" "BHDR \<le> r" "r + BHDR \<le> bsize (m c)"
    and big: "\<not> (r \<le> bsize (m c) \<and> bsize (m c) < uadd r minb)"
  defines "m' \<equiv> sma_carve hs minb m c r"
  shows "heap_inv m' hs e (xs @ c # (c + r) # ys) ((c + r) # fs)" "bsize (m' c) = r"
    "bsize (m' (c + r)) = bsize (m c) - r" "fprev (m' c) = r" "\<not> is_free m' c"
    "is_free m' (c + r)" "same_live m m' (set xs \<union> set ys)"
proof -
  let ?n = "c + r" and ?old = "bsize (m c)"
  define m3 where "m3 = set_size (set_prev_size (set_size m c r) ?n 0) ?n (?old - r)"
  define m4 where "m4 = set_fprev (set_fnext m3 c 0) c r"
  define m5 where "m5 = set_prev_size m4 (?n + bsize (m4 ?n)) (bsize (m4 ?n))"
  have b: "first_block hs \<le> c" "c + ?old \<le> e" "e < SEG_MAX" using pend_bounds [OF p] by auto
  have dist: "distinct (hs # fs @ [e])" "c \<notin> set (hs # fs @ [e])" using pend_distinct [OF p] by auto
  have d: "dll m hs fs e" using p by (simp add: pend_def)
  have n: "?n \<noteq> c" "?n \<noteq> hs" "c \<noteq> hs" using r b by auto
  have hn: "fnext (m hs) \<noteq> c"
    using dll_fnext_start [OF d] hd_in_set_snoc [of fs e] dist(2) by auto
  have p4: "pend m4 hs e (xs @ [c]) ?n ys fs"
    using pend_split [OF p r] by (simp add: m4_def m3_def)
  have sz: "bsize (m4 ?n) = ?old - r" "?n + bsize (m4 ?n) = c + ?old" "bsize (m4 c) = r"
    using n r by (simp_all add: m4_def m3_def)
  have nx: "next_sblock (set_size m c r) c = ?n"
    using b r by (simp add: next_sblock_def uadd_small)
  have nn: "next_sblock m3 ?n = c + ?old"
    using b r n by (simp add: next_sblock_def uadd_small m3_def)
  have us: "usub ?old r = ?old - r" using b r by (simp add: usub_small)
  have eq: "m' = link_free_block_at_start hs m5 ?n"
  proof -
    have f3: "fnext (m3 x) = fnext (m x)" for x by (simp add: m3_def)
    have "m' = set_fprev (set_fnext (link_free_block_at_start hs
                (set_prev_size m3 (c + ?old) (bsize (m3 ?n))) ?n) c 0) c r"
      unfolding m'_def sma_carve_def using big nx nn us
      by (simp only: Let_def if_False m3_def [symmetric])
    also have "\<dots> = link_free_block_at_start hs m5 ?n"
      unfolding m5_def sz(2)
      by (rule bmem_eqI) (use n hn in \<open>auto simp: f3 m4_def link_free_block_at_start_def Let_def\<close>)
    finally show ?thesis .
  qed
  have nf4: "\<not> is_free m4 (?n + bsize (m4 ?n))"
    unfolding sz(2) using nf r by (simp add: m4_def m3_def is_free_def)
  show "heap_inv m' hs e (xs @ c # ?n # ys) (?n # fs)"
    using pend_release [OF p4 nf4] by (simp add: eq m5_def)
  have p5: "pend m5 hs e (xs @ [c]) ?n ys fs"
    unfolding m5_def by (rule pend_tag [OF p4]) (use nf4 in simp)
  note l = pend_link_same [OF p5 n(2)]
  show "bsize (m' c) = r" "bsize (m' ?n) = ?old - r"
    using sz by (simp_all add: eq m5_def)
  have "\<not> is_free m5 c" "fprev (m5 c) = r" using n by (simp_all add: m5_def m4_def is_free_def)
  with l show "\<not> is_free m' c" "fprev (m' c) = r" by (auto simp: same_live_def eq)
  have "?n \<in> set (?n # fs)" by simp
  then show "is_free m' ?n"
    using \<open>heap_inv m' hs e (xs @ c # ?n # ys) (?n # fs)\<close> by (blast dest: heap_inv_fs)
  have "x \<noteq> c \<and> x \<noteq> ?n" if "x \<in> set xs \<union> set ys" for x
    using that pend_bounds [OF p] r by fastforce
  then have "same_live m m5 (set xs \<union> set ys)"
    by (auto simp: same_live_def m5_def m4_def m3_def is_free_def)
  moreover have "same_live m5 m' (set xs \<union> set ys)" using l by (auto simp: same_live_def eq)
  ultimately show "same_live m m' (set xs \<union> set ys)" by (rule same_live_trans)
qed

subsection \<open>Allocation\<close>

lemma free_bytes_simps [simp]:
  "free_bytes m [] = 0" "free_bytes m (b # bs) = bsize (m b) + free_bytes m bs"
  "free_bytes m (as @ bs) = free_bytes m as + free_bytes m bs"
  by (simp_all add: free_bytes_def)

lemma free_bytes_same: "same_live m m' X \<Longrightarrow> set fs \<subseteq> X \<Longrightarrow> free_bytes m' fs = free_bytes m fs"
  by (induction fs) (auto simp: same_live_def)

text \<open>The sizes of all blocks add up to the length of the interval they tile.\<close>

lemma chain_sum: "chain m a bs e \<Longrightarrow> a + (\<Sum>b\<leftarrow>bs. bsize (m b)) = e"
proof (induction bs arbitrary: a)
  case (Cons b bs)
  have "chain m (b + bsize (m b)) bs e" "b = a" using Cons.prems by auto
  from Cons.IH [OF this(1)] this(2) show ?case by simp
qed simp

lemma free_bytes_bound:
  assumes "heap_inv m hs e bs fs"
  shows "first_block hs + free_bytes m fs \<le> e"
proof -
  have "distinct fs" "set fs \<subseteq> set bs" "distinct bs" and ch: "chain m (first_block hs) bs e"
    using assms by (auto simp: heap_inv_def dest: chain_distinct)
  then have "free_bytes m fs = (\<Sum>b\<in>set fs. bsize (m b))"
    by (simp add: free_bytes_def sum_list_distinct_conv_sum_set)
  also have "\<dots> \<le> (\<Sum>b\<in>set bs. bsize (m b))"
    using \<open>set fs \<subseteq> set bs\<close> by (intro sum_mono2) auto
  also have "\<dots> = (\<Sum>b\<leftarrow>bs. bsize (m b))"
    using \<open>distinct bs\<close> by (simp add: sum_list_distinct_conv_sum_set)
  finally show ?thesis using chain_sum [OF ch] by simp
qed

text \<open>No two free blocks are adjacent.\<close>

lemma heap_inv_no_adjacent_free:
  assumes inv: "heap_inv m hs e bs fs" and "b \<in> set bs" "is_free m b"
  shows "\<not> is_free m (b + bsize (m b))"
proof
  assume f: "is_free m (b + bsize (m b))"
  have ch: "chain m (first_block hs) bs e" and fr: "frame_ok m hs e"
    using inv by (auto simp: heap_inv_def)
  note c = chain_mem [OF ch assms(2)]
  have "b + bsize (m b) \<noteq> e" using f fr by (auto simp: frame_ok_def)
  with c(5) have "b + bsize (m b) \<in> set bs" by auto
  then have "block_ok m (b + bsize (m b))" by (rule chain_mem(3) [OF ch])
  with f c(3,4) assms(3) show False by (simp add: block_ok_def tag_def)
qed

lemma sma_allocate_none:
  assumes "sma_inv s bs fs" "n + 39 < U64" "\<forall>b\<in>set fs. bsize (blk s b) < alignword (n + BHDR)"
  shows "sma_allocate n s = Some (SIZE_MAX, s)"
proof -
  have r: "uadd n BHDR = n + BHDR" "BHDR \<le> alignword (n + BHDR)"
    using assms(2) alignword_ge [of "n + BHDR"] by (simp_all add: uadd_small)
  then have "find_block (alignword (n + BHDR)) s = Some None"
    using find_block_spec [OF assms(1), of "alignword (n + BHDR)"] assms(3)
    by (fastforce split: option.splits simp: not_le)
  with r show ?thesis by (simp add: sma_allocate_def)
qed

lemma sma_allocate_some:
  assumes inv: "sma_inv s bs fs" and n: "n + 39 < U64"
    and ex: "\<exists>b\<in>set fs. alignword (n + BHDR) \<le> bsize (blk s b)"
  obtains c s' bs' fs' where "sma_allocate n s = Some (c + BHDR, s')" "sma_inv s' bs' fs'"
    "c \<in> set fs" "live_blocks s' bs' = insert c (live_blocks s bs)"
    "fprev (blk s' c) = alignword (n + BHDR)" "same_live (blk s) (blk s') (live_blocks s bs)"
    "s' = s\<lparr>blk := blk s', avail := avail s'\<rparr>" "avail s' + bsize (blk s' c) = avail s"
    "alignword (n + BHDR) \<le> bsize (blk s' c)" "bsize (blk s' c) < alignword (n + BHDR) + min_block_size s"
proof -
  let ?r = "alignword (n + BHDR)" and ?m = "blk s" and ?hs = "hdr_size s" and ?e = "seg_end s"
  have u: "uadd n BHDR = n + BHDR" using n by (simp add: uadd_small)
  have r: "8 dvd ?r" "BHDR \<le> ?r" using alignword_ge [of "n + BHDR"] n by simp_all
  then obtain c where fb: "find_block ?r s = Some (Some c)" and c: "c \<in> set fs" "?r \<le> bsize (?m c)"
    using find_block_spec [OF inv, of ?r] ex by (auto split: option.splits)
  have h: "heap_inv ?m ?hs ?e bs fs" using inv by (simp add: sma_inv_def)
  have cb: "c \<in> set bs" "is_free ?m c" using heap_inv_fs [OF h c(1)] by simp_all
  obtain fxs fys where fs: "fs = fxs @ c # fys" using c(1) by (meson split_list)
  obtain xs ys where bs: "bs = xs @ c # ys" using cb(1) by (meson split_list)
  let ?u = "unlink_free_block ?m c"
  have p: "pend ?u ?hs ?e xs c ys (fxs @ fys)" using pend_unlink h fs bs by simp
  have us: "same_live ?m ?u (set bs)" using heap_inv_unlink_same h fs by simp
  have ch: "chain ?m (first_block ?hs) bs ?e" using h by (simp add: heap_inv_def)
  have cdist: "c \<notin> set xs \<union> set ys" using chain_distinct [OF ch] bs by auto
  have sub: "set (fxs @ fys) \<subseteq> set xs \<union> set ys"
    using p by (auto simp: pend_def)
  have c_le: "c + bsize (?m c) \<le> ?e" "?e < SEG_MAX" using heap_inv_mem [OF h cb(1)] by simp_all
  define m' where "m' = sma_carve ?hs (min_block_size s) ?u c ?r"
  define s' where "s' = s\<lparr>blk := m', avail := usub (avail s) (bsize (m' c))\<rparr>"
  have res: "sma_allocate n s = Some (c + BHDR, s')"
    using u fb c_le heap_inv_walk(8) [OF h]
    by (simp add: sma_allocate_def Let_def m'_def s'_def uadd_small)
  have av: "avail s = bsize (?m c) + free_bytes ?m (fxs @ fys)"
    using inv fs by (simp add: sma_inv_def)
  have avlt: "avail s < U64" using free_bytes_bound [OF h] c_le inv by (simp add: sma_inv_def)
  have live: "live_blocks s bs = {b \<in> set xs \<union> set ys. \<not> is_free ?m b}"
    using bs cb cdist by (auto simp: live_blocks_def)
  note goal = that
  have fin: thesis if hi: "heap_inv m' ?hs ?e bs' fs'" and sl: "same_live ?u m' (set xs \<union> set ys)"
    and cc: "fprev (m' c) = ?r" "\<not> is_free m' c" "?r \<le> bsize (m' c)" "bsize (m' c) \<le> bsize (?m c)"
      "bsize (m' c) < ?r + min_block_size s"
    and lv: "{b \<in> set bs'. \<not> is_free m' b} = insert c {b \<in> set xs \<union> set ys. \<not> is_free m' b}"
    and fb': "free_bytes m' fs' + bsize (m' c) = bsize (?m c) + free_bytes ?m (fxs @ fys)"
  for bs' fs'
  proof -
    have sl': "same_live ?m m' (set xs \<union> set ys)"
      by (rule same_live_trans [OF same_live_mono [OF us] sl]) (use bs in auto)
    have a': "avail s' + bsize (m' c) = avail s" "avail s' = free_bytes m' fs'"
      using av fb' cc(4) avlt by (simp_all add: s'_def usub_small)
    have "live_blocks s' bs' = insert c (live_blocks s bs)"
      using lv live sl' by (auto simp: live_blocks_def s'_def same_live_def)
    moreover have "sma_inv s' bs' fs'" using hi a'(2) inv by (simp add: sma_inv_def s'_def)
    moreover have "same_live ?m m' (live_blocks s bs)"
      using sl' by (rule same_live_mono) (auto simp: live)
    ultimately show thesis
      using goal [OF res] c(1) cc a' by (simp add: s'_def)
  qed
  have ucb: "bsize (?u c) = bsize (?m c)" by simp
  have minb: "BHDR \<le> min_block_size s" "min_block_size s < SEG_MAX"
    using inv by (auto simp: sma_inv_def)
  have ur: "uadd ?r (min_block_size s) = ?r + min_block_size s"
    using c(2) c_le minb by (simp add: uadd_small)
  show thesis
  proof (cases "bsize (?u c) < uadd ?r (min_block_size s)")
    case True
    have rr: "?r \<le> bsize (?u c)" using c(2) by simp
    note w = carve_whole [OF p r rr True, folded m'_def]
    show thesis
    proof (rule fin [OF w(1)])
      show "free_bytes m' (fxs @ fys) + bsize (m' c) = bsize (?m c) + free_bytes ?m (fxs @ fys)"
        using free_bytes_same [OF w(5) sub] w(2) free_bytes_same [OF us, of "fxs @ fys"] sub bs by auto
      show "bsize (m' c) < ?r + min_block_size s" using True w(2) ur by simp
    qed (use w c(2) cdist in auto)
  next
    case False
    have rr: "?r + BHDR \<le> bsize (?u c)" using False ur minb by simp
    have nb: "\<not> (?r \<le> bsize (?u c) \<and> bsize (?u c) < uadd ?r (min_block_size s))"
      using False by simp
    have nx: "\<not> is_free ?u (c + bsize (?u c))"
    proof -
      have "c + bsize (?m c) \<noteq> ?hs" using heap_inv_mem(1) [OF h cb(1)] by simp
      moreover have "c + bsize (?m c) \<in> set (bs @ [?e])" by (rule chain_mem(5) [OF ch cb(1)])
      ultimately show ?thesis
        using heap_inv_no_adjacent_free [OF h cb] us p h
        by (cases "c + bsize (?m c) = ?e") (auto simp: same_live_def pend_def frame_ok_def)
    qed
    note w = carve_split [OF p nx r rr nb, folded m'_def]
    show thesis
    proof (rule fin [OF w(1)])
      show "free_bytes m' ((c + ?r) # fxs @ fys) + bsize (m' c) = bsize (?m c) + free_bytes ?m (fxs @ fys)"
        using free_bytes_same [OF w(7) sub] w(2,3) free_bytes_same [OF us, of "fxs @ fys"] sub bs rr by auto
      show "bsize (m' c) < ?r + min_block_size s" using w(2) minb by simp
    qed (use w c(2) cdist in auto)
  qed
qed

subsection \<open>Deallocation\<close>

definition live_of :: "bmem \<Rightarrow> nat set \<Rightarrow> nat set" where
  "live_of m X = {b \<in> X. \<not> is_free m b}"

lemma live_blocks_of: "live_blocks s bs = live_of (blk s) (set bs)"
  by (simp add: live_blocks_def live_of_def)

lemma live_of_same: "same_live m m' X \<Longrightarrow> live_of m' X = live_of m X"
  by (auto simp: live_of_def same_live_def)

text \<open>First half: joining the freed block with a free predecessor.\<close>

definition merge_prev :: "bmem \<Rightarrow> nat \<Rightarrow> nat \<times> bmem" where
  "merge_prev m cur =
     (if prev_size (m cur) \<noteq> 0
      then let prv = prev_sblock m cur; m = unlink_free_block m prv
           in (prv, set_size m prv (uadd (bsize (m prv)) (bsize (m cur))))
      else (cur, m))"

lemma merge_prev_pend:
  assumes inv: "heap_inv m hs e bs fs" and c: "c \<in> set bs" "\<not> is_free m c"
  obtains c' m' xs ys fs' where "merge_prev m c = (c', m')" "pend m' hs e xs c' ys fs'"
    "live_of m' (set xs \<union> set ys) = live_of m (set bs) - {c}"
    "same_live m m' (live_of m (set bs) - {c})"
    "free_bytes m' fs' + bsize (m' c') = free_bytes m fs + bsize (m c)"
proof (cases "prev_size (m c) = 0")
  case True
  obtain xs ys where bs: "bs = xs @ c # ys" using c(1) by (meson split_list)
  have p: "pend m hs e xs c ys fs" using pend_alloc [of m hs e xs c ys fs] inv c True bs by simp
  have "c \<notin> set xs \<union> set ys" using pend_distinct(3) [OF p] by auto
  then have "live_of m (set xs \<union> set ys) = live_of m (set bs) - {c}" by (auto simp: live_of_def bs)
  with True p show thesis by (intro that [of c m]) (auto simp: merge_prev_def same_live_def)
next
  case False
  obtain xs0 ys where bs0: "bs = xs0 @ c # ys" using c(1) by (meson split_list)
  have ch: "chain m (first_block hs) bs e" and fr: "frame_ok m hs e"
    using inv by (auto simp: heap_inv_def)
  have cx: "chain m (first_block hs) xs0 c" using ch by (simp add: bs0 chain_mid)
  have pz: "xs0 = [] \<Longrightarrow> prev_size (m (first_block hs)) = 0" using fr by (simp add: frame_ok_def)
  obtain xs p where p: "xs0 = xs @ [p]" "is_free m p" "bsize (m p) = prev_size (m c)"
    "c = p + bsize (m p)"
    using chain_pred [OF cx False pz] .
  have bs: "bs = xs @ p # c # ys" by (simp add: bs0 p(1))
  have "p \<in> set fs" using inv p(2) bs by (auto simp: heap_inv_def)
  then obtain fxs fys where fs: "fs = fxs @ p # fys" by (meson split_list)
  let ?u = "unlink_free_block m p"
  have pp: "pend ?u hs e xs p (c # ys) (fxs @ fys)"
    using pend_unlink [of m hs e xs p "c # ys" fxs fys] inv bs fs by simp
  have sl: "same_live m ?u (set bs)" using heap_inv_unlink_same inv fs by simp
  have uc: "\<not> is_free ?u c" using sl c by (auto simp: same_live_def)
  let ?m = "set_size ?u p (bsize (?u p) + bsize (?u c))"
  have q: "pend ?m hs e xs p ys (fxs @ fys)" by (rule pend_absorb_alloc [OF pp uc])
  have pb: "p + bsize (m p) \<le> e" "bsize (m p) + bsize (m c) < U64" "e < SEG_MAX"
    using heap_inv_mem(2,9) [OF inv c(1)] p(4) by linarith+
  have "usub (p + bsize (m p)) (bsize (m p)) = p"
    using pb by (intro trans [OF usub_small]) simp_all
  then have "usub c (bsize (m p)) = p" unfolding p(4) [symmetric] .
  then have "prev_sblock m c = p" unfolding prev_sblock_def p(3) .
  then have eq: "merge_prev m c = (p, ?m)"
    using False pb(2) by (simp add: merge_prev_def Let_def uadd_small)
  have d: "p \<notin> set xs \<union> set ys" "c \<notin> set xs \<union> set ys" "p \<noteq> c"
    using chain_distinct [OF ch] by (auto simp: bs)
  have sl2: "same_live m ?m (set xs \<union> set ys)"
    using sl d by (auto simp: same_live_def bs is_free_def)
  have lv: "live_of ?m (set xs \<union> set ys) = live_of m (set bs) - {c}"
    using live_of_same [OF sl2] d c(2) p(2) by (auto simp: live_of_def bs)
  have "set (fxs @ fys) \<subseteq> set xs \<union> set ys" using q by (auto simp: pend_def)
  then have "free_bytes ?m (fxs @ fys) = free_bytes m (fxs @ fys)" by (rule free_bytes_same [OF sl2])
  then have "free_bytes ?m (fxs @ fys) + bsize (?m p) = free_bytes m fs + bsize (m c)"
    by (simp add: fs)
  moreover have "same_live m ?m (live_of m (set bs) - {c})"
    by (rule same_live_mono [OF sl2]) (use p(2) in \<open>auto simp: live_of_def bs\<close>)
  ultimately show thesis using that [OF eq q lv] by blast
qed

text \<open>Second half: taking in a free successor and putting the result into the free list.\<close>

definition merge_next :: "bmem \<Rightarrow> nat \<Rightarrow> bmem" where
  "merge_next m cur =
     (let nxt = next_sblock m cur
      in if fnext (m nxt) \<noteq> 0
         then let m = unlink_free_block m nxt in set_size m cur (uadd (bsize (m cur)) (bsize (m nxt)))
         else m)"

lemma sma_deallocate_alt:
  "sma_deallocate off s =
     (let cur = usub off BHDR; (c, m) = merge_prev (blk s) cur; m = merge_next m c;
          m = set_prev_size m (next_sblock m c) (bsize (m c))
      in (bsize (blk s cur), s\<lparr>blk := link_free_block_at_start (hdr_size s) m c,
            avail := uadd (avail s) (bsize (blk s cur))\<rparr>))"
  by (simp add: sma_deallocate_def merge_prev_def merge_next_def Let_def split_beta)

lemma merge_next_pend:
  assumes p: "pend m hs e xs c ys fs"
  obtains ys' fs' where "pend (merge_next m c) hs e xs c ys' fs'"
    "\<not> is_free (merge_next m c) (c + bsize (merge_next m c c))"
    "live_of (merge_next m c) (set xs \<union> set ys') = live_of m (set xs \<union> set ys)"
    "same_live m (merge_next m c) (live_of m (set xs \<union> set ys))"
    "free_bytes (merge_next m c) fs' + bsize (merge_next m c c) = free_bytes m fs + bsize (m c)"
proof (cases "is_free m (c + bsize (m c))")
  case False
  then have "merge_next m c = m" by (simp add: merge_next_def pend_next [OF p] is_free_def)
  with p False show thesis by (intro that) (auto simp: same_live_def)
next
  case True
  let ?n = "c + bsize (m c)"
  have "?n \<noteq> e" using True p by (auto simp: pend_def frame_ok_def)
  then obtain ys' where ys: "ys = ?n # ys'" using p by (cases ys) (auto simp: pend_def)
  have "?n \<in> set fs" using p True ys by (auto simp: pend_def)
  then obtain fxs fys where fs: "fs = fxs @ ?n # fys" by (meson split_list)
  let ?u = "unlink_free_block m ?n"
  let ?m = "set_size ?u c (bsize (m c) + bsize (m ?n))"
  have q: "pend ?m hs e xs c ys' (fxs @ fys)"
    using pend_absorb_free [of m hs e xs c ?n ys' fxs fys] p ys fs by simp
  have "bsize (m c) + bsize (m ?n) < U64"
    using pend_bounds(2,4) [OF p] pend_bounds(7) [OF p, of ?n] ys by simp
  then have eq: "merge_next m c = ?m"
    using True by (simp add: merge_next_def pend_next [OF p] is_free_def Let_def uadd_small)
  have sl: "same_live m ?u (insert c (set xs \<union> set ys))" using pend_unlink_same p fs by simp
  have d: "c \<notin> set xs \<union> set ys" "?n \<notin> set xs \<union> set ys'"
    using pend_distinct(3) [OF p] ys by auto
  have sl2: "same_live m ?m (set xs \<union> set ys)"
    using sl d by (auto simp: same_live_def is_free_def)
  have sub: "set xs \<union> set ys' \<subseteq> set xs \<union> set ys" by (auto simp: ys)
  have lv: "live_of ?m (set xs \<union> set ys') = live_of m (set xs \<union> set ys)"
    using live_of_same [OF same_live_mono [OF sl2 sub]] True ys by (auto simp: live_of_def)
  have nx: "\<not> is_free ?m (c + bsize (?m c))"
  proof
    assume f: "is_free ?m (c + bsize (?m c))"
    let ?k = "c + bsize (?m c)"
    have k: "?k = ?n + bsize (m ?n)" by simp
    have chn: "chain m ?n (?n # ys') e" using p ys by (auto simp: pend_def)
    have "?k \<in> set ((?n # ys') @ [e])" using chain_mem(5) [OF chn, of ?n] by (simp add: add.assoc)
    moreover have "0 < bsize (m ?n)" using pend_bounds(7) [OF p, of ?n] ys by simp
    then have "?k \<noteq> ?n" by (simp add: k)
    moreover have "?k \<noteq> e" using f q by (auto simp: pend_def frame_ok_def)
    ultimately have ky: "?k \<in> set ys'" by auto
    then have "block_ok m ?k" "is_free m ?k"
      using chain_mem(3) [OF chn, of ?k] f sl2 ys by (auto simp: same_live_def)
    moreover have "prev_size (m ?k) = tag m ?n" using chain_mem(4) [OF chn, of ?n] by (simp add: add.assoc)
    ultimately show False using True \<open>0 < bsize (m ?n)\<close> by (simp add: block_ok_def tag_def)
  qed
  have "set (fxs @ fys) \<subseteq> set xs \<union> set ys" using q sub by (auto simp: pend_def)
  then have "free_bytes ?m (fxs @ fys) = free_bytes m (fxs @ fys)" by (rule free_bytes_same [OF sl2])
  then have "free_bytes ?m (fxs @ fys) + bsize (?m c) = free_bytes m fs + bsize (m c)"
    by (simp add: fs)
  moreover have "same_live m ?m (live_of m (set xs \<union> set ys))"
    by (rule same_live_mono [OF sl2]) (auto simp: live_of_def)
  ultimately show thesis using that [of ys' "fxs @ fys"] q nx lv unfolding eq by blast
qed

lemma sma_deallocate_ok:
  assumes inv: "sma_inv s bs fs" and c: "c \<in> live_blocks s bs"
  obtains s' bs' fs' where "sma_deallocate (c + BHDR) s = (bsize (blk s c), s')" "sma_inv s' bs' fs'"
    "live_blocks s' bs' = live_blocks s bs - {c}"
    "same_live (blk s) (blk s') (live_blocks s bs - {c})"
    "s' = s\<lparr>blk := blk s', avail := avail s'\<rparr>" "avail s' = avail s + bsize (blk s c)"
proof -
  let ?hs = "hdr_size s" and ?e = "seg_end s"
  have h: "heap_inv (blk s) ?hs ?e bs fs" using inv by (simp add: sma_inv_def)
  have cb: "c \<in> set bs" "\<not> is_free (blk s) c" using c by (auto simp: live_blocks_def)
  note b = heap_inv_mem [OF h cb(1)]
  obtain d m xs ys fs1 where d: "merge_prev (blk s) c = (d, m)" "pend m ?hs ?e xs d ys fs1"
    "live_of m (set xs \<union> set ys) = live_of (blk s) (set bs) - {c}"
    "same_live (blk s) m (live_of (blk s) (set bs) - {c})"
    "free_bytes m fs1 + bsize (m d) = free_bytes (blk s) fs + bsize (blk s c)"
    using merge_prev_pend [OF h cb] .
  define m1 where "m1 = merge_next m d"
  obtain zs fs2 where z: "pend m1 ?hs ?e xs d zs fs2" "\<not> is_free m1 (d + bsize (m1 d))"
    "live_of m1 (set xs \<union> set zs) = live_of m (set xs \<union> set ys)"
    "same_live m m1 (live_of m (set xs \<union> set ys))"
    "free_bytes m1 fs2 + bsize (m1 d) = free_bytes m fs1 + bsize (m d)"
    using merge_next_pend [OF d(2)] unfolding m1_def .
  define m2 where "m2 = set_prev_size m1 (d + bsize (m1 d)) (bsize (m1 d))"
  define m3 where "m3 = link_free_block_at_start ?hs m2 d"
  define s' where "s' = s\<lparr>blk := m3, avail := uadd (avail s) (bsize (blk s c))\<rparr>"
  have p2: "pend m2 ?hs ?e xs d zs fs2" unfolding m2_def by (rule pend_tag [OF z(1)]) (use z(2) in simp)
  have h': "heap_inv m3 ?hs ?e (xs @ d # zs) (d # fs2)"
    using pend_release [OF z(1,2)] by (simp add: m3_def m2_def)
  have "usub (c + BHDR) BHDR = c" using b(2,9) by (intro trans [OF usub_small]) auto
  then have res: "sma_deallocate (c + BHDR) s = (bsize (blk s c), s')"
    by (simp add: sma_deallocate_alt Let_def d(1) m1_def [symmetric] pend_next [OF z(1)]
        m2_def [symmetric] m3_def [symmetric] s'_def)
  have "d \<noteq> ?hs" using pend_bounds(1) [OF z(1)] by simp
  note sl3 = pend_link_same [OF p2 this, folded m3_def]
  have sl2: "same_live m1 m2 X" for X by (auto simp: same_live_def m2_def is_free_def)
  have sl13: "same_live m1 m3 (set xs \<union> set zs)" using sl2 sl3 by (rule same_live_trans)
  have df: "is_free m3 d" using heap_inv_fs [OF h', of d] by simp
  have lv: "live_blocks s' (xs @ d # zs) = live_blocks s bs - {c}"
    using live_of_same [OF sl13] df z(3) d(3) by (auto simp: live_blocks_of s'_def live_of_def)
  have L: "live_of m (set xs \<union> set ys) = live_blocks s bs - {c}" using d(3) by (simp add: live_blocks_of)
  have "same_live m1 m3 (live_blocks s bs - {c})"
    by (rule same_live_mono [OF sl13]) (use z(3) L in \<open>auto simp: live_of_def\<close>)
  then have sl: "same_live (blk s) m3 (live_blocks s bs - {c})"
    using d(4) z(4) L by (auto simp: live_blocks_of intro: same_live_trans)
  have sub: "set fs2 \<subseteq> set xs \<union> set zs" using z(1) by (auto simp: pend_def)
  have fb: "free_bytes m3 (d # fs2) = free_bytes (blk s) fs + bsize (blk s c)"
    using free_bytes_same [OF sl13 sub] d(5) z(5) by (simp add: m3_def m2_def)
  have lt: "avail s + bsize (blk s c) < U64"
    using free_bytes_bound [OF h'] fb inv b(9) by (simp add: sma_inv_def)
  have "sma_inv s' (xs @ d # zs) (d # fs2)"
    using h' fb lt inv by (simp add: sma_inv_def s'_def uadd_small)
  then show thesis
    using that [OF res] lv sl lt by (simp add: s'_def uadd_small)
qed

subsection \<open>Disjointness and bounds of allocations\<close>

text \<open>The payload of a live block lies inside the segment and overlaps no other block.\<close>

lemma live_block_range:
  assumes "sma_inv s bs fs" "c \<in> live_blocks s bs"
  shows "first_block (hdr_size s) \<le> c" "c + bsize (blk s c) \<le> seg_end s"
    "BHDR \<le> fprev (blk s c)" "fprev (blk s c) \<le> bsize (blk s c)" "8 dvd c" "seg_end s + BHDR < SEG_MAX"
proof -
  have h: "heap_inv (blk s) (hdr_size s) (seg_end s) bs fs" and cb: "c \<in> set bs" "\<not> is_free (blk s) c"
    using assms by (auto simp: sma_inv_def live_blocks_def)
  have ch: "chain (blk s) (first_block (hdr_size s)) bs (seg_end s)" "8 dvd hdr_size s"
    "seg_end s + BHDR < SEG_MAX"
    using h by (auto simp: heap_inv_def frame_ok_def)
  have dv: "chain m a zs z \<Longrightarrow> 8 dvd a \<Longrightarrow> x \<in> set zs \<Longrightarrow> 8 dvd x" for m a zs z x
  proof (induction zs arbitrary: a)
    case (Cons y zs)
    then have "chain m (y + bsize (m y)) zs z" "8 dvd y + bsize (m y)" "8 dvd y"
      by (auto simp: block_ok_def)
    with Cons show ?case by auto
  qed simp
  show "first_block (hdr_size s) \<le> c" "c + bsize (blk s c) \<le> seg_end s"
    using heap_inv_mem [OF h cb(1)] by auto
  show "BHDR \<le> fprev (blk s c)" "fprev (blk s c) \<le> bsize (blk s c)"
    using chain_mem(3) [OF ch(1) cb(1)] cb(2) by (auto simp: block_ok_def)
  show "8 dvd c" using dv [OF ch(1)] ch(2) cb(1) by simp
  show "seg_end s + BHDR < SEG_MAX" by fact
qed

lemma live_blocks_disjoint:
  assumes "sma_inv s bs fs" "c \<in> live_blocks s bs" "d \<in> live_blocks s bs" "c \<noteq> d"
  shows "c + bsize (blk s c) \<le> d \<or> d + bsize (blk s d) \<le> c"
proof -
  have "chain (blk s) (first_block (hdr_size s)) bs (seg_end s)" "c \<in> set bs" "d \<in> set bs"
    using assms by (auto simp: sma_inv_def heap_inv_def live_blocks_def)
  with assms(4) show ?thesis using chain_disjoint by (metis linorder_neqE_nat)
qed

end
