(* ===== verification/Sma_Api.thy ===== *)
theory Sma_Api imports Sma_Correct begin

text \<open>
  The contract of the allocator's API. The block list and the free list of the invariant are
  recomputed from the segment itself, which makes the invariant an executable predicate
  \<open>sma_ok\<close>. The locale \<open>block_store\<close> is what a client may rely on; it is interpreted on
  \<open>sma_allocate\<close> and \<open>sma_deallocate\<close>. The locale \<open>expunger\<close> is what the allocator relies on
  when \<open>apc_sma_malloc\<close> calls back into the cache.
\<close>

subsection \<open>Recomputing the block lists\<close>

function block_walk :: "bmem \<Rightarrow> nat \<Rightarrow> nat \<Rightarrow> nat list" where
  "block_walk m a e = (if a < e \<and> 0 < bsize (m a) then a # block_walk m (a + bsize (m a)) e else [])"
  by pat_completeness auto
termination by (relation "measure (\<lambda>(m, a, e). e - a)") auto

declare block_walk.simps [simp del]

fun free_walk :: "nat \<Rightarrow> bmem \<Rightarrow> nat \<Rightarrow> nat list" where
  "free_walk 0 m b = []"
| "free_walk (Suc n) m b = (if fnext (m b) = 0 then [] else b # free_walk n m (fnext (m b)))"

lemma block_walk_chain: "chain m a bs e \<Longrightarrow> block_walk m a e = bs"
proof (induction bs arbitrary: a)
  case Nil
  then show ?case by (simp add: block_walk.simps [of m a] block_walk.simps [of m e])
next
  case (Cons b bs)
  have ch: "chain m (b + bsize (m b)) bs e" "b = a" "0 < bsize (m b)"
    using Cons.prems by (auto simp: block_ok_def)
  moreover have "a < e" using chain_le [OF ch(1)] ch(2,3) by simp
  ultimately show ?case using Cons.IH [OF ch(1)] by (simp add: block_walk.simps [of m a])
qed

lemma free_walk_dll:
  assumes "dll m a fs z" "0 \<notin> set fs" "z \<noteq> 0" "fnext (m z) = 0" "length fs \<le> n"
  shows "free_walk n m (fnext (m a)) = fs"
  using assms
proof (induction fs arbitrary: a n)
  case Nil
  then show ?case by (cases n) simp_all
next
  case (Cons f fs)
  then obtain n' where n: "n = Suc n'" "length fs \<le> n'" by (cases n) auto
  have "free_walk n' m (fnext (m f)) = fs" using Cons.IH [of f n'] Cons.prems n by simp
  with n Cons.prems dll_tail_nonzero [OF Cons.prems(1-3)] show ?case by simp
qed

definition sma_blocks :: "('p, 'z) sma_scheme \<Rightarrow> nat list" where
  "sma_blocks s = block_walk (blk s) (first_block (hdr_size s)) (seg_end s)"

definition sma_frees :: "('p, 'z) sma_scheme \<Rightarrow> nat list" where
  "sma_frees s = free_walk (length (sma_blocks s)) (blk s) (fnext (blk s (hdr_size s)))"

lemma sma_inv_walk:
  assumes "sma_inv s bs fs"
  shows "sma_blocks s = bs" "sma_frees s = fs"
proof -
  have h: "heap_inv (blk s) (hdr_size s) (seg_end s) bs fs" using assms by (simp add: sma_inv_def)
  then show b: "sma_blocks s = bs" by (simp add: sma_blocks_def heap_inv_def block_walk_chain)
  have "distinct fs" "set fs \<subseteq> set bs" using h by (auto simp: heap_inv_def)
  then have "length fs \<le> length bs"
    by (metis card_mono card_length distinct_card List.finite_set order_trans)
  then show "sma_frees s = fs"
    using free_walk_dll [OF heap_inv_walk(1-4) [OF h]] by (simp add: sma_frees_def b)
qed

text \<open>The segment is well formed, and not locked.\<close>

definition sma_ok :: "('p, 'z) sma_scheme \<Rightarrow> bool" where
  "sma_ok s \<longleftrightarrow> sma_inv s (sma_blocks s) (sma_frees s)"

definition sma_ready :: "('p, 'z) sma_scheme \<Rightarrow> bool" where
  "sma_ready s \<longleftrightarrow> sma_ok s \<and> \<not> sma_locked s"

text \<open>The payload offsets of the live allocations, and the bytes each may use.\<close>

definition sma_live :: "('p, 'z) sma_scheme \<Rightarrow> nat set" where
  "sma_live s = (\<lambda>b. b + BHDR) ` set (filter (\<lambda>b. \<not> is_free (blk s) b) (sma_blocks s))"

definition sma_room :: "('p, 'z) sma_scheme \<Rightarrow> nat \<Rightarrow> nat" where
  "sma_room s p = fprev (blk s (p - BHDR)) - BHDR"

text \<open>The largest free block.\<close>

definition sma_fits :: "nat \<Rightarrow> ('p, 'z) sma_scheme \<Rightarrow> bool" where
  "sma_fits n s \<longleftrightarrow> (\<exists>b\<in>set (sma_frees s). alignword (n + BHDR) \<le> bsize (blk s b))"

lemma sma_ok_inv: "sma_inv s bs fs \<Longrightarrow> sma_ok s"
  using sma_inv_walk [of s bs fs] by (simp add: sma_ok_def)

lemma sma_live_blocks: "sma_live s = (\<lambda>b. b + BHDR) ` live_blocks s (sma_blocks s)"
  by (simp add: sma_live_def live_blocks_def)

lemma sma_live_inv: "sma_inv s bs fs \<Longrightarrow> sma_live s = (\<lambda>b. b + BHDR) ` live_blocks s bs"
  using sma_inv_walk [of s bs fs] by (simp add: sma_live_blocks)

lemma sma_live_mem: "p \<in> sma_live s \<Longrightarrow> BHDR \<le> p \<and> p - BHDR \<in> live_blocks s (sma_blocks s)"
  by (auto simp: sma_live_blocks)

text \<open>The fields an operation on the descriptor may change without touching the heap.\<close>

lemma sma_same_heap [frame, simp]:
  "sma_blocks (s\<lparr>sma_locked := l\<rparr>) = sma_blocks s" "sma_frees (s\<lparr>sma_locked := l\<rparr>) = sma_frees s"
  "sma_blocks (s\<lparr>sma_lock_results := r\<rparr>) = sma_blocks s"
  "sma_frees (s\<lparr>sma_lock_results := r\<rparr>) = sma_frees s"
  "sma_blocks (s\<lparr>dat := d\<rparr>) = sma_blocks s" "sma_frees (s\<lparr>dat := d\<rparr>) = sma_frees s"
  by (simp_all add: sma_blocks_def sma_frees_def)

lemma sma_same_ok [frame, simp]:
  "sma_ok (s\<lparr>sma_locked := l\<rparr>) = sma_ok s" "sma_ok (s\<lparr>sma_lock_results := r\<rparr>) = sma_ok s"
  "sma_ok (s\<lparr>dat := d\<rparr>) = sma_ok s"
  by (simp_all add: sma_ok_def sma_inv_def)

lemma sma_same_live [frame, simp]:
  "sma_live (s\<lparr>sma_locked := l\<rparr>) = sma_live s" "sma_live (s\<lparr>sma_lock_results := r\<rparr>) = sma_live s"
  "sma_live (s\<lparr>dat := d\<rparr>) = sma_live s"
  "sma_room (s\<lparr>sma_locked := l\<rparr>) = sma_room s" "sma_room (s\<lparr>sma_lock_results := r\<rparr>) = sma_room s"
  "sma_room (s\<lparr>dat := d\<rparr>) = sma_room s"
  by (simp_all add: sma_live_def sma_room_def fun_eq_iff)

lemma sma_same_fits [frame, simp]:
  "sma_fits n (s\<lparr>sma_locked := l\<rparr>) = sma_fits n s" "sma_fits n (s\<lparr>sma_lock_results := r\<rparr>) = sma_fits n s"
  "sma_fits n (s\<lparr>dat := d\<rparr>) = sma_fits n s"
  by (simp_all add: sma_fits_def)

subsection \<open>Initialisation\<close>

lemma set_all_fields:
  "set_prev_size (set_fprev (set_fnext (set_size m b w) b x) b y) b z =
     m(b := \<lparr>bsize = w, prev_size = z, fnext = x, fprev = y\<rparr>)"
  by (rule bmem_eqI) auto

lemma sma_init_free_list_blk:
  assumes "uadd hs BHDR = hs + BHDR" "uadd (hs + BHDR) av = hs + BHDR + av" "0 < av"
    "hdr_size s = hs" "avail s = av"
  shows "sma_init_free_list s = s\<lparr>blk := (blk s)
    (hs := \<lparr>bsize = 0, prev_size = 0, fnext = hs + BHDR, fprev = 0\<rparr>,
     hs + BHDR := \<lparr>bsize = av, prev_size = 0, fnext = hs + BHDR + av, fprev = hs\<rparr>,
     hs + BHDR + av := \<lparr>bsize = 0, prev_size = av, fnext = 0, fprev = hs + BHDR\<rparr>)\<rparr>"
  unfolding sma_init_free_list_def
  by (simp only: Let_def set_all_fields assms(4,5)) (use assms(1-3) in simp)

lemma sma_init_free_list_frame [frame]: "\<exists>m. sma_init_free_list s = s\<lparr>blk := m\<rparr>"
  unfolding sma_init_free_list_def Let_def by (rule exI, rule refl)

lemma apc_sma_init_inv:
  assumes "\<not> sma_initialized s" "0 < n" "0 < hdr_size s" "8 dvd hdr_size s"
    "hdr_size s + 3 * BHDR \<le> n" "n + 8 < SEG_MAX" "ma + 40 < SEG_MAX"
  shows "sma_inv (apc_sma_init n ma s) [first_block (hdr_size s)] [first_block (hdr_size s)]"
proof -
  let ?hs = "hdr_size s" and ?b = "first_block (hdr_size s)" and ?s = "apc_sma_init n ma s"
  define sz where "sz = alignword n"
  have sz: "n \<le> sz" "sz \<le> n + 7" "8 dvd sz"
    using assms(6) alignword_ge [of n] alignword_le [of n] by (simp_all add: sz_def)
  define av where "av = sz - ?hs - 2 * BHDR"
  have av: "usub (usub (usub sz ?hs) BHDR) BHDR = av" "?hs + 2 * BHDR + av = sz" "BHDR \<le> av"
    using sz assms(5,6) by (simp_all add: av_def usub_small)
  have "8 dvd sz - ?hs" using sz(3) assms(4) by (rule dvd_diff_nat)
  then have d8: "8 dvd av" unfolding av_def by (rule dvd_diff_nat) simp
  have h: "uadd ?hs BHDR = ?b" "uadd ?b av = ?b + av"
    using av sz assms(6) by (simp_all add: uadd_small)
  have mb: "BHDR \<le> MINBLOCKSIZE" "MINBLOCKSIZE < SEG_MAX"
    by (simp_all add: MINBLOCKSIZE_def alignword_def uadd_def)
  have ma: "0 < ma \<Longrightarrow> BHDR \<le> alignword (uadd ma BHDR) \<and> alignword (uadd ma BHDR) < SEG_MAX"
    using alignword_ge [of "ma + BHDR"] alignword_le [of "ma + BHDR"] assms(7) by (simp add: uadd_small)
  have ne: "?b + av \<noteq> ?hs" "?b + av \<noteq> ?b" "?b \<noteq> ?hs" using av by auto
  define s0 where "s0 = s\<lparr>sma_initialized := True, sma_size := sz, sma_locked := False,
     min_block_size := (if 0 < ma then alignword (uadd ma BHDR) else MINBLOCKSIZE),
     avail := av, sma_max_alloc_size := usub av BHDR\<rparr>"
  have "?s = sma_init_free_list s0"
    using assms(1,2) by (simp only: apc_sma_init_def Let_def if_False if_True sz_def [symmetric] av(1) s0_def)
  also have "\<dots> = s0\<lparr>blk := (blk s0)
    (?hs := \<lparr>bsize = 0, prev_size = 0, fnext = ?b, fprev = 0\<rparr>,
     ?b := \<lparr>bsize = av, prev_size = 0, fnext = ?b + av, fprev = ?hs\<rparr>,
     ?b + av := \<lparr>bsize = 0, prev_size = av, fnext = 0, fprev = ?b\<rparr>)\<rparr>"
    using h av(3) by (intro sma_init_free_list_blk) (simp_all add: s0_def)
  finally have eq: "?s = \<dots>" .
  have u: "usub av BHDR = av - BHDR" using av sz(2) assms(6) by (simp add: usub_small)
  have f: "hdr_size ?s = ?hs" "sma_size ?s = sz" "avail ?s = av" "sma_max_alloc_size ?s = av - BHDR"
    "min_block_size ?s = (if 0 < ma then alignword (uadd ma BHDR) else MINBLOCKSIZE)"
    unfolding eq using u by (simp_all add: s0_def)
  have b: "blk ?s ?b = \<lparr>bsize = av, prev_size = 0, fnext = ?b + av, fprev = ?hs\<rparr>"
    "blk ?s ?hs = \<lparr>bsize = 0, prev_size = 0, fnext = ?b, fprev = 0\<rparr>"
    "blk ?s (?b + av) = \<lparr>bsize = 0, prev_size = av, fnext = 0, fprev = ?b\<rparr>"
    unfolding eq using ne by simp_all
  have e: "seg_end ?s = ?b + av" using f av(2) by simp
  have "heap_inv (blk ?s) ?hs (?b + av) [?b] [?b]"
    using b av d8 assms(3,4,6) sz ne
    by (auto simp: heap_inv_def frame_ok_def is_free_def block_ok_def tag_def)
  moreover have "av = free_bytes (blk ?s) [?b]" by (simp add: b(1))
  ultimately show ?thesis
    unfolding sma_inv_def e unfolding f using av(2,3) mb ma by auto
qed

subsection \<open>Allocation and deallocation on executable states\<close>

lemma sma_ok_facts:
  assumes "sma_ok s"
  shows "sma_max_alloc_size s + hdr_size s + 3 * BHDR = sma_size s" "sma_size s < SEG_MAX" "0 < hdr_size s"
    "avail s = free_bytes (blk s) (sma_frees s)" "avail s < SEG_MAX" "BHDR \<le> min_block_size s"
proof -
  have inv: "sma_inv s (sma_blocks s) (sma_frees s)" using assms by (simp add: sma_ok_def)
  then have h: "heap_inv (blk s) (hdr_size s) (seg_end s) (sma_blocks s) (sma_frees s)"
    by (simp add: sma_inv_def)
  note w = heap_inv_walk [OF h]
  show m: "sma_max_alloc_size s + hdr_size s + 3 * BHDR = sma_size s" using inv by (simp add: sma_inv_def)
  show "sma_size s < SEG_MAX" "0 < hdr_size s" using w(6,8) m by auto
  show a: "avail s = free_bytes (blk s) (sma_frees s)" using inv by (simp add: sma_inv_def)
  show "avail s < SEG_MAX" using a free_bytes_bound [OF h] w(8) by simp
  show "BHDR \<le> min_block_size s" using inv by (simp add: sma_inv_def)
qed

lemma sma_allocate_ok:
  assumes ok: "sma_ok s" and n: "n \<le> sma_max_alloc_size s"
  shows "\<exists>off s'. sma_allocate n s = Some (off, s') \<and> sma_ok s' \<and>
    s' = s\<lparr>blk := blk s', avail := avail s'\<rparr> \<and> avail s' \<le> avail s \<and>
    (if sma_fits n s
     then off \<noteq> SIZE_MAX \<and> off \<notin> sma_live s \<and> sma_live s' = insert off (sma_live s) \<and>
       n \<le> sma_room s' off \<and> sma_room s' off < n + 8 \<and>
       avail s < avail s' + n + 8 + BHDR + min_block_size s \<and>
       (\<forall>p\<in>sma_live s. sma_room s' p = sma_room s p)
     else off = SIZE_MAX \<and> s' = s)"
proof -
  have inv: "sma_inv s (sma_blocks s) (sma_frees s)" using ok by (simp add: sma_ok_def)
  note f = sma_ok_facts [OF ok]
  have n39: "n + 39 < U64" using n f(1,2) by simp
  have al: "n + BHDR \<le> alignword (n + BHDR)" "alignword (n + BHDR) \<le> n + BHDR + 7"
    using alignword_ge [of "n + BHDR"] alignword_le [of "n + BHDR"] n39 by simp_all
  show ?thesis
  proof (cases "sma_fits n s")
    case False
    then have "sma_allocate n s = Some (SIZE_MAX, s)"
      by (intro sma_allocate_none [OF inv n39]) (auto simp: sma_fits_def not_le)
    with False ok show ?thesis by simp
  next
    case True
    then have ex: "\<exists>b\<in>set (sma_frees s). alignword (n + BHDR) \<le> bsize (blk s b)"
      by (simp add: sma_fits_def)
    obtain c s' bs' fs' where r: "sma_allocate n s = Some (c + BHDR, s')" "sma_inv s' bs' fs'"
      "c \<in> set (sma_frees s)" "live_blocks s' bs' = insert c (live_blocks s (sma_blocks s))"
      "fprev (blk s' c) = alignword (n + BHDR)"
      "same_live (blk s) (blk s') (live_blocks s (sma_blocks s))"
      "s' = s\<lparr>blk := blk s', avail := avail s'\<rparr>" "avail s' + bsize (blk s' c) = avail s"
      "alignword (n + BHDR) \<le> bsize (blk s' c)"
      "bsize (blk s' c) < alignword (n + BHDR) + min_block_size s"
      using sma_allocate_some [OF inv n39 ex] .
    have h: "heap_inv (blk s) (hdr_size s) (seg_end s) (sma_blocks s) (sma_frees s)"
      using inv by (simp add: sma_inv_def)
    have "is_free (blk s) c" "c + BHDR < SEG_MAX"
      using heap_inv_fs [OF h r(3)] heap_inv_mem [OF h, of c] by auto
    then have "c + BHDR \<notin> sma_live s" "c + BHDR \<noteq> SIZE_MAX"
      by (auto simp: sma_live_blocks live_blocks_def)
    moreover have "sma_live s' = insert (c + BHDR) (sma_live s)"
      using sma_live_inv [OF r(2)] r(4) by (simp add: sma_live_blocks)
    moreover have "\<forall>p\<in>sma_live s. sma_room s' p = sma_room s p"
      using r(6) by (auto simp: sma_live_blocks sma_room_def same_live_def live_blocks_def)
    moreover have "n \<le> sma_room s' (c + BHDR)" "sma_room s' (c + BHDR) < n + 8"
      using r(5) al by (simp_all add: sma_room_def)
    moreover have "avail s < avail s' + n + 8 + BHDR + min_block_size s" using r(8,10) al by simp
    moreover have "avail s' \<le> avail s" using r(8) by simp
    ultimately show ?thesis using True r(1,7) sma_ok_inv [OF r(2)] by auto
  qed
qed

lemma sma_deallocate_live:
  assumes ok: "sma_ok s" and p: "p \<in> sma_live s"
  shows "\<exists>sz s'. sma_deallocate p s = (sz, s') \<and> sma_ok s' \<and>
    s' = s\<lparr>blk := blk s', avail := avail s'\<rparr> \<and> sma_live s' = sma_live s - {p} \<and>
    (\<forall>q\<in>sma_live s - {p}. sma_room s' q = sma_room s q) \<and> avail s' = avail s + sz \<and>
    sma_room s p + BHDR \<le> sz"
proof -
  have inv: "sma_inv s (sma_blocks s) (sma_frees s)" using ok by (simp add: sma_ok_def)
  obtain c where c: "p = c + BHDR" "c \<in> live_blocks s (sma_blocks s)"
    using p by (auto simp: sma_live_blocks)
  obtain s' bs' fs' where r: "sma_deallocate (c + BHDR) s = (bsize (blk s c), s')" "sma_inv s' bs' fs'"
    "live_blocks s' bs' = live_blocks s (sma_blocks s) - {c}"
    "same_live (blk s) (blk s') (live_blocks s (sma_blocks s) - {c})"
    "s' = s\<lparr>blk := blk s', avail := avail s'\<rparr>" "avail s' = avail s + bsize (blk s c)"
    using sma_deallocate_ok [OF inv c(2)] .
  have "sma_live s' = sma_live s - {p}"
    using sma_live_inv [OF r(2)] r(3) c(1) by (auto simp: sma_live_blocks)
  moreover have "\<forall>q\<in>sma_live s - {p}. sma_room s' q = sma_room s q"
  proof
    fix q assume "q \<in> sma_live s - {p}"
    then have "q - BHDR \<in> live_blocks s (sma_blocks s) - {c}" using c(1) by (auto simp: sma_live_blocks)
    with same_liveD(3) [OF r(4)] show "sma_room s' q = sma_room s q"
      by (simp add: sma_room_def live_blocks_def)
  qed
  moreover have "sma_room s p + BHDR \<le> bsize (blk s c)"
    using live_block_range(3,4) [OF inv c(2)] c(1) by (simp add: sma_room_def)
  ultimately show ?thesis using r(1,5,6) c(1) sma_ok_inv [OF r(2)] by auto
qed

lemma sma_live_disjoint:
  assumes ok: "sma_ok s" and "p \<in> sma_live s" "q \<in> sma_live s" "p \<noteq> q"
  shows "p + sma_room s p + BHDR \<le> q \<or> q + sma_room s q + BHDR \<le> p"
proof -
  have inv: "sma_inv s (sma_blocks s) (sma_frees s)" using ok by (simp add: sma_ok_def)
  obtain c d where c: "p = c + BHDR" "c \<in> live_blocks s (sma_blocks s)"
    "q = d + BHDR" "d \<in> live_blocks s (sma_blocks s)" "c \<noteq> d"
    using assms(2-4) by (auto simp: sma_live_blocks)
  show ?thesis
    using live_blocks_disjoint [OF inv c(2,4,5)] live_block_range(3,4) [OF inv c(2)]
      live_block_range(3,4) [OF inv c(4)] c(1,3)
    by (auto simp: sma_room_def)
qed

lemma sma_live_range:
  assumes ok: "sma_ok s" and "p \<in> sma_live s"
  shows "hdr_size s + 2 * BHDR \<le> p" "p + sma_room s p + BHDR \<le> sma_size s" "8 dvd p" "p < sma_size s"
proof -
  have inv: "sma_inv s (sma_blocks s) (sma_frees s)" using ok by (simp add: sma_ok_def)
  obtain c where c: "p = c + BHDR" "c \<in> live_blocks s (sma_blocks s)"
    using assms(2) by (auto simp: sma_live_blocks)
  note r = live_block_range [OF inv c(2)]
  show "hdr_size s + 2 * BHDR \<le> p" "8 dvd p" using r c(1) by simp_all
  show q: "p + sma_room s p + BHDR \<le> sma_size s" using r c(1) by (auto simp: sma_room_def)
  then show "p < sma_size s" by simp
qed

subsection \<open>What a client may rely on\<close>

text \<open>
  The contract of an allocator of blocks in a segment. \<open>fits\<close> says whether a request can be
  served; \<open>SIZE_MAX\<close> is the answer to one that cannot.
\<close>

locale block_store =
  fixes ok :: "'s \<Rightarrow> bool" and live :: "'s \<Rightarrow> nat set" and room :: "'s \<Rightarrow> nat \<Rightarrow> nat"
    and largest :: "'s \<Rightarrow> nat" and budget :: "'s \<Rightarrow> nat" and fits :: "nat \<Rightarrow> 's \<Rightarrow> bool"
    and alloc :: "nat \<Rightarrow> 's \<Rightarrow> (nat \<times> 's) option" and release :: "nat \<Rightarrow> 's \<Rightarrow> nat \<times> 's"
  assumes alloc_fits: "ok s \<Longrightarrow> n \<le> largest s \<Longrightarrow> fits n s \<Longrightarrow>
      \<exists>p s'. alloc n s = Some (p, s') \<and> p \<noteq> SIZE_MAX \<and> ok s' \<and> p \<notin> live s \<and>
        live s' = insert p (live s) \<and> n \<le> room s' p \<and> (\<forall>q\<in>live s. room s' q = room s q) \<and>
        largest s' = largest s \<and> budget s' \<le> budget s"
    and alloc_full: "ok s \<Longrightarrow> n \<le> largest s \<Longrightarrow> \<not> fits n s \<Longrightarrow> alloc n s = Some (SIZE_MAX, s)"
    and release_live: "ok s \<Longrightarrow> p \<in> live s \<Longrightarrow>
      \<exists>z s'. release p s = (z, s') \<and> ok s' \<and> live s' = live s - {p} \<and>
        (\<forall>q\<in>live s - {p}. room s' q = room s q) \<and> largest s' = largest s \<and>
        budget s' = budget s + z \<and> room s p \<le> z"
    and disjoint: "ok s \<Longrightarrow> p \<in> live s \<Longrightarrow> q \<in> live s \<Longrightarrow> p \<noteq> q \<Longrightarrow>
      p + room s p \<le> q \<or> q + room s q \<le> p"
begin

text \<open>Releasing a set of live blocks, one after the other in any order.\<close>

lemma release_all:
  assumes "ok s" "distinct ps" "set ps \<subseteq> live s"
  defines "s' \<equiv> fold (\<lambda>p s. snd (release p s)) ps s"
  shows "ok s' \<and> live s' = live s - set ps \<and> (\<forall>q\<in>live s - set ps. room s' q = room s q) \<and>
    largest s' = largest s \<and> budget s + (\<Sum>p\<leftarrow>ps. room s p) \<le> budget s'"
  using assms(1-3) unfolding s'_def
proof (induction ps arbitrary: s)
  case (Cons p ps)
  obtain z t where t: "release p s = (z, t)" "ok t" "live t = live s - {p}"
    "\<forall>q\<in>live s - {p}. room t q = room s q" "largest t = largest s" "budget t = budget s + z"
    "room s p \<le> z"
    using release_live [of s p] Cons.prems by auto
  have sub: "distinct ps" "set ps \<subseteq> live t" using Cons.prems t(3) by auto
  have "map (room t) ps = map (room s) ps" using t(4) Cons.prems by auto
  then have eq: "(\<Sum>p\<leftarrow>ps. room t p) = (\<Sum>p\<leftarrow>ps. room s p)" by (simp only:)
  show ?case using Cons.IH [OF t(2) sub] t eq by auto
qed simp

text \<open>A block that has been taken and given back.\<close>

lemma alloc_release:
  assumes "ok s" "n \<le> largest s" "alloc n s = Some (p, s')" "p \<noteq> SIZE_MAX"
  shows "ok (snd (release p s'))" "live (snd (release p s')) = live s"
    "\<forall>q\<in>live s. room (snd (release p s')) q = room s q"
proof -
  have "fits n s" using alloc_full assms by fastforce
  then have a: "ok s'" "p \<notin> live s" "live s' = insert p (live s)" "\<forall>q\<in>live s. room s' q = room s q"
    using alloc_fits [OF assms(1,2)] assms(3) by auto
  then have "p \<in> live s'" by simp
  from release_live [OF a(1) this] a
  show "ok (snd (release p s'))" "live (snd (release p s')) = live s"
    "\<forall>q\<in>live s. room (snd (release p s')) q = room s q" by auto
qed

text \<open>A new block overlaps none of the old ones.\<close>

lemma alloc_disjoint:
  assumes "ok s" "n \<le> largest s" "alloc n s = Some (p, s')" "p \<noteq> SIZE_MAX" "q \<in> live s"
  shows "p + n \<le> q \<or> q + room s q \<le> p"
proof -
  have "fits n s" using alloc_full assms by fastforce
  then have a: "ok s'" "p \<notin> live s" "live s' = insert p (live s)" "\<forall>q\<in>live s. room s' q = room s q"
    "n \<le> room s' p"
    using alloc_fits [OF assms(1,2)] assms(3) by auto
  then have "p + room s' p \<le> q \<or> q + room s' q \<le> p"
    using assms(5) by (intro disjoint) auto
  with a(4,5) assms(5) show ?thesis by auto
qed

end

lemma sma_ext_fields:
  assumes "s' = s\<lparr>blk := b, avail := a\<rparr>"
  shows "sma_max_alloc_size s' = sma_max_alloc_size s" "sma_size s' = sma_size s"
    "sma_locked s' = sma_locked s" "dat s' = dat s" "hdr_size s' = hdr_size s"
    "sma_lock_results s' = sma_lock_results s" "sma_initialized s' = sma_initialized s"
    "min_block_size s' = min_block_size s"
  using assms by simp_all

interpretation shm: block_store sma_ok sma_live sma_room sma_max_alloc_size avail sma_fits
  sma_allocate sma_deallocate
proof (unfold_locales, goal_cases)
  case (1 s n)
  obtain p s' where a: "sma_allocate n s = Some (p, s')" "sma_ok s'" "s' = s\<lparr>blk := blk s', avail := avail s'\<rparr>"
    "avail s' \<le> avail s" "p \<noteq> SIZE_MAX" "p \<notin> sma_live s" "sma_live s' = insert p (sma_live s)"
    "n \<le> sma_room s' p" "\<forall>q\<in>sma_live s. sma_room s' q = sma_room s q"
    using sma_allocate_ok [OF 1(1,2)] 1(3) by auto
  with sma_ext_fields(1) [OF a(3)] show ?case by blast
next
  case (2 s n)
  with sma_allocate_ok [OF 2(1,2)] show ?case by auto
next
  case (3 s p)
  obtain z s' where a: "sma_deallocate p s = (z, s')" "sma_ok s'" "s' = s\<lparr>blk := blk s', avail := avail s'\<rparr>"
    "sma_live s' = sma_live s - {p}" "\<forall>q\<in>sma_live s - {p}. sma_room s' q = sma_room s q"
    "avail s' = avail s + z" "sma_room s p + BHDR \<le> z"
    using sma_deallocate_live [OF 3] by blast
  moreover have "sma_room s p \<le> z" using a(7) by simp
  ultimately show ?case using sma_ext_fields(1) [OF a(3)] by blast
next
  case (4 s p q)
  from sma_live_disjoint [OF 4] show ?case by auto
qed

subsection \<open>The API functions\<close>

text \<open>Whether the next attempt to take the lock succeeds.\<close>

definition lock_works :: "('p, 'z) sma_scheme \<Rightarrow> bool" where
  "lock_works s = (case sma_lock_results s of [] \<Rightarrow> True | r # rs \<Rightarrow> r)"

lemma sma_lock_eq:
  "\<not> sma_locked s \<Longrightarrow>
     sma_lock s = Some (lock_works s, s\<lparr>sma_locked := lock_works s, sma_lock_results := tl (sma_lock_results s)\<rparr>)"
  by (auto simp: sma_lock_def lock_works_def split: list.splits bool.splits)

abbreviation after_lock :: "('p, 'z) sma_scheme \<Rightarrow> ('p, 'z) sma_scheme" where
  "after_lock s \<equiv> s\<lparr>sma_lock_results := tl (sma_lock_results s)\<rparr>"

text \<open>One round of \<open>apc_sma_malloc\<close>, from a well-formed segment.\<close>

lemma malloc_round:
  assumes "sma_ready s"
  shows "sma_max_alloc_size s < n \<Longrightarrow> apc_sma_malloc_loop ex ini n nuked s = Some (None, s)"
    and "n \<le> sma_max_alloc_size s \<Longrightarrow> \<not> lock_works s \<Longrightarrow>
      apc_sma_malloc_loop ex ini n nuked s = Some (None, after_lock s)"
    and "n \<le> sma_max_alloc_size s \<Longrightarrow> lock_works s \<Longrightarrow> \<not> sma_fits n s \<Longrightarrow>
      apc_sma_malloc_loop ex ini n nuked s =
        (if nuked then Some (None, after_lock s)
         else Option.bind (ex n (after_lock s)) (\<lambda>x. apc_sma_malloc_loop ex ini n (fst x) (snd x)))"
    and "n \<le> sma_max_alloc_size s \<Longrightarrow> lock_works s \<Longrightarrow> sma_fits n s \<Longrightarrow>
      \<exists>p s'. apc_sma_malloc_loop ex ini n nuked s = Some (Some p, s') \<and> sma_ready s' \<and>
        s' = s\<lparr>sma_lock_results := tl (sma_lock_results s), blk := blk s', avail := avail s',
               dat := ini p (dat s)\<rparr> \<and>
        p \<notin> sma_live s \<and> sma_live s' = insert p (sma_live s) \<and> n \<le> sma_room s' p \<and>
        (\<forall>q\<in>sma_live s. sma_room s' q = sma_room s q) \<and> avail s' \<le> avail s"
proof -
  have ok: "sma_ok s" and nl: "\<not> sma_locked s" using assms by (simp_all add: sma_ready_def)
  note lk = sma_lock_eq [OF nl]
  show "sma_max_alloc_size s < n \<Longrightarrow> apc_sma_malloc_loop ex ini n nuked s = Some (None, s)"
    by (simp add: apc_sma_malloc_loop.simps [of ex ini n nuked s])
  have un: "s\<lparr>sma_locked := False, sma_lock_results := rs\<rparr> = s\<lparr>sma_lock_results := rs\<rparr>" for rs
    using nl by simp
  have un2: "after_lock s\<lparr>sma_locked := False\<rparr> = after_lock s" using nl by (cases s) simp
  show "n \<le> sma_max_alloc_size s \<Longrightarrow> \<not> lock_works s \<Longrightarrow>
      apc_sma_malloc_loop ex ini n nuked s = Some (None, after_lock s)"
    by (simp add: apc_sma_malloc_loop.simps [of ex ini n nuked s] lk un)
  let ?l = "s\<lparr>sma_locked := True, sma_lock_results := tl (sma_lock_results s)\<rparr>"
  have okl: "sma_ok ?l" using ok by simp
  {
    assume a: "n \<le> sma_max_alloc_size s" "lock_works s" "\<not> sma_fits n s"
    have "sma_allocate n ?l = Some (SIZE_MAX, ?l)" using shm.alloc_full [OF okl, of n] a by simp
    with a show "apc_sma_malloc_loop ex ini n nuked s =
        (if nuked then Some (None, after_lock s)
         else Option.bind (ex n (after_lock s)) (\<lambda>x. apc_sma_malloc_loop ex ini n (fst x) (snd x)))"
      by (simp add: apc_sma_malloc_loop.simps [of ex ini n nuked s] lk sma_unlock_def un un2)
  }
  assume a: "n \<le> sma_max_alloc_size s" "lock_works s" "sma_fits n s"
  have n: "n \<le> sma_max_alloc_size ?l" using a(1) by simp
  obtain p t where t: "sma_allocate n ?l = Some (p, t)" "sma_ok t" "t = ?l\<lparr>blk := blk t, avail := avail t\<rparr>"
    "avail t \<le> avail s" "p \<noteq> SIZE_MAX" "p \<notin> sma_live s" "sma_live t = insert p (sma_live s)"
    "n \<le> sma_room t p" "\<forall>q\<in>sma_live s. sma_room t q = sma_room s q"
    using sma_allocate_ok [OF okl n] a(3) by auto
  let ?s' = "sma_unlock (t\<lparr>dat := ini p (dat t)\<rparr>)"
  have "apc_sma_malloc_loop ex ini n nuked s = Some (Some p, ?s')"
    using a t(1,5) by (simp add: apc_sma_malloc_loop.simps [of ex ini n nuked s] lk)
  moreover have "?s' = s\<lparr>sma_lock_results := tl (sma_lock_results s), blk := blk ?s', avail := avail ?s',
               dat := ini p (dat s)\<rparr>"
    unfolding sma_unlock_def by (subst (1 2) t(3)) (use nl in simp)
  moreover have "sma_ready ?s'" using t(2) by (simp add: sma_ready_def sma_unlock_def)
  moreover have lv: "sma_live ?s' = insert p (sma_live s)" "n \<le> sma_room ?s' p"
    "\<forall>q\<in>sma_live s. sma_room ?s' q = sma_room s q" "avail ?s' \<le> avail s"
    using t(4,7-9) by (simp_all add: sma_unlock_def)
  ultimately show "\<exists>p s'. apc_sma_malloc_loop ex ini n nuked s = Some (Some p, s') \<and> sma_ready s' \<and>
        s' = s\<lparr>sma_lock_results := tl (sma_lock_results s), blk := blk s', avail := avail s',
               dat := ini p (dat s)\<rparr> \<and>
        p \<notin> sma_live s \<and> sma_live s' = insert p (sma_live s) \<and> n \<le> sma_room s' p \<and>
        (\<forall>q\<in>sma_live s. sma_room s' q = sma_room s q) \<and> avail s' \<le> avail s"
    using t(6) lv by blast
qed

subsection \<open>What the allocator relies on when it asks for memory\<close>

text \<open>The request for \<open>n\<close> bytes has been served with the new allocation \<open>p\<close>; the others are untouched.\<close>

definition malloc_served ::
  "(nat \<Rightarrow> (nat \<Rightarrow> 'p) \<Rightarrow> (nat \<Rightarrow> 'p)) \<Rightarrow> nat \<Rightarrow> ('p, 'z) sma_scheme \<Rightarrow> nat \<Rightarrow> ('p, 'z) sma_scheme \<Rightarrow> bool" where
  "malloc_served ini n s p s' \<longleftrightarrow> sma_ready s' \<and>
     s' = s\<lparr>sma_lock_results := tl (sma_lock_results s), blk := blk s', avail := avail s', dat := ini p (dat s)\<rparr> \<and>
     p \<notin> sma_live s \<and> sma_live s' = insert p (sma_live s) \<and> n \<le> sma_room s' p \<and>
     (\<forall>q\<in>sma_live s. sma_room s' q = sma_room s q)"

text \<open>
  The callback \<open>ex\<close> of \<open>apc_sma_malloc\<close> returns, keeps the invariant \<open>inv\<close> of the client (which includes
  the one of the segment), and asks for one more attempt. Then \<open>apc_sma_malloc\<close> returns after at most one
  call of it.
\<close>

locale expunger =
  fixes inv :: "('p, 'z) sma_scheme \<Rightarrow> bool"
    and ex :: "nat \<Rightarrow> ('p, 'z) sma_scheme \<Rightarrow> (bool \<times> ('p, 'z) sma_scheme) option"
  assumes inv_ready: "inv s \<Longrightarrow> sma_ready s"
    and inv_lock: "inv s \<Longrightarrow> inv (after_lock s)"
    and expunges: "inv s \<Longrightarrow> \<exists>s'. ex n s = Some (True, s') \<and> inv s'"
begin

lemma malloc_total:
  assumes s: "inv s"
  shows "\<exists>r s'. apc_sma_malloc ex ini n s = Some (r, s') \<and>
    (\<exists>s1. (s1 = s \<or> ex n (after_lock s) = Some (True, s1)) \<and> inv s1 \<and>
      (case r of
         None \<Rightarrow> (s' = s1 \<or> s' = after_lock s1) \<and>
           (sma_max_alloc_size s1 < n \<or> \<not> lock_works s1 \<or> \<not> sma_fits n s1 \<and> ex n (after_lock s) = Some (True, s1))
       | Some p \<Rightarrow> malloc_served ini n s1 p s'))"
proof -
  have round: "(\<exists>r s'. apc_sma_malloc_loop ex ini n nuked s1 = Some (r, s') \<and>
      (case r of
         None \<Rightarrow> (s' = s1 \<or> s' = after_lock s1) \<and> (sma_max_alloc_size s1 < n \<or> \<not> lock_works s1 \<or> \<not> sma_fits n s1 \<and> nuked)
       | Some p \<Rightarrow> malloc_served ini n s1 p s')) \<or>
      \<not> nuked \<and> apc_sma_malloc_loop ex ini n nuked s1 =
        Option.bind (ex n (after_lock s1)) (\<lambda>x. apc_sma_malloc_loop ex ini n (fst x) (snd x))"
    if "inv s1" for s1 nuked
  proof -
    note r = malloc_round [OF inv_ready [OF that], of n ex ini nuked]
    consider "sma_max_alloc_size s1 < n" | "n \<le> sma_max_alloc_size s1" "\<not> lock_works s1"
      | "n \<le> sma_max_alloc_size s1" "lock_works s1" "\<not> sma_fits n s1"
      | "n \<le> sma_max_alloc_size s1" "lock_works s1" "sma_fits n s1" by linarith
    then show ?thesis
    proof cases
      case 4
      then obtain p s' where "apc_sma_malloc_loop ex ini n nuked s1 = Some (Some p, s')" "malloc_served ini n s1 p s'"
        using r(4) unfolding malloc_served_def by blast
      then show ?thesis by (intro disjI1 exI [of _ "Some p"] exI [of _ s']) simp
    qed (use r in \<open>auto split: if_splits\<close>)
  qed
  show ?thesis
  proof (cases "\<exists>x. apc_sma_malloc_loop ex ini n False s = Option.bind (ex n (after_lock s)) x \<and>
      x = (\<lambda>x. apc_sma_malloc_loop ex ini n (fst x) (snd x))")
    case False
    then show ?thesis using round [OF s, of False] s unfolding apc_sma_malloc_def by (auto split: option.splits)
  next
    case True
    obtain s1 where s1: "ex n (after_lock s) = Some (True, s1)" "inv s1" using expunges [OF inv_lock [OF s]] by blast
    then have "apc_sma_malloc ex ini n s = apc_sma_malloc_loop ex ini n True s1"
      using True by (simp add: apc_sma_malloc_def)
    with round [OF s1(2), of True] s1 show ?thesis by (auto split: option.splits)
  qed
qed

end

lemma apc_sma_free_live:
  assumes r: "sma_ready s" and p: "p \<in> sma_live s" and l: "lock_works s"
  shows "\<exists>s'. apc_sma_free (Some (int p)) s = Some (Freed, s') \<and> sma_ready s' \<and>
    s' = s\<lparr>sma_lock_results := tl (sma_lock_results s), blk := blk s', avail := avail s'\<rparr> \<and>
    sma_live s' = sma_live s - {p} \<and> (\<forall>q\<in>sma_live s - {p}. sma_room s' q = sma_room s q) \<and>
    avail s' = avail s + fst (sma_deallocate p s) \<and> sma_room s p + BHDR \<le> fst (sma_deallocate p s)"
proof -
  have ok: "sma_ok s" and nl: "\<not> sma_locked s" using r by (simp_all add: sma_ready_def)
  note lk = sma_lock_eq [OF nl]
  let ?l = "s\<lparr>sma_locked := True, sma_lock_results := tl (sma_lock_results s)\<rparr>"
  obtain sz t where t: "sma_deallocate p ?l = (sz, t)" "sma_ok t" "t = ?l\<lparr>blk := blk t, avail := avail t\<rparr>"
    "sma_live t = sma_live s - {p}" "\<forall>q\<in>sma_live s - {p}. sma_room t q = sma_room s q"
    "avail t = avail s + sz" "sma_room s p + BHDR \<le> sz"
    using sma_deallocate_live [of ?l p] ok p by auto
  have sz: "fst (sma_deallocate p s) = sz"
    using arg_cong [OF t(1), of fst] by (simp add: sma_deallocate_alt Let_def split_beta)
  let ?s' = "sma_unlock t"
  have "apc_sma_free (Some (int p)) s = Some (Freed, ?s')"
    using sma_live_range(4) [OF ok p] l t(1) by (simp add: apc_sma_free_def lk)
  moreover have "?s' = s\<lparr>sma_lock_results := tl (sma_lock_results s), blk := blk ?s', avail := avail ?s'\<rparr>"
    unfolding sma_unlock_def by (subst (1) t(3)) (use nl in simp)
  moreover have "sma_ready ?s'" "sma_live ?s' = sma_live s - {p}"
    "\<forall>q\<in>sma_live s - {p}. sma_room ?s' q = sma_room s q" "avail ?s' = avail s + sz"
    using t by (simp_all add: sma_ready_def sma_unlock_def)
  ultimately show ?thesis using t(7) sz by blast
qed

text \<open>A pointer that is not in the segment is refused without taking the lock.\<close>

lemma apc_sma_free_foreign:
  "d < 0 \<or> int (sma_size s) \<le> d \<Longrightarrow> apc_sma_free (Some d) s = Some (Free_foreign, s)"
  by (auto simp: apc_sma_free_def)

lemma apc_sma_check_avail_contiguous_fits:
  assumes r: "sma_ready s" and n: "n \<le> sma_max_alloc_size s"
  shows "\<exists>s'. apc_sma_check_avail_contiguous n s = Some (sma_fits n s \<and> lock_works s, s') \<and>
    s' \<in> {s, after_lock s}"
proof -
  have ok: "sma_ok s" and nl: "\<not> sma_locked s" using r by (simp_all add: sma_ready_def)
  note lk = sma_lock_eq [OF nl] and f = sma_ok_facts [OF ok]
  have inv: "sma_inv s (sma_blocks s) (sma_frees s)" using ok by (simp add: sma_ok_def)
  then have h: "heap_inv (blk s) (hdr_size s) (seg_end s) (sma_blocks s) (sma_frees s)"
    by (simp add: sma_inv_def)
  note w = heap_inv_walk [OF h]
  have n39: "n + 39 < U64" using n f(1,2) by simp
  let ?r = "alignword (n + BHDR)"
  have rs: "alignword (uadd n BHDR) = ?r" "0 < ?r"
    using n39 alignword_ge [of "n + BHDR"] by (simp_all add: uadd_small)
  have lp: "contiguous_loop (blk s) ?r (hdr_size s) = Some (sma_fits n s)"
    using contiguous_loop_ex [OF w(1-4), of ?r] w(5) rs(2) by (simp add: sma_fits_def)
  have un: "after_lock s\<lparr>sma_locked := False\<rparr> = after_lock s"
    "s\<lparr>sma_locked := False, sma_lock_results := tl (sma_lock_results s)\<rparr> = after_lock s"
    using nl by (cases s, simp)+
  show ?thesis
  proof (cases "avail s < ?r")
    case True
    have "\<not> sma_fits n s"
      using True f(4) free_bytes_mem [of _ "sma_frees s" "blk s"]
      by (auto simp: sma_fits_def not_le intro: le_less_trans)
    with True rs show ?thesis by (simp add: apc_sma_check_avail_contiguous_def)
  next
    case False
    with rs lp un show ?thesis
      by (cases "lock_works s") (auto simp: apc_sma_check_avail_contiguous_def lk sma_unlock_def)
  qed
qed

lemma apc_sma_info_list:
  assumes r: "sma_ready s" and i: "sma_initialized s" and l: "lock_works s"
  shows "apc_sma_info False s =
    Some (Some (sma_size s - (hdr_size s + 2 * BHDR),
      map (\<lambda>b. (bsize (blk s b), b)) (sma_frees s)), after_lock s)"
proof -
  have ok: "sma_ok s" and nl: "\<not> sma_locked s" using r by (simp_all add: sma_ready_def)
  note lk = sma_lock_eq [OF nl] and f = sma_ok_facts [OF ok]
  have inv: "sma_inv s (sma_blocks s) (sma_frees s)" using ok by (simp add: sma_ok_def)
  then have h: "heap_inv (blk s) (hdr_size s) (seg_end s) (sma_blocks s) (sma_frees s)"
    by (simp add: sma_inv_def)
  note w = heap_inv_walk [OF h]
  have un: "after_lock s\<lparr>sma_locked := False\<rparr> = after_lock s" using nl by (cases s) simp
  have u: "usub (sma_size s) (uadd (uadd (hdr_size s) BHDR) BHDR) = sma_size s - (hdr_size s + 2 * BHDR)"
    using f(1,2) by (simp add: uadd_small usub_small)
  show ?thesis
    using i l sma_info_links_map [OF w(1-4)] un u
    by (simp add: apc_sma_info_def Let_def lk sma_unlock_def)
qed

text \<open>Free blocks never stay apart: with nothing allocated there is a single one.\<close>

lemma sma_empty_coalesced:
  assumes ok: "sma_ok s" and none: "sma_live s = {}"
  shows "sma_blocks s = [first_block (hdr_size s)] \<and> sma_frees s = [first_block (hdr_size s)] \<and>
    avail s = sma_size s - (hdr_size s + 2 * BHDR)"
proof -
  let ?m = "blk s" and ?b = "first_block (hdr_size s)"
  have inv: "sma_inv s (sma_blocks s) (sma_frees s)" using ok by (simp add: sma_ok_def)
  then have h: "heap_inv ?m (hdr_size s) (seg_end s) (sma_blocks s) (sma_frees s)"
    by (simp add: sma_inv_def)
  have fr: "\<forall>b\<in>set (sma_blocks s). is_free ?m b"
    using none by (auto simp: sma_live_blocks live_blocks_def)
  have ch: "chain ?m ?b (sma_blocks s) (seg_end s)" using h by (simp add: heap_inv_def)
  note f = sma_ok_facts [OF ok]
  have "sma_blocks s \<noteq> []"
  proof
    assume "sma_blocks s = []"
    then have "?b = seg_end s" using ch by simp
    with f(1) show False by simp
  qed
  then obtain bs where bs: "sma_blocks s = ?b # bs" using ch by (cases "sma_blocks s") auto
  have "bs = []"
  proof (cases bs)
    case (Cons c cs)
    then have "c = ?b + bsize (?m ?b)" using ch bs by simp
    moreover have "is_free ?m c" "is_free ?m ?b" using fr bs Cons by auto
    ultimately show ?thesis using heap_inv_no_adjacent_free [OF h, of ?b] bs by simp
  qed simp
  with bs have b1: "sma_blocks s = [?b]" by simp
  have "set (sma_frees s) = {?b}" "distinct (sma_frees s)" using h fr b1 by (auto simp: heap_inv_def)
  then have f1: "sma_frees s = [?b]"
    by (metis distinct_card card.empty card_insert_disjoint empty_iff finite.emptyI length_0_conv
        length_Suc_conv list.set_intros(1) singletonD One_nat_def)
  have "?b + bsize (?m ?b) = seg_end s" using ch b1 by simp
  with f(1,4) f1 have "avail s = sma_size s - (hdr_size s + 2 * BHDR)" by simp
  with b1 f1 show ?thesis by simp
qed

text \<open>The segment right after \<open>apc_sma_init\<close>.\<close>

lemma apc_sma_init_facts:
  assumes "\<not> sma_initialized s" "0 < hdr_size s" "8 dvd hdr_size s"
    "hdr_size s + 3 * BHDR \<le> n" "n + 8 < SEG_MAX" "ma + 40 < SEG_MAX"
  shows "sma_inv (apc_sma_init n ma s) [first_block (hdr_size s)] [first_block (hdr_size s)] \<and>
    sma_ready (apc_sma_init n ma s) \<and> sma_live (apc_sma_init n ma s) = {} \<and>
    sma_size (apc_sma_init n ma s) = alignword n \<and>
    avail (apc_sma_init n ma s) = alignword n - hdr_size s - 2 * BHDR \<and>
    (\<forall>k. sma_fits k (apc_sma_init n ma s) \<longleftrightarrow> alignword (k + BHDR) \<le> avail (apc_sma_init n ma s))"
proof -
  let ?s = "apc_sma_init n ma s" and ?b = "first_block (hdr_size s)"
  have inv: "sma_inv ?s [?b] [?b]" by (rule apc_sma_init_inv) (use assms in simp_all)
  have n: "0 < n" using assms(4) by simp
  obtain m where m: "?s = s\<lparr>sma_initialized := True, sma_size := alignword (if 0 < n then n else SMA_DEFAULT_SEGSIZE),
     sma_locked := False, min_block_size := (if 0 < ma then alignword (uadd ma BHDR) else MINBLOCKSIZE),
     avail := usub (usub (usub (alignword (if 0 < n then n else SMA_DEFAULT_SEGSIZE)) (hdr_size s)) BHDR) BHDR,
     sma_max_alloc_size := usub (usub (usub (usub (alignword (if 0 < n then n else SMA_DEFAULT_SEGSIZE)) (hdr_size s)) BHDR) BHDR) BHDR\<rparr>
     \<lparr>blk := m\<rparr>"
    using assms(1) sma_init_free_list_frame unfolding apc_sma_init_def Let_def if_not_P [OF assms(1)]
    by blast
  have av: "avail ?s = bsize (blk ?s ?b)" "is_free (blk ?s) ?b" "hdr_size ?s = hdr_size s"
  proof -
    have h: "heap_inv (blk ?s) (hdr_size ?s) (seg_end ?s) [?b] [?b]" "avail ?s = free_bytes (blk ?s) [?b]"
      using inv unfolding sma_inv_def by blast+
    from h(2) show "avail ?s = bsize (blk ?s ?b)" by simp
    show "hdr_size ?s = hdr_size s" using m by simp
    show "is_free (blk ?s) ?b" using heap_inv_fs [OF h(1), of ?b] by simp
  qed
  have sz: "sma_size ?s = alignword n" "\<not> sma_locked ?s" using m n by simp_all
  have f: "sma_frees ?s = [?b]" using sma_inv_walk(2) [OF inv] .
  have lv: "sma_live ?s = {}" using sma_live_inv [OF inv] av by (simp add: live_blocks_def)
  have ok: "sma_ok ?s" by (rule sma_ok_inv [OF inv])
  from sma_empty_coalesced [OF ok lv] have "avail ?s = alignword n - hdr_size s - 2 * BHDR"
    by (simp add: av sz)
  with inv ok sz lv f av show ?thesis by (simp add: sma_ready_def sma_fits_def)
qed

end
