(* ===== verification/Sma_Defrag.thy ===== *)
theory Sma_Defrag imports Sma_Api begin

text \<open>
  \<open>apc_sma_defrag\<close> (\<open>apc_sma.c\<close>): the free list is rebuilt while free blocks bubble upwards past
  the allocated blocks that the owner lets the allocator move. The locale \<open>relocatable\<close> is the contract
  between the allocator and the owner of the allocations, whose callback redirects the references to an
  object before it is moved.
\<close>

subsection \<open>The operation\<close>

text \<open>
  \<open>defrag_swap\<close> moves the allocated block \<open>nxt\<close> down to \<open>cur\<close> and makes a free block behind it, which
  takes in a free successor; it yields the memory, the new free block and the reclaimed bytes.
\<close>

definition defrag_swap :: "('p, 'z) sma_scheme \<Rightarrow> nat \<Rightarrow> nat \<Rightarrow> ('p, 'z) sma_scheme \<times> nat \<times> nat" where
  "defrag_swap s cur nxt =
     (let m = blk s;
          slack = usub (bsize (m nxt)) (fprev (m nxt));
          m = set_size m nxt (usub (bsize (m nxt)) slack);
          free_size = uadd slack (bsize (m cur));
          n = bsize (m nxt);
          m = memmove m cur nxt n;
          m = set_prev_size m cur 0;
          cur' = next_sblock m cur;
          m = set_size m cur' free_size;
          m = set_fnext m cur' 1;
          nxt' = next_sblock m cur';
          m = (if fnext (m nxt') \<noteq> 0 then set_size m cur' (uadd (bsize (m cur')) (bsize (m nxt'))) else m)
      in (s\<lparr>blk := m, dat := memmove (dat s) cur nxt n\<rparr>, cur', slack))"

definition defrag_keep :: "nat \<Rightarrow> bmem \<Rightarrow> nat \<Rightarrow> nat \<Rightarrow> bmem" where
  "defrag_keep hs m cur nxt =
     (let m = link_free_block_at_start hs m cur;
          m = set_prev_size m cur 0
      in set_prev_size m nxt (bsize (m cur)))"

partial_function (option) defrag_loop ::
  "(nat \<Rightarrow> nat \<Rightarrow> ('p, 'z) sma_scheme \<Rightarrow> bool \<times> ('p, 'z) sma_scheme) \<Rightarrow>
   nat \<Rightarrow> nat \<Rightarrow> ('p, 'z) sma_scheme \<Rightarrow> (nat \<times> ('p, 'z) sma_scheme) option" where
  "defrag_loop move cur reclaimed s =
     (if bsize (blk s cur) = 0 then Some (reclaimed, s)
      else if fnext (blk s cur) = 0 then defrag_loop move (next_sblock (blk s) cur) reclaimed s
      else
        let nxt = next_sblock (blk s) cur;
            r = (if bsize (blk s nxt) = 0 then (False, s) else move (uadd nxt BHDR) (uadd cur BHDR) s)
        in if \<not> fst r
           then let m = defrag_keep (hdr_size (snd r)) (blk (snd r)) cur nxt
                in defrag_loop move (next_sblock m nxt) reclaimed ((snd r)\<lparr>blk := m\<rparr>)
           else let w = defrag_swap (snd r) cur nxt
                in defrag_loop move (fst (snd w)) (uadd reclaimed (snd (snd w))) (fst w))"

definition apc_sma_defrag ::
  "(nat \<Rightarrow> nat \<Rightarrow> ('p, 'z) sma_scheme \<Rightarrow> bool \<times> ('p, 'z) sma_scheme) \<Rightarrow>
   ('p, 'z) sma_scheme \<Rightarrow> ('p, 'z) sma_scheme option" where
  "apc_sma_defrag move s =
     do {
       r \<leftarrow> sma_lock s;
       if \<not> fst r then Some (snd r)
       else
         let s = snd r; hs = hdr_size s;
             m = set_fnext (blk s) hs (usub (sma_size s) BHDR);
             m = set_fprev m (fnext (m hs)) hs
         in do {
           w \<leftarrow> defrag_loop move (uadd hs BHDR) 0 (s\<lparr>blk := m\<rparr>);
           Some (sma_unlock ((snd w)\<lparr>avail := uadd (avail (snd w)) (fst w)\<rparr>))
         }
     }"

subsection \<open>The shape of the heap while it is defragmented\<close>

text \<open>
  Below \<open>cur\<close> the heap is in order (\<open>xs\<close>, with its free blocks in the free list \<open>fs\<close>); the blocks \<open>zs\<close>
  from \<open>cur\<close> on are as before, except that their free blocks are not in the list.
\<close>

definition dscan :: "bmem \<Rightarrow> nat \<Rightarrow> nat \<Rightarrow> nat list \<Rightarrow> nat \<Rightarrow> nat list \<Rightarrow> nat list \<Rightarrow> bool" where
  "dscan m hs e xs cur zs fs \<longleftrightarrow> frame_ok m hs e \<and> chain m (first_block hs) xs cur \<and> chain m cur zs e \<and>
     dll m hs fs e \<and> distinct fs \<and> set fs = {b \<in> set xs. is_free m b}"

text \<open>The free block \<open>cur\<close> is being moved up; neither its own boundary tag nor the one behind it
  is valid.\<close>

definition dpend :: "bmem \<Rightarrow> nat \<Rightarrow> nat \<Rightarrow> nat list \<Rightarrow> nat \<Rightarrow> nat list \<Rightarrow> nat list \<Rightarrow> bool" where
  "dpend m hs e xs cur ys fs \<longleftrightarrow> frame_ok m hs e \<and> chain m (first_block hs) xs cur \<and>
     (xs \<noteq> [] \<longrightarrow> \<not> is_free m (last xs)) \<and> 8 dvd bsize (m cur) \<and> BHDR \<le> bsize (m cur) \<and> is_free m cur \<and>
     chain m (cur + bsize (m cur)) ys e \<and> \<not> is_free m (cur + bsize (m cur)) \<and>
     dll m hs fs e \<and> distinct fs \<and> set fs = {b \<in> set xs. is_free m b}"

lemma dscan_done: "dscan m hs e xs cur [] fs \<Longrightarrow> cur = e \<and> heap_inv m hs e xs fs"
  by (auto simp: dscan_def heap_inv_def)

lemma dscan_skip:
  assumes "dscan m hs e xs cur (b # zs) fs" "\<not> is_free m b"
  shows "b = cur" "dscan m hs e (xs @ [b]) (cur + bsize (m cur)) zs fs"
  using assms by (auto simp: dscan_def chain_mid)

lemma dscan_pend:
  assumes d: "dscan m hs e xs cur (b # zs) fs" and f: "is_free m b"
  shows "b = cur" "dpend m hs e xs cur zs fs"
proof -
  have b: "b = cur" "block_ok m cur" "prev_size (m (cur + bsize (m cur))) = tag m cur"
    and ch: "chain m (cur + bsize (m cur)) zs e" "chain m (first_block hs) xs cur" and fr: "frame_ok m hs e"
    using d by (auto simp: dscan_def)
  show "b = cur" by fact
  have "\<not> is_free m (cur + bsize (m cur))"
  proof
    assume g: "is_free m (cur + bsize (m cur))"
    then have "cur + bsize (m cur) \<noteq> e" using fr by (auto simp: frame_ok_def)
    then have "block_ok m (cur + bsize (m cur))" using ch(1) by (cases zs) auto
    with g b f show False by (auto simp: block_ok_def tag_def)
  qed
  moreover have "\<not> is_free m (last xs)" if "xs \<noteq> []"
  proof -
    from that have x: "last xs \<in> set xs" "xs = butlast xs @ [last xs]" by auto
    have l: "prev_size (m cur) = tag m (last xs)" "block_ok m (last xs)"
      using chain_mem(3) [OF ch(2) x(1)] ch(2)
      by (subst (asm) (2) x(2), auto simp: chain_append)+
    with b(1,2) f show ?thesis by (auto simp: block_ok_def tag_def)
  qed
  ultimately show "dpend m hs e xs cur zs fs"
    using d b f by (auto simp: dpend_def dscan_def block_ok_def)
qed

lemma dpend_bounds:
  assumes "dpend m hs e xs c ys fs"
  shows "first_block hs \<le> c" "c + bsize (m c) \<le> e" "0 < bsize (m c)" "e + BHDR < SEG_MAX" "0 < c" "0 < hs"
    "\<And>b. b \<in> set xs \<Longrightarrow> first_block hs \<le> b \<and> b + bsize (m b) \<le> c \<and> 0 < bsize (m b)"
    "\<And>b. b \<in> set ys \<Longrightarrow> c + bsize (m c) \<le> b \<and> b + bsize (m b) \<le> e \<and> 0 < bsize (m b)"
proof -
  from assms have ch: "chain m (first_block hs) xs c" "chain m (c + bsize (m c)) ys e"
    by (simp_all add: dpend_def)
  show "first_block hs \<le> c" using ch(1) by (rule chain_le)
  show "c + bsize (m c) \<le> e" using ch(2) by (rule chain_le)
  show "0 < bsize (m c)" "e + BHDR < SEG_MAX" "0 < hs" using assms by (auto simp: dpend_def frame_ok_def)
  show "0 < c" using chain_le [OF ch(1)] assms by (simp add: dpend_def frame_ok_def)
  fix b
  show "first_block hs \<le> b \<and> b + bsize (m b) \<le> c \<and> 0 < bsize (m b)" if "b \<in> set xs"
    using chain_mem [OF ch(1) that] by (auto simp: block_ok_def)
  show "c + bsize (m c) \<le> b \<and> b + bsize (m b) \<le> e \<and> 0 < bsize (m b)" if "b \<in> set ys"
    using chain_mem [OF ch(2) that] by (auto simp: block_ok_def)
qed

lemma dpend_list:
  assumes "dpend m hs e xs c ys fs"
  shows "dll m hs fs e" "0 < e" "0 \<notin> set fs" "c \<noteq> hs" "distinct (hs # fs @ [e])" "c \<notin> set (hs # fs @ [e])"
    "c \<notin> set xs \<union> set ys" "\<And>x. x \<in> set xs \<union> set ys \<Longrightarrow> x \<noteq> hs \<and> x \<noteq> e \<and> x \<noteq> c"
proof -
  show "dll m hs fs e" using assms by (simp add: dpend_def)
  show "0 < e" using dpend_bounds(2,5) [OF assms] by simp
  show ne: "x \<noteq> hs \<and> x \<noteq> e \<and> x \<noteq> c" if "x \<in> set xs \<union> set ys" for x
    using that dpend_bounds [OF assms] by fastforce
  then show "c \<notin> set xs \<union> set ys" by blast
  have fs: "set fs \<subseteq> set xs" "distinct fs" using assms by (auto simp: dpend_def)
  then show "0 \<notin> set fs" using dpend_bounds(6,7) [OF assms] by fastforce
  show "c \<noteq> hs" using dpend_bounds(1) [OF assms] by simp
  show "distinct (hs # fs @ [e])" using fs ne dpend_bounds(1,2) [OF assms] by fastforce
  show "c \<notin> set (hs # fs @ [e])" using fs ne dpend_bounds(1-3) [OF assms] by fastforce
qed

lemma defrag_keep_scan:
  assumes p: "dpend m hs e xs c ys fs"
  defines "m' \<equiv> defrag_keep hs m c (c + bsize (m c))"
  shows "dscan m' hs e (xs @ [c]) (c + bsize (m c)) ys (c # fs)"
    "same_live m m' (set xs \<union> set ys)" "bsize (m' c) = bsize (m c)" "bsize (m' e) = bsize (m e)"
    "is_free m' c"
proof -
  let ?n = "c + bsize (m c)" and ?l = "link_free_block_at_start hs m c"
  note L = dpend_list [OF p] and b = dpend_bounds [OF p]
  note keeps = link_keeps [OF L(1-4)]
  have fs: "set fs = {b \<in> set xs. is_free m b}" using p by (simp add: dpend_def)
  have st: "is_free m' x = is_free ?l x" "bsize (m' x) = bsize (m x)" "fprev (m' x) = fprev (?l x)" for x
    by (simp_all add: m'_def defrag_keep_def Let_def is_free_def)
  have ps: "prev_size (m' x) = (if x = ?n then bsize (m c) else if x = c then 0 else prev_size (m x))" for x
    by (simp add: m'_def defrag_keep_def Let_def)
  have fl: "is_free ?l x = is_free m x" if "x \<in> set xs \<union> set ys" for x
    using keeps(1) L(8) [OF that] by blast
  have cf: "is_free ?l c" by (rule keeps(2))
  have nf: "\<not> is_free m x \<Longrightarrow> fprev (?l x) = fprev (m x)" if "x \<in> set xs \<union> set ys" for x
    using keeps(3) [of x] L(8) [OF that] fs dpend_def p that by fastforce
  show sl: "same_live m m' (set xs \<union> set ys)"
    using st fl nf by (auto simp: same_live_def)
  show "bsize (m' c) = bsize (m c)" "bsize (m' e) = bsize (m e)" "is_free m' c" using st cf by auto
  have nf_n: "\<not> is_free m' ?n"
  proof -
    have "?n \<noteq> hs" "?n \<noteq> c" "\<not> is_free m ?n" using b(1,3) p by (auto simp: dpend_def)
    then show ?thesis using keeps(1) st by simp
  qed
  have chx: "chain m (first_block hs) xs c" and chy: "chain m ?n ys e" using p by (auto simp: dpend_def)
  have cx: "chain m' (first_block hs) xs c"
  proof (rule chain_same_tags [OF chx])
    fix x assume x: "x \<in> set xs"
    with st fl nf show "bsize (m' x) = bsize (m x) \<and> is_free m' x = is_free m x \<and>
        (\<not> is_free m x \<longrightarrow> fprev (m' x) = fprev (m x))" by auto
  next
    fix x assume x: "x \<in> set (xs @ [c])" "x \<noteq> first_block hs"
    show "prev_size (m' x) = prev_size (m x)"
    proof (cases "x = c")
      case True
      with x(2) chx have ne: "xs \<noteq> []" by auto
      then have x2: "xs = butlast xs @ [last xs]" by simp
      have "chain m (first_block hs) (butlast xs @ [last xs]) c" using chx x2 by simp
      then have "prev_size (m c) = tag m (last xs)" by (auto simp: chain_append)
      moreover have "\<not> is_free m (last xs)" using p ne by (auto simp: dpend_def)
      ultimately show ?thesis using True b(3) by (simp add: ps tag_def)
    next
      case False
      with x(1) b(7) [of x] b(3) show ?thesis by (auto simp: ps)
    qed
  next
    assume "xs \<noteq> []" "is_free m (first_block hs)"
    with chx have "hd xs = first_block hs" "hd xs \<in> set xs" by (cases xs, auto)+
    with b(7) [of "hd xs"] b(3) have "first_block hs \<noteq> c" "first_block hs \<noteq> ?n" by auto
    then show "prev_size (m' (first_block hs)) = 0" using p by (simp add: ps dpend_def frame_ok_def)
  qed
  have cy: "chain m' ?n ys e"
  proof (rule chain_same_tags [OF chy])
    fix x assume x: "x \<in> set ys"
    with st fl nf show "bsize (m' x) = bsize (m x) \<and> is_free m' x = is_free m x \<and>
        (\<not> is_free m x \<longrightarrow> fprev (m' x) = fprev (m x))" by auto
  next
    fix x assume "x \<in> set (ys @ [e])" "x \<noteq> ?n"
    moreover have "x \<noteq> c" using \<open>x \<in> set (ys @ [e])\<close> b(2,3) b(8) [of x] by auto
    ultimately show "prev_size (m' x) = prev_size (m x)" by (simp add: ps)
  next
    assume "ys \<noteq> []" "is_free m ?n"
    with p show "prev_size (m' ?n) = 0" by (simp add: dpend_def)
  qed
  have "chain m' (first_block hs) (xs @ [c]) ?n"
    using cx p st cf b(3) by (auto simp: chain_append block_ok_def dpend_def ps tag_def)
  moreover have "dll m' hs (c # fs) e"
  proof -
    have "dll ?l hs (c # fs) e" by (rule dll_link [OF L(1,5,6)])
    moreover have "fnext (m' x) = fnext (?l x)" for x by (simp add: m'_def defrag_keep_def Let_def)
    ultimately show ?thesis using dll_cong [of hs "c # fs" m' ?l e] st by simp
  qed
  moreover have "frame_ok m' hs e"
  proof -
    have "hs \<noteq> e" "hs \<noteq> c" using b(1-3) by auto
    then have "\<not> is_free m' e" using keeps(1) [of e] L(6) st p by (auto simp: dpend_def frame_ok_def)
    moreover have "prev_size (m' (first_block hs)) = 0"
      using p b(1,3) by (auto simp: ps dpend_def frame_ok_def)
    ultimately show ?thesis using p st by (auto simp: dpend_def frame_ok_def)
  qed
  moreover have "set (c # fs) = {b \<in> set (xs @ [c]). is_free m' b}"
    using fs fl cf st by auto
  ultimately show "dscan m' hs e (xs @ [c]) ?n ys (c # fs)"
    using cy p L(6) by (simp add: dscan_def dpend_def)
qed

text \<open>What the swap does to the headers, and that it keeps the shape.\<close>

lemma chain_outside:
  assumes "chain m a bs e" "\<And>x. a \<le> x \<Longrightarrow> x \<le> e \<Longrightarrow> m' x = m x"
  shows "chain m' a bs e"
proof -
  have "chain m' a bs e = chain m a bs e"
  proof (rule chain_cong)
    fix x assume x: "x \<in> set bs"
    have "m' x = m x" "m' (x + bsize (m x)) = m (x + bsize (m x))"
      using chain_mem(1,2) [OF assms(1) x] assms(2) by simp_all
    then show "bsize (m' x) = bsize (m x) \<and> is_free m' x = is_free m x \<and>
        (\<not> is_free m x \<longrightarrow> fprev (m' x) = fprev (m x))"
      "prev_size (m' x) = prev_size (m x)"
      "prev_size (m' (x + bsize (m x))) = prev_size (m (x + bsize (m x)))"
      by (simp_all add: is_free_def)
  qed
  with assms(1) show ?thesis by simp
qed

lemma swap_pend:
  assumes p: "dpend m hs e xs c (n # ys) fs" and n: "n = c + bsize (m c)"
    and r: "r = fprev (m n)" and k: "k = n + bsize (m n)"
    and out: "\<And>x. x < c \<or> k \<le> x \<Longrightarrow> m' x = m x"
    and mc: "m' c = (m n)\<lparr>bsize := r, prev_size := 0\<rparr>"
    and fc: "is_free m' (c + r)" "prev_size (m' (c + r)) = 0"
    and v: "c + r + bsize (m' (c + r)) = (if is_free m k then k + bsize (m k) else k)"
  shows "dpend m' hs e (xs @ [c]) (c + r) (if is_free m k then tl ys else ys) fs"
    "is_free m k \<Longrightarrow> ys = k # tl ys"
proof -
  note b = dpend_bounds [OF p] and L = dpend_list [OF p]
  have bn: "block_ok m n" "\<not> is_free m n" "chain m k ys e" using p n k by (auto simp: dpend_def)
  then have r2: "8 dvd r" "BHDR \<le> r" "r \<le> bsize (m n)" "8 dvd bsize (m n)" using r by (auto simp: block_ok_def)
  have size_c: "BHDR \<le> bsize (m c)" "8 dvd bsize (m c)" using p by (auto simp: dpend_def)
  have ke: "k \<le> e" using bn(3) by (rule chain_le)
  have fr: "frame_ok m hs e" using p by (simp add: dpend_def)
  have e: "m' e = m e" and h: "m' hs = m hs" using out ke b(1) by auto
  have chx0: "chain m (first_block hs) xs c" using p by (simp add: dpend_def)
  show ys: "ys = k # tl ys" if "is_free m k"
  proof -
    have "k \<noteq> e" using that fr by (auto simp: frame_ok_def)
    with bn(3) show ?thesis by (cases ys) auto
  qed
  let ?ys = "if is_free m k then tl ys else ys" and ?k = "if is_free m k then k + bsize (m k) else k"
  have rest: "chain m ?k ?ys e \<and> \<not> is_free m ?k \<and> k \<le> ?k \<and> 8 dvd ?k - k"
  proof (cases "is_free m k")
    case True
    from ys [OF True] obtain zs where z: "ys = k # zs" by blast
    then have c: "block_ok m k" "prev_size (m (k + bsize (m k))) = tag m k" "chain m (k + bsize (m k)) zs e"
      using bn(3) by auto
    have "\<not> is_free m (k + bsize (m k))"
    proof
      assume g: "is_free m (k + bsize (m k))"
      then have "k + bsize (m k) \<noteq> e" using fr by (auto simp: frame_ok_def)
      then have "block_ok m (k + bsize (m k))" using c(3) by (cases zs) auto
      with g c True show False by (auto simp: block_ok_def tag_def)
    qed
    with c z True show ?thesis by (auto simp: block_ok_def)
  next
    case False
    then show ?thesis using bn(3) by simp
  qed
  have kk: "c + r + BHDR \<le> k" using n k r2 size_c by simp
  have chk: "chain m' ?k ?ys e"
    by (rule chain_outside [of m]) (use rest out in auto)
  have nf: "\<not> is_free m' ?k" using rest out [of ?k] by (simp add: is_free_def)
  have cx: "chain m' (first_block hs) xs c"
  proof -
    have "chain m' (first_block hs) xs c"
    proof (rule chain_same_tags [OF chx0])
      fix x assume "x \<in> set xs"
      with b(7) [of x] have "m' x = m x" using out by force
      then show "bsize (m' x) = bsize (m x) \<and> is_free m' x = is_free m x \<and>
          (\<not> is_free m x \<longrightarrow> fprev (m' x) = fprev (m x))" by (simp add: is_free_def)
    next
      fix x assume x: "x \<in> set (xs @ [c])" "x \<noteq> first_block hs"
      show "prev_size (m' x) = prev_size (m x)"
      proof (cases "x = c")
        case True
        with x(2) chx0 have ne: "xs \<noteq> []" by auto
        then have "chain m (first_block hs) (butlast xs @ [last xs]) c" using chx0 by simp
        then have "prev_size (m c) = tag m (last xs)" by (auto simp: chain_append)
        moreover have "\<not> is_free m (last xs)" using p ne by (auto simp: dpend_def)
        ultimately show ?thesis using True mc by (simp add: tag_def)
      next
        case False
        with x(1) b(7) [of x] show ?thesis using out [of x] by force
      qed
    next
      assume "xs \<noteq> []" "is_free m (first_block hs)"
      then have "first_block hs < c" using chx0 b(7) [of "hd xs"] by (cases xs) auto
      then show "prev_size (m' (first_block hs)) = 0" using out fr by (simp add: frame_ok_def)
    qed
    then show ?thesis .
  qed
  have bc: "block_ok m' c" "\<not> is_free m' c" "bsize (m' c) = r"
    using mc bn(2) r r2 by (auto simp: block_ok_def is_free_def)
  show "dpend m' hs e (xs @ [c]) (c + r) ?ys fs"
  proof -
    have "chain m' (first_block hs) (xs @ [c]) (c + r)"
      using cx bc fc(2) by (auto simp: chain_append tag_def)
    moreover have fs: "set fs = {b \<in> set xs. is_free m b}" "distinct fs" "dll m hs fs e"
      using p by (auto simp: dpend_def)
    have xs: "m' x = m x" if "x \<in> set xs" for x using b(7) [OF that] out [of x] by simp
    have "dll m' hs fs e = dll m hs fs e" by (rule dll_cong) (use xs fs(1) e h in auto)
    moreover have "set fs = {b \<in> set (xs @ [c]). is_free m' b}"
      using fs(1) xs bc(2) by (auto simp: is_free_def)
    moreover have "frame_ok m' hs e"
    proof -
      have "prev_size (m' (first_block hs)) = 0"
        using out [of "first_block hs"] mc fr b(1) by (cases "first_block hs = c") (auto simp: frame_ok_def)
      then show ?thesis using fr e h by (simp add: frame_ok_def is_free_def)
    qed
    moreover have "8 dvd bsize (m' (c + r)) \<and> BHDR \<le> bsize (m' (c + r))"
    proof -
      have s: "c + r + bsize (m' (c + r)) = ?k" using v by simp
      have "8 dvd k - (c + r)" using n k r2 size_c by simp
      then have "8 dvd (k - (c + r)) + (?k - k)" using rest by (intro dvd_add) auto
      also have "(k - (c + r)) + (?k - k) = bsize (m' (c + r))" using s kk rest by linarith
      finally show ?thesis using s kk rest by linarith
    qed
    ultimately show ?thesis
      using fs chk nf bc(2) fc(1) v by (simp add: dpend_def)
  qed
qed

subsection \<open>The contract with the owner of the allocations\<close>

text \<open>The live allocations: payload offset and usable size.\<close>

definition allocs :: "bmem \<Rightarrow> nat list \<Rightarrow> nat \<Rightarrow> nat option" where
  "allocs m bs p =
     (if BHDR \<le> p \<and> p - BHDR \<in> set bs \<and> \<not> is_free m (p - BHDR) then Some (fprev (m (p - BHDR)) - BHDR)
      else None)"

lemma allocs_eq:
  assumes "live_of m' (set bs') = live_of m (set bs)" "same_live m m' (live_of m (set bs))"
  shows "allocs m' bs' = allocs m bs"
proof
  fix p
  have "p - BHDR \<in> live_of m' (set bs') \<longleftrightarrow> p - BHDR \<in> live_of m (set bs)" using assms(1) by simp
  then show "allocs m' bs' p = allocs m bs p"
    using assms(2) by (auto simp: allocs_def live_of_def same_live_def)
qed

lemma allocs_Some:
  "allocs m bs p = Some n \<longleftrightarrow> (\<exists>b. p = b + BHDR \<and> b \<in> set bs \<and> \<not> is_free m b \<and> n = fprev (m b) - BHDR)"
proof
  assume "\<exists>b. p = b + BHDR \<and> b \<in> set bs \<and> \<not> is_free m b \<and> n = fprev (m b) - BHDR"
  then show "allocs m bs p = Some n" by (auto simp: allocs_def)
qed (auto simp: allocs_def split: if_splits intro!: exI [of _ "p - BHDR"])

text \<open>
  \<open>J A s\<close>: the objects in the allocations \<open>A\<close> form a valid structure. It depends on no byte outside
  them; the callback refuses without effect, or redirects all references to the object at \<open>p\<close> so that
  the structure is valid once its bytes have been moved to \<open>q\<close>.
\<close>

locale relocatable =
  fixes J :: "(nat \<Rightarrow> nat option) \<Rightarrow> ('p, 'z) sma_scheme \<Rightarrow> bool"
    and move :: "nat \<Rightarrow> nat \<Rightarrow> ('p, 'z) sma_scheme \<Rightarrow> bool \<times> ('p, 'z) sma_scheme"
  assumes J_frame: "J A s \<Longrightarrow> \<forall>p n x. A p = Some n \<and> p \<le> x \<and> x < p + n \<longrightarrow> d x = dat s x \<Longrightarrow>
      J A (s\<lparr>blk := m, dat := d, avail := a, sma_locked := l, sma_lock_results := rs\<rparr>)"
    and move_no: "J A s \<Longrightarrow> A p = Some n \<Longrightarrow> move p q s = (False, s') \<Longrightarrow> s' = s"
    and move_yes: "J A s \<Longrightarrow> A p = Some n \<Longrightarrow> q < p \<Longrightarrow> first_block (hdr_size s) + BHDR \<le> q \<Longrightarrow>
      \<forall>p' n'. A p' = Some n' \<and> p' \<noteq> p \<longrightarrow> p' \<noteq> q \<and> (q + n \<le> p' \<or> p' + n' \<le> q) \<Longrightarrow>
      move p q s = (True, s1) \<Longrightarrow>
      \<exists>d. s1 = s\<lparr>dat := d\<rparr> \<and> J ((A(p := None))(q \<mapsto> n)) (s\<lparr>dat := memmove d q p n\<rparr>)"

definition freeb :: "bmem \<Rightarrow> nat list \<Rightarrow> nat" where
  "freeb m bs = free_bytes m (filter (is_free m) bs)"

lemma freeb_simps [simp]:
  "freeb m [] = 0" "freeb m (b # bs) = (if is_free m b then bsize (m b) else 0) + freeb m bs"
  "freeb m (as @ bs) = freeb m as + freeb m bs"
  by (simp_all add: freeb_def)

lemma freeb_same: "same_live m m' (set bs) \<Longrightarrow> freeb m' bs = freeb m bs"
  by (induction bs) (auto simp: same_live_def)

lemma freeb_list:
  assumes "heap_inv m hs e bs fs"
  shows "freeb m bs = free_bytes m fs"
proof -
  have d: "distinct fs" "distinct bs" "set fs = {b \<in> set bs. is_free m b}"
    using assms by (auto simp: heap_inv_def dest: chain_distinct)
  then have "(\<Sum>b\<in>set fs. bsize (m b)) = (\<Sum>b\<in>set (filter (is_free m) bs). bsize (m b))" by simp
  with d show ?thesis by (simp add: freeb_def free_bytes_def sum_list_distinct_conv_sum_set)
qed

lemma freeb_bound: "chain m a bs e \<Longrightarrow> a + freeb m bs \<le> e"
proof (induction bs arbitrary: a)
  case (Cons b bs)
  have "chain m (b + bsize (m b)) bs e" "b = a" using Cons.prems by auto
  from Cons.IH [OF this(1)] this(2) show ?case by auto
qed simp

subsection \<open>The steps of the loop\<close>

lemma dpend_reset:
  "dpend (set_prev_size m c 0) hs e xs c ys fs \<Longrightarrow>
     is_free m c \<and> next_sblock m c = c + bsize (m c) \<and> bsize (m c) \<noteq> 0 \<and> fnext (m c) \<noteq> 0"
  using dpend_bounds(2-4) [of "set_prev_size m c 0" hs e xs c ys fs]
  by (auto simp: dpend_def is_free_def next_sblock_def uadd_small)

lemma free_set_prev_size [simp]: "is_free (set_prev_size m c v) = is_free m"
  by (simp add: is_free_def fun_eq_iff)

lemma allocs_set_prev_size [simp]: "allocs (set_prev_size m c v) = allocs m"
  by (simp add: allocs_def fun_eq_iff)

lemma freeb_set_prev_size [simp]: "freeb (set_prev_size m c v) = freeb m"
  by (simp add: freeb_def free_bytes_def fun_eq_iff)

lemma swap_facts:
  assumes p: "dpend (set_prev_size m c 0) hs e xs c (n # ys) fs"
  shows "n = c + bsize (m c)" "block_ok m n" "\<not> is_free m n" "8 dvd fprev (m n)" "BHDR \<le> fprev (m n)"
    "fprev (m n) \<le> bsize (m n)" "BHDR \<le> bsize (m c)" "n + bsize (m n) \<le> e" "e + BHDR < SEG_MAX"
    "\<And>b. b \<in> set xs \<Longrightarrow> b + bsize (m b) \<le> c \<and> 0 < bsize (m b)"
    "\<And>b. b \<in> set ys \<Longrightarrow> n + bsize (m n) \<le> b \<and> 0 < bsize (m b)"
    "chain m (n + bsize (m n)) ys e"
proof -
  let ?m = "set_prev_size m c 0"
  note b = dpend_bounds [OF p]
  show n: "n = c + bsize (m c)" using p by (simp add: dpend_def)
  show "BHDR \<le> bsize (m c)" using p by (simp add: dpend_def)
  then have nc: "n \<noteq> c" using n by simp
  show nf: "\<not> is_free m n" using p n by (simp add: dpend_def)
  have "block_ok ?m n" using p n by (simp add: dpend_def)
  then show bo: "block_ok m n" using nc by (auto simp: block_ok_def)
  with nf show "8 dvd fprev (m n)" "BHDR \<le> fprev (m n)" "fprev (m n) \<le> bsize (m n)" by (simp_all add: block_ok_def)
  show "n + bsize (m n) \<le> e" "e + BHDR < SEG_MAX" using b(4) b(8) [of n] by simp_all
  show "\<And>b. b \<in> set xs \<Longrightarrow> b + bsize (m b) \<le> c \<and> 0 < bsize (m b)" using b(7) by simp
  have ch: "chain ?m (n + bsize (m n)) ys e" using p n by (simp add: dpend_def)
  show "\<And>b. b \<in> set ys \<Longrightarrow> n + bsize (m n) \<le> b \<and> 0 < bsize (m b)"
    using chain_mem(1,3) [OF ch] by (fastforce simp: block_ok_def)
  show "chain m (n + bsize (m n)) ys e"
    by (rule chain_outside [OF ch]) (use n \<open>BHDR \<le> bsize (m c)\<close> in \<open>auto simp: set_prev_size_def\<close>)
qed

lemma defrag_swap_eq:
  assumes p: "dpend (set_prev_size (blk s) c 0) hs e xs c (n # ys) fs"
  defines "r \<equiv> fprev (blk s n)" and "k \<equiv> n + bsize (blk s n)"
  obtains m' where "defrag_swap s c n = (s\<lparr>blk := m', dat := memmove (dat s) c n r\<rparr>, c + r, bsize (blk s n) - r)"
    "\<And>x. x < c \<or> k \<le> x \<Longrightarrow> m' x = blk s x" "m' c = (blk s n)\<lparr>bsize := r, prev_size := 0\<rparr>"
    "is_free m' (c + r)"
    "c + r + bsize (m' (c + r)) = (if is_free (blk s) k then k + bsize (blk s k) else k)"
proof -
  let ?m = "blk s"
  note f = swap_facts [OF p]
  let ?slack = "bsize (?m n) - r" and ?free = "bsize (?m n) - r + bsize (?m c)"
  define m1 where "m1 = set_size ?m n r"
  define m2 where "m2 = set_prev_size (memmove m1 c n r) c 0"
  define m3 where "m3 = set_fnext (set_size m2 (c + r) ?free) (c + r) 1"
  define m4 where "m4 = (if fnext (m3 k) \<noteq> 0 then set_size m3 (c + r) (?free + bsize (m3 k)) else m3)"
  have u: "usub (bsize (?m n)) r = ?slack" "usub (bsize (?m n)) ?slack = r" "uadd ?slack (bsize (?m c)) = ?free"
    using f by (simp_all add: r_def usub_small uadd_small)
  have r: "BHDR \<le> r" "c + r + ?free = k" "c + r + BHDR \<le> k" using f by (simp_all add: r_def k_def)
  have n1: "bsize (m1 n) = r" by (simp add: m1_def)
  have m2c: "m2 c = (?m n)\<lparr>bsize := r, prev_size := 0\<rparr>"
    using r by (simp add: m2_def memmove_def m1_def set_prev_size_def set_size_def)
  have m2o: "m2 x = ?m x" if "x < c \<or> k \<le> x" for x
  proof -
    have "c < n" "n < k" using f(1,5,6,7) by (simp_all add: k_def)
    with that r have "x \<noteq> c" "\<not> (c \<le> x \<and> x < c + r)" "x \<noteq> n" by auto
    then show ?thesis by (auto simp: m2_def memmove_def m1_def set_prev_size_def set_size_def)
  qed
  have nm2: "next_sblock m2 c = c + r" using m2c r f(8,9) by (simp add: next_sblock_def k_def uadd_small)
  have nm3: "next_sblock m3 (c + r) = k"
    using r f(8,9) by (simp add: next_sblock_def m3_def k_def uadd_small)
  have m3k: "m3 k = ?m k" using r m2o [of k] by (simp add: m3_def set_fnext_def set_size_def)
  have ua: "uadd ?free (bsize (m3 k)) = ?free + bsize (m3 k)" if "fnext (m3 k) \<noteq> 0"
  proof -
    have "is_free ?m k" using that m3k by (simp add: is_free_def)
    moreover have "\<not> is_free ?m e" using p by (simp add: dpend_def frame_ok_def)
    ultimately obtain y ys' where y: "ys = y # ys'" using f(12) by (cases ys) (auto simp: k_def)
    have "chain ?m k (y # ys') e" using f(12) unfolding y k_def .
    then have "y = k" "chain ?m (y + bsize (?m y)) ys' e" unfolding chain.simps by blast+
    then have "chain ?m (k + bsize (?m k)) ys' e" by blast
    then have "k + bsize (?m k) \<le> e" by (rule chain_le)
    then show ?thesis using f(9) r m3k by (intro uadd_small) simp
  qed
  have n1c: "bsize (m1 c) = bsize (?m c)" using f(1,7) by (simp add: m1_def)
  have b3: "bsize (m3 (c + r)) = ?free" by (simp add: m3_def)
  have "defrag_swap s c n = (s\<lparr>blk := m4, dat := memmove (dat s) c n r\<rparr>, c + r, ?slack)"
    unfolding defrag_swap_def Let_def r_def [symmetric] u(1,2) m1_def [symmetric] n1c u(3) n1
      m2_def [symmetric] nm2 m3_def [symmetric] nm3 b3
    using ua by (simp add: m4_def)
  moreover have "m4 x = ?m x" if "x < c \<or> k \<le> x" for x
    using m2o [OF that] that r by (auto simp: m4_def m3_def set_fnext_def set_size_def)
  moreover have "m4 c = (?m n)\<lparr>bsize := r, prev_size := 0\<rparr>"
    using m2c r by (auto simp: m4_def m3_def set_fnext_def set_size_def)
  moreover have "is_free m4 (c + r)" by (simp add: m4_def m3_def is_free_def)
  moreover have "c + r + bsize (m4 (c + r)) = (if is_free ?m k then k + bsize (?m k) else k)"
    using r(2) m3k by (auto simp: m4_def m3_def is_free_def)
  ultimately show thesis by (rule that)
qed

lemma defrag_swap_step:
  assumes p: "dpend (set_prev_size (blk s) c 0) hs e xs c (n # ys) fs"
  defines "r \<equiv> fprev (blk s n)" and "k \<equiv> n + bsize (blk s n)"
  obtains m' ys' where "defrag_swap s c n = (s\<lparr>blk := m', dat := memmove (dat s) c n r\<rparr>, c + r, bsize (blk s n) - r)"
    "dpend (set_prev_size m' (c + r) 0) hs e (xs @ [c]) (c + r) ys' fs" "length ys' \<le> length ys"
    "allocs m' (xs @ c # (c + r) # ys') = (allocs (blk s) (xs @ c # n # ys))(n + BHDR := None, c + BHDR \<mapsto> r - BHDR)"
    "freeb m' (xs @ c # (c + r) # ys') = freeb (blk s) (xs @ c # n # ys) + (bsize (blk s n) - r)"
proof -
  let ?m = "blk s"
  note f = swap_facts [OF p]
  obtain m' where q: "defrag_swap s c n = (s\<lparr>blk := m', dat := memmove (dat s) c n r\<rparr>, c + r, bsize (?m n) - r)"
    "\<And>x. x < c \<or> k \<le> x \<Longrightarrow> m' x = ?m x" "m' c = (?m n)\<lparr>bsize := r, prev_size := 0\<rparr>"
    "is_free m' (c + r)" "c + r + bsize (m' (c + r)) = (if is_free ?m k then k + bsize (?m k) else k)"
    using defrag_swap_eq [OF p] unfolding r_def k_def by blast
  have r: "BHDR \<le> r" "r \<le> bsize (?m n)" "c + r < k" "c < n" "n < k"
    using f(1,5,6,7) by (simp_all add: r_def k_def)
  let ?mz = "set_prev_size ?m c 0" and ?m' = "set_prev_size m' (c + r) 0"
  let ?ys = "if is_free ?m k then tl ys else ys"
  have k0: "k = n + bsize (?mz n)" "r = fprev (?mz n)" "n = c + bsize (?mz c)" using f(1) by (simp_all add: k_def r_def)
  have out: "?m' x = ?mz x" if "x < c \<or> k \<le> x" for x
    using q(2) [OF that] that r by (auto simp: set_prev_size_def)
  have mc: "?m' c = (?mz n)\<lparr>bsize := r, prev_size := 0\<rparr>" using q(3) r by (simp add: set_prev_size_def)
  have v: "c + r + bsize (?m' (c + r)) = (if is_free ?mz k then k + bsize (?mz k) else k)" using q(5) by simp
  have fc: "is_free ?m' (c + r)" "prev_size (?m' (c + r)) = 0" using q(4) by simp_all
  note sw = swap_pend [OF p k0(3,2,1) out mc fc v]
  have dp: "dpend ?m' hs e (xs @ [c]) (c + r) ?ys fs" using sw(1) by simp
  have ys: "ys = k # ?ys" if "is_free ?m k" using sw(2) that by simp
  have xs: "m' x = ?m x" if "x \<in> set xs" for x using f(10) [OF that] q(2) [of x] by simp
  have yk: "m' x = ?m x" if "x \<in> set ys" for x using f(11) [OF that] q(2) [of x] by (simp add: k_def)
  have sub: "set ?ys \<subseteq> set ys" by (cases ys) auto
  have cf: "is_free ?m c" using dpend_reset [OF p] by blast
  have mc': "\<not> is_free m' c" "fprev (m' c) = r" using q(3) f(3) by (simp_all add: is_free_def r_def)
  have nin: "n \<notin> set xs" using f(10) [of n] r(4) by linarith
  have nin2: "n \<notin> set ys" using f(11) [of n] f(5,6) by linarith
  have ok: "allocs m' (xs @ c # (c + r) # ?ys) x =
      ((allocs ?m (xs @ c # n # ys))(n + BHDR := None, c + BHDR \<mapsto> r - BHDR)) x" for x
  proof (cases "BHDR \<le> x \<and> x - BHDR \<noteq> c")
    case False
    then have "x < BHDR \<or> x = c + BHDR" by auto
    then show ?thesis
    proof
      assume "x < BHDR"
      then show ?thesis by (simp add: allocs_def)
    next
      assume "x = c + BHDR"
      then show ?thesis using mc' by (simp add: allocs_def)
    qed
  next
    case True
    let ?b = "x - BHDR"
    have x: "x = ?b + BHDR" "?b \<noteq> c" using True by auto
    have l: "?b \<in> set (xs @ c # (c + r) # ?ys) \<and> \<not> is_free m' ?b \<longleftrightarrow>
        ?b \<in> set xs \<union> set ys \<and> \<not> is_free ?m ?b"
    proof -
      have sy: "b \<in> set ys \<and> \<not> is_free ?m b \<longleftrightarrow> b \<in> set ?ys \<and> \<not> is_free ?m b" for b
      proof (cases "is_free ?m k")
        case True
        with ys obtain zs where "ys = k # zs" by blast
        with True show ?thesis by auto
      qed simp
      have "is_free m' b = is_free ?m b" if "b \<in> set xs \<union> set ys" for b
        using that xs yk by (auto simp: is_free_def)
      moreover have "?b \<noteq> c + r \<or> is_free m' ?b" using q(4) by auto
      ultimately show ?thesis using sy [of ?b] sub x(2) q(4)
        unfolding set_append list.set Un_iff insert_iff by blast
    qed
    have m: "?b \<in> set xs \<union> set ys \<Longrightarrow> fprev (m' ?b) = fprev (?m ?b)" using xs yk by auto
    show ?thesis
    proof (cases "?b = n")
      case True
      with l nin nin2 x show ?thesis by (auto simp: allocs_def)
    next
      case False
      with l m x show ?thesis by (auto simp: allocs_def)
    qed
  qed
  have fr: "freeb m' xs = freeb ?m xs" "freeb m' ?ys = freeb ?m ?ys"
  proof -
    have "same_live ?m m' (set xs)" "same_live ?m m' (set ys)"
      using xs yk by (simp_all add: same_live_def is_free_def)
    then show "freeb m' xs = freeb ?m xs" "freeb m' ?ys = freeb ?m ?ys"
      using freeb_same same_live_mono [OF _ sub] by blast+
  qed
  have "freeb ?m ys = freeb ?m ?ys + (if is_free ?m k then bsize (?m k) else 0)"
  proof (cases "is_free ?m k")
    case True
    then show ?thesis by (subst ys [OF True]) simp
  qed simp
  moreover have "bsize (m' (c + r)) = bsize (?m c) + (bsize (?m n) - r) + (if is_free ?m k then bsize (?m k) else 0)"
    using q(5) r f(1) by (auto simp: k_def)
  ultimately have "freeb m' (xs @ c # (c + r) # ?ys) = freeb ?m (xs @ c # n # ys) + (bsize (?m n) - r)"
    using fr mc' q(4) cf f(3) by simp
  moreover have "length ?ys \<le> length ys" by simp
  ultimately show thesis using that [OF q(1) dp] ok by blast
qed

lemma defrag_keep_reset: "c \<noteq> n \<Longrightarrow> defrag_keep hs (set_prev_size m c 0) c n = defrag_keep hs m c n"
  by (rule bmem_eqI) (auto simp: defrag_keep_def Let_def link_free_block_at_start_def)

lemma set_prev_size_same: "prev_size (m c) = v \<Longrightarrow> set_prev_size m c v = m"
  by (rule bmem_eqI) auto

lemma dpend_freeb:
  assumes "dpend (set_prev_size m c 0) hs e xs c ys fs"
  shows "freeb m (xs @ c # ys) \<le> e"
proof -
  let ?m = "set_prev_size m c 0"
  have "chain ?m (first_block hs) xs c" "chain ?m (c + bsize (?m c)) ys e" using assms by (simp_all add: dpend_def)
  from freeb_bound [OF this(1)] freeb_bound [OF this(2)] show ?thesis by simp
qed

subsection \<open>The loop, under the contract\<close>

context relocatable
begin

lemma J_blk: "J A s \<Longrightarrow> J A (s\<lparr>blk := m\<rparr>)"
  using J_frame [where A = A and s = s and d = "dat s" and m = m and a = "avail s" and l = "sma_locked s"
      and rs = "sma_lock_results s"] by simp

definition scan_ok where
  "scan_ok a0 s e xs cur zs rec fs \<longleftrightarrow> dscan (blk s) (hdr_size s) e xs cur zs fs \<and>
     J (allocs (blk s) (xs @ zs)) s \<and> rec + a0 = freeb (blk s) (xs @ zs)"

definition pend_ok where
  "pend_ok a0 s e xs c ys rec fs \<longleftrightarrow> dpend (set_prev_size (blk s) c 0) (hdr_size s) e xs c ys fs \<and>
     J (allocs (blk s) (xs @ c # ys)) s \<and> rec + a0 = freeb (blk s) (xs @ c # ys)"

lemma scan_end:
  assumes "scan_ok a0 s e xs cur [] rec fs"
  shows "defrag_loop move cur rec s = Some (rec, s)" "heap_inv (blk s) (hdr_size s) e xs fs"
    "J (allocs (blk s) xs) s" "rec + a0 = freeb (blk s) xs"
proof -
  have d: "cur = e" "heap_inv (blk s) (hdr_size s) e xs fs"
    using assms dscan_done by (auto simp: scan_ok_def)
  then show "heap_inv (blk s) (hdr_size s) e xs fs" by simp
  then have "bsize (blk s e) = 0" by (rule heap_inv_walk(5))
  with d(1) show "defrag_loop move cur rec s = Some (rec, s)" by (subst defrag_loop.simps) simp
  show "J (allocs (blk s) xs) s" "rec + a0 = freeb (blk s) xs" using assms by (simp_all add: scan_ok_def)
qed

lemma scan_alloc:
  assumes s: "scan_ok a0 s e xs cur (b # zs) rec fs" and nf: "\<not> is_free (blk s) b"
  shows "defrag_loop move cur rec s = defrag_loop move (cur + bsize (blk s cur)) rec s"
    "scan_ok a0 s e (xs @ [b]) (cur + bsize (blk s cur)) zs rec fs"
proof -
  have d: "dscan (blk s) (hdr_size s) e xs cur (b # zs) fs" using s by (simp add: scan_ok_def)
  note k = dscan_skip [OF d nf]
  then show "scan_ok a0 s e (xs @ [b]) (cur + bsize (blk s cur)) zs rec fs"
    using s by (simp add: scan_ok_def)
  have "block_ok (blk s) cur" "chain (blk s) (cur + bsize (blk s cur)) zs e" "e + BHDR < SEG_MAX"
    using d by (auto simp: dscan_def frame_ok_def)
  then have "bsize (blk s cur) \<noteq> 0" "next_sblock (blk s) cur = cur + bsize (blk s cur)"
    using chain_le [of "blk s" "cur + bsize (blk s cur)" zs e]
    by (auto simp: block_ok_def next_sblock_def uadd_small)
  with nf k(1) show "defrag_loop move cur rec s = defrag_loop move (cur + bsize (blk s cur)) rec s"
    by (simp add: defrag_loop.simps [of move cur rec s] is_free_def)
qed

lemma scan_free:
  assumes s: "scan_ok a0 s e xs cur (b # zs) rec fs" and f: "is_free (blk s) b"
  shows "pend_ok a0 s e xs cur zs rec fs"
proof -
  have d: "dscan (blk s) (hdr_size s) e xs cur (b # zs) fs" using s by (simp add: scan_ok_def)
  have "prev_size (blk s cur) = 0" using d f by (auto simp: dscan_def block_ok_def)
  then have "set_prev_size (blk s) cur 0 = blk s" by (rule set_prev_size_same)
  with dscan_pend [OF d f] s show ?thesis by (simp add: scan_ok_def pend_ok_def)
qed

lemma pend_keep:
  assumes p: "pend_ok a0 s e xs c ys rec fs"
  defines "m' \<equiv> defrag_keep (hdr_size s) (blk s) c (c + bsize (blk s c))"
  shows "\<exists>xs' zs c'. scan_ok a0 (s\<lparr>blk := m'\<rparr>) e xs' c' zs rec (c # fs) \<and> length zs \<le> length ys \<and>
    next_sblock m' (c + bsize (blk s c)) = c'"
proof -
  let ?m = "blk s" and ?n = "c + bsize (blk s c)" and ?hs = "hdr_size s"
  have d: "dpend (set_prev_size ?m c 0) ?hs e xs c ys fs" using p by (simp add: pend_ok_def)
  have bb: "bsize (set_prev_size ?m c 0 c) = bsize (?m c)" by simp
  have "bsize (?m c) \<noteq> 0" using dpend_reset [OF d] by blast
  then have m': "m' = defrag_keep ?hs (set_prev_size ?m c 0) c ?n" by (simp add: m'_def defrag_keep_reset)
  note k = defrag_keep_scan [OF d, unfolded bb, folded m']
  have sl: "same_live ?m m' (set xs \<union> set ys)" using k(2) by (auto simp: same_live_def)
  have cf: "is_free ?m c" using dpend_reset [OF d] by blast
  have al: "allocs m' (xs @ c # ys) = allocs ?m (xs @ c # ys)"
    by (rule allocs_eq) (use sl cf k(5) in \<open>auto simp: same_live_def live_of_def\<close>)
  have fb: "freeb m' (xs @ c # ys) = freeb ?m (xs @ c # ys)"
    using freeb_same [OF same_live_mono [OF sl]] cf k(3,5) by simp
  have ok: "scan_ok a0 (s\<lparr>blk := m'\<rparr>) e (xs @ [c]) ?n ys rec (c # fs)"
    using k(1) p J_blk al fb by (simp add: scan_ok_def pend_ok_def)
  show ?thesis
  proof (cases ys)
    case Nil
    then have "?n = e" using d by (simp add: dpend_def)
    moreover have "bsize (m' e) = 0" "e < U64" using k(4) d by (simp_all add: dpend_def frame_ok_def)
    ultimately have "next_sblock m' ?n = ?n" by (simp add: next_sblock_def uadd_small)
    with ok Nil show ?thesis by auto
  next
    case (Cons n zs)
    have n: "n = ?n" "\<not> is_free ?m n" using d Cons by (auto simp: dpend_def)
    have nf: "\<not> is_free (blk (s\<lparr>blk := m'\<rparr>)) n" using n(2) sl Cons by (simp add: same_live_def)
    have ok2: "scan_ok a0 (s\<lparr>blk := m'\<rparr>) e ((xs @ [c]) @ [n]) (?n + bsize (m' ?n)) zs rec (c # fs)"
      using scan_alloc(2) [OF ok [unfolded Cons] nf] by simp
    then have "chain m' (?n + bsize (m' ?n)) zs e" "e + BHDR < SEG_MAX"
      by (simp_all add: scan_ok_def dscan_def frame_ok_def)
    then have "next_sblock m' ?n = ?n + bsize (m' ?n)"
      using chain_le by (auto simp: next_sblock_def intro!: uadd_small dest!: chain_le)
    with ok2 Cons show ?thesis by (intro exI [of _ "(xs @ [c]) @ [n]"] exI [of _ zs]) simp
  qed
qed

lemma pend_swap:
  assumes p: "pend_ok a0 s e xs c (n # ys) rec fs" and mv: "move (n + BHDR) (c + BHDR) s = (True, s1)"
  shows "\<exists>s2 c2 slack ys'. defrag_swap s1 c n = (s2, c2, slack) \<and> s2 = s\<lparr>blk := blk s2, dat := dat s2\<rparr> \<and>
    pend_ok a0 s2 e (xs @ [c]) c2 ys' (uadd rec slack) fs \<and> length ys' \<le> length ys \<and> blk s1 = blk s"
proof -
  let ?m = "blk s" and ?A = "allocs (blk s) (xs @ c # n # ys)" and ?r = "fprev (blk s n)"
  have d: "dpend (set_prev_size ?m c 0) (hdr_size s) e xs c (n # ys) fs" and J: "J ?A s"
    and acc: "rec + a0 = freeb ?m (xs @ c # n # ys)"
    using p by (simp_all add: pend_ok_def)
  note f = swap_facts [OF d]
  have cf: "is_free ?m c" using dpend_reset [OF d] by blast
  have An: "?A (n + BHDR) = Some (?r - BHDR)" using f(3) by (auto simp: allocs_def)
  have sep: "b \<noteq> c \<and> (c + ?r \<le> b \<or> b + fprev (?m b) \<le> c)"
    if "b \<in> set (xs @ c # n # ys)" "\<not> is_free ?m b" "b \<noteq> n" for b
  proof -
    have "b \<in> set xs \<or> b \<in> set ys" using that cf by auto
    then show ?thesis
    proof
      assume x: "b \<in> set xs"
      have "chain (set_prev_size ?m c 0) (first_block (hdr_size s)) xs c" using d by (simp add: dpend_def)
      from chain_mem(3) [OF this x] have "fprev (?m b) \<le> bsize (?m b)" using that(2) by (simp add: block_ok_def)
      with f(10) [OF x] show ?thesis by linarith
    next
      assume "b \<in> set ys"
      with f(1,6,7) f(11) [of b] show ?thesis by linarith
    qed
  qed
  have "\<forall>p' n'. ?A p' = Some n' \<and> p' \<noteq> n + BHDR \<longrightarrow>
      p' \<noteq> c + BHDR \<and> (c + BHDR + (?r - BHDR) \<le> p' \<or> p' + n' \<le> c + BHDR)"
  proof (intro allI impI)
    fix p' n' assume a: "?A p' = Some n' \<and> p' \<noteq> n + BHDR"
    then obtain b where b: "p' = b + BHDR" "b \<in> set (xs @ c # n # ys)" "\<not> is_free ?m b" "n' = fprev (?m b) - BHDR"
      unfolding allocs_Some by blast
    with a have "b \<noteq> n" by auto
    from sep [OF b(2,3) this] b(1,4) f(5)
    show "p' \<noteq> c + BHDR \<and> (c + BHDR + (?r - BHDR) \<le> p' \<or> p' + n' \<le> c + BHDR)" by auto
  qed
  moreover have "c + BHDR < n + BHDR" using f(1,7) by simp
  moreover have "first_block (hdr_size s) + BHDR \<le> c + BHDR" using dpend_bounds(1) [OF d] by simp
  ultimately obtain dt where dt: "s1 = s\<lparr>dat := dt\<rparr>"
    "J (?A(n + BHDR := None, c + BHDR \<mapsto> ?r - BHDR)) (s\<lparr>dat := memmove dt (c + BHDR) (n + BHDR) (?r - BHDR)\<rparr>)"
    using move_yes [OF J An _ _ _ mv] by blast
  have d1: "dpend (set_prev_size (blk s1) c 0) (hdr_size s) e xs c (n # ys) fs" using d dt(1) by simp
  obtain m' ys' where w: "defrag_swap s1 c n = (s1\<lparr>blk := m', dat := memmove dt c n ?r\<rparr>, c + ?r, bsize (?m n) - ?r)"
    "dpend (set_prev_size m' (c + ?r) 0) (hdr_size s) e (xs @ [c]) (c + ?r) ys' fs" "length ys' \<le> length ys"
    "allocs m' (xs @ c # (c + ?r) # ys') = ?A(n + BHDR := None, c + BHDR \<mapsto> ?r - BHDR)"
    "freeb m' (xs @ c # (c + ?r) # ys') = freeb ?m (xs @ c # n # ys) + (bsize (?m n) - ?r)"
    using defrag_swap_step [OF d1] dt(1) by auto
  let ?s2 = "s\<lparr>blk := m', dat := memmove dt c n ?r\<rparr>"
  have "rec + (bsize (?m n) - ?r) + a0 = freeb m' ((xs @ [c]) @ (c + ?r) # ys')" using w(5) acc by simp
  moreover have "freeb m' ((xs @ [c]) @ (c + ?r) # ys') \<le> e" by (rule dpend_freeb [OF w(2)])
  ultimately have acc2: "uadd rec (bsize (?m n) - ?r) + a0 = freeb m' ((xs @ [c]) @ (c + ?r) # ys')"
    using f(9) by (subst uadd_small) auto
  have al: "allocs m' ((xs @ [c]) @ (c + ?r) # ys') = ?A(n + BHDR := None, c + BHDR \<mapsto> ?r - BHDR)"
    using w(4) by simp
  have "J (allocs m' ((xs @ [c]) @ (c + ?r) # ys')) ?s2"
  proof -
    let ?A' = "?A(n + BHDR := None, c + BHDR \<mapsto> ?r - BHDR)"
      and ?s1 = "s\<lparr>dat := memmove dt (c + BHDR) (n + BHDR) (?r - BHDR)\<rparr>"
    have same: "\<forall>p l x. ?A' p = Some l \<and> p \<le> x \<and> x < p + l \<longrightarrow> memmove dt c n ?r x = dat ?s1 x"
    proof (intro allI impI)
      fix p l x assume a: "?A' p = Some l \<and> p \<le> x \<and> x < p + l"
      show "memmove dt c n ?r x = dat ?s1 x"
      proof (cases "p = c + BHDR")
        case True
        with a f(5) show ?thesis by (auto simp: memmove_def)
      next
        case False
        with a have "?A p = Some l" "p \<noteq> n + BHDR" by (auto split: if_splits)
        then obtain b where b: "p = b + BHDR" "b \<in> set (xs @ c # n # ys)" "\<not> is_free ?m b" "l = fprev (?m b) - BHDR"
          unfolding allocs_Some by blast
        with \<open>p \<noteq> n + BHDR\<close> have "b \<noteq> n" by auto
        from sep [OF b(2,3) this] a b(1,4) have "x < c \<or> c + ?r \<le> x" by auto
        then show ?thesis by (auto simp: memmove_def)
      qed
    qed
    have eq: "?s1\<lparr>blk := m', dat := memmove dt c n ?r, avail := avail ?s1, sma_locked := sma_locked ?s1,
        sma_lock_results := sma_lock_results ?s1\<rparr> = ?s2" by simp
    show ?thesis unfolding al
      using J_frame [OF dt(2) same, where m = m' and a = "avail ?s1" and l = "sma_locked ?s1"
          and rs = "sma_lock_results ?s1"] unfolding eq .
  qed
  then have "pend_ok a0 ?s2 e (xs @ [c]) (c + ?r) ys' (uadd rec (bsize (?m n) - ?r)) fs"
    using w(2) acc2 by (simp add: pend_ok_def)
  moreover have "defrag_swap s1 c n = (?s2, c + ?r, bsize (?m n) - ?r)" using w(1) dt(1) by simp
  ultimately show ?thesis using w(3) dt(1) by auto
qed

text \<open>From either shape the loop ends, in a well-formed heap; if nothing is refused (\<open>one\<close>), with at
  most one free block.\<close>

definition one_ok where
  "one_ok one fin fs \<longleftrightarrow> (one \<longrightarrow> (\<forall>p q s. fst (move p q s)) \<and> (fs = [] \<or> fin \<and> length fs \<le> 1))"

definition loop_ends where
  "loop_ends one a0 s e cur rec \<longleftrightarrow> (\<exists>rec' s' bs fs. defrag_loop move cur rec s = Some (rec', s') \<and>
     heap_inv (blk s') (hdr_size s) e bs fs \<and> J (allocs (blk s') bs) s' \<and> rec' + a0 = freeb (blk s') bs \<and>
     s' = s\<lparr>blk := blk s', dat := dat s'\<rparr> \<and> (one \<longrightarrow> length fs \<le> 1))"

lemma loop_ends_step:
  assumes "defrag_loop move cur rec s = defrag_loop move cur2 rec2 s2" "loop_ends one a0 s2 e cur2 rec2"
    "s2 = s\<lparr>blk := blk s2, dat := dat s2\<rparr>"
  shows "loop_ends one a0 s e cur rec"
proof -
  obtain rec' s' bs fs where l: "defrag_loop move cur2 rec2 s2 = Some (rec', s')"
    "heap_inv (blk s') (hdr_size s2) e bs fs" "J (allocs (blk s') bs) s'" "rec' + a0 = freeb (blk s') bs"
    "s' = s2\<lparr>blk := blk s', dat := dat s'\<rparr>" "one \<longrightarrow> length fs \<le> 1"
    using assms(2) by (auto simp: loop_ends_def)
  have "hdr_size s2 = hdr_size s" by (subst assms(3)) simp
  moreover have "s' = s\<lparr>blk := blk s', dat := dat s'\<rparr>" by (subst l(5), subst assms(3)) simp
  ultimately show ?thesis using l(1-4,6) assms(1) unfolding loop_ends_def by metis
qed

lemma defrag_loop_ends:
  "(\<forall>s xs cur zs rec fs. 2 * length zs < k \<longrightarrow> one_ok one (zs = []) fs \<longrightarrow> scan_ok a0 s e xs cur zs rec fs \<longrightarrow> loop_ends one a0 s e cur rec) \<and>
   (\<forall>s xs c ys rec fs. 2 * length ys + 1 < k \<longrightarrow> one_ok one False fs \<longrightarrow> pend_ok a0 s e xs c ys rec fs \<longrightarrow> loop_ends one a0 s e c rec)"
proof (induction k)
  case (Suc k)
  have IHs: "loop_ends one a0 s e cur rec" if "2 * length zs < k" "one_ok one (zs = []) fs" "scan_ok a0 s e xs cur zs rec fs" for s xs cur zs rec fs
    using Suc that by blast
  have IHp: "loop_ends one a0 s e c rec" if "2 * length ys + 1 < k" "one_ok one False fs" "pend_ok a0 s e xs c ys rec fs" for s xs c ys rec fs
    using Suc that by blast
  have P: "loop_ends one a0 s e c rec" if l: "2 * length ys + 1 < Suc k" and o: "one_ok one False fs" and p: "pend_ok a0 s e xs c ys rec fs"
    for s xs c ys rec fs
  proof -
    let ?n = "c + bsize (blk s c)"
    have d: "dpend (set_prev_size (blk s) c 0) (hdr_size s) e xs c ys fs" using p by (simp add: pend_ok_def)
    note r = dpend_reset [OF d]
    define t where "t = (if bsize (blk s ?n) = 0 then (False, s) else move (uadd ?n BHDR) (uadd c BHDR) s)"
    have A: "loop_ends one a0 s e c rec" if "\<not> fst t" "snd t = s" "one \<longrightarrow> ys = []"
    proof -
      let ?m' = "defrag_keep (hdr_size s) (blk s) c ?n"
      obtain xs' zs c' where z: "scan_ok a0 (s\<lparr>blk := ?m'\<rparr>) e xs' c' zs rec (c # fs)" "length zs \<le> length ys"
        "next_sblock ?m' ?n = c'"
        using pend_keep [OF p] by blast
      have "defrag_loop move c rec s = defrag_loop move c' rec (s\<lparr>blk := ?m'\<rparr>)"
        using r that z(3) by (subst defrag_loop.simps) (simp add: Let_def t_def [symmetric])
      moreover have "loop_ends one a0 (s\<lparr>blk := ?m'\<rparr>) e c' rec" by (rule IHs [OF _ _ z(1)]) (use z(2) l o that(3) in \<open>auto simp: one_ok_def\<close>)
      ultimately show ?thesis by (rule loop_ends_step) simp
    qed
    show ?thesis
    proof (cases ys)
      case Nil
      have "?n = e" using d Nil by (simp add: dpend_def)
      then have "bsize (blk s ?n) = 0" using d by (simp add: dpend_def frame_ok_def)
      then show ?thesis by (intro A) (simp_all add: t_def Nil)
    next
      case (Cons n ys')
      note f = swap_facts [OF d [unfolded Cons]]
      have n: "n = ?n" "bsize (blk s ?n) \<noteq> 0" using f(1,5,6) by auto
      have u: "uadd ?n BHDR = n + BHDR" "uadd c BHDR = c + BHDR"
        using n(1) f(1,8,9) by (auto intro!: uadd_small)
      then have t: "t = move (n + BHDR) (c + BHDR) s" using n(2) by (simp add: t_def)
      have An: "allocs (blk s) (xs @ c # n # ys') (n + BHDR) = Some (fprev (blk s n) - BHDR)"
        using f(3) by (auto simp: allocs_def)
      obtain b s1 where bs: "t = (b, s1)" by fastforce
      show ?thesis
      proof (cases b)
        case False
        with bs t have mv: "move (n + BHDR) (c + BHDR) s = (False, s1)" by simp
        then have "s1 = s" using move_no An p Cons by (auto simp: pend_ok_def)
        moreover have "\<not> one" using o mv by (metis fst_conv one_ok_def)
        ultimately show ?thesis using bs False by (intro A) simp_all
      next
        case True
        with bs t have mv: "move (n + BHDR) (c + BHDR) s = (True, s1)" by simp
        obtain s2 c2 slack ys2 where w: "defrag_swap s1 c n = (s2, c2, slack)" "s2 = s\<lparr>blk := blk s2, dat := dat s2\<rparr>"
          "pend_ok a0 s2 e (xs @ [c]) c2 ys2 (uadd rec slack) fs" "length ys2 \<le> length ys'" "blk s1 = blk s"
          using pend_swap [OF p [unfolded Cons] mv] by blast
        have "defrag_loop move c rec s = defrag_loop move c2 (uadd rec slack) s2"
          using r [folded n(1)] n(2) [folded n(1)] u [folded n(1)] mv w(1)
          by (subst defrag_loop.simps) (simp add: Let_def)
        moreover have "loop_ends one a0 s2 e c2 (uadd rec slack)" by (rule IHp [OF _ o w(3)]) (use w(4) l Cons in simp)
        ultimately show ?thesis using w(2) by (rule loop_ends_step)
      qed
    qed
  qed
  have S: "loop_ends one a0 s e cur rec" if l: "2 * length zs < Suc k" and o: "one_ok one (zs = []) fs" and z: "scan_ok a0 s e xs cur zs rec fs"
    for s xs cur zs rec fs
  proof (cases zs)
    case Nil
    from scan_end [OF z [unfolded Nil]] o show ?thesis
      unfolding loop_ends_def one_ok_def by (intro exI conjI) auto
  next
    case (Cons b zs')
    show ?thesis
    proof (cases "is_free (blk s) b")
      case True
      from P [OF _ _ scan_free [OF z [unfolded Cons] True]] l o Cons show ?thesis by (simp add: one_ok_def)
    next
      case False
      note a = scan_alloc [OF z [unfolded Cons] False]
      from a(1) show ?thesis
        by (rule loop_ends_step) (use IHs [OF _ _ a(2)] l o Cons in \<open>simp_all add: one_ok_def\<close>)
    qed
  qed
  show ?case using P S by blast
qed simp

end

definition sma_allocs :: "('p, 'z) sma_scheme \<Rightarrow> nat \<Rightarrow> nat option" where
  "sma_allocs s = allocs (blk s) (sma_blocks s)"

lemma sma_allocs_dom: "dom (sma_allocs s) = sma_live s"
  by (auto simp: sma_allocs_def allocs_Some sma_live_def dom_def image_iff)

lemma sma_allocs_room: "p \<in> sma_live s \<Longrightarrow> sma_allocs s p = Some (sma_room s p)"
  by (auto simp: sma_allocs_def allocs_def sma_room_def sma_live_def)

text \<open>Emptying the free list starts the scan.\<close>

lemma dscan_start:
  assumes h: "heap_inv m hs e bs fs"
  defines "m' \<equiv> set_fprev (set_fnext m hs e) e hs"
  shows "dscan m' hs e [] (first_block hs) bs []" "allocs m' bs = allocs m bs" "freeb m' bs = freeb m bs"
proof -
  have w: "first_block hs \<le> e" "hs \<noteq> e" using heap_inv_walk(7) [OF h] by auto
  have ne: "x \<noteq> hs \<and> x \<noteq> e" if "x \<in> set bs" for x using heap_inv_mem(6,7) [OF h that] by simp
  have sl: "same_live m m' (set bs)" using ne by (auto simp: same_live_def m'_def is_free_def)
  have "chain m' (first_block hs) bs e = chain m (first_block hs) bs e"
    by (rule chain_cong) (use ne in \<open>auto simp: m'_def is_free_def\<close>)
  moreover have "frame_ok m' hs e" using h w by (auto simp: heap_inv_def frame_ok_def m'_def is_free_def)
  ultimately show "dscan m' hs e [] (first_block hs) bs []"
    using h w by (simp add: dscan_def heap_inv_def) (simp add: m'_def)
  show "freeb m' bs = freeb m bs" by (rule freeb_same [OF sl])
  show "allocs m' bs = allocs m bs"
    by (rule allocs_eq) (use live_of_same [OF sl] same_live_mono [OF sl] in \<open>auto simp: live_of_def\<close>)
qed

context relocatable
begin

lemma defrag_total:
  assumes r: "sma_ready s" and J: "J (sma_allocs s) s"
  shows "\<exists>s'. apc_sma_defrag move s = Some s' \<and> sma_ready s' \<and> J (sma_allocs s') s' \<and> avail s \<le> avail s' \<and>
    s' = s\<lparr>sma_lock_results := tl (sma_lock_results s), blk := blk s', dat := dat s', avail := avail s'\<rparr> \<and>
    (lock_works s \<and> (\<forall>p q s. fst (move p q s)) \<longrightarrow> length (sma_frees s') \<le> 1)"
proof (cases "lock_works s")
  case False
  have nl: "\<not> sma_locked s" using r by (simp add: sma_ready_def)
  have "apc_sma_defrag move s = Some (after_lock s)"
    using sma_lock_eq [OF nl] False by (simp add: apc_sma_defrag_def)
      (use nl in \<open>cases s; simp\<close>)
  moreover have "J (sma_allocs (after_lock s)) (after_lock s)"
    using J_frame [OF J, where d = "dat s" and m = "blk s" and a = "avail s" and l = "sma_locked s"
        and rs = "tl (sma_lock_results s)"]
    by (simp add: sma_allocs_def)
  ultimately show ?thesis using r False by (simp add: sma_ready_def)
next
  case True
  have ok: "sma_ok s" and nl: "\<not> sma_locked s" using r by (simp_all add: sma_ready_def)
  let ?hs = "hdr_size s" and ?e = "seg_end s" and ?bs = "sma_blocks s"
  let ?l = "s\<lparr>sma_locked := True, sma_lock_results := tl (sma_lock_results s)\<rparr>"
  define m where "m = set_fprev (set_fnext (blk s) ?hs ?e) ?e ?hs"
  have inv: "sma_inv s ?bs (sma_frees s)" using ok by (simp add: sma_ok_def)
  then have h: "heap_inv (blk s) ?hs ?e ?bs (sma_frees s)" by (simp add: sma_inv_def)
  note w = heap_inv_walk [OF h] and st = dscan_start [OF h, folded m_def] and f = sma_ok_facts [OF ok]
  have u: "usub (sma_size s) BHDR = ?e" "uadd ?hs BHDR = first_block ?hs"
    using f(1,2) by (simp_all add: usub_small uadd_small)
  have "J (allocs (blk s) ?bs) s" using J by (simp add: sma_allocs_def)
  then have Jl: "J (allocs m ?bs) (?l\<lparr>blk := m\<rparr>)"
    using J_frame [of "allocs (blk s) ?bs" s "dat s", where m = m and a = "avail s" and l = True
        and rs = "tl (sma_lock_results s)"]
    unfolding st(2) by (cases s) simp
  have sc: "scan_ok (avail s) (?l\<lparr>blk := m\<rparr>) ?e [] (first_block ?hs) ?bs 0 []"
    using st Jl f(4) freeb_list [OF h] by (simp add: scan_ok_def)
  define one where "one = (\<forall>p q s. fst (move p q s))"
  have "loop_ends one (avail s) (?l\<lparr>blk := m\<rparr>) ?e (first_block ?hs) 0"
    by (rule conjunct1 [OF defrag_loop_ends [of "2 * length ?bs + 1"], rule_format, OF _ _ sc])
      (simp_all add: one_ok_def one_def)
  then obtain rec t bs fs where t: "defrag_loop move (first_block ?hs) 0 (?l\<lparr>blk := m\<rparr>) = Some (rec, t)"
    "heap_inv (blk t) ?hs ?e bs fs" "J (allocs (blk t) bs) t" "rec + avail s = freeb (blk t) bs"
    "t = ?l\<lparr>blk := blk t, dat := dat t\<rparr>" "one \<longrightarrow> length fs \<le> 1"
    unfolding loop_ends_def by auto
  have av: "avail t = avail s" "sma_size t = sma_size s" "hdr_size t = ?hs" "min_block_size t = min_block_size s"
    "sma_max_alloc_size t = sma_max_alloc_size s" by (subst t(5), simp)+
  have fl: "freeb (blk t) bs = free_bytes (blk t) fs" by (rule freeb_list [OF t(2)])
  have "free_bytes (blk t) fs < U64" using free_bytes_bound [OF t(2)] w(8) by simp
  then have ua: "uadd (avail t) rec = free_bytes (blk t) fs" using t(4) fl av(1) by (simp add: uadd_small)
  define s' where "s' = sma_unlock (t\<lparr>avail := free_bytes (blk t) fs\<rparr>)"
  have res: "apc_sma_defrag move s = Some s'"
    using sma_lock_eq [OF nl] True t(1) u ua
    by (simp add: apc_sma_defrag_def Let_def m_def [symmetric] s'_def)
  have inv': "sma_inv s' bs fs"
    using t(2) inv av by (simp add: sma_inv_def s'_def sma_unlock_def)
  note wk = sma_inv_walk [OF inv']
  have ready: "sma_ready s'" using sma_ok_inv [OF inv'] by (simp add: sma_ready_def s'_def sma_unlock_def)
  have Js: "J (sma_allocs s') s'"
    using J_frame [OF t(3), where d = "dat t" and m = "blk t" and a = "free_bytes (blk t) fs" and l = False
        and rs = "sma_lock_results t"]
    by (simp add: sma_allocs_def wk) (simp add: s'_def sma_unlock_def)
  have "avail s \<le> avail s'" using t(4) fl by (simp add: s'_def sma_unlock_def)
  moreover have "s' = s\<lparr>sma_lock_results := tl (sma_lock_results s), blk := blk s', dat := dat s', avail := avail s'\<rparr>"
    unfolding s'_def sma_unlock_def by (subst (1) t(5)) (use nl in \<open>cases s; simp\<close>)
  ultimately show ?thesis using res ready Js t(6) wk(2) by (auto simp: one_def)
qed

end

subsection \<open>Owners that only decide\<close>

text \<open>
  A callback that looks at the object and answers whether it may be moved. The structure it keeps is
  the contents: every allocation of \<open>A0\<close> is now at \<open>f p\<close>, at or below its old place, with the same
  size and the same contents \<open>d0\<close>, and a pinned one has not moved.
\<close>

definition relocates ::
  "(nat \<Rightarrow> nat option) \<Rightarrow> (nat \<Rightarrow> 'p) \<Rightarrow> ('p \<Rightarrow> bool) \<Rightarrow> (nat \<Rightarrow> nat option) \<Rightarrow> (nat \<Rightarrow> 'p) \<Rightarrow> (nat \<Rightarrow> nat) \<Rightarrow> bool" where
  "relocates A0 d0 dec A d f \<longleftrightarrow> bij_betw f (dom A0) (dom A) \<and>
     (\<forall>p n. A0 p = Some n \<longrightarrow> A (f p) = Some n \<and> f p \<le> p \<and> (0 < n \<and> \<not> dec (d0 p) \<longrightarrow> f p = p) \<and>
       (\<forall>i<n. d (f p + i) = d0 (p + i)))"

definition relocated ::
  "(nat \<Rightarrow> nat option) \<Rightarrow> (nat \<Rightarrow> 'p) \<Rightarrow> ('p \<Rightarrow> bool) \<Rightarrow> (nat \<Rightarrow> nat option) \<Rightarrow> ('p, 'z) sma_scheme \<Rightarrow> bool" where
  "relocated A0 d0 dec A s \<longleftrightarrow> (\<exists>f. relocates A0 d0 dec A (dat s) f)"

lemma relocates_move:
  assumes r: "relocates A0 d0 dec A d f" and p: "A p = Some n" and q: "q < p" and dec: "dec (d p)"
    and sep: "\<forall>p' n'. A p' = Some n' \<and> p' \<noteq> p \<longrightarrow> p' \<noteq> q \<and> (q + n \<le> p' \<or> p' + n' \<le> q)"
  shows "\<exists>g. relocates A0 d0 dec (A(p := None, q \<mapsto> n)) (memmove d q p n) g"
proof -
  have bij: "bij_betw f (dom A0) (dom A)" using r by (simp add: relocates_def)
  then obtain p0 where p0: "p0 \<in> dom A0" "f p0 = p" using p by (metis bij_betw_imp_surj_on domI imageE)
  have inj: "inj_on f (dom A0)" using bij by (rule bij_betw_imp_inj_on)
  define g where "g = f(p0 := q)"
  have qn: "q \<notin> f ` (dom A0 - {p0})"
  proof
    assume "q \<in> f ` (dom A0 - {p0})"
    then obtain x where x: "x \<in> dom A0" "x \<noteq> p0" "q = f x" by auto
    then have "f x \<noteq> p" using inj p0 by (auto dest: inj_onD)
    moreover have "f x \<in> dom A" using bij x(1) by (rule bij_betwE [THEN bspec])
    ultimately show False using sep x(3) by auto
  qed
  have im: "f ` (dom A0 - {p0}) = dom A - {p}"
  proof -
    have "f ` (dom A0 - {p0}) = f ` dom A0 - f ` {p0}"
      by (rule inj_on_image_set_diff [OF inj]) (use p0 in auto)
    then show ?thesis using bij p0(2) by (simp add: bij_betw_def)
  qed
  have "bij_betw g (dom A0) (dom (A(p := None, q \<mapsto> n)))"
  proof -
    have "inj_on g (dom A0)" using inj qn p0(1) by (auto simp: g_def inj_on_def)
    moreover have "g ` dom A0 = insert q (f ` (dom A0 - {p0}))" using p0(1) by (auto simp: g_def)
    moreover have "dom (A(p := None, q \<mapsto> n)) = insert q (dom A - {p})" using q by auto
    ultimately show ?thesis by (simp add: bij_betw_def im)
  qed
  moreover have "(A(p := None, q \<mapsto> n)) (g x) = Some l \<and> g x \<le> x \<and> (0 < l \<and> \<not> dec (d0 x) \<longrightarrow> g x = x) \<and>
      (\<forall>i<l. memmove d q p n (g x + i) = d0 (x + i))" if x: "A0 x = Some l" for x l
  proof -
    have fx: "A (f x) = Some l" "f x \<le> x" "0 < l \<and> \<not> dec (d0 x) \<longrightarrow> f x = x" "\<forall>i<l. d (f x + i) = d0 (x + i)"
      using r x by (auto simp: relocates_def)
    show ?thesis
    proof (cases "x = p0")
      case True
      with fx p p0(2) have "l = n" by simp
      moreover have "dec (d0 x)" if "0 < l" using fx(4) that True p0(2) dec by (metis add_0_right)
      ultimately show ?thesis using True fx p0(2) q by (auto simp: g_def memmove_def)
    next
      case False
      then have ne: "f x \<noteq> p" using inj p0 x by (auto dest: inj_onD)
      then have "f x \<noteq> q" "q + n \<le> f x \<or> f x + l \<le> q" using sep fx(1) by auto
      then show ?thesis using False ne fx by (auto simp: g_def memmove_def)
    qed
  qed
  ultimately show ?thesis unfolding relocates_def by blast
qed

interpretation deciding: relocatable "relocated A0 d0 dec" "\<lambda>p q s. (dec (dat s p), s)"
  for A0 :: "nat \<Rightarrow> nat option" and d0 :: "nat \<Rightarrow> 'p" and dec :: "'p \<Rightarrow> bool"
proof (unfold_locales, goal_cases)
  case (1 A s d m a l rs)
  then obtain f where f: "relocates A0 d0 dec A (dat s) f" by (auto simp: relocated_def)
  have "relocates A0 d0 dec A d f"
    unfolding relocates_def
  proof (intro conjI allI impI)
    show "bij_betw f (dom A0) (dom A)" using f by (simp add: relocates_def)
    fix p n assume p: "A0 p = Some n"
    then have fp: "A (f p) = Some n" "\<forall>i<n. dat s (f p + i) = d0 (p + i)" using f by (auto simp: relocates_def)
    show "A (f p) = Some n" "f p \<le> p" "0 < n \<and> \<not> dec (d0 p) \<Longrightarrow> f p = p"
      using f p by (auto simp: relocates_def)
    fix i assume i: "i < n"
    then have "d (f p + i) = dat s (f p + i)" using 1(2) fp(1) by (meson le_add1 nat_add_left_cancel_less)
    then show "d (f p + i) = d0 (p + i)" using fp(2) i by simp
  qed
  then show ?case by (auto simp: relocated_def)
next
  case (2 A s p n q s')
  then show ?case by simp
next
  case (3 A s p n q s1)
  then obtain f where f: "relocates A0 d0 dec A (dat s) f" by (auto simp: relocated_def)
  have s1: "s1 = s" "dec (dat s p)" using 3(6) unfolding prod.inject by blast+
  obtain g where "relocates A0 d0 dec (A(p := None, q \<mapsto> n)) (memmove (dat s) q p n) g"
    using relocates_move [OF f 3(2,3) s1(2) 3(5)] by blast
  then show ?case using s1(1) by (intro exI [of _ "dat s"]) (auto simp: relocated_def)
qed

end
