(* ===== verification/Sma_Properties.thy ===== *)
theory Sma_Properties imports Sma_Defrag begin

text \<open>
  The properties of the shared memory allocator, and three small segments on which they are
  instantiated: \<open>seg1\<close> as \<open>apc_sma_init\<close> leaves it, \<open>seg2\<close> with one live allocation, and \<open>seg3\<close> with a
  live allocation between two free blocks.
\<close>

subsection \<open>Example segments\<close>

definition seg0 :: "nat sma" where
  "seg0 = \<lparr>sma_initialized = False, sma_size = 0, sma_max_alloc_size = 0, hdr_size = 64,
     sma_locked = False, sma_lock_results = [], min_block_size = 0, avail = 0,
     blk = (\<lambda>_. \<lparr>bsize = 0, prev_size = 0, fnext = 0, fprev = 0\<rparr>), dat = (\<lambda>_. 0),
     abi_version = 0, cache_header_offset = 0, shm_nslots = 0, shm_max_alloc_size = 0, seg_size = 0,
     shm_serializer_name = [], init_complete = False\<rparr>"

definition seg1 :: "nat sma" where
  "seg1 = apc_sma_init 1024 0 seg0"

definition seg2 :: "nat sma" where
  "seg2 = seg0\<lparr>sma_initialized := True, sma_size := 1024, min_block_size := 40, avail := 760,
     sma_max_alloc_size := 864,
     blk := (\<lambda>_. \<lparr>bsize = 0, prev_size = 0, fnext = 0, fprev = 0\<rparr>)
      (64 := \<lparr>bsize = 0, prev_size = 0, fnext = 232, fprev = 0\<rparr>,
       96 := \<lparr>bsize = 136, prev_size = 0, fnext = 0, fprev = 136\<rparr>,
       232 := \<lparr>bsize = 760, prev_size = 0, fnext = 992, fprev = 64\<rparr>,
       992 := \<lparr>bsize = 0, prev_size = 760, fnext = 0, fprev = 232\<rparr>)\<rparr>"

lemma seg1_eq: "seg1 = seg0\<lparr>sma_initialized := True, sma_size := 1024, min_block_size := 40,
   avail := 896, sma_max_alloc_size := 864,
   blk := (\<lambda>_. \<lparr>bsize = 0, prev_size = 0, fnext = 0, fprev = 0\<rparr>)
    (64 := \<lparr>bsize = 0, prev_size = 0, fnext = 96, fprev = 0\<rparr>,
     96 := \<lparr>bsize = 896, prev_size = 0, fnext = 992, fprev = 64\<rparr>,
     992 := \<lparr>bsize = 0, prev_size = 896, fnext = 0, fprev = 96\<rparr>)\<rparr>"
proof -
  let ?s = "seg0\<lparr>sma_initialized := True, sma_size := 1024, min_block_size := 40, avail := 896,
    sma_max_alloc_size := 864\<rparr>"
  have "seg1 = sma_init_free_list ?s"
    by (simp add: seg1_def apc_sma_init_def seg0_def alignword_def uadd_def usub_def MINBLOCKSIZE_def)
  also have "\<dots> = ?s\<lparr>blk := (blk ?s)
     (64 := \<lparr>bsize = 0, prev_size = 0, fnext = 64 + BHDR, fprev = 0\<rparr>,
      64 + BHDR := \<lparr>bsize = 896, prev_size = 0, fnext = 64 + BHDR + 896, fprev = 64\<rparr>,
      64 + BHDR + 896 := \<lparr>bsize = 0, prev_size = 896, fnext = 0, fprev = 64 + BHDR\<rparr>)\<rparr>"
    by (rule sma_init_free_list_blk) (simp_all add: seg0_def uadd_def)
  finally show ?thesis by (simp add: seg0_def)
qed

lemma seg1_blocks: "sma_blocks seg1 = [96]" "sma_frees seg1 = [96]"
proof -
  show b: "sma_blocks seg1 = [96]" by (simp add: seg1_eq seg0_def sma_blocks_def block_walk.simps)
  show "sma_frees seg1 = [96]" by (simp add: b sma_frees_def) (simp add: seg1_eq seg0_def)
qed

lemma seg1_ready: "sma_ready seg1" "lock_works seg1" "sma_max_alloc_size seg1 = 864" "sma_live seg1 = {}"
proof -
  have "sma_ok seg1"
    by (simp add: sma_ok_def seg1_blocks)
      (auto simp: seg1_eq seg0_def sma_inv_def heap_inv_def frame_ok_def is_free_def block_ok_def tag_def)
  then show "sma_ready seg1" by (simp add: sma_ready_def) (simp add: seg1_eq seg0_def)
  show "lock_works seg1" "sma_max_alloc_size seg1 = 864"
    by (simp_all add: seg1_eq seg0_def lock_works_def)
  show "sma_live seg1 = {}" by (simp add: sma_live_def seg1_blocks) (simp add: seg1_eq is_free_def)
qed

lemma seg1_fits: "sma_fits 100 seg1"
  by (simp add: sma_fits_def seg1_blocks) (simp add: seg1_eq alignword_def uadd_def)

lemma seg2_blocks: "sma_blocks seg2 = [96, 232]" "sma_frees seg2 = [232]"
proof -
  show b: "sma_blocks seg2 = [96, 232]" by (simp add: seg2_def seg0_def sma_blocks_def block_walk.simps)
  show "sma_frees seg2 = [232]" by (simp add: b sma_frees_def) (simp add: seg2_def seg0_def)
qed

lemma seg2_ready: "sma_ready seg2" "lock_works seg2" "sma_live seg2 = {128}"
proof -
  have "sma_ok seg2"
    by (simp add: sma_ok_def seg2_blocks)
      (auto simp: seg2_def seg0_def sma_inv_def heap_inv_def frame_ok_def is_free_def block_ok_def tag_def)
  then show "sma_ready seg2" by (simp add: sma_ready_def) (simp add: seg2_def seg0_def)
  show "lock_works seg2" by (simp add: seg2_def seg0_def lock_works_def)
  show "sma_live seg2 = {128}" by (simp add: sma_live_def seg2_blocks) (simp add: seg2_def is_free_def)
qed




subsection \<open>Properties\<close>

text \<open>
  C14: \<open>apc_sma_malloc\<close> serves a request that fits without calling the expunge callback: the
  pointer it returns is a fresh, aligned offset with room for \<open>n\<close> bytes that lies inside the
  segment and overlaps no live allocation; the initialiser has run on it, every other allocation
  keeps its size, the segment invariant holds again and the lock is released.
\<close>

theorem apc_sma_malloc_serves:
  assumes "sma_ready s" "n \<le> sma_max_alloc_size s" "lock_works s" "sma_fits n s"
  shows "\<exists>p s'. apc_sma_malloc expunge ini n s = Some (Some p, s') \<and> sma_ready s' \<and>
    p \<notin> sma_live s \<and> sma_live s' = insert p (sma_live s) \<and>
    8 dvd p \<and> hdr_size s + 2 * BHDR \<le> p \<and> p + n + BHDR \<le> sma_size s \<and>
    (\<forall>q\<in>sma_live s. (p + n + BHDR \<le> q \<or> q + sma_room s q + BHDR \<le> p) \<and> sma_room s' q = sma_room s q) \<and>
    dat s' = ini p (dat s)"
proof -
  obtain p s' where r: "apc_sma_malloc_loop expunge ini n False s = Some (Some p, s')" "sma_ready s'"
    "s' = s\<lparr>sma_lock_results := tl (sma_lock_results s), blk := blk s', avail := avail s',
               dat := ini p (dat s)\<rparr>"
    "p \<notin> sma_live s" "sma_live s' = insert p (sma_live s)" "n \<le> sma_room s' p"
    "\<forall>q\<in>sma_live s. sma_room s' q = sma_room s q"
    using malloc_round(4) [OF assms(1,2,3,4), of expunge ini False] by auto
  have ok: "sma_ok s'" and pl: "p \<in> sma_live s'" using r(2,5) by (simp_all add: sma_ready_def)
  have sz: "sma_size s' = sma_size s" "hdr_size s' = hdr_size s" "dat s' = ini p (dat s)"
    by (subst r(3), simp)+
  note g = sma_live_range [OF ok pl, unfolded sz]
  have "p + n + BHDR \<le> q \<or> q + sma_room s q + BHDR \<le> p" if "q \<in> sma_live s" for q
    using sma_live_disjoint [OF ok pl, of q] that r(4-7) by fastforce
  with g r sz(3) show ?thesis unfolding apc_sma_malloc_def
    by (intro exI [of _ p] exI [of _ s']) auto
qed

theorem apc_sma_malloc_serves_witness:
  "\<exists>p s'. apc_sma_malloc (\<lambda>_ _. None) (\<lambda>p d. d(p := 7)) 100 seg1 = Some (Some p, s') \<and> sma_ready s' \<and>
    sma_live s' = {p} \<and> dat s' p = 7"
  using apc_sma_malloc_serves [OF seg1_ready(1) _ seg1_ready(2) seg1_fits, of "\<lambda>_ _. None" "\<lambda>p d. d(p := 7)"]
  by (fastforce simp: seg1_ready)

text \<open>
  \<open>apc_sma_free\<close> of the pointer of a live allocation removes exactly that allocation: the
  others stay live with their sizes, the freed bytes (payload and block header at least) return to
  \<open>avail\<close>, the payloads are not touched, the segment invariant holds again and the lock is released.
\<close>

theorem apc_sma_free_exact:
  assumes "sma_ready s" "p \<in> sma_live s" "lock_works s"
  shows "\<exists>s'. apc_sma_free (Some (int p)) s = Some (Freed, s') \<and> sma_ready s' \<and>
    sma_live s' = sma_live s - {p} \<and> (\<forall>q\<in>sma_live s - {p}. sma_room s' q = sma_room s q) \<and>
    avail s + sma_room s p + BHDR \<le> avail s' \<and> dat s' = dat s"
proof -
  obtain s' where r: "apc_sma_free (Some (int p)) s = Some (Freed, s')" "sma_ready s'"
    "s' = s\<lparr>sma_lock_results := tl (sma_lock_results s), blk := blk s', avail := avail s'\<rparr>"
    "sma_live s' = sma_live s - {p}" "\<forall>q\<in>sma_live s - {p}. sma_room s' q = sma_room s q"
    "avail s' = avail s + fst (sma_deallocate p s)" "sma_room s p + BHDR \<le> fst (sma_deallocate p s)"
    using apc_sma_free_live [OF assms] by blast
  have "dat s' = dat s" by (subst r(3)) simp
  moreover have "avail s + sma_room s p + BHDR \<le> avail s'" using r(6,7) by simp
  ultimately show ?thesis using r(1,2,4,5) by blast
qed

theorem apc_sma_free_exact_witness:
  "\<exists>s'. apc_sma_free (Some 128) seg2 = Some (Freed, s') \<and> sma_ready s' \<and> sma_live s' = {} \<and> 892 \<le> avail s' + 36"
  using apc_sma_free_exact [OF seg2_ready(1) _ seg2_ready(2), of 128]
  by (auto simp: seg2_ready) (auto simp: seg2_def sma_room_def)

text \<open>
  C20: an allocation that is freed again leaves the segment as it was: the same allocations are live,
  with the same sizes, and not one byte of \<open>avail\<close> is lost, whether the block was split or handed out whole.
\<close>

theorem sma_allocate_deallocate:
  assumes "sma_ok s" "n \<le> sma_max_alloc_size s" "sma_allocate n s = Some (p, s')" "p \<noteq> SIZE_MAX"
  shows "sma_ok (snd (sma_deallocate p s')) \<and> sma_live (snd (sma_deallocate p s')) = sma_live s \<and>
    (\<forall>q\<in>sma_live s. sma_room (snd (sma_deallocate p s')) q = sma_room s q) \<and>
    avail (snd (sma_deallocate p s')) = avail s"
proof -
  have n39: "n + 39 < U64" using assms(2) sma_ok_facts(1,2) [OF assms(1)] by simp
  have inv: "sma_inv s (sma_blocks s) (sma_frees s)" using assms(1) by (simp add: sma_ok_def)
  have ex: "\<exists>b\<in>set (sma_frees s). alignword (n + BHDR) \<le> bsize (blk s b)"
    using shm.alloc_full [OF assms(1,2)] assms(3,4) by (fastforce simp: sma_fits_def)
  obtain c bs' fs' where a: "p = c + BHDR" "sma_inv s' bs' fs'" "avail s' + bsize (blk s' c) = avail s"
    "c \<in> live_blocks s' bs'"
    using sma_allocate_some [OF inv n39 ex] assms(3) by (metis insertI1 option.inject prod.inject)
  obtain t where "sma_deallocate (c + BHDR) s' = (bsize (blk s' c), t)" "avail t = avail s' + bsize (blk s' c)"
    using sma_deallocate_ok [OF a(2,4)] by metis
  with a have "avail (snd (sma_deallocate p s')) = avail s" by simp
  with shm.alloc_release [OF assms] show ?thesis by blast
qed

theorem sma_allocate_deallocate_witness:
  "\<exists>p s'. sma_allocate 100 seg1 = Some (p, s') \<and> sma_live (snd (sma_deallocate p s')) = {}"
proof -
  have ok: "sma_ok seg1" and n: "100 \<le> sma_max_alloc_size seg1"
    using seg1_ready by (simp_all add: sma_ready_def)
  obtain p s' where "sma_allocate 100 seg1 = Some (p, s')" "p \<noteq> SIZE_MAX"
    using shm.alloc_fits [OF ok n seg1_fits] by auto
  with sma_allocate_deallocate [OF ok n] seg1_ready(4) show ?thesis by fastforce
qed

text \<open>
  \<open>apc_sma_init\<close> of a segment large enough for its header and the three initial block headers
  establishes the segment invariant, with nothing allocated and all of the payload area available.
\<close>

theorem apc_sma_init_ok:
  assumes "\<not> sma_initialized s" "0 < hdr_size s" "8 dvd hdr_size s"
    "hdr_size s + 3 * BHDR \<le> n" "n + 8 < SEG_MAX" "ma + 40 < SEG_MAX"
  shows "sma_ready (apc_sma_init n ma s) \<and> sma_live (apc_sma_init n ma s) = {} \<and>
    sma_size (apc_sma_init n ma s) = alignword n \<and>
    avail (apc_sma_init n ma s) = alignword n - hdr_size s - 2 * BHDR \<and>
    (\<forall>k. sma_fits k (apc_sma_init n ma s) \<longleftrightarrow> alignword (k + BHDR) \<le> avail (apc_sma_init n ma s))"
  using apc_sma_init_facts [OF assms] by blast

theorem apc_sma_init_ok_witness:
  "sma_ready (apc_sma_init 1024 0 seg0) \<and> avail (apc_sma_init 1024 0 seg0) = 896"
  using apc_sma_init_ok [of seg0 1024 0] by (simp add: seg0_def alignword_def uadd_def)

text \<open>
  \<open>apc_sma_check_avail_contiguous\<close> always returns, and (the lock working) answers exactly
  whether a request of that size would be served; it changes nothing and releases the lock.
\<close>

theorem apc_sma_check_avail_contiguous_exact:
  assumes "sma_ready s" "n \<le> sma_max_alloc_size s" "lock_works s"
  shows "\<exists>b s'. apc_sma_check_avail_contiguous n s = Some (b, s') \<and> sma_ready s' \<and> blk s' = blk s \<and>
    (b \<longleftrightarrow> (\<exists>p t. sma_allocate n s = Some (p, t) \<and> p \<noteq> SIZE_MAX))"
proof -
  have ok: "sma_ok s" using assms(1) by (simp add: sma_ready_def)
  obtain s' where s': "apc_sma_check_avail_contiguous n s = Some (sma_fits n s, s')" "s' \<in> {s, after_lock s}"
    using apc_sma_check_avail_contiguous_fits [OF assms(1,2)] assms(3) by auto
  have "sma_fits n s \<longleftrightarrow> (\<exists>p t. sma_allocate n s = Some (p, t) \<and> p \<noteq> SIZE_MAX)"
    using shm.alloc_fits [OF ok assms(2)] shm.alloc_full [OF ok assms(2)] by fastforce
  moreover have "sma_ready s'" "blk s' = blk s" using s'(2) assms(1) by (auto simp: sma_ready_def)
  ultimately show ?thesis using s'(1) by blast
qed

theorem apc_sma_check_avail_contiguous_exact_witness:
  "\<exists>b s'. apc_sma_check_avail_contiguous 100 seg1 = Some (b, s') \<and> sma_ready s'"
  using apc_sma_check_avail_contiguous_exact [OF seg1_ready(1) _ seg1_ready(2), of 100]
  by (auto simp: seg1_ready)

text \<open>
  \<open>apc_sma_info\<close> returns the free blocks of the segment, each once, in list order; their sizes
  add up to \<open>avail\<close>, none is smaller than a block header and none exceeds the reported segment size.
\<close>

theorem apc_sma_info_free_blocks:
  assumes "sma_ready s" "sma_initialized s" "lock_works s"
  shows "\<exists>seg l s'. apc_sma_info False s = Some (Some (seg, l), s') \<and> sma_ready s' \<and>
    distinct (map snd l) \<and> sum_list (map fst l) = apc_sma_get_avail_mem s \<and>
    (\<forall>(sz, off)\<in>set l. BHDR \<le> sz \<and> sz \<le> seg \<and> off + sz + BHDR \<le> sma_size s)"
proof -
  let ?l = "map (\<lambda>b. (bsize (blk s b), b)) (sma_frees s)"
  have ok: "sma_ok s" using assms(1) by (simp add: sma_ready_def)
  note f = sma_ok_facts [OF ok]
  have "sma_inv s (sma_blocks s) (sma_frees s)" using ok by (simp add: sma_ok_def)
  then have h: "heap_inv (blk s) (hdr_size s) (seg_end s) (sma_blocks s) (sma_frees s)"
    by (simp add: sma_inv_def)
  have "BHDR \<le> bsize (blk s b) \<and> bsize (blk s b) \<le> sma_size s - (hdr_size s + 2 * BHDR) \<and>
      b + bsize (blk s b) + BHDR \<le> sma_size s" if "b \<in> set (sma_frees s)" for b
    using heap_inv_mem [OF h, of b] heap_inv_fs [OF h that] f(1) by auto
  moreover have "distinct (map snd ?l)" using h by (simp add: heap_inv_def comp_def)
  moreover have "sum_list (map fst ?l) = apc_sma_get_avail_mem s"
    by (simp add: comp_def f(4) free_bytes_def apc_sma_get_avail_mem_def)
  ultimately show ?thesis
    using apc_sma_info_list [OF assms] assms(1)
    by (intro exI [of _ "sma_size s - (hdr_size s + 2 * BHDR)"] exI [of _ ?l] exI [of _ "after_lock s"])
      (auto simp: sma_ready_def)
qed

theorem apc_sma_info_free_blocks_witness:
  "\<exists>seg l s'. apc_sma_info False seg1 = Some (Some (seg, l), s') \<and> sum_list (map fst l) = 896"
proof -
  have "sma_initialized seg1" "apc_sma_get_avail_mem seg1 = 896"
    by (simp_all add: seg1_eq apc_sma_get_avail_mem_def)
  with apc_sma_info_free_blocks [OF seg1_ready(1) _ seg1_ready(2)] show ?thesis by fastforce
qed

text \<open>
  the allocator never leaks by fragmentation: freeing all live allocations, in any order,
  brings back one single free block with the whole payload area of the segment.
\<close>

theorem sma_deallocate_all_coalesces:
  assumes "sma_ok s" "distinct ps" "set ps = sma_live s"
  defines "t \<equiv> fold (\<lambda>p s. snd (sma_deallocate p s)) ps s"
  shows "sma_ok t \<and> sma_live t = {} \<and> sma_frees t = [first_block (hdr_size t)] \<and>
    avail t = sma_size t - (hdr_size t + 2 * BHDR)"
proof -
  have "sma_ok t" "sma_live t = {}"
    using shm.release_all [OF assms(1,2)] assms(3) by (simp_all add: t_def)
  with sma_empty_coalesced [of t] show ?thesis by simp
qed

theorem sma_deallocate_all_coalesces_witness:
  "sma_live (fold (\<lambda>p s. snd (sma_deallocate p s)) [128] seg2) = {}"
  using sma_deallocate_all_coalesces [of seg2 "[128]"] seg2_ready by (simp add: sma_ready_def)





end
