(* ===== verification/Zval.thy ===== *)
theory Zval imports Prelude begin

text \<open>
  PHP values as the extension sees them: the \<open>zval\<close> with its type tag. A refcounted value is a
  pointer; in request memory it is an address of the request heap, in a persisted entry it is an offset
  from the start of the entry. Doubles are kept as their bit pattern.
\<close>

datatype zval =
    IS_UNDEF
  | IS_NULL
  | IS_FALSE
  | IS_TRUE
  | IS_LONG (z_lval: int)
  | IS_DOUBLE nat
  | IS_STRING nat
  | IS_ARRAY nat
  | IS_OBJECT nat
  | IS_RESOURCE nat
  | IS_REFERENCE nat
  | IS_INDIRECT nat
  | IS_PTR nat

text \<open>\<open>Z_TYPE(zv) < IS_STRING\<close>: no data apart from the zval itself.\<close>

fun z_simple :: "zval \<Rightarrow> bool" where
  "z_simple IS_UNDEF = True"
| "z_simple IS_NULL = True"
| "z_simple IS_FALSE = True"
| "z_simple IS_TRUE = True"
| "z_simple (IS_LONG _) = True"
| "z_simple (IS_DOUBLE _) = True"
| "z_simple _ = False"

fun z_is_long :: "zval \<Rightarrow> bool" where
  "z_is_long (IS_LONG _) = True"
| "z_is_long _ = False"

end
