(* ===== verification/Cache.thy ===== *)
theory Cache imports Zval Sma_Defrag begin

text \<open>
  The cache of \<open>apc_cache.c\<close>: the descriptor \<open>apc_cache_t\<close> and the shared header
  \<open>apc_cache_header_t\<close>, hash slots and the garbage list as doubly linked lists of entries in shared
  memory, and the operations that run under the cache lock. The state extends that of the allocator, so
  that \<open>apc_cache_default_expunge\<close> can be the allocator's expunge callback and
  \<open>apc_cache_wlocked_move_entry\<close> its move callback.
\<close>

subsection \<open>Data\<close>

text \<open>\<open>apc_cache_entry_t\<close>; \<open>e_data\<close> stands for what \<open>apc_persist\<close> stores behind the entry.\<close>

record 'v entry =
  e_next :: nat
  e_prev :: nat
  e_ttl :: int
  e_ref_count :: int
  e_nhits :: int
  e_ctime :: int
  e_mtime :: int
  e_dtime :: int
  e_atime :: int
  e_mem_size :: int
  e_val :: zval
  e_hash :: nat
  e_key :: string
  e_data :: 'v

record slam_key =
  sk_hash :: nat
  sk_len :: nat
  sk_mtime :: int
  sk_pid :: int

datatype lock_mode = Unlocked | Rlocked | Wlocked

text \<open>
  \<open>cache_exists\<close> is \<open>cache != NULL\<close>. \<open>c_header\<close> is the offset of the header in the segment,
  \<open>header_bytes\<close> and \<open>gc_offset\<close> are \<open>sizeof(apc_cache_header_t)\<close> and the offset of its field \<open>gc\<close>.
  The lists live in \<open>dat\<close>: since \<open>next\<close> is the first field of an entry, a hash slot or the \<open>gc\<close> head is
  read and written as the field \<open>e_next\<close> at its address. The other header fields follow. The last
  group is the process environment: the lock the process holds and the outcomes of its next attempts,
  \<open>APCG(entry_level)\<close>, the hash function of Zend strings, the clock and the process id.
\<close>

record 'v cache = "'v entry sma" +
  cache_exists :: bool
  c_header :: nat
  header_bytes :: nat
  gc_offset :: nat
  nslots :: nat
  c_gc_ttl :: int
  c_ttl :: int
  c_smart :: int
  c_defend :: bool
  h_nhits :: int
  h_nmisses :: int
  h_ninserts :: int
  h_ncleanups :: int
  h_ndefragmentations :: int
  h_nexpunges :: int
  h_nentries :: int
  h_mem_size :: int
  h_stime :: int
  h_lastkey :: slam_key
  cache_lock :: lock_mode
  cache_lock_results :: "bool list"
  entry_level :: nat
  zstr_hash :: "string \<Rightarrow> nat"
  clock :: int
  use_request_time :: bool
  request_time :: int
  sapi_request_time :: int
  pid :: int

type_synonym ('v, 'x) cstate = "('v, 'x) cache_scheme"

definition no_key :: slam_key where
  "no_key = \<lparr>sk_hash = 0, sk_len = 0, sk_mtime = 0, sk_pid = 0\<rparr>"

subsection \<open>Locks and time\<close>

definition apc_cache_lock_as :: "lock_mode \<Rightarrow> ('v, 'x) cstate \<Rightarrow> (bool \<times> ('v, 'x) cstate) option" where
  "apc_cache_lock_as l c =
     (if entry_level c \<noteq> 0 then Some (True, c)
      else if cache_lock c \<noteq> Unlocked then None
      else case cache_lock_results c of
        [] \<Rightarrow> Some (True, c\<lparr>cache_lock := l\<rparr>)
      | True # rs \<Rightarrow> Some (True, c\<lparr>cache_lock := l, cache_lock_results := rs\<rparr>)
      | False # rs \<Rightarrow> Some (False, c\<lparr>cache_lock_results := rs\<rparr>))"

definition apc_cache_wlock :: "('v, 'x) cstate \<Rightarrow> (bool \<times> ('v, 'x) cstate) option" where
  "apc_cache_wlock = apc_cache_lock_as Wlocked"

definition apc_cache_rlock :: "('v, 'x) cstate \<Rightarrow> (bool \<times> ('v, 'x) cstate) option" where
  "apc_cache_rlock = apc_cache_lock_as Rlocked"

definition apc_cache_wunlock :: "('v, 'x) cstate \<Rightarrow> ('v, 'x) cstate" where
  "apc_cache_wunlock c = (if entry_level c \<noteq> 0 then c else c\<lparr>cache_lock := Unlocked\<rparr>)"

definition apc_cache_runlock :: "('v, 'x) cstate \<Rightarrow> ('v, 'x) cstate" where
  "apc_cache_runlock c = (if entry_level c \<noteq> 0 then c else c\<lparr>cache_lock := Unlocked\<rparr>)"

text \<open>\<open>apc_time\<close> caches the request time on first use.\<close>

definition apc_time :: "('v, 'x) cstate \<Rightarrow> int \<times> ('v, 'x) cstate" where
  "apc_time c =
     (if use_request_time c
      then let c = (if request_time c = 0 then c\<lparr>request_time := sapi_request_time c\<rparr> else c)
           in (request_time c, c)
      else (clock c, c))"

subsection \<open>Number of slots\<close>

definition primes :: "int list" where
  "primes = [257, 521, 1031, 2053, 3079, 4099, 5147, 6151, 7177, 8209, 9221, 10243, 11273, 12289, 13313,
     14341, 15361, 16411, 17417, 18433, 19457, 20483, 30727, 40961, 61441, 81929, 122887, 163841, 245771,
     327689, 491527, 655373, 983063, 1310627, 1474489, 1965983, 2621347, 3276719, 3932063, 4587431,
     5242801, 6553511, 7864243, 8847271, 9830321, 10485667]"

fun make_prime_loop :: "int \<Rightarrow> int \<Rightarrow> int list \<Rightarrow> int" where
  "make_prime_loop n prev [] = prev"
| "make_prime_loop n prev (k # ks) = (if n < k then k else make_prime_loop n k ks)"

definition make_prime :: "int \<Rightarrow> int" where
  "make_prime n = make_prime_loop n 0 primes"

subsection \<open>Entries\<close>

definition entryat :: "('v, 'x) cstate \<Rightarrow> nat \<Rightarrow> nat" where
  "entryat c off = uadd (c_header c) off"

definition entryof :: "('v, 'x) cstate \<Rightarrow> nat \<Rightarrow> nat" where
  "entryof c a = usub a (c_header c)"

definition slot_addr :: "('v, 'x) cstate \<Rightarrow> nat \<Rightarrow> nat" where
  "slot_addr c i = uadd (uadd (c_header c) (header_bytes c)) (umul 8 i)"

definition gc_addr :: "('v, 'x) cstate \<Rightarrow> nat" where
  "gc_addr c = uadd (c_header c) (gc_offset c)"

definition upd_entry :: "nat \<Rightarrow> ('v entry \<Rightarrow> 'v entry) \<Rightarrow> ('v, 'x) cstate \<Rightarrow> ('v, 'x) cstate" where
  "upd_entry a f c = c\<lparr>dat := (dat c)(a := f (dat c a))\<rparr>"

definition set_next :: "nat \<Rightarrow> nat \<Rightarrow> ('v, 'x) cstate \<Rightarrow> ('v, 'x) cstate" where
  "set_next a v = upd_entry a (\<lambda>e. e\<lparr>e_next := v\<rparr>)"

definition set_prev :: "nat \<Rightarrow> nat \<Rightarrow> ('v, 'x) cstate \<Rightarrow> ('v, 'x) cstate" where
  "set_prev a v = upd_entry a (\<lambda>e. e\<lparr>e_prev := v\<rparr>)"

definition apc_cache_hash_slot :: "('v, 'x) cstate \<Rightarrow> string \<Rightarrow> nat \<times> nat" where
  "apc_cache_hash_slot c key = (zstr_hash c key, zstr_hash c key mod nslots c)"

definition apc_entry_key_equals :: "'v entry \<Rightarrow> string \<Rightarrow> nat \<Rightarrow> bool" where
  "apc_entry_key_equals e key h \<longleftrightarrow>
     e_hash e = h \<and> length (e_key e) = length key \<and> take (length key) (e_key e) = key"

definition apc_cache_entry_hard_expired :: "'v entry \<Rightarrow> int \<Rightarrow> bool" where
  "apc_cache_entry_hard_expired e t \<longleftrightarrow> e_ttl e \<noteq> 0 \<and> int64_of (e_ctime e + e_ttl e) < t"

definition apc_cache_entry_soft_expired :: "('v, 'x) cstate \<Rightarrow> 'v entry \<Rightarrow> int \<Rightarrow> bool" where
  "apc_cache_entry_soft_expired c e t \<longleftrightarrow>
     e_ttl e = 0 \<and> c_ttl c \<noteq> 0 \<and> int64_of (e_atime e + c_ttl c) < t"

definition apc_cache_entry_expired :: "('v, 'x) cstate \<Rightarrow> 'v entry \<Rightarrow> int \<Rightarrow> bool" where
  "apc_cache_entry_expired c e t \<longleftrightarrow>
     apc_cache_entry_hard_expired e t \<or> apc_cache_entry_soft_expired c e t"

definition apc_cache_wlocked_move_entry ::
  "nat \<Rightarrow> nat \<Rightarrow> ('v, 'x) cstate \<Rightarrow> bool \<times> ('v, 'x) cstate" where
  "apc_cache_wlocked_move_entry old new c =
     (if 0 < e_ref_count (dat c old) then (False, c)
      else
        let c = set_next (entryat c (e_prev (dat c old))) (entryof c new) c;
            c = (if e_next (dat c old) \<noteq> 0
                 then set_prev (entryat c (e_next (dat c old))) (entryof c new) c else c)
        in (True, c))"

definition apc_cache_wlocked_link_entry :: "nat \<Rightarrow> nat \<Rightarrow> ('v, 'x) cstate \<Rightarrow> ('v, 'x) cstate" where
  "apc_cache_wlocked_link_entry pos a c =
     (let c = set_next a (e_next (dat c pos)) c;
          c = set_prev a (entryof c pos) c;
          c = set_next pos (entryof c a) c
      in if e_next (dat c a) \<noteq> 0 then set_prev (entryat c (e_next (dat c a))) (e_next (dat c pos)) c else c)"

definition apc_cache_wlocked_unlink_entry :: "nat \<Rightarrow> ('v, 'x) cstate \<Rightarrow> ('v, 'x) cstate" where
  "apc_cache_wlocked_unlink_entry a c =
     (let c = set_next (entryat c (e_prev (dat c a))) (e_next (dat c a)) c
      in if e_next (dat c a) \<noteq> 0 then set_prev (entryat c (e_next (dat c a))) (e_prev (dat c a)) c else c)"

definition free_entry :: "nat \<Rightarrow> ('v, 'x) cstate \<Rightarrow> ('v, 'x) cstate option" where
  "free_entry a c = do { r \<leftarrow> apc_sma_free (Some (int a)) c; Some (snd r) }"

definition apc_cache_wlocked_remove_entry :: "nat \<Rightarrow> ('v, 'x) cstate \<Rightarrow> ('v, 'x) cstate option" where
  "apc_cache_wlocked_remove_entry a c =
     (let c = apc_cache_wlocked_unlink_entry a c;
          c = (if h_mem_size c \<noteq> 0
               then c\<lparr>h_mem_size := int64_of (h_mem_size c - e_mem_size (dat c a))\<rparr> else c);
          c = (if h_nentries c \<noteq> 0 then c\<lparr>h_nentries := int64_of (h_nentries c - 1)\<rparr> else c)
      in if e_ref_count (dat c a) \<le> 0 then free_entry a c
         else Some (apc_cache_wlocked_link_entry (gc_addr c) a
                (upd_entry a (\<lambda>e. e\<lparr>e_dtime := clock c\<rparr>) c)))"

text \<open>\<open>gc_loop now pos\<close>: \<open>pos\<close> is the address of the offset that leads to the next candidate.\<close>

partial_function (option) gc_loop :: "int \<Rightarrow> nat \<Rightarrow> ('v, 'x) cstate \<Rightarrow> ('v, 'x) cstate option" where
  "gc_loop now pos c =
     (if e_next (dat c pos) = 0 then Some c
      else
        let a = entryat c (e_next (dat c pos));
            gc_sec = (if c_gc_ttl c \<noteq> 0 then int64_of (now - e_dtime (dat c a)) else 0)
        in if 0 < e_ref_count (dat c a) \<and> gc_sec \<le> c_gc_ttl c then gc_loop now a c
           else do {
             c' \<leftarrow> free_entry a (apc_cache_wlocked_unlink_entry a c);
             gc_loop now pos c'
           })"

definition apc_cache_wlocked_gc :: "('v, 'x) cstate \<Rightarrow> ('v, 'x) cstate option" where
  "apc_cache_wlocked_gc c =
     (if e_next (dat c (gc_addr c)) = 0 then Some c else gc_loop (clock c) (gc_addr c) c)"

subsection \<open>Insertion\<close>

text \<open>
  The scan of \<open>apc_cache_wlocked_insert\<close>: \<open>None\<close> when an exclusive insert meets an entry that is
  not hard expired, otherwise the address behind which the new entry is linked.
\<close>

partial_function (option) insert_scan ::
  "string \<Rightarrow> nat \<Rightarrow> int \<Rightarrow> bool \<Rightarrow> nat \<Rightarrow> ('v, 'x) cstate \<Rightarrow> (nat option \<times> ('v, 'x) cstate) option" where
  "insert_scan key h t exclusive pos c =
     (if e_next (dat c pos) = 0 then Some (Some pos, c)
      else
        let a = entryat c (e_next (dat c pos))
        in if apc_entry_key_equals (dat c a) key h
           then
             if exclusive \<and> \<not> apc_cache_entry_hard_expired (dat c a) t then Some (None, c)
             else do { c' \<leftarrow> apc_cache_wlocked_remove_entry a c; Some (Some pos, c') }
           else if apc_cache_entry_expired c (dat c a) t
           then do {
             c' \<leftarrow> apc_cache_wlocked_remove_entry a c;
             insert_scan key h t exclusive pos c'
           }
           else insert_scan key h t exclusive a c)"

definition apc_cache_wlocked_insert :: "nat \<Rightarrow> bool \<Rightarrow> ('v, 'x) cstate \<Rightarrow> (bool \<times> ('v, 'x) cstate) option" where
  "apc_cache_wlocked_insert new exclusive c =
     (let key = e_key (dat c new); t = e_ctime (dat c new)
      in do {
        c1 \<leftarrow> apc_cache_wlocked_gc c;
        let hs = apc_cache_hash_slot c1 key;
        r \<leftarrow> insert_scan key (fst hs) t exclusive (slot_addr c1 (snd hs)) c1;
        case fst r of
          None \<Rightarrow> Some (False, snd r)
        | Some pos \<Rightarrow>
            let c2 = apc_cache_wlocked_link_entry pos new (snd r)
            in Some (True, c2\<lparr>h_mem_size := int64_of (h_mem_size c2 + e_mem_size (dat c2 new)),
                 h_nentries := int64_of (h_nentries c2 + 1), h_ninserts := int64_of (h_ninserts c2 + 1)\<rparr>)
      })"

definition apc_cache_set_entry_values :: "int \<Rightarrow> int \<Rightarrow> 'v entry \<Rightarrow> 'v entry" where
  "apc_cache_set_entry_values ttl t e =
     e\<lparr>e_ttl := ttl, e_next := 0, e_prev := 0, e_nhits := 0, e_ctime := t, e_mtime := t, e_atime := t,
       e_dtime := 0\<rparr>"

subsection \<open>Lookup\<close>

text \<open>The walk shared by the lookups: the first entry with the key, or \<open>None\<close> at the end of the list.\<close>

partial_function (option) find_key :: "string \<Rightarrow> nat \<Rightarrow> nat \<Rightarrow> ('v, 'x) cstate \<Rightarrow> nat option option" where
  "find_key key h off c =
     (if off = 0 then Some None
      else
        let a = entryat c off
        in if apc_entry_key_equals (dat c a) key h then Some (Some a)
           else find_key key h (e_next (dat c a)) c)"

definition apc_cache_rlocked_find_nostat :: "string \<Rightarrow> int \<Rightarrow> ('v, 'x) cstate \<Rightarrow> nat option option" where
  "apc_cache_rlocked_find_nostat key t c =
     (let hs = apc_cache_hash_slot c key
      in do {
        r \<leftarrow> find_key key (fst hs) (e_next (dat c (slot_addr c (snd hs)))) c;
        case r of
          None \<Rightarrow> Some None
        | Some a \<Rightarrow> Some (if apc_cache_entry_hard_expired (dat c a) t then None else Some a)
      })"

definition apc_cache_rlocked_find ::
  "string \<Rightarrow> int \<Rightarrow> ('v, 'x) cstate \<Rightarrow> (nat option \<times> ('v, 'x) cstate) option" where
  "apc_cache_rlocked_find key t c =
     (let hs = apc_cache_hash_slot c key;
          miss = (None, c\<lparr>h_nmisses := int64_of (h_nmisses c + 1)\<rparr>)
      in do {
        r \<leftarrow> find_key key (fst hs) (e_next (dat c (slot_addr c (snd hs)))) c;
        case r of
          None \<Rightarrow> Some miss
        | Some a \<Rightarrow>
            if apc_cache_entry_hard_expired (dat c a) t then Some miss
            else Some (Some a, upd_entry a (\<lambda>e. e\<lparr>e_nhits := int64_of (e_nhits e + 1), e_atime := t\<rparr>)
                   (c\<lparr>h_nhits := int64_of (h_nhits c + 1)\<rparr>))
      })"

definition apc_cache_rlocked_find_incref ::
  "string \<Rightarrow> int \<Rightarrow> ('v, 'x) cstate \<Rightarrow> (nat option \<times> ('v, 'x) cstate) option" where
  "apc_cache_rlocked_find_incref key t c =
     do {
       r \<leftarrow> apc_cache_rlocked_find key t c;
       case fst r of
         None \<Rightarrow> Some r
       | Some a \<Rightarrow> Some (Some a, upd_entry a (\<lambda>e. e\<lparr>e_ref_count := int64_of (e_ref_count e + 1)\<rparr>) (snd r))
     }"

definition apc_cache_entry_release :: "nat \<Rightarrow> ('v, 'x) cstate \<Rightarrow> ('v, 'x) cstate" where
  "apc_cache_entry_release a = upd_entry a (\<lambda>e. e\<lparr>e_ref_count := int64_of (e_ref_count e - 1)\<rparr>)"

subsection \<open>Expunging\<close>

text \<open>\<open>for (i = 0; i < n; i++)\<close> over an operation that may not return.\<close>

fun for_slots :: "nat list \<Rightarrow> (nat \<Rightarrow> 's \<Rightarrow> 's option) \<Rightarrow> 's \<Rightarrow> 's option" where
  "for_slots [] f c = Some c"
| "for_slots (i # is) f c = do { c' \<leftarrow> f i c; for_slots is f c' }"

partial_function (option) expunge_slot :: "nat \<Rightarrow> ('v, 'x) cstate \<Rightarrow> ('v, 'x) cstate option" where
  "expunge_slot pos c =
     (if e_next (dat c pos) = 0 then Some c
      else do {
        c' \<leftarrow> apc_cache_wlocked_remove_entry (entryat c (e_next (dat c pos))) c;
        expunge_slot pos c'
      })"

definition apc_cache_wlocked_real_expunge :: "('v, 'x) cstate \<Rightarrow> ('v, 'x) cstate option" where
  "apc_cache_wlocked_real_expunge c =
     (let c = c\<lparr>h_nexpunges := int64_of (h_nexpunges c + 1)\<rparr>
      in do {
        c1 \<leftarrow> for_slots [0..<nslots c] (\<lambda>i c. expunge_slot (slot_addr c i) c) c;
        let tc = apc_time c1;
        Some ((snd tc)\<lparr>h_stime := fst tc, h_ninserts := 0, h_nentries := 0, h_nhits := 0,
               h_nmisses := 0, h_lastkey := no_key\<rparr>)
      })"

definition apc_cache_clear :: "('v, 'x) cstate \<Rightarrow> ('v, 'x) cstate option" where
  "apc_cache_clear c =
     (if \<not> cache_exists c then Some c
      else do {
        r \<leftarrow> apc_cache_wlock c;
        if \<not> fst r then Some (snd r)
        else do {
          c1 \<leftarrow> apc_cache_wlocked_real_expunge (snd r);
          let tc = apc_time c1;
          Some (apc_cache_wunlock ((snd tc)\<lparr>h_stime := fst tc, h_ncleanups := 0, h_ndefragmentations := 0,
                  h_nexpunges := 0\<rparr>))
        }
      })"

partial_function (option) expire_slot :: "int \<Rightarrow> nat \<Rightarrow> ('v, 'x) cstate \<Rightarrow> ('v, 'x) cstate option" where
  "expire_slot t pos c =
     (if e_next (dat c pos) = 0 then Some c
      else
        let a = entryat c (e_next (dat c pos))
        in if apc_cache_entry_expired c (dat c a) t
           then do { c' \<leftarrow> apc_cache_wlocked_remove_entry a c; expire_slot t pos c' }
           else expire_slot t a c)"

text \<open>
  What \<open>apc_cache_default_expunge\<close> does under the lock, \<open>ncleanups\<close> being the number of cleanups it
  read before it waited for the lock.
\<close>

definition expunge_locked :: "int \<Rightarrow> int \<Rightarrow> nat \<Rightarrow> ('v, 'x) cstate \<Rightarrow> (bool \<times> ('v, 'x) cstate) option" where
  "expunge_locked ncleanups t sz c =
     (if ncleanups < h_ncleanups c then Some (False, apc_cache_wunlock c)
      else
        let sz = (if 0 < c_smart c then umul (nat (c_smart c)) sz else sz);
            finish = (\<lambda>c. Some (True, apc_cache_wunlock (c\<lparr>h_ncleanups := int64_of (h_ncleanups c + 1)\<rparr>)))
        in do {
          c1 \<leftarrow> for_slots [0..<nslots c] (\<lambda>i c. expire_slot t (slot_addr c i) c) c;
          c2 \<leftarrow> apc_cache_wlocked_gc c1;
          if \<not> apc_sma_check_avail sz c2
          then do { c3 \<leftarrow> apc_cache_wlocked_real_expunge c2; finish c3 }
          else do {
            c3 \<leftarrow> apc_sma_defrag apc_cache_wlocked_move_entry
                    (c2\<lparr>h_ndefragmentations := int64_of (h_ndefragmentations c2 + 1)\<rparr>);
            r \<leftarrow> apc_sma_check_avail_contiguous sz c3;
            if \<not> fst r
            then do { c4 \<leftarrow> apc_cache_wlocked_real_expunge (snd r); finish c4 }
            else finish ((snd r)\<lparr>h_lastkey := no_key\<rparr>)
          }
        })"

definition apc_cache_default_expunge :: "nat \<Rightarrow> ('v, 'x) cstate \<Rightarrow> (bool \<times> ('v, 'x) cstate) option" where
  "apc_cache_default_expunge sz c =
     (if \<not> cache_exists c then Some (True, c)
      else
        let ncleanups = h_ncleanups c; tc = apc_time c
        in do {
          r \<leftarrow> apc_cache_wlock (snd tc);
          if \<not> fst r then Some (True, snd r) else expunge_locked ncleanups (fst tc) sz (snd r)
        })"

end
