(* ===== verification/Cache_Lists.thy ===== *)
theory Cache_Lists imports Cache begin

text \<open>
  The linked lists of the cache as predicates: \<open>elist\<close>, one null-terminated doubly linked list of
  entries behind a head, and \<open>lists\<close>, the family of disjoint lists behind all heads (hash slots and the
  garbage list). Linking, unlinking and moving an entry act on the family as the corresponding list
  operations.
\<close>

subsection \<open>One list\<close>

text \<open>\<open>h\<close> is the offset of the cache header: links are stored relative to it.\<close>

fun eseg :: "nat \<Rightarrow> (nat \<Rightarrow> 'v entry) \<Rightarrow> nat \<Rightarrow> nat list \<Rightarrow> bool" where
  "eseg h d a [] \<longleftrightarrow> True"
| "eseg h d a (x # xs) \<longleftrightarrow> h < x \<and> x < SEG_MAX \<and> e_next (d a) = x - h \<and> e_prev (d x) = a - h \<and> eseg h d x xs"

definition elist :: "nat \<Rightarrow> (nat \<Rightarrow> 'v entry) \<Rightarrow> nat \<Rightarrow> nat list \<Rightarrow> bool" where
  "elist h d a xs \<longleftrightarrow> eseg h d a xs \<and> e_next (d (last (a # xs))) = 0"

lemma eseg_append: "eseg h d a (xs @ ys) \<longleftrightarrow> eseg h d a xs \<and> eseg h d (last (a # xs)) ys"
  by (induction xs arbitrary: a) auto

lemma eseg_cong:
  assumes "\<And>x. x \<in> set (a # xs) \<Longrightarrow> e_next (d' x) = e_next (d x)"
    and "\<And>x. x \<in> set xs \<Longrightarrow> e_prev (d' x) = e_prev (d x)"
  shows "eseg h d' a xs = eseg h d a xs"
  using assms by (induction xs arbitrary: a) auto

lemma elist_cong:
  assumes "\<And>x. x \<in> set (a # xs) \<Longrightarrow> e_next (d' x) = e_next (d x)"
    and "\<And>x. x \<in> set xs \<Longrightarrow> e_prev (d' x) = e_prev (d x)"
  shows "elist h d' a xs = elist h d a xs"
proof -
  have "last (a # xs) \<in> set (a # xs)" by (rule last_in_set)
  then have "e_next (d' (last (a # xs))) = e_next (d (last (a # xs)))" by (rule assms(1))
  with eseg_cong [OF assms] show ?thesis by (simp add: elist_def)
qed

lemma eseg_mem: "eseg h d a xs \<Longrightarrow> x \<in> set xs \<Longrightarrow> h < x \<and> x < SEG_MAX"
  by (induction xs arbitrary: a) auto

lemma eseg_cong_butlast:
  assumes "\<And>x. x \<in> set (butlast (a # xs)) \<Longrightarrow> e_next (d' x) = e_next (d x)"
    and "\<And>x. x \<in> set xs \<Longrightarrow> e_prev (d' x) = e_prev (d x)"
  shows "eseg h d' a xs = eseg h d a xs"
  using assms
proof (induction xs arbitrary: a)
  case (Cons x xs)
  have "eseg h d' x xs = eseg h d x xs"
    by (rule Cons.IH) (use Cons.prems in \<open>auto split: if_splits\<close>)
  with Cons.prems show ?case by simp
qed simp

lemma elist_mem: "elist h d a xs \<Longrightarrow> x \<in> set xs \<Longrightarrow> h < x \<and> x < SEG_MAX"
  by (auto simp: elist_def dest: eseg_mem)

lemma elist_Nil: "elist h d a [] \<longleftrightarrow> e_next (d a) = 0"
  by (simp add: elist_def)

lemma elist_Cons:
  "elist h d a (x # xs) \<longleftrightarrow> h < x \<and> x < SEG_MAX \<and> e_next (d a) = x - h \<and> e_prev (d x) = a - h \<and> elist h d x xs"
  by (auto simp: elist_def)

lemma elist_append:
  "elist h d a (xs @ ys) \<longleftrightarrow> eseg h d a xs \<and> elist h d (last (a # xs)) ys"
  by (cases ys rule: rev_cases) (auto simp: elist_def eseg_append)

lemma elist_next:
  assumes "elist h d a xs"
  shows "e_next (d a) = (case xs of [] \<Rightarrow> 0 | x # _ \<Rightarrow> x - h)" "e_next (d a) = 0 \<longleftrightarrow> xs = []"
  using assms by (cases xs; auto simp: elist_Nil elist_Cons)+

subsection \<open>The operations on the object memory\<close>

definition linkd :: "nat \<Rightarrow> nat \<Rightarrow> nat \<Rightarrow> (nat \<Rightarrow> 'v entry) \<Rightarrow> (nat \<Rightarrow> 'v entry)" where
  "linkd h pos a d =
     (let d = d(a := (d a)\<lparr>e_next := e_next (d pos), e_prev := pos - h\<rparr>);
          n = e_next (d a);
          d = d(pos := (d pos)\<lparr>e_next := a - h\<rparr>)
      in if n \<noteq> 0 then d(h + n := (d (h + n))\<lparr>e_prev := a - h\<rparr>) else d)"

definition unlinkd :: "nat \<Rightarrow> nat \<Rightarrow> (nat \<Rightarrow> 'v entry) \<Rightarrow> (nat \<Rightarrow> 'v entry)" where
  "unlinkd h a d =
     (let n = e_next (d a); p = e_prev (d a);
          d = d(h + p := (d (h + p))\<lparr>e_next := n\<rparr>)
      in if n \<noteq> 0 then d(h + n := (d (h + n))\<lparr>e_prev := p\<rparr>) else d)"

definition redirectd :: "nat \<Rightarrow> nat \<Rightarrow> nat \<Rightarrow> (nat \<Rightarrow> 'v entry) \<Rightarrow> (nat \<Rightarrow> 'v entry)" where
  "redirectd h a q d =
     (let n = e_next (d a); p = e_prev (d a);
          d = d(h + p := (d (h + p))\<lparr>e_next := q - h\<rparr>)
      in if n \<noteq> 0 then d(h + n := (d (h + n))\<lparr>e_prev := q - h\<rparr>) else d)"

text \<open>Everything but the links of an entry.\<close>

definition same_body :: "(nat \<Rightarrow> 'v entry) \<Rightarrow> (nat \<Rightarrow> 'v entry) \<Rightarrow> bool" where
  "same_body d d' \<longleftrightarrow> (\<forall>x. d' x = (d x)\<lparr>e_next := e_next (d' x), e_prev := e_prev (d' x)\<rparr>)"

lemma same_body_linkd: "same_body d (linkd h pos a d)"
  by (auto simp: same_body_def linkd_def Let_def)

lemma same_body_unlinkd: "same_body d (unlinkd h a d)"
  by (auto simp: same_body_def unlinkd_def Let_def)

lemma same_body_redirectd: "same_body d (redirectd h a q d)"
  by (auto simp: same_body_def redirectd_def Let_def)

lemma same_body_sel:
  assumes "same_body d d'"
  shows "e_ttl (d' x) = e_ttl (d x)" "e_ref_count (d' x) = e_ref_count (d x)" "e_nhits (d' x) = e_nhits (d x)"
    "e_ctime (d' x) = e_ctime (d x)" "e_mtime (d' x) = e_mtime (d x)" "e_dtime (d' x) = e_dtime (d x)"
    "e_atime (d' x) = e_atime (d x)" "e_mem_size (d' x) = e_mem_size (d x)" "e_val (d' x) = e_val (d x)"
    "e_hash (d' x) = e_hash (d x)" "e_key (d' x) = e_key (d x)" "e_data (d' x) = e_data (d x)"
proof -
  have eq: "d' x = (d x)\<lparr>e_next := e_next (d' x), e_prev := e_prev (d' x)\<rparr>"
    using assms by (simp only: same_body_def)
  show "e_ttl (d' x) = e_ttl (d x)" "e_ref_count (d' x) = e_ref_count (d x)" "e_nhits (d' x) = e_nhits (d x)"
    "e_ctime (d' x) = e_ctime (d x)" "e_mtime (d' x) = e_mtime (d x)" "e_dtime (d' x) = e_dtime (d x)"
    "e_atime (d' x) = e_atime (d x)" "e_mem_size (d' x) = e_mem_size (d x)" "e_val (d' x) = e_val (d x)"
    "e_hash (d' x) = e_hash (d x)" "e_key (d' x) = e_key (d x)" "e_data (d' x) = e_data (d x)"
    by (subst eq, simp)+
qed

lemma linkd_next:
  "a \<noteq> pos \<Longrightarrow> e_next (linkd h pos a d x) = (if x = pos then a - h else if x = a then e_next (d pos) else e_next (d x))"
  by (auto simp: linkd_def Let_def)

lemma linkd_prev:
  "a \<noteq> pos \<Longrightarrow> e_prev (linkd h pos a d x) =
     (if e_next (d pos) \<noteq> 0 \<and> x = h + e_next (d pos) then a - h else if x = a then pos - h else e_prev (d x))"
  by (auto simp: linkd_def Let_def)

lemma unlinkd_next:
  "e_next (unlinkd h a d x) = (if x = h + e_prev (d a) then e_next (d a) else e_next (d x))"
  by (auto simp: unlinkd_def Let_def)

lemma unlinkd_prev:
  "e_prev (unlinkd h a d x) = (if e_next (d a) \<noteq> 0 \<and> x = h + e_next (d a) then e_prev (d a) else e_prev (d x))"
  by (auto simp: unlinkd_def Let_def)

lemma redirectd_next:
  "e_next (redirectd h a q d x) = (if x = h + e_prev (d a) then q - h else e_next (d x))"
  by (auto simp: redirectd_def Let_def)

lemma redirectd_prev:
  "e_prev (redirectd h a q d x) = (if e_next (d a) \<noteq> 0 \<and> x = h + e_next (d a) then q - h else e_prev (d x))"
  by (auto simp: redirectd_def Let_def)

subsection \<open>Effect on one list\<close>

lemma butlast_not_last: "distinct xs \<Longrightarrow> x \<in> set (butlast xs) \<Longrightarrow> x \<noteq> last xs"
  by (induction xs) (auto split: if_splits dest: in_set_butlastD)

lemma elist_linkd:
  assumes l: "elist h d a (xs @ ys)" and dist: "distinct (a # xs @ ys)" and e: "e \<notin> set (a # xs @ ys)"
    and b: "h < e" "e < SEG_MAX" "h \<le> a"
  shows "elist h (linkd h (last (a # xs)) e d) a (xs @ e # ys)"
proof -
  let ?p = "last (a # xs)" and ?d = "linkd h (last (a # xs)) e d"
  have p: "?p \<in> set (a # xs)" by (rule last_in_set)
  then have ep: "e \<noteq> ?p" using e by auto
  have s: "eseg h d a xs" and r: "elist h d ?p ys" using l by (simp_all add: elist_append)
  have n: "e_next (d ?p) = (case ys of [] \<Rightarrow> 0 | y # _ \<Rightarrow> y - h)" by (rule elist_next(1) [OF r])
  have hn: "h + e_next (d ?p) = hd ys" if "ys \<noteq> []" using n that r by (cases ys) (auto simp: elist_Cons)
  have "eseg h ?d a xs = eseg h d a xs"
  proof (rule eseg_cong_butlast)
    fix x assume x: "x \<in> set (butlast (a # xs))"
    have "x \<noteq> ?p" using butlast_not_last [OF _ x] dist by auto
    moreover have "x \<noteq> e" using e in_set_butlastD [OF x] by auto
    ultimately show "e_next (?d x) = e_next (d x)" using ep by (simp add: linkd_next)
  next
    fix x assume x: "x \<in> set xs"
    have "x \<noteq> hd ys" if "ys \<noteq> []" using that dist x by (cases ys) auto
    then show "e_prev (?d x) = e_prev (d x)"
      using ep e x hn n by (cases ys) (auto simp: linkd_prev)
  qed
  moreover have "e_next (?d ?p) = e - h" "e_prev (?d e) = ?p - h"
    using ep e hn n by (cases ys; auto simp: linkd_next linkd_prev)+
  moreover have "elist h ?d e ys"
  proof (cases ys)
    case Nil
    then show ?thesis using n ep by (simp add: elist_Nil linkd_next)
  next
    case (Cons y zs)
    have "y \<notin> set (a # xs)" "e \<noteq> y" using dist e Cons by auto
    then have yp: "y \<noteq> ?p" using p by auto
    have "elist h ?d y zs = elist h d y zs"
    proof (rule elist_cong)
      fix x assume x: "x \<in> set (y # zs)"
      then have "x \<notin> set (a # xs)" using dist Cons by auto
      then have "x \<noteq> ?p" using p by auto
      with x e Cons show "e_next (?d x) = e_next (d x)" using ep by (auto simp: linkd_next)
    next
      fix x assume "x \<in> set zs"
      then show "e_prev (?d x) = e_prev (d x)" using ep e dist Cons hn by (auto simp: linkd_prev)
    qed
    then show ?thesis
      using r Cons ep n hn \<open>e \<noteq> y\<close> yp by (auto simp: elist_Cons linkd_next linkd_prev)
  qed
  ultimately show ?thesis using s b by (simp add: elist_append elist_Cons)
qed

lemma elist_unlinkd:
  assumes l: "elist h d a (xs @ e # ys)" and dist: "distinct (a # xs @ e # ys)" and a: "h \<le> a"
  shows "elist h (unlinkd h e d) a (xs @ ys)"
proof -
  let ?p = "last (a # xs)" and ?d = "unlinkd h e d"
  have p: "?p \<in> set (a # xs)" by (rule last_in_set)
  have s: "eseg h d a xs" and r: "elist h d e ys" and ep: "e_prev (d e) = ?p - h"
    using l by (simp_all add: elist_append elist_Cons)
  have hp: "h + e_prev (d e) = ?p" using p eseg_mem [OF s, of ?p] a ep by auto
  have n: "e_next (d e) = (case ys of [] \<Rightarrow> 0 | y # _ \<Rightarrow> y - h)" by (rule elist_next(1) [OF r])
  have hn: "h + e_next (d e) = hd ys" if "ys \<noteq> []" using n that r by (cases ys) (auto simp: elist_Cons)
  have pe: "?p \<noteq> e" using p dist by auto
  have "eseg h ?d a xs = eseg h d a xs"
  proof (rule eseg_cong_butlast)
    fix x assume x: "x \<in> set (butlast (a # xs))"
    have "x \<noteq> ?p" using butlast_not_last [OF _ x] dist by auto
    then show "e_next (?d x) = e_next (d x)" by (simp add: unlinkd_next hp)
  next
    fix x assume x: "x \<in> set xs"
    have "x \<noteq> hd ys" if "ys \<noteq> []" using that dist x by (cases ys) auto
    then show "e_prev (?d x) = e_prev (d x)" using hn n by (cases ys) (auto simp: unlinkd_prev)
  qed
  moreover have "elist h ?d ?p ys"
  proof (cases ys)
    case Nil
    then show ?thesis using n by (simp add: elist_Nil unlinkd_next hp)
  next
    case (Cons y zs)
    have "y \<notin> set (a # xs)" using dist Cons by auto
    then have yp: "y \<noteq> ?p" using p by auto
    have "elist h ?d y zs = elist h d y zs"
    proof (rule elist_cong)
      fix x assume x: "x \<in> set (y # zs)"
      then have "x \<notin> set (a # xs)" using dist Cons by auto
      then have "x \<noteq> ?p" using p by auto
      then show "e_next (?d x) = e_next (d x)" by (simp add: unlinkd_next hp)
    next
      fix x assume "x \<in> set zs"
      then show "e_prev (?d x) = e_prev (d x)" using dist Cons hn by (auto simp: unlinkd_prev)
    qed
    then show ?thesis using r Cons n hn hp ep by (auto simp: elist_Cons unlinkd_next unlinkd_prev)
  qed
  ultimately show ?thesis using s by (simp add: elist_append)
qed

subsection \<open>The family of lists\<close>

definition lists :: "nat \<Rightarrow> (nat \<Rightarrow> 'v entry) \<Rightarrow> nat set \<Rightarrow> (nat \<Rightarrow> nat list) \<Rightarrow> bool" where
  "lists h d H L \<longleftrightarrow>
     (\<forall>a\<in>H. h \<le> a \<and> a < SEG_MAX \<and> elist h d a (L a) \<and> distinct (L a) \<and> set (L a) \<inter> H = {}) \<and>
     (\<forall>a\<in>H. \<forall>b\<in>H. a \<noteq> b \<longrightarrow> set (L a) \<inter> set (L b) = {})"

definition members :: "nat set \<Rightarrow> (nat \<Rightarrow> nat list) \<Rightarrow> nat set" where
  "members H L = (\<Union>a\<in>H. set (L a))"

lemma listsD:
  assumes "lists h d H L" "a \<in> H"
  shows "h \<le> a" "a < SEG_MAX" "elist h d a (L a)" "distinct (L a)" "distinct (a # L a)" "set (L a) \<inter> H = {}"
    "\<And>b. b \<in> H \<Longrightarrow> a \<noteq> b \<Longrightarrow> set (L a) \<inter> set (L b) = {}"
  using assms by (auto simp: lists_def)

lemma members_mem: "a \<in> H \<Longrightarrow> x \<in> set (L a) \<Longrightarrow> x \<in> members H L"
  by (auto simp: members_def)

lemma lists_mem: "lists h d H L \<Longrightarrow> x \<in> members H L \<Longrightarrow> h < x \<and> x < SEG_MAX \<and> x \<notin> H"
  by (auto simp: members_def lists_def dest: elist_mem)

lemma lists_cong:
  assumes "\<And>x. x \<in> H \<union> members H L \<Longrightarrow> e_next (d' x) = e_next (d x)"
    and "\<And>x. x \<in> members H L \<Longrightarrow> e_prev (d' x) = e_prev (d x)"
  shows "lists h d' H L = lists h d H L"
proof -
  have "elist h d' a (L a) = elist h d a (L a)" if "a \<in> H" for a
    by (rule elist_cong) (use assms that in \<open>auto simp: members_def\<close>)
  then show ?thesis by (simp add: lists_def)
qed

text \<open>Only the links of the list behind \<open>a\<close> may change when that list changes.\<close>

lemma lists_update:
  assumes L: "lists h d H L" and a: "a \<in> H" and l: "elist h d' a ys" "distinct ys" "set ys \<inter> H = {}"
    and new: "\<And>b. b \<in> H \<Longrightarrow> b \<noteq> a \<Longrightarrow> set ys \<inter> set (L b) = {}"
    and nx: "\<And>b x. b \<in> H \<Longrightarrow> b \<noteq> a \<Longrightarrow> x \<in> set (b # L b) \<Longrightarrow> e_next (d' x) = e_next (d x)"
    and pv: "\<And>b x. b \<in> H \<Longrightarrow> b \<noteq> a \<Longrightarrow> x \<in> set (L b) \<Longrightarrow> e_prev (d' x) = e_prev (d x)"
  shows "lists h d' H (L(a := ys))"
proof -
  have "elist h d' b (L b)" if "b \<in> H" "b \<noteq> a" for b
    using elist_cong [of b "L b" d' d h] nx [OF that] pv [OF that] listsD(3) [OF L that(1)] by blast
  then show ?thesis
    using L l new by (auto simp: lists_def)
qed

lemma list_pos:
  assumes L: "lists h d H L" and a: "a \<in> H" and l: "L a = xs @ ys"
  shows "last (a # xs) \<in> set (a # L a)" "h \<le> last (a # xs)"
    "\<And>b. b \<in> H \<Longrightarrow> b \<noteq> a \<Longrightarrow> last (a # xs) \<notin> set (b # L b)"
proof -
  have m: "last (a # xs) \<in> set (a # xs)" by (rule last_in_set)
  then show m2: "last (a # xs) \<in> set (a # L a)" using l by auto
  show "h \<le> last (a # xs)"
    using m listsD(1) [OF L a] elist_mem [OF listsD(3) [OF L a], of "last (a # xs)"] l by auto
  fix b assume b: "b \<in> H" "b \<noteq> a"
  show "last (a # xs) \<notin> set (b # L b)"
  proof -
    have "set (L a) \<inter> set (L b) = {}" using listsD(7) [OF L a b(1)] b(2) by blast
    with m2 listsD(6) [OF L a] listsD(6) [OF L b(1)] b a show ?thesis by auto
  qed
qed

lemma lists_link:
  assumes L: "lists h d H L" and a: "a \<in> H" and l: "L a = xs @ ys"
    and e: "e \<notin> H" "e \<notin> members H L" "h < e" "e < SEG_MAX"
  shows "lists h (linkd h (last (a # xs)) e d) H (L(a := xs @ e # ys))"
proof (rule lists_update [OF L a])
  let ?p = "last (a # xs)"
  have dist: "distinct (a # xs @ ys)" and el: "elist h d a (xs @ ys)" and ea: "e \<notin> set (a # xs @ ys)"
    using listsD [OF L a] l e a by (auto simp: members_def)
  note pos = list_pos [OF L a l]
  have ep: "e \<noteq> ?p" using pos(1) e a by (auto simp: members_def)
  show "elist h (linkd h ?p e d) a (xs @ e # ys)"
    by (rule elist_linkd [OF el dist ea]) (use e listsD(1) [OF L a] in auto)
  show "distinct (xs @ e # ys)" "set (xs @ e # ys) \<inter> H = {}" using dist ea listsD(6) [OF L a] l e(1) by auto
  fix b assume b: "b \<in> H" "b \<noteq> a"
  show "set (xs @ e # ys) \<inter> set (L b) = {}" using listsD(7) [OF L a b(1)] b l e(2) by (auto simp: members_def)
  fix x
  show "e_next (linkd h ?p e d x) = e_next (d x)" if "x \<in> set (b # L b)"
  proof -
    have "x \<noteq> e" using that b e by (auto simp: members_def)
    moreover have "x \<noteq> ?p" using pos(3) [OF b] that by blast
    ultimately show ?thesis using ep by (simp add: linkd_next)
  qed
  show "e_prev (linkd h ?p e d x) = e_prev (d x)" if x: "x \<in> set (L b)"
  proof -
    have r: "elist h d ?p ys" using el by (simp add: elist_append)
    have "x \<noteq> e" using x b e by (auto simp: members_def)
    moreover have "x \<noteq> h + e_next (d ?p)" if nz: "e_next (d ?p) \<noteq> 0"
    proof -
      obtain y zs where y: "ys = y # zs" using nz elist_next(2) [OF r] by (cases ys) auto
      then have "h + e_next (d ?p) = y" using r by (auto simp: elist_Cons)
      moreover have "y \<in> set (L a)" using l y by simp
      ultimately show ?thesis using x listsD(7) [OF L a b(1)] b by auto
    qed
    ultimately show ?thesis using ep by (auto simp: linkd_prev)
  qed
qed

lemma lists_unlink:
  assumes L: "lists h d H L" and a: "a \<in> H" and l: "L a = xs @ e # ys"
  shows "lists h (unlinkd h e d) H (L(a := xs @ ys))"
proof (rule lists_update [OF L a])
  let ?p = "last (a # xs)"
  have dist: "distinct (a # xs @ e # ys)" and el: "elist h d a (xs @ e # ys)"
    using listsD [OF L a] l by auto
  note pos = list_pos [OF L a l]
  show "elist h (unlinkd h e d) a (xs @ ys)" by (rule elist_unlinkd [OF el dist listsD(1) [OF L a]])
  show "distinct (xs @ ys)" "set (xs @ ys) \<inter> H = {}" using dist listsD(6) [OF L a] l by auto
  have hp: "h + e_prev (d e) = ?p" using el pos(2) by (auto simp: elist_append elist_Cons)
  fix b assume b: "b \<in> H" "b \<noteq> a"
  show "set (xs @ ys) \<inter> set (L b) = {}" using listsD(7) [OF L a b(1)] b l by auto
  fix x
  show "e_next (unlinkd h e d x) = e_next (d x)" if "x \<in> set (b # L b)"
    using pos(3) [OF b] that hp by (auto simp: unlinkd_next)
  show "e_prev (unlinkd h e d x) = e_prev (d x)" if x: "x \<in> set (L b)"
  proof -
    have r: "elist h d e ys" using el by (simp add: elist_append elist_Cons)
    have "x \<noteq> h + e_next (d e)" if nz: "e_next (d e) \<noteq> 0"
    proof -
      obtain y zs where y: "ys = y # zs" using nz elist_next(2) [OF r] by (cases ys) auto
      then have "h + e_next (d e) = y" using r by (auto simp: elist_Cons)
      moreover have "y \<in> set (L a)" using l y by simp
      ultimately show ?thesis using x listsD(7) [OF L a b(1)] b by auto
    qed
    then show ?thesis by (auto simp: unlinkd_prev)
  qed
qed

lemma members_update: "a \<in> H \<Longrightarrow> members H (L(a := ys)) = set ys \<union> members (H - {a}) L"
  by (auto simp: members_def split: if_splits)

lemma members_split: "a \<in> H \<Longrightarrow> members H L = set (L a) \<union> members (H - {a}) L"
  by (auto simp: members_def)

lemma members_unlink:
  assumes L: "lists h d H L" and a: "a \<in> H" and l: "L a = xs @ e # ys"
  shows "members H (L(a := xs @ ys)) = members H L - {e}" "e \<in> members H L"
proof -
  have "e \<notin> set (L b)" if "b \<in> H" "b \<noteq> a" for b using listsD(7) [OF L a that(1)] that l by auto
  moreover have "e \<notin> set (xs @ ys)" using listsD(4) [OF L a] l by simp
  ultimately show "members H (L(a := xs @ ys)) = members H L - {e}"
    unfolding members_update [of a H L "xs @ ys", OF a] members_split [of a H L, OF a] l by (auto simp: members_def)
  show "e \<in> members H L" by (rule members_mem [OF a]) (simp add: l)
qed

lemma members_link:
  "a \<in> H \<Longrightarrow> L a = xs @ ys \<Longrightarrow> members H (L(a := xs @ e # ys)) = insert e (members H L)"
  by (simp add: members_update members_split [of a H L])

text \<open>Moving the entry \<open>e\<close> to the free place \<open>q\<close>, after its neighbours have been redirected.\<close>

lemma elist_move:
  assumes l: "elist h d a (xs @ e # ys)" and dist: "distinct (a # xs @ e # ys)" and a: "h \<le> a"
    and q: "h < q" "q < SEG_MAX"
    and body: "e_next (d' q) = e_next (d e)" "e_prev (d' q) = e_prev (d e)"
    and rest: "\<And>x. x \<in> set (a # xs @ ys) \<Longrightarrow> d' x = redirectd h e q d x"
  shows "elist h d' a (xs @ q # ys)"
proof -
  let ?p = "last (a # xs)" and ?r = "redirectd h e q d"
  have p: "?p \<in> set (a # xs)" by (rule last_in_set)
  have s: "eseg h d a xs" and r: "elist h d e ys" and ep: "e_prev (d e) = ?p - h"
    using l by (simp_all add: elist_append elist_Cons)
  have hp: "h + e_prev (d e) = ?p" using p eseg_mem [OF s, of ?p] a ep by auto
  have n: "e_next (d e) = (case ys of [] \<Rightarrow> 0 | y # _ \<Rightarrow> y - h)" by (rule elist_next(1) [OF r])
  have hn: "h + e_next (d e) = hd ys" if "ys \<noteq> []" using n that r by (cases ys) (auto simp: elist_Cons)
  have "eseg h d' a xs = eseg h d a xs"
  proof (rule eseg_cong_butlast)
    fix x assume x: "x \<in> set (butlast (a # xs))"
    have "x \<noteq> ?p" using butlast_not_last [OF _ x] dist by auto
    moreover have "x \<in> set (a # xs @ ys)" using in_set_butlastD [OF x] by auto
    ultimately show "e_next (d' x) = e_next (d x)" using rest by (simp add: redirectd_next hp)
  next
    fix x assume x: "x \<in> set xs"
    have "x \<noteq> hd ys" if "ys \<noteq> []" using that dist x by (cases ys) auto
    then show "e_prev (d' x) = e_prev (d x)" using hn n rest x by (cases ys) (auto simp: redirectd_prev)
  qed
  moreover have "e_next (d' ?p) = q - h"
  proof -
    have "?p \<in> set (a # xs @ ys)" using p by auto
    then show ?thesis using rest by (simp add: redirectd_next hp)
  qed
  moreover have "elist h d' q ys"
  proof (cases ys)
    case Nil
    then show ?thesis using n body by (simp add: elist_Nil)
  next
    case (Cons y zs)
    have "y \<notin> set (a # xs)" using dist Cons by auto
    then have yp: "y \<noteq> ?p" using p by auto
    have "elist h d' y zs = elist h d y zs"
    proof (rule elist_cong)
      fix x assume x: "x \<in> set (y # zs)"
      then have "x \<notin> set (a # xs)" using dist Cons by auto
      then have "x \<noteq> ?p" using p by auto
      then show "e_next (d' x) = e_next (d x)" using x Cons rest by (auto simp: redirectd_next hp)
    next
      fix x assume "x \<in> set zs"
      then show "e_prev (d' x) = e_prev (d x)" using dist Cons hn rest by (auto simp: redirectd_prev)
    qed
    then show ?thesis using r Cons n hn body q rest by (auto simp: elist_Cons redirectd_prev)
  qed
  ultimately show ?thesis using s q body ep by (simp add: elist_append elist_Cons)
qed

lemma lists_move:
  assumes L: "lists h d H L" and a: "a \<in> H" and l: "L a = xs @ e # ys"
    and q: "q \<notin> H" "q \<notin> members H L - {e}" "h < q" "q < SEG_MAX"
    and body: "e_next (d' q) = e_next (d e)" "e_prev (d' q) = e_prev (d e)"
    and rest: "\<And>x. x \<in> H \<union> (members H L - {e}) \<Longrightarrow> d' x = redirectd h e q d x"
  shows "lists h d' H (L(a := xs @ q # ys))"
proof (rule lists_update [OF L a])
  let ?p = "last (a # xs)"
  have dist: "distinct (a # xs @ e # ys)" and el: "elist h d a (xs @ e # ys)"
    using listsD [OF L a] l by auto
  note pos = list_pos [OF L a l]
  have hp: "h + e_prev (d e) = ?p" using el pos(2) by (auto simp: elist_append elist_Cons)
  have ra: "d' x = redirectd h e q d x" if "x \<in> set (a # xs @ ys)" for x
  proof (rule rest)
    have "x \<in> insert a (members H L)" using that a l by (auto intro: members_mem [OF a])
    moreover have "x \<noteq> e" using that dist by auto
    ultimately show "x \<in> H \<union> (members H L - {e})" using a by auto
  qed
  have qn: "q \<notin> set (a # xs @ ys)" using q a l dist by (auto simp: members_def)
  show "elist h d' a (xs @ q # ys)"
    by (rule elist_move [where h = h and d = d and d' = d' and a = a and xs = xs and e = e and q = q and ys = ys,
          OF el dist listsD(1) [OF L a] q(3,4) body])
      (use ra in simp)
  show "distinct (xs @ q # ys)" "set (xs @ q # ys) \<inter> H = {}" using dist qn listsD(6) [OF L a] l q(1) by auto
  fix b assume b: "b \<in> H" "b \<noteq> a"
  have dj: "set (L a) \<inter> set (L b) = {}" using listsD(7) [OF L a b(1)] b(2) by blast
  then have eb: "e \<notin> set (L b)" using l by auto
  have qb: "q \<notin> set (L b)" using q(2) eb b by (auto simp: members_def)
  then show "set (xs @ q # ys) \<inter> set (L b) = {}" using dj l by auto
  have eH: "e \<notin> H" using listsD(6) [OF L a] l by auto
  fix x
  have rx: "d' x = redirectd h e q d x" if "x \<in> set (b # L b)"
    by (rule rest) (use that b eb eH in \<open>auto simp: members_def\<close>)
  show "e_next (d' x) = e_next (d x)" if "x \<in> set (b # L b)"
    using pos(3) [OF b] that hp rx by (auto simp: redirectd_next)
  show "e_prev (d' x) = e_prev (d x)" if x: "x \<in> set (L b)"
  proof -
    have r: "elist h d e ys" using el by (simp add: elist_append elist_Cons)
    have "x \<noteq> h + e_next (d e)" if nz: "e_next (d e) \<noteq> 0"
    proof -
      obtain y zs where y: "ys = y # zs" using nz elist_next(2) [OF r] by (cases ys) auto
      then have "h + e_next (d e) = y" using r by (auto simp: elist_Cons)
      moreover have "y \<in> set (L a)" using l y by simp
      ultimately show ?thesis using x dj by auto
    qed
    then show ?thesis using rx x by (auto simp: redirectd_prev)
  qed
qed

subsection \<open>The operations of the cache on the family\<close>

lemma link_entry_linkd:
  assumes "a \<noteq> pos" "c_header c \<le> pos" "pos < SEG_MAX" "c_header c < a" "a < SEG_MAX"
    "e_next (dat c pos) \<noteq> 0 \<Longrightarrow> c_header c + e_next (dat c pos) < SEG_MAX"
  shows "apc_cache_wlocked_link_entry pos a c = c\<lparr>dat := linkd (c_header c) pos a (dat c)\<rparr>"
proof -
  have u: "entryof c pos = pos - c_header c" "entryof c a = a - c_header c"
    using assms by (simp_all add: entryof_def usub_small)
  have "e_next (dat c pos) \<noteq> 0 \<Longrightarrow> entryat c (e_next (dat c pos)) = c_header c + e_next (dat c pos)"
    using assms(6) by (simp add: entryat_def uadd_small)
  with u assms(1) show ?thesis
    by (auto simp: apc_cache_wlocked_link_entry_def set_next_def set_prev_def upd_entry_def linkd_def Let_def
        entryof_def entryat_def)
qed

lemma unlink_entry_unlinkd:
  assumes "c_header c + e_prev (dat c a) < SEG_MAX" "c_header c + e_prev (dat c a) \<noteq> a"
    "e_next (dat c a) \<noteq> 0 \<Longrightarrow> c_header c + e_next (dat c a) < SEG_MAX"
  shows "apc_cache_wlocked_unlink_entry a c = c\<lparr>dat := unlinkd (c_header c) a (dat c)\<rparr>"
proof -
  have "entryat c (e_prev (dat c a)) = c_header c + e_prev (dat c a)"
    using assms(1) by (simp add: entryat_def uadd_small)
  moreover have "e_next (dat c a) \<noteq> 0 \<Longrightarrow> entryat c (e_next (dat c a)) = c_header c + e_next (dat c a)"
    using assms(3) by (simp add: entryat_def uadd_small)
  ultimately show ?thesis using assms(2)
    by (auto simp: apc_cache_wlocked_unlink_entry_def set_next_def set_prev_def upd_entry_def unlinkd_def
        Let_def entryat_def)
qed

lemma move_entry_redirectd:
  assumes "c_header c + e_prev (dat c a) < SEG_MAX" "c_header c + e_prev (dat c a) \<noteq> a"
    "e_next (dat c a) \<noteq> 0 \<Longrightarrow> c_header c + e_next (dat c a) < SEG_MAX"
    "c_header c \<le> q" "q < SEG_MAX"
  shows "apc_cache_wlocked_move_entry a q c =
    (if 0 < e_ref_count (dat c a) then (False, c) else (True, c\<lparr>dat := redirectd (c_header c) a q (dat c)\<rparr>))"
proof -
  have "entryat c (e_prev (dat c a)) = c_header c + e_prev (dat c a)" "entryof c q = q - c_header c"
    using assms by (simp_all add: entryat_def entryof_def uadd_small usub_small)
  moreover have "e_next (dat c a) \<noteq> 0 \<Longrightarrow> entryat c (e_next (dat c a)) = c_header c + e_next (dat c a)"
    using assms(3) by (simp add: entryat_def uadd_small)
  ultimately show ?thesis using assms(2)
    by (auto simp: apc_cache_wlocked_move_entry_def set_next_def set_prev_def upd_entry_def redirectd_def
        Let_def entryat_def entryof_def)
qed

end
