(* ===== verification/Cache_Inv.thy ===== *)
theory Cache_Inv imports Cache_Lists begin

text \<open>
  The invariant of the cache. \<open>cache_inv c L\<close> ties the shared memory to the lists \<open>L\<close> of entry addresses
  behind the heads: the header is the first allocation, every other allocation is an entry in exactly one
  list or is held by a process (its \<open>ref_count\<close> is positive), every entry is in the slot of its key and no
  key occurs twice, and the counters \<open>nentries\<close> and \<open>mem_size\<close> are exact. The lemmas show how the steps
  that link and remove entries act on \<open>L\<close>. The allocator's lock is assumed to be always obtained.
\<close>

subsection \<open>Geometry\<close>

definition slot_at :: "('v, 'x) cstate \<Rightarrow> nat \<Rightarrow> nat" where
  "slot_at c i = c_header c + header_bytes c + 8 * i"

definition gc_at :: "('v, 'x) cstate \<Rightarrow> nat" where
  "gc_at c = c_header c + gc_offset c"

definition slots :: "('v, 'x) cstate \<Rightarrow> nat set" where
  "slots c = slot_at c ` {..<nslots c}"

definition heads :: "('v, 'x) cstate \<Rightarrow> nat set" where
  "heads c = insert (gc_at c) (slots c)"

definition header_ok :: "(nat \<Rightarrow> nat option) \<Rightarrow> ('v, 'x) cstate \<Rightarrow> bool" where
  "header_ok A c \<longleftrightarrow> c_header c = first_block (hdr_size c) + BHDR \<and> 0 < nslots c \<and> 0 < gc_offset c \<and>
     gc_offset c + 8 \<le> header_bytes c \<and> c_header c + header_bytes c + 8 * nslots c < SEG_MAX \<and>
     header_bytes c + 8 * nslots c \<le> (case A (c_header c) of Some n \<Rightarrow> n | None \<Rightarrow> 0)"

lemma header_okD:
  assumes "header_ok A c"
  shows "c_header c = first_block (hdr_size c) + BHDR" "0 < nslots c" "0 < gc_offset c"
    "gc_offset c + 8 \<le> header_bytes c" "c_header c + header_bytes c + 8 * nslots c < SEG_MAX"
    "\<exists>n. A (c_header c) = Some n \<and> header_bytes c + 8 * nslots c \<le> n"
  using assms by (auto simp: header_ok_def split: option.splits)

lemma header_addrs:
  assumes "header_ok A c"
  shows "gc_addr c = gc_at c" "i < nslots c \<Longrightarrow> slot_addr c i = slot_at c i" "gc_at c \<notin> slots c"
    "a \<in> heads c \<Longrightarrow> c_header c < a \<and> a + 8 \<le> c_header c + header_bytes c + 8 * nslots c"
    "i < nslots c \<Longrightarrow> slot_at c i \<in> slots c" "gc_at c \<in> heads c" "slots c \<subseteq> heads c"
    "i < nslots c \<Longrightarrow> slot_at c i \<in> heads c" "i < nslots c \<Longrightarrow> slot_at c i \<noteq> gc_at c"
proof -
  note h = header_okD [OF assms]
  show "gc_addr c = gc_at c" using h by (simp add: gc_addr_def gc_at_def uadd_small)
  show "i < nslots c \<Longrightarrow> slot_addr c i = slot_at c i"
    using h by (simp add: slot_addr_def slot_at_def uadd_small umul_small)
  show "gc_at c \<notin> slots c" using h by (auto simp: gc_at_def slots_def slot_at_def)
  show "a \<in> heads c \<Longrightarrow> c_header c < a \<and> a + 8 \<le> c_header c + header_bytes c + 8 * nslots c"
    using h by (auto simp: gc_at_def heads_def slots_def slot_at_def)
  show "i < nslots c \<Longrightarrow> slot_at c i \<in> slots c" "gc_at c \<in> heads c" "slots c \<subseteq> heads c"
    "i < nslots c \<Longrightarrow> slot_at c i \<in> heads c"
    by (auto simp: heads_def slots_def)
  show "i < nslots c \<Longrightarrow> slot_at c i \<noteq> gc_at c" using h by (auto simp: gc_at_def slot_at_def)
qed

lemma slot_at_inj [simp]: "slot_at c i = slot_at c j \<longleftrightarrow> i = j"
  by (simp add: slot_at_def)

subsection \<open>The invariant\<close>

text \<open>An entry without its links.\<close>

definition strip :: "'v entry \<Rightarrow> 'v entry" where
  "strip e = e\<lparr>e_next := 0, e_prev := 0\<rparr>"

lemma strip_sel [simp]:
  "e_ttl (strip e) = e_ttl e" "e_ref_count (strip e) = e_ref_count e" "e_nhits (strip e) = e_nhits e"
  "e_ctime (strip e) = e_ctime e" "e_mtime (strip e) = e_mtime e" "e_dtime (strip e) = e_dtime e"
  "e_atime (strip e) = e_atime e" "e_mem_size (strip e) = e_mem_size e" "e_val (strip e) = e_val e"
  "e_hash (strip e) = e_hash e" "e_key (strip e) = e_key e" "e_data (strip e) = e_data e"
  by (simp_all add: strip_def)

lemma same_body_strip: "same_body d d' \<Longrightarrow> strip (d' x) = strip (d x)"
  unfolding same_body_def strip_def
  by (drule spec [of _ x]) (metis (no_types, lifting) entry.surjective entry.update_convs(1,2))

lemma strip_eqD:
  assumes "strip a = strip b"
  shows "e_ttl a = e_ttl b" "e_ref_count a = e_ref_count b" "e_nhits a = e_nhits b" "e_ctime a = e_ctime b"
    "e_mtime a = e_mtime b" "e_dtime a = e_dtime b" "e_atime a = e_atime b" "e_mem_size a = e_mem_size b"
    "e_val a = e_val b" "e_hash a = e_hash b" "e_key a = e_key b" "e_data a = e_data b"
  using assms strip_sel(1-12) [of a] strip_sel(1-12) [of b] by metis+

text \<open>An entry that lies in slot \<open>i\<close>.\<close>

definition slot_entry :: "(nat \<Rightarrow> nat option) \<Rightarrow> ('v, 'x) cstate \<Rightarrow> nat \<Rightarrow> nat \<Rightarrow> bool" where
  "slot_entry A c i x \<longleftrightarrow> e_hash (dat c x) = zstr_hash c (e_key (dat c x)) \<and>
     zstr_hash c (e_key (dat c x)) mod nslots c = i \<and> 0 < e_mem_size (dat c x) \<and>
     e_mem_size (dat c x) \<le> (case A x of Some n \<Rightarrow> int n | None \<Rightarrow> 0)"

definition cache_layout :: "(nat \<Rightarrow> nat option) \<Rightarrow> ('v, 'x) cstate \<Rightarrow> (nat \<Rightarrow> nat list) \<Rightarrow> bool" where
  "cache_layout A c L \<longleftrightarrow> header_ok A c \<and> lists (c_header c) (dat c) (heads c) L \<and> 0 \<notin> ran A \<and>
     members (heads c) L \<subseteq> dom A - {c_header c} \<and>
     (\<forall>p\<in>dom A - {c_header c} - members (heads c) L. 0 < e_ref_count (dat c p))"

definition cache_content :: "(nat \<Rightarrow> nat option) \<Rightarrow> ('v, 'x) cstate \<Rightarrow> (nat \<Rightarrow> nat list) \<Rightarrow> bool" where
  "cache_content A c L \<longleftrightarrow>
     (\<forall>i<nslots c. (\<forall>x\<in>set (L (slot_at c i)). slot_entry A c i x) \<and>
        distinct (map (\<lambda>x. e_key (dat c x)) (L (slot_at c i)))) \<and>
     h_nentries c = int (card (members (slots c) L)) \<and>
     h_mem_size c = (\<Sum>x\<in>members (slots c) L. e_mem_size (dat c x))"

definition cache_inv :: "('v, 'x) cstate \<Rightarrow> (nat \<Rightarrow> nat list) \<Rightarrow> bool" where
  "cache_inv c L \<longleftrightarrow> sma_ready c \<and> sma_lock_results c = [] \<and> cache_layout (sma_allocs c) c L \<and>
     cache_content (sma_allocs c) c L"

subsection \<open>What the steps leave alone\<close>

definition core :: "('v, 'x) cstate \<Rightarrow> ('v, 'x) cstate" where
  "core c = c\<lparr>blk := (\<lambda>_. undefined), avail := 0, dat := (\<lambda>_. undefined), h_nentries := 0, h_mem_size := 0\<rparr>"

definition same_core :: "('v, 'x) cstate \<Rightarrow> ('v, 'x) cstate \<Rightarrow> bool" where
  "same_core c c' \<longleftrightarrow> core c' = core c"

lemma same_core_refl [simp]: "same_core c c"
  by (simp add: same_core_def)

lemma same_core_trans: "same_core c1 c2 \<Longrightarrow> same_core c2 c3 \<Longrightarrow> same_core c1 c3"
  by (simp add: same_core_def)

lemma same_core_intro [simp]:
  "same_core c (c\<lparr>blk := b\<rparr>)" "same_core c (c\<lparr>avail := a\<rparr>)" "same_core c (c\<lparr>dat := d\<rparr>)"
  "same_core c (c\<lparr>h_nentries := n\<rparr>)" "same_core c (c\<lparr>h_mem_size := n\<rparr>)" "same_core c (c\<lparr>blk := b, avail := a\<rparr>)"
  by (simp_all add: same_core_def core_def)

lemma same_core_sel:
  assumes "same_core c c'"
  shows "sma_size c' = sma_size c" "sma_max_alloc_size c' = sma_max_alloc_size c" "hdr_size c' = hdr_size c"
    "sma_locked c' = sma_locked c" "sma_lock_results c' = sma_lock_results c" "cache_exists c' = cache_exists c"
    "c_header c' = c_header c" "header_bytes c' = header_bytes c" "gc_offset c' = gc_offset c"
    "nslots c' = nslots c" "c_gc_ttl c' = c_gc_ttl c" "c_ttl c' = c_ttl c" "c_smart c' = c_smart c"
    "c_defend c' = c_defend c" "h_nhits c' = h_nhits c" "h_nmisses c' = h_nmisses c"
    "h_ninserts c' = h_ninserts c" "h_ncleanups c' = h_ncleanups c"
    "h_ndefragmentations c' = h_ndefragmentations c" "h_nexpunges c' = h_nexpunges c" "h_stime c' = h_stime c"
    "h_lastkey c' = h_lastkey c" "cache_lock c' = cache_lock c" "cache_lock_results c' = cache_lock_results c"
    "entry_level c' = entry_level c" "zstr_hash c' = zstr_hash c" "clock c' = clock c"
    "use_request_time c' = use_request_time c" "request_time c' = request_time c"
    "sapi_request_time c' = sapi_request_time c" "pid c' = pid c" "min_block_size c' = min_block_size c"
proof -
  have "core c' = core c" using assms by (simp add: same_core_def)
  from arg_cong [OF this, of sma_size] arg_cong [OF this, of sma_max_alloc_size] arg_cong [OF this, of hdr_size]
    arg_cong [OF this, of sma_locked] arg_cong [OF this, of sma_lock_results] arg_cong [OF this, of cache_exists]
    arg_cong [OF this, of c_header] arg_cong [OF this, of header_bytes] arg_cong [OF this, of gc_offset]
    arg_cong [OF this, of nslots] arg_cong [OF this, of c_gc_ttl] arg_cong [OF this, of c_ttl]
    arg_cong [OF this, of c_smart] arg_cong [OF this, of c_defend] arg_cong [OF this, of h_nhits]
    arg_cong [OF this, of h_nmisses] arg_cong [OF this, of h_ninserts] arg_cong [OF this, of h_ncleanups]
    arg_cong [OF this, of h_ndefragmentations] arg_cong [OF this, of h_nexpunges] arg_cong [OF this, of h_stime]
    arg_cong [OF this, of h_lastkey] arg_cong [OF this, of cache_lock] arg_cong [OF this, of cache_lock_results]
    arg_cong [OF this, of entry_level] arg_cong [OF this, of zstr_hash] arg_cong [OF this, of clock]
    arg_cong [OF this, of use_request_time] arg_cong [OF this, of request_time]
    arg_cong [OF this, of sapi_request_time] arg_cong [OF this, of pid] arg_cong [OF this, of min_block_size]
  show "sma_size c' = sma_size c" "sma_max_alloc_size c' = sma_max_alloc_size c" "hdr_size c' = hdr_size c"
    "sma_locked c' = sma_locked c" "sma_lock_results c' = sma_lock_results c" "cache_exists c' = cache_exists c"
    "c_header c' = c_header c" "header_bytes c' = header_bytes c" "gc_offset c' = gc_offset c"
    "nslots c' = nslots c" "c_gc_ttl c' = c_gc_ttl c" "c_ttl c' = c_ttl c" "c_smart c' = c_smart c"
    "c_defend c' = c_defend c" "h_nhits c' = h_nhits c" "h_nmisses c' = h_nmisses c"
    "h_ninserts c' = h_ninserts c" "h_ncleanups c' = h_ncleanups c"
    "h_ndefragmentations c' = h_ndefragmentations c" "h_nexpunges c' = h_nexpunges c" "h_stime c' = h_stime c"
    "h_lastkey c' = h_lastkey c" "cache_lock c' = cache_lock c" "cache_lock_results c' = cache_lock_results c"
    "entry_level c' = entry_level c" "zstr_hash c' = zstr_hash c" "clock c' = clock c"
    "use_request_time c' = use_request_time c" "request_time c' = request_time c"
    "sapi_request_time c' = sapi_request_time c" "pid c' = pid c" "min_block_size c' = min_block_size c"
    by (simp_all add: core_def)
qed

lemma same_core_addrs:
  assumes "same_core c c'"
  shows "slot_at c' = slot_at c" "gc_at c' = gc_at c" "slots c' = slots c" "heads c' = heads c"
  using same_core_sel [OF assms] by (auto simp: slot_at_def gc_at_def slots_def heads_def fun_eq_iff)

lemma sma_cong:
  assumes "blk s' = blk s" "hdr_size s' = hdr_size s" "sma_size s' = sma_size s" "avail s' = avail s"
    "min_block_size s' = min_block_size s" "sma_max_alloc_size s' = sma_max_alloc_size s"
  shows "sma_ok s' = sma_ok s" "sma_live s' = sma_live s" "sma_room s' = sma_room s" "sma_allocs s' = sma_allocs s"
    "sma_fits n s' = sma_fits n s"
proof -
  have b: "sma_blocks s' = sma_blocks s" "sma_frees s' = sma_frees s"
    using assms by (simp_all add: sma_blocks_def sma_frees_def)
  then show "sma_ok s' = sma_ok s" "sma_live s' = sma_live s"
    "sma_allocs s' = sma_allocs s" "sma_fits n s' = sma_fits n s"
    using assms by (simp_all add: sma_ok_def sma_inv_def sma_live_def sma_allocs_def sma_fits_def)
  show "sma_room s' = sma_room s" using assms(1) by (auto simp: sma_room_def fun_eq_iff)
qed

lemma sma_allocs_update:
  assumes "sma_live s' = insert p (sma_live s)" "\<forall>q\<in>sma_live s. sma_room s' q = sma_room s q" "p \<notin> sma_live s"
  shows "sma_allocs s' = (sma_allocs s)(p \<mapsto> sma_room s' p)"
proof
  fix x
  show "sma_allocs s' x = ((sma_allocs s)(p \<mapsto> sma_room s' p)) x"
  proof (cases "x \<in> sma_live s'")
    case True
    then show ?thesis using assms sma_allocs_room [of x s'] sma_allocs_room [of x s] by auto
  next
    case False
    then have "sma_allocs s' x = None" "sma_allocs s x = None" "x \<noteq> p"
      using sma_allocs_dom [of s'] sma_allocs_dom [of s] assms(1) by blast+
    then show ?thesis by simp
  qed
qed

lemma sma_allocs_remove:
  assumes "sma_live s' = sma_live s - {p}" "\<forall>q\<in>sma_live s - {p}. sma_room s' q = sma_room s q"
  shows "sma_allocs s' = (sma_allocs s)(p := None)"
proof
  fix x
  show "sma_allocs s' x = ((sma_allocs s)(p := None)) x"
  proof (cases "x \<in> sma_live s'")
    case True
    then show ?thesis using assms sma_allocs_room [of x s'] sma_allocs_room [of x s] by auto
  next
    case False
    then have "sma_allocs s' x = None" "x = p \<or> sma_allocs s x = None"
      using sma_allocs_dom [of s'] sma_allocs_dom [of s] assms(1) by blast+
    then show ?thesis by auto
  qed
qed

subsection \<open>Facts of the invariant\<close>

lemma layoutD:
  assumes "cache_layout A c L"
  shows "header_ok A c" "lists (c_header c) (dat c) (heads c) L" "\<And>p n. A p = Some n \<Longrightarrow> 0 < n"
    "\<And>x. x \<in> members (heads c) L \<Longrightarrow> x \<in> dom A \<and> x \<noteq> c_header c"
    "\<And>p. p \<in> dom A \<Longrightarrow> p \<noteq> c_header c \<Longrightarrow> p \<notin> members (heads c) L \<Longrightarrow> 0 < e_ref_count (dat c p)"
    "\<And>x. x \<in> members (heads c) L \<Longrightarrow> c_header c < x \<and> x < SEG_MAX \<and> x \<notin> heads c"
proof -
  show "\<And>p n. A p = Some n \<Longrightarrow> 0 < n" using assms by (metis cache_layout_def ranI not_gr_zero)
qed (use assms lists_mem [of "c_header c" "dat c" "heads c" L] in \<open>auto simp: cache_layout_def\<close>)

lemma layoutI:
  assumes "header_ok A c" "lists (c_header c) (dat c) (heads c) L" "\<And>p n. A p = Some n \<Longrightarrow> 0 < n"
    "\<And>x. x \<in> members (heads c) L \<Longrightarrow> x \<in> dom A \<and> x \<noteq> c_header c"
    "\<And>p. p \<in> dom A \<Longrightarrow> p \<noteq> c_header c \<Longrightarrow> p \<notin> members (heads c) L \<Longrightarrow> 0 < e_ref_count (dat c p)"
  shows "cache_layout A c L"
  using assms(1,2,4,5) assms(3) [of _ 0] unfolding cache_layout_def ran_def by blast

lemma header_ok_core:
  assumes "header_ok A c" "same_core c c'" "A' (c_header c) = A (c_header c)"
  shows "header_ok A' c'"
  using assms(1) unfolding header_ok_def same_core_sel [OF assms(2)] assms(3) .

lemma layout_cong:
  assumes l: "cache_layout A c L" and s: "same_core c c'"
    and n: "\<And>x. x \<in> heads c \<union> members (heads c) L \<Longrightarrow> e_next (dat c' x) = e_next (dat c x)"
    and p: "\<And>x. x \<in> members (heads c) L \<Longrightarrow> e_prev (dat c' x) = e_prev (dat c x)"
    and r: "\<And>x. x \<in> dom A \<Longrightarrow> x \<noteq> c_header c \<Longrightarrow> x \<notin> members (heads c) L \<Longrightarrow> 0 < e_ref_count (dat c' x)"
  shows "cache_layout A c' L"
proof -
  note L = layoutD [OF l] and a = same_core_addrs [OF s] and e = same_core_sel(7) [OF s]
  have "lists (c_header c) (dat c') (heads c) L" using lists_cong [OF n p] L(2) by simp
  then show ?thesis
    using header_ok_core [OF L(1) s] L(3,4) r by (intro layoutI) (simp_all add: a e)
qed

lemma layout_unlink:
  assumes l: "cache_layout A c L" and a: "a \<in> heads c" "L a = xs @ e # ys" and s: "same_core c c'"
    and d: "dat c' = unlinkd (c_header c) e (dat c)"
    and A: "A' = A(e := None) \<or> A' = A \<and> 0 < e_ref_count (dat c e)"
  shows "cache_layout A' c' (L(a := xs @ ys))"
proof -
  note L = layoutD [OF l] and ad = same_core_addrs [OF s] and h = same_core_sel(7) [OF s]
  note m = members_unlink [OF L(2) a]
  have e: "e \<noteq> c_header c" using L(4) [OF m(2)] by simp
  have rc: "e_ref_count (dat c' x) = e_ref_count (dat c x)" for x
    unfolding d by (rule same_body_sel(2) [OF same_body_unlinkd])
  show ?thesis
  proof (rule layoutI)
    show "header_ok A' c'" by (rule header_ok_core [OF L(1) s]) (use A e in auto)
    show "lists (c_header c') (dat c') (heads c') (L(a := xs @ ys))"
      using lists_unlink [OF L(2) a] d ad h by simp
    show "0 < n" if "A' p = Some n" for p n using that A L(3) by (auto split: if_splits)
    show "x \<in> dom A' \<and> x \<noteq> c_header c'" if "x \<in> members (heads c') (L(a := xs @ ys))" for x
      using that A L(4) [of x] m(1) h ad by auto
    show "0 < e_ref_count (dat c' p)"
      if "p \<in> dom A'" "p \<noteq> c_header c'" "p \<notin> members (heads c') (L(a := xs @ ys))" for p
    proof -
      have "p \<in> dom A" "p = e \<longrightarrow> 0 < e_ref_count (dat c e)" using that(1) A by (auto split: if_splits)
      then show ?thesis using that L(5) [of p] m(1) h ad rc by (cases "p = e") auto
    qed
  qed
qed

lemma layout_link:
  assumes l: "cache_layout A c L" and a: "a \<in> heads c" "L a = xs @ ys" and s: "same_core c c'"
    and d: "dat c' = linkd (c_header c) (last (a # xs)) e (dat c)"
    and e: "e \<in> dom A" "e \<notin> heads c" "e \<notin> members (heads c) L" "c_header c < e" "e < SEG_MAX"
  shows "cache_layout A c' (L(a := xs @ e # ys))"
proof -
  note L = layoutD [OF l] and ad = same_core_addrs [OF s] and h = same_core_sel(7) [OF s]
  note m = members_link [where H = "heads c" and L = L and a = a and xs = xs and ys = ys and e = e, OF a]
  have rc: "e_ref_count (dat c' x) = e_ref_count (dat c x)" for x
    unfolding d by (rule same_body_sel(2) [OF same_body_linkd])
  show ?thesis
  proof (rule layoutI)
    show "header_ok A c'" by (rule header_ok_core [OF L(1) s]) simp
    show "lists (c_header c') (dat c') (heads c') (L(a := xs @ e # ys))"
      using lists_link [OF L(2) a e(2-5)] d ad h by simp
    show "0 < n" if "A p = Some n" for p n by (rule L(3) [OF that])
    show "x \<in> dom A \<and> x \<noteq> c_header c'" if "x \<in> members (heads c') (L(a := xs @ e # ys))" for x
      using that L(4) m e ad h by auto
    show "0 < e_ref_count (dat c' p)"
      if "p \<in> dom A" "p \<noteq> c_header c'" "p \<notin> members (heads c') (L(a := xs @ e # ys))" for p
      using that L(5) [of p] m ad h rc by simp
  qed
qed

lemma contentD:
  assumes "cache_content A c L"
  shows "\<And>i x. i < nslots c \<Longrightarrow> x \<in> set (L (slot_at c i)) \<Longrightarrow> slot_entry A c i x"
    "\<And>i. i < nslots c \<Longrightarrow> distinct (map (\<lambda>x. e_key (dat c x)) (L (slot_at c i)))"
    "h_nentries c = int (card (members (slots c) L))"
    "h_mem_size c = (\<Sum>x\<in>members (slots c) L. e_mem_size (dat c x))"
  using assms by (auto simp: cache_content_def)

lemma members_slots: "x \<in> members (slots c) L \<longleftrightarrow> (\<exists>i<nslots c. x \<in> set (L (slot_at c i)))"
  by (auto simp: members_def slots_def)

lemma members_finite [simp]: "finite (members (slots c) L)" "finite (members (heads c) L)"
  by (simp_all add: members_def slots_def heads_def)

lemma members_heads:
  "members (slots c) L \<subseteq> members (heads c) L" "set (L (gc_at c)) \<subseteq> members (heads c) L"
  "members (heads c) L = set (L (gc_at c)) \<union> members (slots c) L"
  by (auto simp: members_def heads_def)

text \<open>The contents are untouched by a step that keeps the slots and the bodies of their entries.\<close>

lemma content_cong:
  assumes c: "cache_content A c L" and s: "same_core c c'"
    and l: "\<And>i. i < nslots c \<Longrightarrow> L' (slot_at c i) = L (slot_at c i)"
    and b: "\<And>x. x \<in> members (slots c) L \<Longrightarrow> A' x = A x \<and> e_key (dat c' x) = e_key (dat c x) \<and>
      e_hash (dat c' x) = e_hash (dat c x) \<and> e_mem_size (dat c' x) = e_mem_size (dat c x)"
    and h: "h_nentries c' = h_nentries c" "h_mem_size c' = h_mem_size c"
  shows "cache_content A' c' L'"
proof -
  note C = contentD [OF c] and a = same_core_addrs [OF s] and e = same_core_sel [OF s]
  have m: "members (slots c) L' = members (slots c) L" using l by (auto simp: members_def slots_def)
  have "slot_entry A' c' i x" if "i < nslots c" "x \<in> set (L (slot_at c i))" for i x
  proof -
    have "x \<in> members (slots c) L" using that by (auto simp: members_slots)
    from C(1) [OF that] b [OF this] show ?thesis unfolding slot_entry_def e(10,26) by simp
  qed
  moreover have "distinct (map (\<lambda>x. e_key (dat c' x)) (L (slot_at c i)))" if i: "i < nslots c" for i
  proof -
    have "map (\<lambda>x. e_key (dat c' x)) (L (slot_at c i)) = map (\<lambda>x. e_key (dat c x)) (L (slot_at c i))"
      using b i by (auto simp: members_slots)
    with C(2) [OF i] show ?thesis by (simp only:)
  qed
  moreover have "(\<Sum>x\<in>members (slots c) L. e_mem_size (dat c' x)) = (\<Sum>x\<in>members (slots c) L. e_mem_size (dat c x))"
    by (rule sum.cong) (use b in auto)
  ultimately show ?thesis using l m C(3,4) h e(10) a by (simp add: cache_content_def)
qed

lemma content_unlink:
  assumes c: "cache_content A c L" and s: "same_core c c'" and h: "header_ok A c"
    and i: "i < nslots c" "L (slot_at c i) = xs @ e # ys" and l: "lists (c_header c) (dat c) (heads c) L"
    and b: "\<And>x. x \<in> members (slots c) L \<Longrightarrow> x \<noteq> e \<Longrightarrow> A' x = A x \<and> e_key (dat c' x) = e_key (dat c x) \<and>
      e_hash (dat c' x) = e_hash (dat c x) \<and> e_mem_size (dat c' x) = e_mem_size (dat c x)"
    and n: "h_nentries c' = h_nentries c - 1" "h_mem_size c' = h_mem_size c - e_mem_size (dat c e)"
    and L': "L' (slot_at c i) = xs @ ys" "\<And>j. j < nslots c \<Longrightarrow> j \<noteq> i \<Longrightarrow> L' (slot_at c j) = L (slot_at c j)"
  shows "cache_content A' c' L'"
proof -
  note C = contentD [OF c] and a = same_core_addrs [OF s] and co = same_core_sel [OF s]
    and ad = header_addrs [OF h]
  let ?M = "members (slots c) L"
  have sl: "slot_at c i \<in> slots c" "slot_at c i \<in> heads c" using ad i by auto
  have e: "e \<in> ?M" "e \<in> set (L (slot_at c i))" using i by (auto simp: members_slots)
  have dj: "e \<notin> set (L (slot_at c j))" if "j < nslots c" "j \<noteq> i" for j
    using listsD(7) [OF l sl(2)] ad(8) [OF that(1)] that(2) e(2) by fastforce
  have de: "e \<notin> set (xs @ ys)" using listsD(4) [OF l sl(2)] i(2) by simp
  have mem: "set (L' (slot_at c j)) = set (L (slot_at c j)) - {e}" if "j < nslots c" for j
    using that L' dj [of j] de i(2) by (cases "j = i") auto
  then have m: "members (slots c) L' = ?M - {e}" by (auto simp: members_def slots_def)
  have "slot_entry A' c' j x" if j: "j < nslots c" "x \<in> set (L' (slot_at c j))" for j x
  proof -
    have x: "x \<in> set (L (slot_at c j))" "x \<noteq> e" using mem [OF j(1)] j(2) by auto
    then have "x \<in> ?M" using j by (auto simp: members_slots)
    from C(1) [OF j(1) x(1)] b [OF this x(2)] show ?thesis unfolding slot_entry_def co(10,26) by simp
  qed
  moreover have "distinct (map (\<lambda>x. e_key (dat c' x)) (L' (slot_at c j)))" if j: "j < nslots c" for j
  proof -
    have "map (\<lambda>x. e_key (dat c' x)) (L' (slot_at c j)) = map (\<lambda>x. e_key (dat c x)) (L' (slot_at c j))"
      by (rule map_cong) (use b mem [OF j] j in \<open>auto simp: members_slots\<close>)
    moreover have "distinct (map (\<lambda>x. e_key (dat c x)) (L' (slot_at c j)))"
      using C(2) [OF j] L' j i(2) by (cases "j = i") auto
    ultimately show ?thesis by (simp only:)
  qed
  moreover have "(\<Sum>x\<in>?M. e_mem_size (dat c x)) = e_mem_size (dat c e) + (\<Sum>x\<in>?M - {e}. e_mem_size (dat c x))"
    by (rule sum.remove) (use e in auto)
  moreover have "(\<Sum>x\<in>?M - {e}. e_mem_size (dat c' x)) = (\<Sum>x\<in>?M - {e}. e_mem_size (dat c x))"
    by (rule sum.cong) (use b in auto)
  moreover have "0 < card ?M" using e(1) by (auto simp: card_gt_0_iff)
  ultimately show ?thesis using m C(3,4) n co(10) a e(1)
    by (simp add: cache_content_def card_Diff_singleton of_nat_diff)
qed

lemma content_link:
  assumes c: "cache_content A c L" and s: "same_core c c'" and h: "header_ok A c"
    and i: "i < nslots c" "L (slot_at c i) = xs @ ys" and e: "e \<notin> members (slots c) L"
    and b: "\<And>x. x \<in> members (slots c) L \<Longrightarrow> A' x = A x \<and> e_key (dat c' x) = e_key (dat c x) \<and>
      e_hash (dat c' x) = e_hash (dat c x) \<and> e_mem_size (dat c' x) = e_mem_size (dat c x)"
    and new: "slot_entry A' c' i e" "\<And>x. x \<in> set (xs @ ys) \<Longrightarrow> e_key (dat c x) \<noteq> e_key (dat c' e)"
    and n: "h_nentries c' = h_nentries c + 1" "h_mem_size c' = h_mem_size c + e_mem_size (dat c' e)"
    and L': "L' (slot_at c i) = xs @ e # ys" "\<And>j. j < nslots c \<Longrightarrow> j \<noteq> i \<Longrightarrow> L' (slot_at c j) = L (slot_at c j)"
  shows "cache_content A' c' L'"
proof -
  note C = contentD [OF c] and a = same_core_addrs [OF s] and co = same_core_sel [OF s]
  let ?M = "members (slots c) L"
  have mem: "set (L' (slot_at c j)) = set (L (slot_at c j)) \<union> (if j = i then {e} else {})" if "j < nslots c" for j
    using that L' i(2) by (cases "j = i") auto
  then have m: "members (slots c) L' = insert e ?M" using i(1) by (auto simp: members_def slots_def split: if_splits)
  have old: "e_key (dat c' x) = e_key (dat c x)" if "j < nslots c" "x \<in> set (L (slot_at c j))" for j x
    using b [of x] that by (auto simp: members_slots)
  have "slot_entry A' c' j x" if j: "j < nslots c" "x \<in> set (L' (slot_at c j))" for j x
  proof (cases "x = e \<and> j = i")
    case True
    then show ?thesis using new(1) by simp
  next
    case False
    then have x: "x \<in> set (L (slot_at c j))" using mem [OF j(1)] j(2) by (auto split: if_splits)
    then have "x \<in> ?M" using j by (auto simp: members_slots)
    from C(1) [OF j(1) x] b [OF this] show ?thesis unfolding slot_entry_def co(10,26) by simp
  qed
  moreover have "distinct (map (\<lambda>x. e_key (dat c' x)) (L' (slot_at c j)))" if j: "j < nslots c" for j
  proof -
    have eq: "map (\<lambda>x. e_key (dat c' x)) (L (slot_at c j)) = map (\<lambda>x. e_key (dat c x)) (L (slot_at c j))"
      by (rule map_cong) (use old j in auto)
    show ?thesis
    proof (cases "j = i")
      case False
      from eq C(2) [OF j] L'(2) [OF j False] show ?thesis by (simp only:)
    next
      case True
      have "distinct (map (\<lambda>x. e_key (dat c' x)) (xs @ ys))" using eq C(2) [OF j] i(2) True by (simp only:)
      moreover have "e_key (dat c' x) \<noteq> e_key (dat c' e)" if "x \<in> set (xs @ ys)" for x
        using new(2) [OF that] old [OF i(1), of x] that i(2) by simp
      then have "e_key (dat c' e) \<notin> (\<lambda>x. e_key (dat c' x)) ` set (xs @ ys)" by (metis imageE)
      ultimately show ?thesis using L'(1) True by (simp add: Un_commute) blast
    qed
  qed
  moreover have "(\<Sum>x\<in>?M. e_mem_size (dat c' x)) = (\<Sum>x\<in>?M. e_mem_size (dat c x))"
    by (rule sum.cong) (use b in auto)
  ultimately show ?thesis using m C(3,4) n co(10) a e by (simp add: cache_content_def)
qed

subsection \<open>Bounds\<close>

lemma sum_rooms:
  assumes ok: "sma_ok s" and M: "finite M" "M \<subseteq> sma_live s"
  shows "(\<Sum>p\<in>M. sma_room s p) \<le> sma_size s"
proof -
  have dj: "\<forall>p\<in>M. \<forall>q\<in>M. p \<noteq> q \<longrightarrow> {p..<p + sma_room s p} \<inter> {q..<q + sma_room s q} = {}"
  proof (intro ballI impI)
    fix p q assume pq: "p \<in> M" "q \<in> M" "p \<noteq> q"
    then have "p \<in> sma_live s" "q \<in> sma_live s" using M(2) by auto
    from sma_live_disjoint [OF ok this pq(3)] show "{p..<p + sma_room s p} \<inter> {q..<q + sma_room s q} = {}"
      by auto
  qed
  have "(\<Sum>p\<in>M. sma_room s p) = (\<Sum>p\<in>M. card {p..<p + sma_room s p})" by simp
  also have "\<dots> = card (\<Union>p\<in>M. {p..<p + sma_room s p})"
    by (rule card_UN_disjoint [symmetric]) (use M dj in auto)
  also have "\<dots> \<le> card {..<sma_size s}"
    by (rule card_mono) (use sma_live_range(2) [OF ok] M(2) in \<open>fastforce+\<close>)
  finally show ?thesis by simp
qed

lemma content_bounds:
  assumes ok: "sma_ok c" and l: "cache_layout (sma_allocs c) c L" and c: "cache_content (sma_allocs c) c L"
  shows "0 \<le> h_nentries c" "h_nentries c < int SEG_MAX" "0 \<le> h_mem_size c" "h_mem_size c < int SEG_MAX"
    "x \<in> members (slots c) L \<Longrightarrow> 0 < h_nentries c \<and> e_mem_size (dat c x) \<le> h_mem_size c \<and> 0 < e_mem_size (dat c x)"
    "e \<in> sma_live c \<Longrightarrow> e \<notin> members (slots c) L \<Longrightarrow>
       h_nentries c + 1 < int SEG_MAX \<and> h_mem_size c + int (sma_room c e) < int SEG_MAX"
proof -
  let ?M = "members (slots c) L"
  note C = contentD [OF c]
  have live: "?M \<subseteq> sma_live c" using layoutD(4) [OF l] members_heads(1) [of c L] sma_allocs_dom [of c] by blast
  have ms: "0 < e_mem_size (dat c x) \<and> e_mem_size (dat c x) \<le> int (sma_room c x)" if x: "x \<in> ?M" for x
  proof -
    obtain i where "i < nslots c" "x \<in> set (L (slot_at c i))" using x by (auto simp: members_slots)
    from C(1) [OF this] x live sma_allocs_room [of x c] show ?thesis by (auto simp: slot_entry_def)
  qed
  have sz: "sma_size c < SEG_MAX" by (rule sma_ok_facts(2) [OF ok])
  have "int (card ?M) = (\<Sum>x\<in>?M. 1)" by simp
  also have "\<dots> \<le> h_mem_size c" unfolding C(4) by (rule sum_mono) (use ms in force)
  finally have n: "h_nentries c \<le> h_mem_size c" using C(3) by simp
  have "h_mem_size c \<le> (\<Sum>x\<in>?M. int (sma_room c x))" unfolding C(4) by (rule sum_mono) (use ms in blast)
  then have m: "h_mem_size c \<le> int (\<Sum>x\<in>?M. sma_room c x)" by simp
  moreover have "(\<Sum>x\<in>?M. sma_room c x) \<le> sma_size c" by (rule sum_rooms [OF ok _ live]) simp
  ultimately show "h_mem_size c < int SEG_MAX" using sz by linarith
  with n show "h_nentries c < int SEG_MAX" by simp
  show "0 \<le> h_nentries c" using C(3) by simp
  then show "0 \<le> h_mem_size c" using n by simp
  show "0 < h_nentries c \<and> e_mem_size (dat c x) \<le> h_mem_size c \<and> 0 < e_mem_size (dat c x)" if x: "x \<in> ?M"
  proof -
    have "e_mem_size (dat c x) \<le> h_mem_size c" unfolding C(4)
      by (rule member_le_sum) (use x ms in \<open>auto intro: less_imp_le\<close>)
    moreover have "0 < card ?M" using x by (auto simp: card_gt_0_iff)
    ultimately show ?thesis using C(3) ms [OF x] by simp
  qed
  show "h_nentries c + 1 < int SEG_MAX \<and> h_mem_size c + int (sma_room c e) < int SEG_MAX"
    if e: "e \<in> sma_live c" "e \<notin> ?M"
  proof -
    have "(\<Sum>x\<in>insert e ?M. sma_room c x) \<le> sma_size c" by (rule sum_rooms [OF ok]) (use e live in auto)
    moreover have "(\<Sum>x\<in>insert e ?M. sma_room c x) = sma_room c e + (\<Sum>x\<in>?M. sma_room c x)"
      using e(2) by simp
    ultimately have a: "h_mem_size c + int (sma_room c e) < int SEG_MAX" using m sz by linarith
    have "0 < sma_room c e" using layoutD(3) [OF l sma_allocs_room [OF e(1)]] .
    with a n show ?thesis by simp
  qed
qed

subsection \<open>Removing an entry\<close>

lemma cache_invD:
  assumes "cache_inv c L"
  shows "sma_ready c" "sma_ok c" "sma_lock_results c = []" "cache_layout (sma_allocs c) c L"
    "cache_content (sma_allocs c) c L" "header_ok (sma_allocs c) c"
    "lists (c_header c) (dat c) (heads c) L"
    "\<And>x. x \<in> members (heads c) L \<Longrightarrow> x \<in> sma_live c \<and> x \<noteq> c_header c \<and> c_header c < x \<and> x < SEG_MAX \<and> x \<notin> heads c"
proof -
  show l: "cache_layout (sma_allocs c) c L" "sma_ready c" "sma_ok c" "sma_lock_results c = []"
    "cache_content (sma_allocs c) c L"
    using assms by (simp_all add: cache_inv_def sma_ready_def)
  note L = layoutD [OF l(1)]
  show "header_ok (sma_allocs c) c" "lists (c_header c) (dat c) (heads c) L" by (rule L)+
  show "x \<in> sma_live c \<and> x \<noteq> c_header c \<and> c_header c < x \<and> x < SEG_MAX \<and> x \<notin> heads c"
    if "x \<in> members (heads c) L" for x
    using L(4,6) [OF that] sma_allocs_dom [of c] by blast
qed

lemma free_entry_ok:
  assumes r: "sma_ready c" and l: "sma_lock_results c = []" and p: "p \<in> sma_live c"
  shows "\<exists>c'. free_entry p c = Some c' \<and> sma_ready c' \<and> c' = c\<lparr>blk := blk c', avail := avail c'\<rparr> \<and>
    sma_allocs c' = (sma_allocs c)(p := None)"
proof -
  have w: "lock_works c" using l by (simp add: lock_works_def)
  obtain c' where c: "apc_sma_free (Some (int p)) c = Some (Freed, c')" "sma_ready c'"
    "c' = c\<lparr>sma_lock_results := tl (sma_lock_results c), blk := blk c', avail := avail c'\<rparr>"
    "sma_live c' = sma_live c - {p}" "\<forall>q\<in>sma_live c - {p}. sma_room c' q = sma_room c q"
    using apc_sma_free_live [OF r p w] by blast
  have "c' = c\<lparr>blk := blk c', avail := avail c'\<rparr>" by (subst c(3)) (use l in \<open>cases c; simp\<close>)
  then show ?thesis using c(1,2) sma_allocs_remove [OF c(4,5)] by (auto simp: free_entry_def)
qed

text \<open>The entries of \<open>xs\<close> that are still referenced: they go to the garbage list.\<close>

definition held :: "('v, 'x) cstate \<Rightarrow> nat list \<Rightarrow> nat list" where
  "held c xs = filter (\<lambda>x. 0 < e_ref_count (dat c x)) xs"

definition drop_list :: "('v, 'x) cstate \<Rightarrow> (nat \<Rightarrow> nat list) \<Rightarrow> nat \<Rightarrow> nat list \<Rightarrow> nat list \<Rightarrow> (nat \<Rightarrow> nat list)" where
  "drop_list c L a kept gone = L(a := kept, gc_at c := rev (held c gone) @ L (gc_at c))"

text \<open>The entries \<open>R\<close> have left their lists; those still referenced got the deletion time.\<close>

definition evicted :: "('v, 'x) cstate \<Rightarrow> nat set \<Rightarrow> ('v, 'x) cstate \<Rightarrow> bool" where
  "evicted c R c' \<longleftrightarrow> same_core c c' \<and> (\<forall>p. p \<notin> R \<longrightarrow> sma_allocs c' p = sma_allocs c p) \<and>
     (\<forall>x. strip (dat c' x) =
        (if x \<in> R \<and> 0 < e_ref_count (dat c x) then (strip (dat c x))\<lparr>e_dtime := clock c\<rparr> else strip (dat c x)))"

lemma unlink_entry_ok:
  assumes l: "lists (c_header c) (dat c) (heads c) L" and h: "header_ok A c"
    and a: "a \<in> heads c" "L a = xs @ e # ys"
  shows "apc_cache_wlocked_unlink_entry e c = c\<lparr>dat := unlinkd (c_header c) e (dat c)\<rparr>"
proof (rule unlink_entry_unlinkd)
  let ?p = "last (a # xs)"
  have el: "elist (c_header c) (dat c) a (xs @ e # ys)" and dist: "distinct (a # xs @ e # ys)"
    using listsD [OF l a(1)] a(2) by auto
  have p: "?p \<in> set (a # xs)" by (rule last_in_set)
  have "c_header c \<le> ?p" "?p < SEG_MAX"
    using list_pos(2) [OF l a(1,2)] p header_addrs(4) [OF h a(1)] header_okD(5) [OF h] elist_mem [OF el, of ?p]
    by auto
  moreover have ep: "e_prev (dat c e) = ?p - c_header c" using el by (auto simp: elist_append elist_Cons)
  ultimately show "c_header c + e_prev (dat c e) < SEG_MAX" by simp
  show "c_header c + e_prev (dat c e) \<noteq> e" using ep p dist \<open>c_header c \<le> ?p\<close> by auto
  assume nz: "e_next (dat c e) \<noteq> 0"
  have r: "elist (c_header c) (dat c) e ys" using el by (simp add: elist_append elist_Cons)
  obtain y zs where "ys = y # zs" using nz elist_next(2) [OF r] by (cases ys) auto
  then show "c_header c + e_next (dat c e) < SEG_MAX" using r by (auto simp: elist_Cons)
qed

lemma link_entry_ok:
  assumes l: "lists (c_header c) (dat c) (heads c) L" and h: "header_ok A c"
    and a: "a \<in> heads c" "L a = xs @ ys"
    and e: "e \<notin> heads c" "e \<notin> members (heads c) L" "c_header c < e" "e < SEG_MAX"
  shows "apc_cache_wlocked_link_entry (last (a # xs)) e c =
    c\<lparr>dat := linkd (c_header c) (last (a # xs)) e (dat c)\<rparr>"
proof (rule link_entry_linkd)
  let ?p = "last (a # xs)"
  have el: "elist (c_header c) (dat c) a (xs @ ys)" using listsD(3) [OF l a(1)] a(2) by simp
  have p: "?p \<in> set (a # xs)" by (rule last_in_set)
  have "?p = a \<or> ?p \<in> members (heads c) L"
    using list_pos(1) [OF l a] members_mem [OF a(1), of ?p L] by (auto simp del: last.simps)
  then show "e \<noteq> ?p" using e a by auto
  show "c_header c \<le> ?p" by (rule list_pos(2) [OF l a(1,2)])
  show "?p < SEG_MAX"
    using p header_addrs(4) [OF h a(1)] header_okD(5) [OF h] elist_mem [OF el, of ?p] by auto
  show "c_header c < e" "e < SEG_MAX" by fact+
  assume nz: "e_next (dat c ?p) \<noteq> 0"
  have r: "elist (c_header c) (dat c) ?p ys" using el by (simp add: elist_append)
  obtain y zs where "ys = y # zs" using nz elist_next(2) [OF r] by (cases ys) auto
  then show "c_header c + e_next (dat c ?p) < SEG_MAX" using r by (auto simp: elist_Cons)
qed

lemma evicted_refl [simp]: "evicted c {} c"
  by (simp add: evicted_def)

lemma evicted_trans: "evicted c R c1 \<Longrightarrow> evicted c1 R' c2 \<Longrightarrow> evicted c (R \<union> R') c2"
proof -
  assume a: "evicted c R c1" "evicted c1 R' c2"
  then have s: "same_core c c1" "same_core c1 c2" by (simp_all add: evicted_def)
  have "strip (dat c2 x) = (if x \<in> R \<union> R' \<and> 0 < e_ref_count (dat c x)
      then (strip (dat c x))\<lparr>e_dtime := clock c\<rparr> else strip (dat c x))" for x
  proof -
    have 1: "strip (dat c1 x) = (if x \<in> R \<and> 0 < e_ref_count (dat c x)
        then (strip (dat c x))\<lparr>e_dtime := clock c\<rparr> else strip (dat c x))"
      and 2: "strip (dat c2 x) = (if x \<in> R' \<and> 0 < e_ref_count (dat c1 x)
        then (strip (dat c1 x))\<lparr>e_dtime := clock c1\<rparr> else strip (dat c1 x))"
      using a by (simp_all add: evicted_def)
    have "e_ref_count (dat c1 x) = e_ref_count (dat c x)"
      using arg_cong [OF 1, of e_ref_count] by (simp split: if_splits)
    then show ?thesis using 1 2 same_core_sel(27) [OF s(1)] by simp
  qed
  moreover have "sma_allocs c2 p = sma_allocs c p" if "p \<notin> R \<union> R'" for p
    using a that by (simp add: evicted_def)
  ultimately show ?thesis using same_core_trans [OF s] by (simp add: evicted_def)
qed

lemma evicted_sel:
  assumes "evicted c R c'"
  shows "same_core c c'" "e_ttl (dat c' x) = e_ttl (dat c x)" "e_ref_count (dat c' x) = e_ref_count (dat c x)"
    "e_ctime (dat c' x) = e_ctime (dat c x)" "e_atime (dat c' x) = e_atime (dat c x)"
    "e_key (dat c' x) = e_key (dat c x)" "e_hash (dat c' x) = e_hash (dat c x)"
    "e_mem_size (dat c' x) = e_mem_size (dat c x)" "x \<notin> R \<Longrightarrow> strip (dat c' x) = strip (dat c x)"
    "x \<notin> R \<Longrightarrow> e_dtime (dat c' x) = e_dtime (dat c x)"
    "x \<notin> R \<Longrightarrow> sma_allocs c' x = sma_allocs c x"
proof -
  show "same_core c c'" "x \<notin> R \<Longrightarrow> sma_allocs c' x = sma_allocs c x" using assms by (simp_all add: evicted_def)
  have 1: "strip (dat c' x) = (if x \<in> R \<and> 0 < e_ref_count (dat c x)
      then (strip (dat c x))\<lparr>e_dtime := clock c\<rparr> else strip (dat c x))"
    using assms by (simp add: evicted_def)
  show "e_ttl (dat c' x) = e_ttl (dat c x)" "e_ref_count (dat c' x) = e_ref_count (dat c x)"
    "e_ctime (dat c' x) = e_ctime (dat c x)" "e_atime (dat c' x) = e_atime (dat c x)"
    "e_key (dat c' x) = e_key (dat c x)" "e_hash (dat c' x) = e_hash (dat c x)"
    "e_mem_size (dat c' x) = e_mem_size (dat c x)"
    using arg_cong [OF 1, of e_ttl] arg_cong [OF 1, of e_ref_count] arg_cong [OF 1, of e_ctime]
      arg_cong [OF 1, of e_atime] arg_cong [OF 1, of e_key] arg_cong [OF 1, of e_hash]
      arg_cong [OF 1, of e_mem_size] by (simp_all split: if_splits)
  show "x \<notin> R \<Longrightarrow> strip (dat c' x) = strip (dat c x)" using 1 by simp
  then show "x \<notin> R \<Longrightarrow> e_dtime (dat c' x) = e_dtime (dat c x)" by (auto dest: strip_eqD(6))
qed

text \<open>The counters after the unlinking, with the code's guards and wrap-around removed.\<close>

lemma remove_entry_ok:
  assumes I: "cache_inv c L" and i: "i < nslots c" "L (slot_at c i) = xs @ e # ys"
  shows "\<exists>c'. apc_cache_wlocked_remove_entry e c = Some c' \<and>
    cache_inv c' (drop_list c L (slot_at c i) (xs @ ys) [e]) \<and> evicted c {e} c'"
proof -
  note D = cache_invD [OF I] and ad = header_addrs [OF cache_invD(6) [OF I]]
  let ?A = "sma_allocs c" and ?a = "slot_at c i" and ?h = "c_header c"
  let ?L1 = "L(?a := xs @ ys)"
  have a: "?a \<in> heads c" "?a \<noteq> gc_at c" using ad i by auto
  have e: "e \<in> members (slots c) L" "e \<in> members (heads c) L"
  proof -
    show "e \<in> members (slots c) L" using i by (auto simp: members_slots)
    then show "e \<in> members (heads c) L" using members_heads(1) by blast
  qed
  note ef = D(8) [OF e(2)]
  define c1 where "c1 = c\<lparr>dat := unlinkd ?h e (dat c), h_mem_size := h_mem_size c - e_mem_size (dat c e),
    h_nentries := h_nentries c - 1\<rparr>"
  have s1: "same_core c c1" by (simp add: c1_def same_core_def core_def)
  have b: "0 < h_nentries c" "e_mem_size (dat c e) \<le> h_mem_size c" "0 < e_mem_size (dat c e)"
    "h_nentries c < int SEG_MAX" "h_mem_size c < int SEG_MAX"
    using content_bounds(2,4) [OF D(2,4,5)] content_bounds(5) [OF D(2,4,5) e(1)] by auto
  have body: "e_mem_size (unlinkd ?h e (dat c) x) = e_mem_size (dat c x)"
    "e_ref_count (unlinkd ?h e (dat c) x) = e_ref_count (dat c x)" for x
    by (rule same_body_sel(2,8) [OF same_body_unlinkd])+
  have step: "apc_cache_wlocked_remove_entry e c =
      (if e_ref_count (dat c e) \<le> 0 then free_entry e c1
       else Some (apc_cache_wlocked_link_entry (gc_addr c1) e (upd_entry e (\<lambda>x. x\<lparr>e_dtime := clock c1\<rparr>) c1)))"
    using b unlink_entry_ok [OF D(7,6) a(1) i(2)] body
    by (simp add: apc_cache_wlocked_remove_entry_def Let_def c1_def int64_of_id)
  have keep: "cache_content A' c' L'"
    if "same_core c c'" "\<And>x. strip (dat c' x) = strip (dat c x) \<or> strip (dat c' x) = (strip (dat c x))\<lparr>e_dtime := clock c\<rparr>"
      "h_nentries c' = h_nentries c1" "h_mem_size c' = h_mem_size c1" "\<And>x. x \<noteq> e \<Longrightarrow> A' x = ?A x"
      "\<And>j. j < nslots c \<Longrightarrow> L' (slot_at c j) = ?L1 (slot_at c j)" for A' c' L'
  proof (rule content_unlink [OF D(5) that(1) D(6) i D(7)])
    show "h_nentries c' = h_nentries c - 1" "h_mem_size c' = h_mem_size c - e_mem_size (dat c e)"
      using that by (simp_all add: c1_def)
    show "L' (slot_at c i) = xs @ ys" "\<And>j. j < nslots c \<Longrightarrow> j \<noteq> i \<Longrightarrow> L' (slot_at c j) = L (slot_at c j)"
      using that(6) i(1) by auto
    show "A' x = ?A x \<and> e_key (dat c' x) = e_key (dat c x) \<and> e_hash (dat c' x) = e_hash (dat c x) \<and>
        e_mem_size (dat c' x) = e_mem_size (dat c x)" if "x \<noteq> e" for x
      using \<open>\<And>x. x \<noteq> e \<Longrightarrow> A' x = ?A x\<close> [OF that]
        \<open>\<And>x. strip (dat c' x) = strip (dat c x) \<or> strip (dat c' x) = (strip (dat c x))\<lparr>e_dtime := clock c\<rparr>\<close> [of x]
      by (auto dest: strip_eqD arg_cong [where f = e_key] arg_cong [where f = e_hash] arg_cong [where f = e_mem_size])
  qed
  have strip1: "strip (dat c1 x) = strip (dat c x)" for x
    using same_body_strip [OF same_body_unlinkd] by (simp add: c1_def)
  have rdy: "sma_ready c1" "sma_lock_results c1 = []" "sma_live c1 = sma_live c" "sma_allocs c1 = ?A"
    using D(1,3) sma_cong [of c1 c] by (simp_all add: c1_def sma_ready_def)
  show ?thesis
  proof (cases "e_ref_count (dat c e) \<le> 0")
    case True
    obtain c' where f: "free_entry e c1 = Some c'" "sma_ready c'" "c' = c1\<lparr>blk := blk c', avail := avail c'\<rparr>"
      "sma_allocs c' = ?A(e := None)"
      using free_entry_ok [OF rdy(1,2)] ef rdy(3,4) by auto
    have s: "same_core c c'" using s1 f(3) by (metis same_core_intro(6) same_core_trans)
    have d: "dat c' = dat c1" "h_nentries c' = h_nentries c1" "h_mem_size c' = h_mem_size c1"
      by (subst f(3), simp)+
    have L: "drop_list c L ?a (xs @ ys) [e] = ?L1" using True a by (auto simp: drop_list_def held_def fun_eq_iff)
    have "cache_layout (sma_allocs c') c' ?L1"
      by (rule layout_unlink [OF D(4) a(1) i(2) s]) (use d f(4) in \<open>auto simp: c1_def\<close>)
    moreover have "cache_content (sma_allocs c') c' ?L1"
      by (rule keep) (use s d f(4) strip1 in auto)
    moreover have "evicted c {e} c'" using s True d strip1 f(4) by (simp add: evicted_def)
    ultimately show ?thesis
      using f step True same_core_sel(5) [OF s] D(3) by (auto simp: L cache_inv_def)
  next
    case False
    define c2 where "c2 = upd_entry e (\<lambda>x. x\<lparr>e_dtime := clock c1\<rparr>) c1"
    let ?c' = "c2\<lparr>dat := linkd ?h (gc_at c) e (dat c2)\<rparr>"
    have s2: "same_core c c2" using s1 by (simp add: c2_def upd_entry_def same_core_def core_def)
    have d2: "e_next (dat c2 x) = e_next (dat c1 x)" "e_prev (dat c2 x) = e_prev (dat c1 x)"
      "e_ref_count (dat c2 x) = e_ref_count (dat c x)" for x
      using body(2) by (simp_all add: c2_def upd_entry_def c1_def)
    have l1: "cache_layout ?A c1 ?L1"
      by (rule layout_unlink [OF D(4) a(1) i(2) s1]) (use False in \<open>auto simp: c1_def\<close>)
    have "same_core c1 c2" using s1 s2 by (simp add: same_core_def)
    then have l2: "cache_layout ?A c2 ?L1"
      by (rule layout_cong [OF l1]) (use d2 layoutD(5) [OF l1] body(2) in \<open>auto simp: c1_def\<close>)
    note L2 = layoutD [OF l2] and ad2 = same_core_addrs [OF s2] and co2 = same_core_sel [OF s2]
    have em: "e \<notin> members (heads c2) ?L1" "e \<notin> heads c2" "c_header c2 < e" "e < SEG_MAX" "gc_at c \<in> heads c2"
      using members_unlink(1) [OF D(7) a(1) i(2)] ef ad2 co2(7) ad(6) by auto
    have ed: "e \<in> dom ?A" using ef sma_allocs_dom [of c] by blast
    have g: "?L1 (gc_at c) = [] @ L (gc_at c)" using a(2) by simp
    have lk: "apc_cache_wlocked_link_entry (gc_at c) e c2 = ?c'"
      using link_entry_ok [OF L2(2,1) em(5) g em(2,1,3,4)] co2(7) by simp
    have L: "drop_list c L ?a (xs @ ys) [e] = ?L1(gc_at c := [] @ e # L (gc_at c))"
      using False a by (simp add: drop_list_def held_def)
    have s': "same_core c2 ?c'" by simp
    have s: "same_core c ?c'" using s2 s' by (rule same_core_trans)
    have strip': "strip (dat ?c' x) = (if x = e then (strip (dat c x))\<lparr>e_dtime := clock c\<rparr> else strip (dat c x))" for x
    proof -
      have "strip (dat ?c' x) = strip (dat c2 x)" using same_body_strip [OF same_body_linkd] by simp
      also have "\<dots> = (if x = e then (strip (dat c1 x))\<lparr>e_dtime := clock c1\<rparr> else strip (dat c1 x))"
        by (simp add: c2_def upd_entry_def strip_def)
      finally show ?thesis using strip1 same_core_sel(27) [OF s1] by simp
    qed
    have al: "sma_allocs ?c' = ?A" "sma_ready ?c'" "sma_lock_results ?c' = []"
      using rdy sma_cong [of ?c' c1] by (simp_all add: c2_def upd_entry_def sma_ready_def)
    have "cache_layout (sma_allocs ?c') ?c' (?L1(gc_at c := [] @ e # L (gc_at c)))"
      unfolding al(1)
      by (rule layout_link [OF l2 em(5) g s' _ ed em(2,1,3,4)]) (simp add: co2(7))
    moreover have "cache_content (sma_allocs ?c') ?c' (?L1(gc_at c := [] @ e # L (gc_at c)))"
      by (rule keep) (use s strip' al(1) ad in \<open>auto simp: c2_def upd_entry_def\<close>)
    moreover have "evicted c {e} ?c'" using s strip' False al(1) by (simp add: evicted_def)
    moreover have "gc_addr c1 = gc_at c"
      using header_addrs(1) [OF header_ok_core [where A' = ?A, OF D(6) s1 refl]] same_core_addrs [OF s1] by simp
    ultimately show ?thesis using step False lk al(2,3) by (simp add: L cache_inv_def c2_def)
  qed
qed

end
