(* ===== verification/Cache_Steps.thy ===== *)
theory Cache_Steps imports Cache_Inv begin

text \<open>
  The loops that run under the write lock: expiring and expunging a slot, collecting the garbage list,
  the scan of an insert. Each always ends and acts on the lists of the invariant as a list function.
\<close>

subsection \<open>The first entry of a list\<close>

lemma head_step:
  assumes I: "cache_inv c L" and a: "a \<in> heads c" "L a = xs @ ys"
  shows "ys = [] \<Longrightarrow> e_next (dat c (last (a # xs))) = 0"
    "ys = y # zs \<Longrightarrow> e_next (dat c (last (a # xs))) \<noteq> 0 \<and> entryat c (e_next (dat c (last (a # xs)))) = y"
proof -
  note D = cache_invD [OF I]
  have el: "elist (c_header c) (dat c) (last (a # xs)) ys"
    using listsD(3) [OF D(7) a(1)] a(2) by (simp add: elist_append)
  then show "ys = [] \<Longrightarrow> e_next (dat c (last (a # xs))) = 0" by (simp add: elist_Nil)
  assume y: "ys = y # zs"
  then have "c_header c < y" "y < SEG_MAX" "e_next (dat c (last (a # xs))) = y - c_header c"
    using el by (auto simp: elist_Cons)
  then show "e_next (dat c (last (a # xs))) \<noteq> 0 \<and> entryat c (e_next (dat c (last (a # xs)))) = y"
    by (simp add: entryat_def uadd_small)
qed

lemma cache_inv_cong:
  assumes I: "cache_inv c L" and L: "\<And>a. a \<in> heads c \<Longrightarrow> L' a = L a"
  shows "cache_inv c L'"
proof -
  have m: "members (heads c) L' = members (heads c) L" "members (slots c) L' = members (slots c) L"
    unfolding members_def using L header_addrs(7) [OF cache_invD(6) [OF I]] by (auto intro!: SUP_cong)
  have "lists (c_header c) (dat c) (heads c) L' = lists (c_header c) (dat c) (heads c) L"
    using L by (auto simp: lists_def)
  moreover have "L' (slot_at c i) = L (slot_at c i)" if "i < nslots c" for i
    using L header_addrs(8) [OF cache_invD(6) [OF I] that] by simp
  ultimately show ?thesis using I m
    by (simp add: cache_inv_def cache_layout_def cache_content_def)
qed

subsection \<open>Removing from a slot\<close>

lemma held_cong: "(\<And>x. x \<in> set xs \<Longrightarrow> e_ref_count (dat c' x) = e_ref_count (dat c x)) \<Longrightarrow> held c' xs = held c xs"
  by (induction xs) (auto simp: held_def)

lemma held_evicted: "evicted c R c' \<Longrightarrow> held c' xs = held c xs"
  by (rule held_cong) (simp add: evicted_sel(3))

lemma held_simps [simp]:
  "held c [] = []" "held c (x # xs) = (if 0 < e_ref_count (dat c x) then x # held c xs else held c xs)"
  "held c (xs @ ys) = held c xs @ held c ys" "set (held c xs) \<subseteq> set xs"
  by (auto simp: held_def)

lemma drop_list_drop:
  assumes "evicted c {y} c1" "a \<noteq> gc_at c"
  shows "drop_list c1 (drop_list c L a zs [y]) a kept gone = drop_list c L a kept (y # gone)"
  using assms same_core_addrs(2) [OF evicted_sel(1) [OF assms(1)]] held_evicted [OF assms(1)]
  by (auto simp: drop_list_def fun_eq_iff)

lemma drop_list_nil: "a \<noteq> gc_at c \<Longrightarrow> L a = kept \<Longrightarrow> drop_list c L a kept [] = L"
  by (auto simp: drop_list_def)

lemma expired_cong:
  assumes "evicted c R c'"
  shows "apc_cache_entry_expired c' (dat c' x) t = apc_cache_entry_expired c (dat c x) t"
    "apc_cache_entry_hard_expired (dat c' x) t = apc_cache_entry_hard_expired (dat c x) t"
  using evicted_sel(2,4,5) [OF assms] same_core_sel(12) [OF evicted_sel(1) [OF assms]]
  by (simp_all add: apc_cache_entry_expired_def apc_cache_entry_hard_expired_def apc_cache_entry_soft_expired_def)

lemma remove_in_slot:
  assumes I: "cache_inv c L" and i: "i < nslots c" "L (slot_at c i) = xs @ y # ys"
  shows "\<exists>c'. apc_cache_wlocked_remove_entry y c = Some c' \<and>
    cache_inv c' (drop_list c L (slot_at c i) (xs @ ys) [y]) \<and> evicted c {y} c' \<and>
    i < nslots c' \<and> slot_at c' = slot_at c \<and> drop_list c L (slot_at c i) (xs @ ys) [y] (slot_at c' i) = xs @ ys"
proof -
  obtain c' where c: "apc_cache_wlocked_remove_entry y c = Some c'"
    "cache_inv c' (drop_list c L (slot_at c i) (xs @ ys) [y])" "evicted c {y} c'"
    using remove_entry_ok [OF I i] by blast
  note s = evicted_sel(1) [OF c(3)]
  have "slot_at c i \<noteq> gc_at c" using header_addrs(9) [OF cache_invD(6) [OF I] i(1)] .
  then have "drop_list c L (slot_at c i) (xs @ ys) [y] (slot_at c i) = xs @ ys" by (simp add: drop_list_def)
  with c i same_core_sel(10) [OF s] same_core_addrs(1) [OF s] show ?thesis by auto
qed

lemma expire_slot_ok:
  assumes "cache_inv c L" "i < nslots c" "L (slot_at c i) = xs @ ys"
  shows "\<exists>c'. expire_slot t (last (slot_at c i # xs)) c = Some c' \<and>
    cache_inv c' (drop_list c L (slot_at c i) (xs @ filter (\<lambda>x. \<not> apc_cache_entry_expired c (dat c x) t) ys)
      (filter (\<lambda>x. apc_cache_entry_expired c (dat c x) t) ys)) \<and>
    evicted c (set (filter (\<lambda>x. apc_cache_entry_expired c (dat c x) t) ys)) c'"
  using assms
proof (induction ys arbitrary: c L xs)
  case Nil
  have a: "slot_at c i \<in> heads c" "slot_at c i \<noteq> gc_at c"
    using header_addrs [OF cache_invD(6) [OF Nil(1)]] Nil(2) by auto
  from head_step(1) [OF Nil(1) a(1) Nil(3) refl] Nil(1,3) drop_list_nil [of "slot_at c i" c L "xs", OF a(2)]
  show ?case by (subst expire_slot.simps) simp
next
  case (Cons y ys)
  let ?a = "slot_at c i" and ?e = "\<lambda>x. apc_cache_entry_expired c (dat c x) t"
  have a: "?a \<in> heads c" "?a \<noteq> gc_at c" using header_addrs [OF cache_invD(6) [OF Cons(2)]] Cons(3) by auto
  note h = head_step(2) [OF Cons(2) a(1) Cons(4) refl]
  show ?case
  proof (cases "?e y")
    case False
    have "expire_slot t (last (?a # xs)) c = expire_slot t (last (?a # xs @ [y])) c"
      using h False by (subst expire_slot.simps) (simp add: Let_def)
    with Cons.IH [OF Cons(2,3), of "xs @ [y]"] Cons(4) False show ?thesis by simp
  next
    case True
    obtain c1 where c1: "apc_cache_wlocked_remove_entry y c = Some c1"
      "cache_inv c1 (drop_list c L ?a (xs @ ys) [y])" "evicted c {y} c1"
      "i < nslots c1" "slot_at c1 = slot_at c" "drop_list c L ?a (xs @ ys) [y] (slot_at c1 i) = xs @ ys"
      using remove_in_slot [OF Cons(2-4)] by blast
    have eq: "expire_slot t (last (?a # xs)) c = expire_slot t (last (?a # xs)) c1"
      using h True c1(1) by (subst expire_slot.simps) (simp add: Let_def)
    have ex: "apc_cache_entry_expired c1 (dat c1 x) t = ?e x" for x by (rule expired_cong(1) [OF c1(3)])
    obtain c' where c': "expire_slot t (last (?a # xs)) c1 = Some c'"
      "cache_inv c' (drop_list c1 (drop_list c L ?a (xs @ ys) [y]) ?a (xs @ filter (\<lambda>x. \<not> ?e x) ys) (filter ?e ys))"
      "evicted c1 (set (filter ?e ys)) c'"
      using Cons.IH [OF c1(2,4,6)] ex c1(5) by auto
    show ?thesis
      using eq c' True drop_list_drop [OF c1(3) a(2)] evicted_trans [OF c1(3) c'(3)] by simp
  qed
qed

lemma expunge_slot_ok:
  assumes "cache_inv c L" "i < nslots c" "L (slot_at c i) = ys"
  shows "\<exists>c'. expunge_slot (slot_at c i) c = Some c' \<and> cache_inv c' (drop_list c L (slot_at c i) [] ys) \<and>
    evicted c (set ys) c'"
  using assms
proof (induction ys arbitrary: c L)
  case Nil
  have a: "slot_at c i \<in> heads c" "slot_at c i \<noteq> gc_at c"
    using header_addrs [OF cache_invD(6) [OF Nil(1)]] Nil(2) by auto
  have "L (slot_at c i) = [] @ []" using Nil(3) by simp
  from head_step(1) [OF Nil(1) a(1) this refl] Nil(1,3) drop_list_nil [of "slot_at c i" c L "[]", OF a(2)]
  show ?case by (subst expunge_slot.simps) simp
next
  case (Cons y ys)
  let ?a = "slot_at c i"
  have a: "?a \<in> heads c" "?a \<noteq> gc_at c" using header_addrs [OF cache_invD(6) [OF Cons(2)]] Cons(3) by auto
  have l: "L ?a = [] @ y # ys" using Cons(4) by simp
  note h = head_step(2) [OF Cons(2) a(1) l refl]
  obtain c1 where c1: "apc_cache_wlocked_remove_entry y c = Some c1"
    "cache_inv c1 (drop_list c L ?a ([] @ ys) [y])" "evicted c {y} c1"
    "i < nslots c1" "slot_at c1 = slot_at c" "drop_list c L ?a ([] @ ys) [y] (slot_at c1 i) = [] @ ys"
    using remove_in_slot [OF Cons(2,3) l] by blast
  have eq: "expunge_slot ?a c = expunge_slot ?a c1" using h c1(1) by (subst expunge_slot.simps) (simp add: Let_def)
  obtain c' where c': "expunge_slot ?a c1 = Some c'" "cache_inv c' (drop_list c1 (drop_list c L ?a ys [y]) ?a [] ys)"
    "evicted c1 (set ys) c'"
    using Cons.IH [OF c1(2,4)] c1(5,6) by auto
  show ?case using eq c' drop_list_drop [OF c1(3) a(2)] evicted_trans [OF c1(3) c'(3)] by simp
qed

subsection \<open>Collecting garbage\<close>

definition gc_keeps :: "('v, 'x) cstate \<Rightarrow> int \<Rightarrow> 'v entry \<Rightarrow> bool" where
  "gc_keeps c now e \<longleftrightarrow> 0 < e_ref_count e \<and>
     (if c_gc_ttl c \<noteq> 0 then int64_of (now - e_dtime e) else 0) \<le> c_gc_ttl c"

text \<open>Only links, free blocks and the allocations \<open>R\<close> have changed.\<close>

definition collected :: "('v, 'x) cstate \<Rightarrow> nat set \<Rightarrow> ('v, 'x) cstate \<Rightarrow> bool" where
  "collected c R c' \<longleftrightarrow> same_core c c' \<and> h_nentries c' = h_nentries c \<and> h_mem_size c' = h_mem_size c \<and>
     (\<forall>p. p \<notin> R \<longrightarrow> sma_allocs c' p = sma_allocs c p) \<and> (\<forall>x. strip (dat c' x) = strip (dat c x))"

lemma collected_refl [simp]: "collected c {} c"
  by (simp add: collected_def)

lemma collected_trans: "collected c R c1 \<Longrightarrow> collected c1 R' c2 \<Longrightarrow> collected c (R \<union> R') c2"
  by (auto simp: collected_def intro: same_core_trans)

lemma gc_remove:
  assumes I: "cache_inv c L" and g: "L (gc_at c) = xs @ e # ys"
  shows "\<exists>c'. free_entry e (apc_cache_wlocked_unlink_entry e c) = Some c' \<and>
    cache_inv c' (L(gc_at c := xs @ ys)) \<and> collected c {e} c'"
proof -
  note D = cache_invD [OF I] and ad = header_addrs [OF cache_invD(6) [OF I]]
  let ?A = "sma_allocs c" and ?L1 = "L(gc_at c := xs @ ys)"
  have e: "e \<in> members (heads c) L" by (rule members_mem [OF ad(6)]) (simp add: g)
  define c1 where "c1 = c\<lparr>dat := unlinkd (c_header c) e (dat c)\<rparr>"
  have u: "apc_cache_wlocked_unlink_entry e c = c1" unfolding c1_def by (rule unlink_entry_ok [OF D(7,6) ad(6) g])
  have rdy: "sma_ready c1" "sma_lock_results c1 = []" "sma_live c1 = sma_live c" "sma_allocs c1 = ?A"
    using D(1,3) sma_cong [of c1 c] by (simp_all add: c1_def sma_ready_def)
  obtain c' where f: "free_entry e c1 = Some c'" "sma_ready c'" "c' = c1\<lparr>blk := blk c', avail := avail c'\<rparr>"
    "sma_allocs c' = ?A(e := None)"
    using free_entry_ok [OF rdy(1,2)] D(8) [OF e] rdy(3,4) by auto
  have d: "dat c' = unlinkd (c_header c) e (dat c)" "h_nentries c' = h_nentries c" "h_mem_size c' = h_mem_size c"
    by (subst f(3), simp add: c1_def)+
  have s: "same_core c c'" by (subst f(3)) (simp add: c1_def same_core_def core_def)
  have st: "strip (dat c' x) = strip (dat c x)" for x unfolding d(1) by (rule same_body_strip [OF same_body_unlinkd])
  have "cache_layout (sma_allocs c') c' ?L1"
    by (rule layout_unlink [where e = e, OF D(4) ad(6) g s d(1)]) (simp add: f(4))
  moreover have "cache_content (sma_allocs c') c' ?L1"
  proof (rule content_cong [OF D(5) s])
    show "?L1 (slot_at c i) = L (slot_at c i)" if "i < nslots c" for i using ad(9) [OF that] by simp
    fix x assume x: "x \<in> members (slots c) L"
    then obtain i where i: "i < nslots c" "x \<in> set (L (slot_at c i))" by (auto simp: members_slots)
    have "x \<noteq> e" using listsD(7) [OF D(7) ad(6) ad(8) [OF i(1)]] ad(9) [OF i(1)] i(2) g by fastforce
    with st [of x] f(4) show "sma_allocs c' x = ?A x \<and> e_key (dat c' x) = e_key (dat c x) \<and>
        e_hash (dat c' x) = e_hash (dat c x) \<and> e_mem_size (dat c' x) = e_mem_size (dat c x)"
      by (auto dest: strip_eqD)
  qed (rule d)+
  moreover have "collected c {e} c'" using s d(2,3) st f(4) by (simp add: collected_def)
  ultimately show ?thesis using f(1,2) u D(3) same_core_sel(5) [OF s] by (auto simp: cache_inv_def)
qed

lemma gc_loop_ok:
  assumes "cache_inv c L" "L (gc_at c) = xs @ ys"
  shows "\<exists>c'. gc_loop now (last (gc_at c # xs)) c = Some c' \<and>
    cache_inv c' (L(gc_at c := xs @ filter (\<lambda>x. gc_keeps c now (dat c x)) ys)) \<and>
    collected c (set (filter (\<lambda>x. \<not> gc_keeps c now (dat c x)) ys)) c'"
  using assms
proof (induction ys arbitrary: c L xs)
  case Nil
  have a: "gc_at c \<in> heads c" using header_addrs [OF cache_invD(6) [OF Nil(1)]] by auto
  from Nil(2) have "L(gc_at c := xs) = L" by auto
  with head_step(1) [OF Nil(1) a Nil(2) refl] Nil(1,2) show ?case by (subst gc_loop.simps) simp
next
  case (Cons y ys)
  let ?k = "\<lambda>x. gc_keeps c now (dat c x)"
  have a: "gc_at c \<in> heads c" using header_addrs [OF cache_invD(6) [OF Cons(2)]] by auto
  note h = head_step(2) [OF Cons(2) a Cons(3) refl]
  show ?case
  proof (cases "?k y")
    case True
    have "gc_loop now (last (gc_at c # xs)) c = gc_loop now (last (gc_at c # xs @ [y])) c"
      using h True by (subst gc_loop.simps) (auto simp: Let_def gc_keeps_def)
    with Cons.IH [OF Cons(2), of "xs @ [y]"] Cons(3) True show ?thesis by simp
  next
    case False
    obtain c1 where c1: "free_entry y (apc_cache_wlocked_unlink_entry y c) = Some c1"
      "cache_inv c1 (L(gc_at c := xs @ ys))" "collected c {y} c1"
      using gc_remove [OF Cons(2,3)] by blast
    have s: "same_core c c1" "\<And>x. strip (dat c1 x) = strip (dat c x)" using c1(3) by (simp_all add: collected_def)
    have eq: "gc_loop now (last (gc_at c # xs)) c = gc_loop now (last (gc_at c # xs)) c1"
      using h False c1(1) by (subst gc_loop.simps) (auto simp: Let_def gc_keeps_def)
    have k: "gc_keeps c1 now (dat c1 x) = ?k x" for x
      using strip_eqD(2,6) [OF s(2)] same_core_sel(11) [OF s(1)] by (simp add: gc_keeps_def)
    have g: "gc_at c1 = gc_at c" by (rule same_core_addrs(2) [OF s(1)])
    have p: "(L(gc_at c := xs @ ys)) (gc_at c1) = xs @ ys" using g by simp
    obtain c' where c': "gc_loop now (last (gc_at c # xs)) c1 = Some c'"
      "cache_inv c' (L(gc_at c := xs @ filter ?k ys))" "collected c1 (set (filter (\<lambda>x. \<not> ?k x) ys)) c'"
      using Cons.IH [OF c1(2) p] unfolding k g fun_upd_upd by blast
    then show ?thesis using eq False collected_trans [OF c1(3) c'(3)] by (simp del: fun_upd_apply)
  qed
qed

lemma gc_ok:
  assumes I: "cache_inv c L"
  shows "\<exists>c'. apc_cache_wlocked_gc c = Some c' \<and>
    cache_inv c' (L(gc_at c := filter (\<lambda>x. gc_keeps c (clock c) (dat c x)) (L (gc_at c)))) \<and>
    collected c (set (filter (\<lambda>x. \<not> gc_keeps c (clock c) (dat c x)) (L (gc_at c)))) c'"
proof -
  note ad = header_addrs [OF cache_invD(6) [OF I]]
  obtain c' where c': "gc_loop (clock c) (gc_at c) c = Some c'"
    "cache_inv c' (L(gc_at c := filter (\<lambda>x. gc_keeps c (clock c) (dat c x)) (L (gc_at c))))"
    "collected c (set (filter (\<lambda>x. \<not> gc_keeps c (clock c) (dat c x)) (L (gc_at c)))) c'"
    using gc_loop_ok [OF I, of "[]" "L (gc_at c)" "clock c"] by auto
  have "apc_cache_wlocked_gc c = Some c'"
    using c'(1) gc_loop.simps [of "clock c" "gc_at c" c] by (auto simp: apc_cache_wlocked_gc_def ad(1))
  with c' show ?thesis by blast
qed

subsection \<open>The scan of an insert\<close>

lemma key_equals: "apc_entry_key_equals e key h \<longleftrightarrow> e_hash e = h \<and> e_key e = key"
  by (auto simp: apc_entry_key_equals_def)

lemma slot_key_equals:
  assumes "cache_inv c L" "i < nslots c" "x \<in> set (L (slot_at c i))"
  shows "apc_entry_key_equals (dat c x) key (zstr_hash c key) \<longleftrightarrow> e_key (dat c x) = key"
  using contentD(1) [OF cache_invD(5) [OF assms(1)] assms(2,3)] by (auto simp: key_equals slot_entry_def)

text \<open>
  What the scan for \<open>key\<close> meets in the slot: the stale entries it removes on the way, those it keeps, and
  the entry with the key with what follows it.
\<close>

definition before_key :: "('v, 'x) cstate \<Rightarrow> string \<Rightarrow> nat list \<Rightarrow> nat list" where
  "before_key c key = takeWhile (\<lambda>x. e_key (dat c x) \<noteq> key)"

definition from_key :: "('v, 'x) cstate \<Rightarrow> string \<Rightarrow> nat list \<Rightarrow> nat list" where
  "from_key c key = dropWhile (\<lambda>x. e_key (dat c x) \<noteq> key)"

definition stale :: "('v, 'x) cstate \<Rightarrow> int \<Rightarrow> nat list \<Rightarrow> nat list" where
  "stale c t = filter (\<lambda>x. apc_cache_entry_expired c (dat c x) t)"

definition fresh :: "('v, 'x) cstate \<Rightarrow> int \<Rightarrow> nat list \<Rightarrow> nat list" where
  "fresh c t = filter (\<lambda>x. \<not> apc_cache_entry_expired c (dat c x) t)"

lemma scan_lists_cong:
  assumes "evicted c R c'"
  shows "before_key c' key = before_key c key" "from_key c' key = from_key c key" "stale c' t = stale c t"
    "fresh c' t = fresh c t"
  using evicted_sel(6) [OF assms] expired_cong(1) [OF assms]
  by (simp_all add: before_key_def from_key_def stale_def fresh_def fun_eq_iff)

definition scan_refuses :: "('v, 'x) cstate \<Rightarrow> string \<Rightarrow> int \<Rightarrow> bool \<Rightarrow> nat list \<Rightarrow> bool" where
  "scan_refuses c key t exclusive ys \<longleftrightarrow>
     exclusive \<and> from_key c key ys \<noteq> [] \<and> \<not> apc_cache_entry_hard_expired (dat c (hd (from_key c key ys))) t"

lemma insert_scan_ok:
  fixes key :: string and t :: int
  assumes "cache_inv c L" "i < nslots c" "L (slot_at c i) = xs @ ys"
  defines "kept \<equiv> xs @ fresh c t (before_key c key ys)"
  shows "\<exists>c'. insert_scan key (zstr_hash c key) t exclusive (last (slot_at c i # xs)) c =
      Some (if scan_refuses c key t exclusive ys then None else Some (last (slot_at c i # kept)), c') \<and>
    (if scan_refuses c key t exclusive ys
     then cache_inv c' (drop_list c L (slot_at c i) (kept @ from_key c key ys) (stale c t (before_key c key ys))) \<and>
       evicted c (set (stale c t (before_key c key ys))) c'
     else cache_inv c' (drop_list c L (slot_at c i) (kept @ tl (from_key c key ys))
            (stale c t (before_key c key ys) @ take 1 (from_key c key ys))) \<and>
       evicted c (set (stale c t (before_key c key ys) @ take 1 (from_key c key ys))) c')"
  using assms(1-3) unfolding kept_def
proof (induction ys arbitrary: c L xs)
  case Nil
  have a: "slot_at c i \<in> heads c" "slot_at c i \<noteq> gc_at c"
    using header_addrs [OF cache_invD(6) [OF Nil(1)]] Nil(2) by auto
  from head_step(1) [OF Nil(1) a(1) Nil(3) refl] Nil(1,3) drop_list_nil [of "slot_at c i" c L "xs", OF a(2)]
  show ?case
    by (subst insert_scan.simps) (simp add: scan_refuses_def before_key_def from_key_def stale_def fresh_def)
next
  case (Cons y ys)
  let ?a = "slot_at c i" and ?e = "\<lambda>x. apc_cache_entry_expired c (dat c x) t"
  have a: "?a \<in> heads c" "?a \<noteq> gc_at c" using header_addrs [OF cache_invD(6) [OF Cons(2)]] Cons(3) by auto
  note h = head_step(2) [OF Cons(2) a(1) Cons(4) refl]
  have y: "y \<in> set (L ?a)" using Cons(4) by simp
  note k = slot_key_equals [OF Cons(2,3) y, of key]
  show ?case
  proof (cases "e_key (dat c y) = key")
    case True
    have bf: "before_key c key (y # ys) = []" "from_key c key (y # ys) = y # ys"
      using True by (simp_all add: before_key_def from_key_def)
    show ?thesis
    proof (cases "scan_refuses c key t exclusive (y # ys)")
      case ref: True
      have "drop_list c L ?a (xs @ y # ys) [] = L" by (rule drop_list_nil) (use a Cons(4) in auto)
      then show ?thesis using ref Cons(2,4) h k True bf
        by (subst insert_scan.simps) (simp add: scan_refuses_def Let_def stale_def fresh_def)
    next
      case nref: False
      obtain c1 where c1: "apc_cache_wlocked_remove_entry y c = Some c1"
        "cache_inv c1 (drop_list c L ?a (xs @ ys) [y])" "evicted c {y} c1"
        using remove_in_slot [OF Cons(2-4)] by blast
      have "\<not> (exclusive \<and> \<not> apc_cache_entry_hard_expired (dat c y) t)"
        using nref bf by (simp add: scan_refuses_def)
      then show ?thesis using nref c1 h k True bf
        by (subst insert_scan.simps) (simp add: Let_def stale_def fresh_def)
    qed
  next
    case nk: False
    have bf: "before_key c key (y # ys) = y # before_key c key ys" "from_key c key (y # ys) = from_key c key ys"
      "scan_refuses c key t exclusive (y # ys) = scan_refuses c key t exclusive ys"
      using nk by (simp_all add: before_key_def from_key_def scan_refuses_def)
    show ?thesis
    proof (cases "?e y")
      case False
      have eq: "insert_scan key (zstr_hash c key) t exclusive (last (?a # xs)) c =
          insert_scan key (zstr_hash c key) t exclusive (last (?a # xs @ [y])) c"
        using h k nk False by (subst insert_scan.simps) (simp add: Let_def)
      have s: "stale c t (y # before_key c key ys) = stale c t (before_key c key ys)"
        "xs @ fresh c t (y # before_key c key ys) = (xs @ [y]) @ fresh c t (before_key c key ys)"
        using False by (simp_all add: stale_def fresh_def)
      show ?thesis unfolding eq bf s by (rule Cons.IH) (use Cons(2-4) in auto)
    next
      case True
      obtain c1 where c1: "apc_cache_wlocked_remove_entry y c = Some c1"
        "cache_inv c1 (drop_list c L ?a (xs @ ys) [y])" "evicted c {y} c1"
        "i < nslots c1" "slot_at c1 = slot_at c" "drop_list c L ?a (xs @ ys) [y] (slot_at c1 i) = xs @ ys"
        using remove_in_slot [OF Cons(2-4)] by blast
      have z: "zstr_hash c1 = zstr_hash c" using same_core_sel(26) [OF evicted_sel(1) [OF c1(3)]] .
      have eq: "insert_scan key (zstr_hash c key) t exclusive (last (?a # xs)) c =
          insert_scan key (zstr_hash c1 key) t exclusive (last (slot_at c1 i # xs)) c1"
        using h k nk True c1(1,5) z by (subst insert_scan.simps) (simp add: Let_def)
      note sc = scan_lists_cong [OF c1(3)]
      have s: "stale c t (y # before_key c key ys) = y # stale c t (before_key c key ys)"
        "fresh c t (y # before_key c key ys) = fresh c t (before_key c key ys)"
        using True by (simp_all add: stale_def fresh_def)
      have r: "scan_refuses c1 key t exclusive ys = scan_refuses c key t exclusive ys"
        using sc(2) expired_cong(2) [OF c1(3)] by (simp add: scan_refuses_def)
      obtain c' where c': "insert_scan key (zstr_hash c1 key) t exclusive (last (slot_at c1 i # xs)) c1 =
          Some (if scan_refuses c key t exclusive ys then None
            else Some (last (slot_at c i # xs @ fresh c t (before_key c key ys))), c')"
        "if scan_refuses c key t exclusive ys
         then cache_inv c' (drop_list c1 (drop_list c L ?a (xs @ ys) [y]) ?a
             ((xs @ fresh c t (before_key c key ys)) @ from_key c key ys) (stale c t (before_key c key ys))) \<and>
           evicted c1 (set (stale c t (before_key c key ys))) c'
         else cache_inv c' (drop_list c1 (drop_list c L ?a (xs @ ys) [y]) ?a
             ((xs @ fresh c t (before_key c key ys)) @ tl (from_key c key ys))
             (stale c t (before_key c key ys) @ take 1 (from_key c key ys))) \<and>
           evicted c1 (set (stale c t (before_key c key ys) @ take 1 (from_key c key ys))) c'"
        using Cons.IH [OF c1(2,4,6)] unfolding sc r c1(5) by blast
      note tr = evicted_trans [OF c1(3)]
      show ?thesis unfolding eq c'(1) bf s
        using c'(2) tr unfolding drop_list_drop [OF c1(3) a(2)]
        by (intro exI [of _ c'] conjI refl) (simp split: if_splits)
    qed
  qed
qed

subsection \<open>Linking a new entry\<close>

lemma cache_inv_fields:
  assumes "blk c' = blk c" "avail c' = avail c" "dat c' = dat c" "hdr_size c' = hdr_size c"
    "sma_size c' = sma_size c" "sma_locked c' = sma_locked c" "sma_lock_results c' = sma_lock_results c"
    "min_block_size c' = min_block_size c" "sma_max_alloc_size c' = sma_max_alloc_size c"
    "c_header c' = c_header c" "header_bytes c' = header_bytes c" "gc_offset c' = gc_offset c"
    "nslots c' = nslots c" "zstr_hash c' = zstr_hash c" "h_nentries c' = h_nentries c" "h_mem_size c' = h_mem_size c"
  shows "cache_inv c' L = cache_inv c L" "heads c' = heads c" "slots c' = slots c" "slot_at c' = slot_at c"
    "gc_at c' = gc_at c"
proof -
  show s: "slot_at c' = slot_at c" and g: "gc_at c' = gc_at c" using assms by (simp_all add: slot_at_def gc_at_def fun_eq_iff)
  then show h: "heads c' = heads c" "slots c' = slots c" using assms(13) by (simp_all add: heads_def slots_def)
  have a: "sma_allocs c' = sma_allocs c" "sma_ready c' = sma_ready c"
    using sma_cong [of c' c] assms by (simp_all add: sma_ready_def)
  have "header_ok (sma_allocs c) c' = header_ok (sma_allocs c) c" unfolding header_ok_def assms ..
  then have "cache_layout (sma_allocs c) c' L = cache_layout (sma_allocs c) c L"
    unfolding cache_layout_def h assms by simp
  moreover have "slot_entry (sma_allocs c) c' = slot_entry (sma_allocs c) c"
    unfolding slot_entry_def assms by (simp add: fun_eq_iff)
  then have "cache_content (sma_allocs c) c' L = cache_content (sma_allocs c) c L"
    unfolding cache_content_def h s assms by simp
  ultimately show "cache_inv c' L = cache_inv c L" unfolding cache_inv_def a assms by simp
qed

text \<open>The allocation \<open>e\<close> holds a complete entry that is not yet in the cache.\<close>

definition pending :: "('v, 'x) cstate \<Rightarrow> (nat \<Rightarrow> nat list) \<Rightarrow> nat \<Rightarrow> bool" where
  "pending c L e \<longleftrightarrow> e \<in> sma_live c \<and> e \<noteq> c_header c \<and> e \<notin> members (heads c) L \<and>
     e_hash (dat c e) = zstr_hash c (e_key (dat c e)) \<and> 0 < e_mem_size (dat c e) \<and>
     e_mem_size (dat c e) \<le> int (sma_room c e)"

lemma pending_place:
  assumes I: "cache_inv c L" and p: "pending c L e"
  shows "c_header c < e" "e < SEG_MAX" "e \<notin> heads c" "e \<in> dom (sma_allocs c)"
    "sma_allocs c e = Some (sma_room c e)" "0 < e_ref_count (dat c e)"
proof -
  note D = cache_invD [OF I]
  have e: "e \<in> sma_live c" "e \<noteq> c_header c" "e \<notin> members (heads c) L" using p by (auto simp: pending_def)
  have "c_header c = hdr_size c + 2 * BHDR" using header_okD(1) [OF D(6)] by simp
  then show gt: "c_header c < e" using sma_live_range(1) [OF D(2) e(1)] e(2) by simp
  show "e < SEG_MAX" using sma_live_range(4) [OF D(2) e(1)] sma_ok_facts(2) [OF D(2)] by simp
  show "e \<in> dom (sma_allocs c)" "sma_allocs c e = Some (sma_room c e)"
    using e(1) sma_allocs_dom sma_allocs_room by blast+
  then show "0 < e_ref_count (dat c e)" using layoutD(5) [OF D(4)] e by blast
  obtain n where n: "sma_allocs c (c_header c) = Some n" "header_bytes c + 8 * nslots c \<le> n"
    using header_okD(6) [OF D(6)] by blast
  then have h: "c_header c \<in> sma_live c" using sma_allocs_dom by blast
  with n sma_allocs_room [OF h] sma_live_disjoint [OF D(2) h e(1)] e(2) gt
  have "c_header c + header_bytes c + 8 * nslots c \<le> e" by auto
  then show "e \<notin> heads c" using header_addrs(4) [OF D(6), of e] by auto
qed

text \<open>The counters after a successful insert.\<close>

definition count_insert :: "nat \<Rightarrow> ('v, 'x) cstate \<Rightarrow> ('v, 'x) cstate" where
  "count_insert e c = c\<lparr>h_mem_size := int64_of (h_mem_size c + e_mem_size (dat c e)),
     h_nentries := int64_of (h_nentries c + 1), h_ninserts := int64_of (h_ninserts c + 1)\<rparr>"

lemma link_new_ok:
  assumes I: "cache_inv c L" and p: "pending c L e"
    and i: "zstr_hash c (e_key (dat c e)) mod nslots c = i" "L (slot_at c i) = xs @ ys"
    and new: "\<And>x. x \<in> set (xs @ ys) \<Longrightarrow> e_key (dat c x) \<noteq> e_key (dat c e)"
  defines "c' \<equiv> count_insert e (apc_cache_wlocked_link_entry (last (slot_at c i # xs)) e c)"
  shows "cache_inv c' (L(slot_at c i := xs @ e # ys))" "strip (dat c' x) = strip (dat c x)"
    "c' = c\<lparr>dat := dat c', h_mem_size := h_mem_size c', h_nentries := h_nentries c + 1,
       h_ninserts := int64_of (h_ninserts c + 1)\<rparr>"
proof -
  note D = cache_invD [OF I] and pl = pending_place [OF I p] and ad = header_addrs [OF cache_invD(6) [OF I]]
  have il: "i < nslots c" using i(1) header_okD(2) [OF D(6)] by auto
  have em: "e \<notin> members (heads c) L" and q: "e_mem_size (dat c e) \<le> int (sma_room c e)"
    and ev: "e_hash (dat c e) = zstr_hash c (e_key (dat c e))" "0 < e_mem_size (dat c e)" "e \<in> sma_live c"
    using p by (auto simp: pending_def)
  have es: "e \<notin> members (slots c) L" using em members_heads(1) [of c L] by blast
  define d where "d = linkd (c_header c) (last (slot_at c i # xs)) e (dat c)"
  have lk: "apc_cache_wlocked_link_entry (last (slot_at c i # xs)) e c = c\<lparr>dat := d\<rparr>"
    unfolding d_def by (rule link_entry_ok [OF D(7,6) ad(8) [OF il] i(2) pl(3) em pl(1,2)])
  have st: "strip (d x) = strip (dat c x)" for x unfolding d_def by (rule same_body_strip [OF same_body_linkd])
  note sx = strip_eqD [OF st]
  have b: "0 \<le> h_nentries c" "h_nentries c + 1 < int SEG_MAX" "0 \<le> h_mem_size c"
    "h_mem_size c + e_mem_size (dat c e) < int SEG_MAX"
    using content_bounds(1,3) [OF D(2,4,5)] content_bounds(6) [OF D(2,4,5) ev(3) es] q by auto
  have c': "c' = c\<lparr>dat := d, h_mem_size := h_mem_size c + e_mem_size (dat c e), h_nentries := h_nentries c + 1,
      h_ninserts := int64_of (h_ninserts c + 1)\<rparr>"
    unfolding c'_def lk count_insert_def using b ev(2) sx(8) by (simp add: int64_of_id)
  then show "strip (dat c' x) = strip (dat c x)" using st by simp
  show "c' = c\<lparr>dat := dat c', h_mem_size := h_mem_size c', h_nentries := h_nentries c + 1,
       h_ninserts := int64_of (h_ninserts c + 1)\<rparr>" by (simp add: c')
  define c1 where "c1 = c\<lparr>dat := d, h_mem_size := h_mem_size c + e_mem_size (dat c e), h_nentries := h_nentries c + 1\<rparr>"
  have s1: "same_core c c1" by (simp add: c1_def same_core_def core_def)
  have al: "sma_allocs c1 = sma_allocs c" "sma_ready c1"
    using D(1) sma_cong [of c1 c] by (simp_all add: c1_def sma_ready_def)
  have "cache_layout (sma_allocs c1) c1 (L(slot_at c i := xs @ e # ys))"
    unfolding al(1) by (rule layout_link [OF D(4) ad(8) [OF il] i(2) s1 _ pl(4,3) em pl(1,2)]) (simp add: c1_def d_def)
  moreover have "cache_content (sma_allocs c1) c1 (L(slot_at c i := xs @ e # ys))"
    unfolding al(1)
  proof (rule content_link [OF D(5) s1 D(6) il i(2) es])
    show "slot_entry (sma_allocs c) c1 i e"
      using ev q pl(5) i(1) sx(8,10,11) by (simp add: slot_entry_def c1_def)
    show "h_mem_size c1 = h_mem_size c + e_mem_size (dat c1 e)" "h_nentries c1 = h_nentries c + 1"
      by (simp_all add: c1_def sx(8))
    show "e_key (dat c x) \<noteq> e_key (dat c1 e)" if "x \<in> set (xs @ ys)" for x
      using new [OF that] by (simp add: c1_def sx(11))
  qed (simp_all add: c1_def sx)
  ultimately have "cache_inv c1 (L(slot_at c i := xs @ e # ys))"
    using al(2) D(3) same_core_sel(5) [OF s1] by (simp add: cache_inv_def)
  moreover have "cache_inv c' (L(slot_at c i := xs @ e # ys)) = cache_inv c1 (L(slot_at c i := xs @ e # ys))"
    by (rule cache_inv_fields(1)) (simp_all add: c' c1_def)
  ultimately show "cache_inv c' (L(slot_at c i := xs @ e # ys))" by blast
qed

end
