(* ===== verification/Cache_Api.thy ===== *)
theory Cache_Api imports Cache begin

text \<open>
  The API of \<open>apc_cache.c\<close>: creating and attaching a cache, storing, fetching, updating and deleting
  entries, the information functions, slam defense and \<open>apcu_entry\<close>. What \<open>apc_persist\<close> computes from a
  value (size, top-level zval and the bytes behind the entry) is the argument \<open>img\<close>, what
  \<open>apc_unpersist\<close> makes of it the argument \<open>unp\<close>. A C bailout (\<open>php_apc_try\<close>) is not modelled.
\<close>

subsection \<open>Creating and attaching\<close>

definition zero_heads :: "nat \<Rightarrow> nat \<Rightarrow> (nat \<Rightarrow> 'v entry) \<Rightarrow> (nat \<Rightarrow> 'v entry)" where
  "zero_heads h n d = (\<lambda>x. if h \<le> x \<and> x < h + n then (d x)\<lparr>e_next := 0, e_prev := 0\<rparr> else d x)"

text \<open>\<open>apc_cache_create\<close>; the result \<open>False\<close> is the fatal \<open>E_CORE_ERROR\<close>.\<close>

definition apc_cache_create ::
  "int \<Rightarrow> int \<Rightarrow> int \<Rightarrow> int \<Rightarrow> bool \<Rightarrow> ('v, 'x) cstate \<Rightarrow> (bool \<times> ('v, 'x) cstate) option" where
  "apc_cache_create size_hint gc_ttl ttl smart defend c =
     (let n = (if 0 < size_hint then size_hint else int (sma_size c div 2048));
          slots = nat (make_prime (int32_of n));
          cache_size = uadd (header_bytes c) (umul slots 8)
      in do {
        r \<leftarrow> apc_sma_malloc apc_cache_default_expunge (\<lambda>p d. d) cache_size c;
        case fst r of
          None \<Rightarrow> Some (False, snd r)
        | Some h \<Rightarrow>
            let c1 = (snd r)\<lparr>dat := zero_heads h cache_size (dat (snd r)), cache_exists := True, c_header := h,
                  h_nhits := 0, h_nmisses := 0, h_ninserts := 0, h_nentries := 0, h_ncleanups := 0,
                  h_ndefragmentations := 0, h_nexpunges := 0, h_mem_size := 0, h_lastkey := no_key,
                  h_stime := clock (snd r), nslots := slots, c_gc_ttl := gc_ttl, c_ttl := ttl,
                  c_smart := smart, c_defend := defend, cache_lock := Unlocked\<rparr>
            in Some (True, c1)
      })"

text \<open>\<open>apc_cache_attach\<close> (Windows): the layout comes from the shared header of the allocator.\<close>

definition attach_layout_ok :: "nat \<Rightarrow> nat \<Rightarrow> nat \<Rightarrow> nat \<Rightarrow> bool" where
  "attach_layout_ok hbytes off n sz \<longleftrightarrow>
     \<not> (off = 0 \<or> n = 0) \<and>
     (let slot_bytes = umul n 8
      in \<not> SIZE_MAX div 8 < n \<and>
         (let cache_end = uadd (uadd off hbytes) slot_bytes
          in \<not> (cache_end < off \<or> sz < cache_end)))"

definition apc_cache_attach ::
  "int \<Rightarrow> int \<Rightarrow> int \<Rightarrow> bool \<Rightarrow> ('v, 'x) cstate \<Rightarrow> bool \<times> ('v, 'x) cstate" where
  "apc_cache_attach gc_ttl ttl smart defend c =
     (let off = cache_header_offset c; n = shm_nslots c
      in if \<not> attach_layout_ok (header_bytes c) off n (sma_size c) then (False, c)
         else (True, c\<lparr>cache_exists := True, c_header := off, nslots := n, c_gc_ttl := gc_ttl, c_ttl := ttl,
                c_smart := smart, c_defend := defend\<rparr>))"

definition apc_cache_detach :: "('v, 'x) cstate \<Rightarrow> ('v, 'x) cstate" where
  "apc_cache_detach c = c\<lparr>cache_exists := False\<rparr>"

subsection \<open>Slam defense\<close>

definition apc_cache_defense :: "string \<Rightarrow> int \<Rightarrow> ('v, 'x) cstate \<Rightarrow> bool \<times> ('v, 'x) cstate" where
  "apc_cache_defense key t c =
     (if c_defend c
      then
        let last = h_lastkey c
        in if sk_hash last = zstr_hash c key \<and> sk_len last = length key \<and> sk_mtime last = t \<and>
              sk_pid last \<noteq> pid c
           then (True, c)
           else (False, c\<lparr>h_lastkey := \<lparr>sk_hash = zstr_hash c key, sk_len = length key, sk_mtime = t,
                   sk_pid = pid c\<rparr>\<rparr>)
      else (False, c))"

subsection \<open>Storing\<close>

text \<open>\<open>apc_persist_sma_init_entry\<close> runs under the allocator's lock.\<close>

definition apc_persist_sma_init_entry :: "nat \<Rightarrow> (nat \<Rightarrow> 'v entry) \<Rightarrow> (nat \<Rightarrow> 'v entry)" where
  "apc_persist_sma_init_entry p d = d(p := (d p)\<lparr>e_ref_count := 1\<rparr>)"

definition apc_persist ::
  "(string \<Rightarrow> 'a \<Rightarrow> (nat \<times> zval \<times> 'v) option) \<Rightarrow> string \<Rightarrow> 'a \<Rightarrow> ('v, 'x) cstate \<Rightarrow>
   (nat option \<times> ('v, 'x) cstate) option" where
  "apc_persist img key val c =
     (case img key val of
        None \<Rightarrow> Some (None, c)
      | Some (sz, zv, data) \<Rightarrow> do {
          r \<leftarrow> apc_sma_malloc apc_cache_default_expunge apc_persist_sma_init_entry sz c;
          case fst r of
            None \<Rightarrow> Some (None, snd r)
          | Some a \<Rightarrow> Some (Some a, upd_entry a (\<lambda>e. e\<lparr>e_key := key, e_hash := zstr_hash c key, e_val := zv,
                e_data := data, e_mem_size := int sz\<rparr>) (snd r))
        })"

definition apc_cache_store ::
  "(string \<Rightarrow> 'a \<Rightarrow> (nat \<times> zval \<times> 'v) option) \<Rightarrow> string \<Rightarrow> 'a \<Rightarrow> int \<Rightarrow> bool \<Rightarrow> ('v, 'x) cstate \<Rightarrow>
   (bool \<times> ('v, 'x) cstate) option" where
  "apc_cache_store img key val ttl exclusive c =
     (let tc = apc_time c; t = fst tc; c = snd tc
      in if \<not> cache_exists c then Some (False, c)
         else
           let dc = apc_cache_defense key t c
           in if fst dc then Some (False, snd dc)
              else do {
                r \<leftarrow> apc_persist img key val (snd dc);
                case fst r of
                  None \<Rightarrow> Some (False, snd r)
                | Some a \<Rightarrow> do {
                    w \<leftarrow> apc_cache_wlock (upd_entry a (apc_cache_set_entry_values ttl t) (snd r));
                    if \<not> fst w then do { c' \<leftarrow> free_entry a (snd w); Some (False, c') }
                    else do {
                      i \<leftarrow> apc_cache_wlocked_insert a exclusive (snd w);
                      let c' = apc_cache_wunlock (snd i);
                      if fst i then Some (True, apc_cache_entry_release a c')
                      else do { c'' \<leftarrow> free_entry a c'; Some (False, c'') }
                    }
                  }
              })"

definition apc_cache_store_internal ::
  "(string \<Rightarrow> 'a \<Rightarrow> (nat \<times> zval \<times> 'v) option) \<Rightarrow> string \<Rightarrow> 'a \<Rightarrow> int \<Rightarrow> bool \<Rightarrow> ('v, 'x) cstate \<Rightarrow>
   (bool \<times> ('v, 'x) cstate) option" where
  "apc_cache_store_internal img key val ttl exclusive c =
     (let tc = apc_time c; t = fst tc; dc = apc_cache_defense key t (snd tc)
      in if fst dc then Some (False, snd dc)
         else do {
           r \<leftarrow> apc_persist img key val (snd dc);
           case fst r of
             None \<Rightarrow> Some (False, snd r)
           | Some a \<Rightarrow> do {
               i \<leftarrow> apc_cache_wlocked_insert a exclusive (upd_entry a (apc_cache_set_entry_values ttl t) (snd r));
               if fst i then Some (True, apc_cache_entry_release a (snd i))
               else do { c'' \<leftarrow> free_entry a (snd i); Some (False, c'') }
             }
         })"

subsection \<open>Fetching\<close>

definition apc_cache_entry_fetch_zval :: "(zval \<Rightarrow> 'v \<Rightarrow> 'a option) \<Rightarrow> nat \<Rightarrow> ('v, 'x) cstate \<Rightarrow> 'a option" where
  "apc_cache_entry_fetch_zval unp a c = unp (e_val (dat c a)) (e_data (dat c a))"

definition apc_cache_fetch ::
  "(zval \<Rightarrow> 'v \<Rightarrow> 'a option) \<Rightarrow> string \<Rightarrow> int \<Rightarrow> ('v, 'x) cstate \<Rightarrow> ('a option \<times> ('v, 'x) cstate) option" where
  "apc_cache_fetch unp key t c =
     (if \<not> cache_exists c then Some (None, c)
      else do {
        l \<leftarrow> apc_cache_rlock c;
        if \<not> fst l then Some (None, snd l)
        else do {
          r \<leftarrow> apc_cache_rlocked_find_incref key t (snd l);
          let c' = apc_cache_runlock (snd r);
          case fst r of
            None \<Rightarrow> Some (None, c')
          | Some a \<Rightarrow> Some (apc_cache_entry_fetch_zval unp a c', apc_cache_entry_release a c')
        }
      })"

definition apc_cache_exists :: "string \<Rightarrow> int \<Rightarrow> ('v, 'x) cstate \<Rightarrow> (bool \<times> ('v, 'x) cstate) option" where
  "apc_cache_exists key t c =
     (if \<not> cache_exists c then Some (False, c)
      else do {
        l \<leftarrow> apc_cache_rlock c;
        if \<not> fst l then Some (False, snd l)
        else do {
          r \<leftarrow> apc_cache_rlocked_find key t (snd l);
          Some (fst r \<noteq> None, apc_cache_runlock (snd r))
        }
      })"

subsection \<open>Updating\<close>

text \<open>\<open>again\<close> is \<open>insert_if_not_found\<close>: the code goes back to \<open>retry_update\<close> at most once.\<close>

definition update_once ::
  "('v entry \<Rightarrow> bool \<times> 'v entry) \<Rightarrow> string \<Rightarrow> int \<Rightarrow> ('v, 'x) cstate \<Rightarrow> (bool option \<times> ('v, 'x) cstate) option" where
  "update_once updater key t c =
     do {
       l \<leftarrow> apc_cache_wlock c;
       if \<not> fst l then Some (Some False, snd l)
       else do {
         e \<leftarrow> apc_cache_rlocked_find_nostat key t (snd l);
         case e of
           None \<Rightarrow> Some (None, apc_cache_wunlock (snd l))
         | Some a \<Rightarrow>
             let en = dat (snd l) a; u = updater en
             in if z_simple (e_val en)
                then Some (Some (fst u), apc_cache_wunlock (upd_entry a (\<lambda>_. (snd u)\<lparr>e_mtime := t\<rparr>) (snd l)))
                else Some (Some False, apc_cache_wunlock (snd l))
       }
     }"

definition apc_cache_update ::
  "(string \<Rightarrow> zval \<Rightarrow> (nat \<times> zval \<times> 'v) option) \<Rightarrow> string \<Rightarrow> ('v entry \<Rightarrow> bool \<times> 'v entry) \<Rightarrow> bool \<Rightarrow> int \<Rightarrow>
   ('v, 'x) cstate \<Rightarrow> (bool \<times> ('v, 'x) cstate) option" where
  "apc_cache_update img key updater insert_if_not_found ttl c =
     (let tc = apc_time c; t = fst tc; c = snd tc
      in if \<not> cache_exists c then Some (False, c)
         else do {
           r \<leftarrow> update_once updater key t c;
           case fst r of
             Some b \<Rightarrow> Some (b, snd r)
           | None \<Rightarrow>
               if \<not> insert_if_not_found then Some (False, snd r)
               else do {
                 s \<leftarrow> apc_cache_store img key (IS_LONG 0) (int32_of ttl) True (snd r);
                 r2 \<leftarrow> update_once updater key t (snd s);
                 case fst r2 of Some b \<Rightarrow> Some (b, snd r2) | None \<Rightarrow> Some (False, snd r2)
               }
         })"

text \<open>
  \<open>apc_cache_atomic_update_long\<close> runs the updater on the integer under the read lock. The updater gets the caller's
  \<open>data\<close>, and leaves its own there.
\<close>

definition atomic_update_once ::
  "('d \<Rightarrow> int \<Rightarrow> bool \<times> int \<times> 'd) \<Rightarrow> 'd \<Rightarrow> string \<Rightarrow> int \<Rightarrow> ('v, 'x) cstate \<Rightarrow>
   ((bool option \<times> 'd) \<times> ('v, 'x) cstate) option" where
  "atomic_update_once updater data key t c =
     do {
       l \<leftarrow> apc_cache_rlock c;
       if \<not> fst l then Some ((Some False, data), snd l)
       else do {
         e \<leftarrow> apc_cache_rlocked_find_nostat key t (snd l);
         case e of
           None \<Rightarrow> Some ((None, data), apc_cache_runlock (snd l))
         | Some a \<Rightarrow>
             let en = dat (snd l) a; u = updater data (z_lval (e_val en))
             in if z_is_long (e_val en)
                then Some ((Some (fst u), snd (snd u)), apc_cache_runlock
                       (upd_entry a (\<lambda>e. e\<lparr>e_val := IS_LONG (fst (snd u)), e_mtime := t\<rparr>) (snd l)))
                else Some ((Some False, data), apc_cache_runlock (snd l))
       }
     }"

definition apc_cache_atomic_update_long ::
  "(string \<Rightarrow> zval \<Rightarrow> (nat \<times> zval \<times> 'v) option) \<Rightarrow> string \<Rightarrow> ('d \<Rightarrow> int \<Rightarrow> bool \<times> int \<times> 'd) \<Rightarrow> 'd \<Rightarrow> bool \<Rightarrow> int \<Rightarrow>
   ('v, 'x) cstate \<Rightarrow> ((bool \<times> 'd) \<times> ('v, 'x) cstate) option" where
  "apc_cache_atomic_update_long img key updater data insert_if_not_found ttl c =
     (let tc = apc_time c; t = fst tc; c = snd tc
      in if \<not> cache_exists c then Some ((False, data), c)
         else do {
           r \<leftarrow> atomic_update_once updater data key t c;
           case fst (fst r) of
             Some b \<Rightarrow> Some ((b, snd (fst r)), snd r)
           | None \<Rightarrow>
               if \<not> insert_if_not_found then Some ((False, snd (fst r)), snd r)
               else do {
                 s \<leftarrow> apc_cache_store img key (IS_LONG 0) (int32_of ttl) True (snd r);
                 r2 \<leftarrow> atomic_update_once updater (snd (fst r)) key t (snd s);
                 Some ((case fst (fst r2) of Some b \<Rightarrow> b | None \<Rightarrow> False, snd (fst r2)), snd r2)
               }
         })"

subsection \<open>Deleting\<close>

partial_function (option) delete_scan ::
  "string \<Rightarrow> nat \<Rightarrow> nat \<Rightarrow> ('v, 'x) cstate \<Rightarrow> (bool \<times> ('v, 'x) cstate) option" where
  "delete_scan key h pos c =
     (if e_next (dat c pos) = 0 then Some (False, c)
      else
        let a = entryat c (e_next (dat c pos))
        in if apc_entry_key_equals (dat c a) key h
           then do { c' \<leftarrow> apc_cache_wlocked_remove_entry a c; Some (True, c') }
           else delete_scan key h a c)"

definition apc_cache_delete :: "string \<Rightarrow> ('v, 'x) cstate \<Rightarrow> (bool \<times> ('v, 'x) cstate) option" where
  "apc_cache_delete key c =
     (if \<not> cache_exists c then Some (False, c)
      else
        let hs = apc_cache_hash_slot c key
        in do {
          l \<leftarrow> apc_cache_wlock c;
          if \<not> fst l then Some (False, snd l)
          else do {
            r \<leftarrow> delete_scan key (fst hs) (slot_addr c (snd hs)) (snd l);
            Some (fst r, apc_cache_wunlock (snd r))
          }
        })"

subsection \<open>Information\<close>

record link_info =
  li_info :: string
  li_ttl :: int
  li_num_hits :: int
  li_mtime :: int
  li_creation_time :: int
  li_deletion_time :: int
  li_access_time :: int
  li_ref_count :: int
  li_mem_size :: int

definition apc_cache_link_info :: "'v entry \<Rightarrow> link_info" where
  "apc_cache_link_info p = \<lparr>li_info = e_key p, li_ttl = e_ttl p, li_num_hits = e_nhits p,
     li_mtime = e_mtime p, li_creation_time = e_ctime p, li_deletion_time = e_dtime p,
     li_access_time = e_atime p, li_ref_count = e_ref_count p, li_mem_size = e_mem_size p\<rparr>"

partial_function (option) info_walk :: "nat \<Rightarrow> ('v, 'x) cstate \<Rightarrow> link_info list option" where
  "info_walk off c =
     (if off = 0 then Some []
      else
        let e = dat c (entryat c off)
        in do { rest \<leftarrow> info_walk (e_next e) c; Some (apc_cache_link_info e # rest) })"

fun info_slots :: "nat list \<Rightarrow> ('v, 'x) cstate \<Rightarrow> (link_info list \<times> (nat \<times> nat) list) option" where
  "info_slots [] c = Some ([], [])"
| "info_slots (i # is) c = do {
     l \<leftarrow> info_walk (e_next (dat c (slot_addr c i))) c;
     r \<leftarrow> info_slots is c;
     Some (l @ fst r, if l = [] then snd r else (i, length l) # snd r)
   }"

record cache_info =
  ci_num_slots :: nat
  ci_ttl :: int
  ci_num_hits :: int
  ci_num_misses :: int
  ci_num_inserts :: int
  ci_num_entries :: int
  ci_cleanups :: int
  ci_defragmentations :: int
  ci_expunges :: int
  ci_start_time :: int
  ci_mem_size :: int
  ci_cache_list :: "link_info list"
  ci_deleted_list :: "link_info list"
  ci_slot_distribution :: "(nat \<times> nat) list"

definition apc_cache_info :: "bool \<Rightarrow> ('v, 'x) cstate \<Rightarrow> (cache_info option \<times> ('v, 'x) cstate) option" where
  "apc_cache_info limited c =
     (if \<not> cache_exists c then Some (None, c)
      else do {
        l \<leftarrow> apc_cache_rlock c;
        if \<not> fst l then Some (None, snd l)
        else
          let c = snd l;
              i = \<lparr>ci_num_slots = nslots c, ci_ttl = c_ttl c, ci_num_hits = h_nhits c,
                ci_num_misses = h_nmisses c, ci_num_inserts = h_ninserts c, ci_num_entries = h_nentries c,
                ci_cleanups = h_ncleanups c, ci_defragmentations = h_ndefragmentations c,
                ci_expunges = h_nexpunges c, ci_start_time = h_stime c, ci_mem_size = h_mem_size c,
                ci_cache_list = [], ci_deleted_list = [], ci_slot_distribution = []\<rparr>
          in if limited then Some (Some i, apc_cache_runlock c)
             else do {
               s \<leftarrow> info_slots [0..<nslots c] c;
               g \<leftarrow> info_walk (e_next (dat c (gc_addr c))) c;
               Some (Some (i\<lparr>ci_cache_list := fst s, ci_deleted_list := g, ci_slot_distribution := snd s\<rparr>),
                 apc_cache_runlock c)
             }
      })"

record key_stat =
  ks_hits :: int
  ks_access_time :: int
  ks_mtime :: int
  ks_creation_time :: int
  ks_deletion_time :: int
  ks_ttl :: int
  ks_refs :: int

definition key_stat_of :: "'v entry \<Rightarrow> key_stat" where
  "key_stat_of p = \<lparr>ks_hits = e_nhits p, ks_access_time = e_atime p, ks_mtime = e_mtime p,
     ks_creation_time = e_ctime p, ks_deletion_time = e_dtime p, ks_ttl = e_ttl p, ks_refs = e_ref_count p\<rparr>"

text \<open>\<open>apc_cache_stat\<close>; \<open>None\<close> stands for the \<open>NULL\<close> value.\<close>

definition apc_cache_stat :: "string \<Rightarrow> ('v, 'x) cstate \<Rightarrow> (key_stat option \<times> ('v, 'x) cstate) option" where
  "apc_cache_stat key c =
     (if \<not> cache_exists c then Some (None, c)
      else
        let hs = apc_cache_hash_slot c key
        in do {
          l \<leftarrow> apc_cache_rlock c;
          if \<not> fst l then Some (None, snd l)
          else do {
            r \<leftarrow> find_key key (fst hs) (e_next (dat (snd l) (slot_addr c (snd hs)))) (snd l);
            Some (case r of None \<Rightarrow> None | Some a \<Rightarrow> Some (key_stat_of (dat (snd l) a)),
              apc_cache_runlock (snd l))
          }
        })"

subsection \<open>apcu_entry\<close>

text \<open>
  \<open>gen\<close> is the user's function, called with the key while the process holds the write lock and
  \<open>entry_level\<close> is raised; \<open>None\<close> as its value is an exception or failed call.
\<close>

definition apc_cache_entry ::
  "(string \<Rightarrow> 'a \<Rightarrow> (nat \<times> zval \<times> 'v) option) \<Rightarrow> (zval \<Rightarrow> 'v \<Rightarrow> 'a option) \<Rightarrow>
   (string \<Rightarrow> ('v, 'x) cstate \<Rightarrow> ('a option \<times> ('v, 'x) cstate) option) \<Rightarrow> string \<Rightarrow> int \<Rightarrow> int \<Rightarrow>
   ('v, 'x) cstate \<Rightarrow> ('a option \<times> ('v, 'x) cstate) option" where
  "apc_cache_entry img unp gen key ttl now c =
     (if \<not> cache_exists c then Some (None, c)
      else do {
        l \<leftarrow> apc_cache_wlock c;
        if \<not> fst l then Some (None, snd l)
        else
          let c = (snd l)\<lparr>entry_level := entry_level (snd l) + 1\<rparr>;
              leave = (\<lambda>c. apc_cache_wunlock (c\<lparr>entry_level := entry_level c - 1\<rparr>))
          in do {
            r \<leftarrow> apc_cache_rlocked_find_incref key now c;
            case fst r of
              None \<Rightarrow> do {
                g \<leftarrow> gen key (snd r);
                case fst g of
                  None \<Rightarrow> Some (None, leave (snd g))
                | Some v \<Rightarrow> do {
                    s \<leftarrow> apc_cache_store_internal img key v (int32_of (uint32_of ttl)) True (snd g);
                    Some (Some v, leave (snd s))
                  }
              }
            | Some a \<Rightarrow> Some (apc_cache_entry_fetch_zval unp a (snd r),
                leave (apc_cache_entry_release a (snd r)))
          }
      })"

end
