(* ===== verification/Cache_View.thy ===== *)
theory Cache_View imports Cache_Steps Cache_Api begin

text \<open>
  The cache as a client sees it: for every slot the list of entries, and the list of removed entries that
  are still referenced. The lists are read off the shared memory by walking the links, which makes the
  invariant an executable predicate \<open>cache_ok\<close>. The abstract operations \<open>a_insert\<close>, \<open>a_delete\<close>,
  \<open>a_expire\<close>, \<open>a_gc\<close> work on these lists; the lemmas show that the code implements them.
\<close>

subsection \<open>Walking the lists\<close>

fun entry_walk :: "nat \<Rightarrow> nat \<Rightarrow> (nat \<Rightarrow> 'v entry) \<Rightarrow> nat \<Rightarrow> nat list" where
  "entry_walk 0 h d off = []"
| "entry_walk (Suc n) h d off = (if off = 0 then [] else (h + off) # entry_walk n h d (e_next (d (h + off))))"

definition cache_lists :: "('v, 'x) cstate \<Rightarrow> nat \<Rightarrow> nat list" where
  "cache_lists c a = entry_walk (length (sma_blocks c)) (c_header c) (dat c) (e_next (dat c a))"

definition cache_ok :: "('v, 'x) cstate \<Rightarrow> bool" where
  "cache_ok c \<longleftrightarrow> cache_inv c (cache_lists c)"

lemma entry_walk_elist: "elist h d a xs \<Longrightarrow> length xs \<le> n \<Longrightarrow> entry_walk n h d (e_next (d a)) = xs"
proof (induction xs arbitrary: a n)
  case Nil
  then show ?case by (cases n) (simp_all add: elist_Nil)
next
  case (Cons x xs)
  then obtain m where "n = Suc m" by (cases n) auto
  with Cons show ?case by (auto simp: elist_Cons)
qed

lemma cache_lists_inv:
  assumes I: "cache_inv c L" and a: "a \<in> heads c"
  shows "cache_lists c a = L a"
proof -
  note D = cache_invD [OF I]
  have "set (L a) \<subseteq> sma_live c" using D(8) members_mem [OF a, of _ L] by blast
  then have "length (L a) \<le> card (sma_live c)"
    using listsD(4) [OF D(7) a] by (metis card_mono distinct_card finite_imageI List.finite_set sma_live_def)
  also have "\<dots> \<le> card (set (filter (\<lambda>b. \<not> is_free (blk c) b) (sma_blocks c)))"
    unfolding sma_live_def by (rule card_image_le) simp
  also have "\<dots> \<le> length (sma_blocks c)"
    by (rule order_trans [OF card_length]) simp
  finally show ?thesis unfolding cache_lists_def by (rule entry_walk_elist [OF listsD(3) [OF D(7) a]])
qed

lemma cache_inv_ok: "cache_inv c L \<Longrightarrow> cache_ok c"
  unfolding cache_ok_def by (rule cache_inv_cong) (auto simp: cache_lists_inv)

subsection \<open>Contents\<close>

definition contents :: "('v, 'x) cstate \<Rightarrow> nat list \<Rightarrow> 'v entry list" where
  "contents c xs = map (\<lambda>x. strip (dat c x)) xs"

definition bucket :: "('v, 'x) cstate \<Rightarrow> nat \<Rightarrow> 'v entry list" where
  "bucket c i = contents c (cache_lists c (slot_at c i))"

definition garbage :: "('v, 'x) cstate \<Rightarrow> 'v entry list" where
  "garbage c = contents c (cache_lists c (gc_at c))"

definition slot_of :: "('v, 'x) cstate \<Rightarrow> string \<Rightarrow> nat" where
  "slot_of c key = zstr_hash c key mod nslots c"

text \<open>The cache as a map from keys to entries.\<close>

definition cache_map :: "('v, 'x) cstate \<Rightarrow> string \<Rightarrow> 'v entry option" where
  "cache_map c key = find (\<lambda>e. e_key e = key) (bucket c (slot_of c key))"

lemma contents_simps [simp]:
  "contents c [] = []" "contents c (x # xs) = strip (dat c x) # contents c xs"
  "contents c (xs @ ys) = contents c xs @ contents c ys" "contents c (rev xs) = rev (contents c xs)"
  "contents c xs = [] \<longleftrightarrow> xs = []" "contents c (tl xs) = tl (contents c xs)"
  "contents c (take n xs) = take n (contents c xs)" "length (contents c xs) = length xs"
  by (simp_all add: contents_def rev_map map_tl take_map)

lemma expired_strip [simp]:
  "apc_cache_entry_expired c (strip e) t = apc_cache_entry_expired c e t"
  "apc_cache_entry_hard_expired (strip e) t = apc_cache_entry_hard_expired e t"
  "gc_keeps c t (strip e) = gc_keeps c t e"
  by (simp_all add: apc_cache_entry_expired_def apc_cache_entry_hard_expired_def
      apc_cache_entry_soft_expired_def gc_keeps_def)

lemma contents_filters:
  "contents c (fresh c t xs) = filter (\<lambda>e. \<not> apc_cache_entry_expired c e t) (contents c xs)"
  "contents c (stale c t xs) = filter (\<lambda>e. apc_cache_entry_expired c e t) (contents c xs)"
  "contents c (held c xs) = filter (\<lambda>e. 0 < e_ref_count e) (contents c xs)"
  "contents c (before_key c key xs) = takeWhile (\<lambda>e. e_key e \<noteq> key) (contents c xs)"
  "contents c (from_key c key xs) = dropWhile (\<lambda>e. e_key e \<noteq> key) (contents c xs)"
  "contents c (filter (\<lambda>x. gc_keeps c' now (dat c x)) xs) = filter (gc_keeps c' now) (contents c xs)"
  by (induction xs) (simp_all add: fresh_def stale_def held_def before_key_def from_key_def)

lemma contents_collected: "collected c R c' \<Longrightarrow> contents c' xs = contents c xs"
  by (simp add: contents_def collected_def)

lemma contents_evicted: "evicted c R c' \<Longrightarrow> set xs \<inter> R = {} \<Longrightarrow> contents c' xs = contents c xs"
  by (auto simp: contents_def intro!: evicted_sel(9))

definition deleted_at :: "int \<Rightarrow> 'v entry \<Rightarrow> 'v entry" where
  "deleted_at now e = e\<lparr>e_dtime := now\<rparr>"

text \<open>The removed entries that are still referenced are pushed to the garbage list one by one.\<close>

definition a_drop :: "int \<Rightarrow> 'v entry list \<Rightarrow> 'v entry list \<Rightarrow> 'v entry list" where
  "a_drop now gone g = rev (map (deleted_at now) (filter (\<lambda>e. 0 < e_ref_count e) gone)) @ g"

lemma a_drop_simps [simp]:
  "a_drop now [] g = g" "a_drop now (xs @ ys) g = a_drop now ys (a_drop now xs g)"
  by (simp_all add: a_drop_def)

lemma contents_held_evicted:
  assumes "evicted c R c'" "set gone \<subseteq> R"
  shows "contents c' (held c gone) = map (deleted_at (clock c)) (filter (\<lambda>e. 0 < e_ref_count e) (contents c gone))"
  using assms(2)
proof (induction gone)
  case (Cons x xs)
  then have "x \<in> R" by simp
  with assms(1) have "0 < e_ref_count (dat c x) \<longrightarrow> strip (dat c' x) = deleted_at (clock c) (strip (dat c x))"
    by (simp add: evicted_def deleted_at_def)
  with Cons show ?case by (simp add: held_def)
qed (simp add: held_def)

lemma view_drop:
  assumes I: "cache_inv c L" and i: "i < nslots c" and ev: "evicted c (set gone) c'"
    and k: "set kept \<union> set gone \<subseteq> set (L (slot_at c i))" "set kept \<inter> set gone = {}"
  defines "L' \<equiv> drop_list c L (slot_at c i) kept gone"
  shows "contents c' (L' (slot_at c i)) = contents c kept"
    "contents c' (L' (gc_at c)) = a_drop (clock c) (contents c gone) (contents c (L (gc_at c)))"
    "\<And>j. j < nslots c \<Longrightarrow> j \<noteq> i \<Longrightarrow> contents c' (L' (slot_at c j)) = contents c (L (slot_at c j))"
proof -
  note D = cache_invD [OF I] and ad = header_addrs [OF cache_invD(6) [OF I]]
  have a: "slot_at c i \<in> heads c" "slot_at c i \<noteq> gc_at c" using ad i by auto
  show "contents c' (L' (slot_at c i)) = contents c kept"
    using contents_evicted [OF ev k(2)] a by (simp add: L'_def drop_list_def)
  have "set (L (gc_at c)) \<inter> set gone = {}"
    using listsD(7) [OF D(7) a(1) ad(6) a(2)] k(1) by blast
  with contents_evicted [OF ev this] contents_held_evicted [OF ev, of gone]
  show "contents c' (L' (gc_at c)) = a_drop (clock c) (contents c gone) (contents c (L (gc_at c)))"
    by (simp add: L'_def drop_list_def a_drop_def)
  fix j assume j: "j < nslots c" "j \<noteq> i"
  have "set (L (slot_at c j)) \<inter> set gone = {}"
    using listsD(7) [OF D(7) a(1) ad(8) [OF j(1)]] j(2) k(1) by fastforce
  from contents_evicted [OF ev this] j ad(9) [OF j(1)]
  show "contents c' (L' (slot_at c j)) = contents c (L (slot_at c j))" by (simp add: L'_def drop_list_def)
qed

lemma view_lists:
  assumes "cache_inv c L"
  shows "i < nslots c \<Longrightarrow> bucket c i = contents c (L (slot_at c i))" "garbage c = contents c (L (gc_at c))"
  using cache_lists_inv [OF assms] header_addrs [OF cache_invD(6) [OF assms]]
  by (simp_all add: bucket_def garbage_def)

subsection \<open>What no operation changes\<close>

text \<open>The configuration, the locks and the environment: everything but the heap, the counters, the
  last key and the times.\<close>

definition config :: "('v, 'x) cstate \<Rightarrow> ('v, 'x) cstate" where
  "config c = (core c)\<lparr>h_nhits := 0, h_nmisses := 0, h_ninserts := 0, h_ncleanups := 0, h_ndefragmentations := 0,
     h_nexpunges := 0, h_stime := 0, h_lastkey := no_key, request_time := 0\<rparr>"

definition same_config :: "('v, 'x) cstate \<Rightarrow> ('v, 'x) cstate \<Rightarrow> bool" where
  "same_config c c' \<longleftrightarrow> config c' = config c"

lemma same_config_refl [simp]: "same_config c c"
  by (simp add: same_config_def)

lemma same_config_trans [trans]: "same_config c1 c2 \<Longrightarrow> same_config c2 c3 \<Longrightarrow> same_config c1 c3"
  by (simp add: same_config_def)

lemma same_core_config: "same_core c c' \<Longrightarrow> same_config c c'"
  by (simp add: same_core_def same_config_def config_def)

lemma same_config_intro [simp]:
  "same_config c (c\<lparr>h_nhits := n\<rparr>)" "same_config c (c\<lparr>h_nmisses := n\<rparr>)" "same_config c (c\<lparr>h_ninserts := n\<rparr>)"
  "same_config c (c\<lparr>h_nexpunges := n\<rparr>)" "same_config c (c\<lparr>h_ncleanups := n\<rparr>)" "same_config c (c\<lparr>h_lastkey := k\<rparr>)"
  "same_config c (c\<lparr>dat := d\<rparr>)" "same_config c (c\<lparr>h_ndefragmentations := n\<rparr>)" "same_config c (c\<lparr>h_stime := n\<rparr>)"
  "same_config c (c\<lparr>request_time := n\<rparr>)" "same_config c (c\<lparr>blk := b, avail := a, dat := d\<rparr>)"
  "same_config c (upd_entry p f c)"
  by (simp_all add: same_config_def config_def core_def upd_entry_def)

lemma same_config_sel:
  assumes "same_config c c'"
  shows "cache_exists c' = cache_exists c" "c_header c' = c_header c" "header_bytes c' = header_bytes c"
    "gc_offset c' = gc_offset c" "nslots c' = nslots c" "c_gc_ttl c' = c_gc_ttl c" "c_ttl c' = c_ttl c"
    "c_smart c' = c_smart c" "c_defend c' = c_defend c" "cache_lock c' = cache_lock c"
    "cache_lock_results c' = cache_lock_results c" "entry_level c' = entry_level c" "zstr_hash c' = zstr_hash c"
    "clock c' = clock c" "use_request_time c' = use_request_time c"
    "sapi_request_time c' = sapi_request_time c" "pid c' = pid c" "sma_max_alloc_size c' = sma_max_alloc_size c"
    "sma_size c' = sma_size c" "hdr_size c' = hdr_size c"
proof -
  have "config c' = config c" using assms by (simp add: same_config_def)
  from arg_cong [OF this, of cache_exists] arg_cong [OF this, of c_header] arg_cong [OF this, of header_bytes]
    arg_cong [OF this, of gc_offset] arg_cong [OF this, of nslots] arg_cong [OF this, of c_gc_ttl]
    arg_cong [OF this, of c_ttl] arg_cong [OF this, of c_smart] arg_cong [OF this, of c_defend]
    arg_cong [OF this, of cache_lock] arg_cong [OF this, of cache_lock_results] arg_cong [OF this, of entry_level]
    arg_cong [OF this, of zstr_hash] arg_cong [OF this, of clock] arg_cong [OF this, of use_request_time]
    arg_cong [OF this, of sapi_request_time] arg_cong [OF this, of pid] arg_cong [OF this, of sma_max_alloc_size]
    arg_cong [OF this, of sma_size] arg_cong [OF this, of hdr_size]
  show "cache_exists c' = cache_exists c" "c_header c' = c_header c" "header_bytes c' = header_bytes c"
    "gc_offset c' = gc_offset c" "nslots c' = nslots c" "c_gc_ttl c' = c_gc_ttl c" "c_ttl c' = c_ttl c"
    "c_smart c' = c_smart c" "c_defend c' = c_defend c" "cache_lock c' = cache_lock c"
    "cache_lock_results c' = cache_lock_results c" "entry_level c' = entry_level c" "zstr_hash c' = zstr_hash c"
    "clock c' = clock c" "use_request_time c' = use_request_time c"
    "sapi_request_time c' = sapi_request_time c" "pid c' = pid c" "sma_max_alloc_size c' = sma_max_alloc_size c"
    "sma_size c' = sma_size c" "hdr_size c' = hdr_size c"
    by (simp_all add: config_def core_def)
qed

lemma same_config_fun:
  assumes "same_config c c'"
  shows "slot_at c' = slot_at c" "gc_at c' = gc_at c" "heads c' = heads c" "slots c' = slots c"
    "apc_cache_entry_expired c' = apc_cache_entry_expired c" "gc_keeps c' = gc_keeps c" "slot_of c' = slot_of c"
  using same_config_sel [OF assms]
  by (auto simp: slot_at_def gc_at_def heads_def slots_def apc_cache_entry_expired_def
      apc_cache_entry_soft_expired_def gc_keeps_def slot_of_def fun_eq_iff)

subsection \<open>Inserting\<close>

definition a_insert ::
  "('v, 'x) cstate \<Rightarrow> bool \<Rightarrow> 'v entry \<Rightarrow> 'v entry list \<Rightarrow> 'v entry list \<Rightarrow> bool \<times> 'v entry list \<times> 'v entry list" where
  "a_insert c exclusive new es g =
     (let t = e_ctime new; g1 = filter (gc_keeps c (clock c)) g;
          pre = takeWhile (\<lambda>e. e_key e \<noteq> e_key new) es; rest = dropWhile (\<lambda>e. e_key e \<noteq> e_key new) es;
          kept = filter (\<lambda>e. \<not> apc_cache_entry_expired c e t) pre;
          gone = filter (\<lambda>e. apc_cache_entry_expired c e t) pre
      in if exclusive \<and> rest \<noteq> [] \<and> \<not> apc_cache_entry_hard_expired (hd rest) t
         then (False, kept @ rest, a_drop (clock c) gone g1)
         else (True, kept @ new # tl rest, a_drop (clock c) (gone @ take 1 rest) g1))"

lemma hd_contents: "xs \<noteq> [] \<Longrightarrow> hd (contents c xs) = strip (dat c (hd xs))"
  by (cases xs) simp_all

lemma insert_ok:
  assumes I: "cache_inv c L" and p: "pending c L e"
  defines "i \<equiv> slot_of c (e_key (dat c e))"
  shows "\<exists>b c' L'. apc_cache_wlocked_insert e exclusive c = Some (b, c') \<and> cache_inv c' L' \<and>
    (b, contents c' (L' (slot_at c i)), contents c' (L' (gc_at c))) =
      a_insert c exclusive (strip (dat c e)) (contents c (L (slot_at c i))) (contents c (L (gc_at c))) \<and>
    (\<forall>j<nslots c. j \<noteq> i \<longrightarrow> contents c' (L' (slot_at c j)) = contents c (L (slot_at c j))) \<and>
    same_config c c' \<and> strip (dat c' e) = strip (dat c e) \<and> (\<not> b \<longrightarrow> pending c' L' e) \<and>
    h_ninserts c' = (if b then int64_of (h_ninserts c + 1) else h_ninserts c) \<and> h_lastkey c' = h_lastkey c \<and>
    (b \<longrightarrow> e \<in> members (slots c') L')"
proof -
  let ?key = "e_key (dat c e)" and ?t = "e_ctime (dat c e)" and ?s = "slot_at c i"
  let ?gk = "\<lambda>x. gc_keeps c (clock c) (dat c x)"
  note D = cache_invD [OF I] and ad = header_addrs [OF cache_invD(6) [OF I]] and pl = pending_place [OF I p]
  have il: "i < nslots c" using header_okD(2) [OF D(6)] by (simp add: i_def slot_of_def)
  define L1 where "L1 = L(gc_at c := filter ?gk (L (gc_at c)))"
  have L1: "L1 (gc_at c) = filter ?gk (L (gc_at c))" "\<And>j. j < nslots c \<Longrightarrow> L1 (slot_at c j) = L (slot_at c j)"
    "\<And>b. set (L1 b) \<subseteq> set (L b)"
    using ad(9) by (auto simp: L1_def)
  obtain c1 where c1: "apc_cache_wlocked_gc c = Some c1" "cache_inv c1 L1"
    "collected c (set (filter (\<lambda>x. \<not> ?gk x) (L (gc_at c)))) c1"
    using gc_ok [OF I] unfolding L1_def by blast
  have sc1: "same_core c c1" using c1(3) by (simp add: collected_def)
  note k1 = same_config_sel [OF same_core_config [OF sc1]] and f1 = same_config_fun [OF same_core_config [OF sc1]]
  have st1: "strip (dat c1 x) = strip (dat c x)" for x using c1(3) by (simp add: collected_def)
  note s1 = strip_eqD [OF st1]
  have e: "e \<notin> members (heads c) L" "e \<in> sma_live c" using p by (auto simp: pending_def)
  have pend1: "pending c1 L1 e"
  proof -
    have "e \<notin> set (filter (\<lambda>x. \<not> ?gk x) (L (gc_at c)))" using e members_mem [OF ad(6), of e L] by auto
    then have a: "sma_allocs c1 e = sma_allocs c e" using c1(3) by (simp add: collected_def)
    then have l: "e \<in> sma_live c1" using pl(4) sma_allocs_dom [of c1] by (metis domIff)
    have "e \<notin> members (heads c1) L1"
      using e L1(3) f1(3) by (fastforce simp: members_def)
    then show ?thesis
      using p l a sma_allocs_room [OF l] pl(5) k1(2,13) s1 by (simp add: pending_def)
  qed
  have sl1: "L1 (slot_at c1 i) = [] @ L ?s" using f1(1) L1(2) [OF il] by simp
  have il1: "i < nslots c1" using il k1(5) by simp
  define es where "es = contents c (L ?s)"
  define kept where "kept = fresh c1 ?t (before_key c1 ?key (L ?s))"
  define gone where "gone = stale c1 ?t (before_key c1 ?key (L ?s))"
  define rest where "rest = from_key c1 ?key (L ?s)"
  define ref where "ref = scan_refuses c1 ?key ?t exclusive (L ?s)"
  have cc: "contents c1 xs = contents c xs" for xs by (rule contents_collected [OF c1(3)])
  obtain c2 where c2: "insert_scan ?key (zstr_hash c1 ?key) ?t exclusive (slot_at c1 i) c1 =
      Some (if ref then None else Some (last (slot_at c1 i # kept)), c2)"
    "if ref then cache_inv c2 (drop_list c1 L1 (slot_at c1 i) (kept @ rest) gone) \<and> evicted c1 (set gone) c2
     else cache_inv c2 (drop_list c1 L1 (slot_at c1 i) (kept @ tl rest) (gone @ take 1 rest)) \<and>
       evicted c1 (set (gone @ take 1 rest)) c2"
    using insert_scan_ok [OF c1(2) il1 sl1, of ?key ?t exclusive]
    unfolding append_Nil kept_def [symmetric] gone_def [symmetric] rest_def [symmetric] ref_def [symmetric]
      last_ConsL [OF refl] by blast
  define gone2 where "gone2 = (if ref then gone else gone @ take 1 rest)"
  define left where "left = (if ref then kept @ rest else kept @ tl rest)"
  define L2 where "L2 = drop_list c1 L1 (slot_at c1 i) left gone2"
  have inv2: "cache_inv c2 L2" and ev2: "evicted c1 (set gone2) c2"
    using c2(2) unfolding gone2_def left_def L2_def by (cases ref; simp)+
  have split: "L ?s = before_key c1 ?key (L ?s) @ rest" by (simp add: rest_def before_key_def from_key_def)
  have dist: "distinct (L ?s)" using listsD(4) [OF D(7) ad(8) [OF il]] .
  have "set kept \<inter> set gone = {}" "set kept \<union> set gone \<subseteq> set (before_key c1 ?key (L ?s))"
    by (auto simp: kept_def gone_def fresh_def stale_def)
  moreover have "set (before_key c1 ?key (L ?s)) \<inter> set rest = {}" "distinct rest"
    "set (before_key c1 ?key (L ?s)) \<union> set rest = set (L ?s)"
    using dist split by (metis distinct_append, metis distinct_append, metis set_append)
  moreover have "set (take 1 rest) \<inter> set (tl rest) = {}" "set (take 1 rest) \<union> set (tl rest) = set rest"
    using \<open>distinct rest\<close> by (cases rest; simp)+
  ultimately have sub: "set left \<union> set gone2 \<subseteq> set (L1 (slot_at c1 i))" "set left \<inter> set gone2 = {}"
    using sl1 by (auto simp: left_def gone2_def split: if_splits)
  note v = view_drop [OF c1(2) il1 ev2 sub, folded L2_def]
  have el: "e \<notin> set (L ?s)" using e(1) members_mem [OF ad(8) [OF il], of e L] by blast
  have eg: "e \<notin> set gone2" using el sub(2) sub(1) sl1 by auto
  have con: "contents c1 kept = filter (\<lambda>e. \<not> apc_cache_entry_expired c e ?t) (takeWhile (\<lambda>e. e_key e \<noteq> ?key) es)"
    "contents c1 gone = filter (\<lambda>e. apc_cache_entry_expired c e ?t) (takeWhile (\<lambda>e. e_key e \<noteq> ?key) es)"
    "contents c1 rest = dropWhile (\<lambda>e. e_key e \<noteq> ?key) es"
    by (simp_all add: kept_def gone_def rest_def contents_filters cc f1(5) es_def)
  have refd: "ref \<longleftrightarrow> exclusive \<and> contents c1 rest \<noteq> [] \<and> \<not> apc_cache_entry_hard_expired (hd (contents c1 rest)) ?t"
    by (cases "rest = []") (simp_all add: ref_def scan_refuses_def rest_def [symmetric] hd_contents)
  have g1: "contents c1 (L1 (gc_at c1)) = filter (gc_keeps c (clock c)) (contents c (L (gc_at c)))"
    using f1(2) L1(1) by (simp add: cc contents_filters)
  have others: "contents c2 (L2 (slot_at c1 j)) = contents c (L (slot_at c j))" if "j < nslots c" "j \<noteq> i" for j
    using v(3) [of j] that k1(5) f1(1) L1(2) [OF that(1)] by (simp add: cc)
  have core2: "same_core c c2" using same_core_trans [OF sc1 evicted_sel(1) [OF ev2]] .
  note cf2 = same_core_config [OF core2]
  note f2 = same_config_fun [OF cf2] and k2 = same_config_sel [OF cf2]
  have ste: "strip (dat c2 e) = strip (dat c e)" using evicted_sel(9) [OF ev2 eg] st1 by simp
  have pend2: "pending c2 L2 e"
  proof -
    have a: "sma_allocs c2 e = sma_allocs c1 e" by (rule evicted_sel(11) [OF ev2 eg])
    have l1: "e \<in> sma_live c1" using pend1 by (simp add: pending_def)
    then have l: "e \<in> sma_live c2" using a sma_allocs_dom [of c1] sma_allocs_dom [of c2] by (metis domIff)
    have "e \<notin> members (heads c2) L2"
    proof
      assume "e \<in> members (heads c2) L2"
      then obtain b where b: "b \<in> heads c" "e \<in> set (L2 b)" by (auto simp: members_def f2)
      have "set (L2 b) \<subseteq> set left \<union> set gone2 \<union> set (L1 b)"
        by (auto simp: L2_def drop_list_def held_def)
      then show False using b eg sub(1) sl1 el pend1 members_mem [of b "heads c1" e L1] f1(3)
        by (auto simp: pending_def)
    qed
    then show ?thesis using pend1 l a sma_allocs_room [OF l] sma_allocs_room [OF l1] k2(2,13) k1(2,13) strip_eqD [OF ste] s1
      by (simp add: pending_def)
  qed
  have step: "apc_cache_wlocked_insert e exclusive c =
      (if ref then Some (False, c2)
       else Some (True, count_insert e (apc_cache_wlocked_link_entry (last (slot_at c1 i # kept)) e c2)))"
    using c1(1) c2(1) k1(5,13) header_addrs(2) [OF cache_invD(6) [OF c1(2)] il1]
    by (simp add: apc_cache_wlocked_insert_def Let_def apc_cache_hash_slot_def i_def slot_of_def count_insert_def
        split: if_splits)
  show ?thesis
  proof (cases ref)
    case True
    have "(False, contents c2 (L2 ?s), contents c2 (L2 (gc_at c))) =
        a_insert c exclusive (strip (dat c e)) es (contents c (L (gc_at c)))"
      using v(1,2) True refd con g1 k1(14) f1(1,2)
      by (simp add: a_insert_def Let_def left_def gone2_def)
    then show ?thesis
      using step True inv2 others cf2 ste pend2 f1(1) same_core_sel(17,22) [OF core2]
      by (intro exI [of _ False] exI [of _ c2] exI [of _ L2] conjI) (simp_all add: es_def)
  next
    case False
    have L2s: "L2 (slot_at c2 i) = kept @ tl rest"
      using False header_addrs(9) [OF cache_invD(6) [OF c1(2)] il1] f1(1) f2(1) by (simp add: L2_def drop_list_def left_def)
    have hash2: "zstr_hash c2 (e_key (dat c2 e)) mod nslots c2 = i"
      using ste k2(5,13) by (auto simp: i_def slot_of_def dest: strip_eqD)
    have ek: "e_key (dat c2 e) = ?key" using ste by (auto dest: strip_eqD)
    have new: "e_key (dat c2 x) \<noteq> e_key (dat c2 e)" if x: "x \<in> set (kept @ tl rest)" for x
    proof -
      have kx: "e_key (dat c2 x) = e_key (dat c x)" using evicted_sel(6) [OF ev2] s1(11) by simp
      have "e_key (dat c x) \<noteq> ?key"
      proof (cases "x \<in> set kept")
        case True
        then have "x \<in> set (before_key c1 ?key (L ?s))" by (simp add: kept_def fresh_def)
        then show ?thesis using s1(11) by (auto simp: before_key_def dest: set_takeWhileD)
      next
        case kn: False
        with x obtain y zs where r: "rest = y # zs" "x \<in> set zs" by (cases rest) auto
        have "e_key (dat c1 y) = ?key" using r(1) dropWhile_eq_Cons_conv [of _ "L ?s" y zs]
          by (auto simp: rest_def from_key_def)
        moreover have "distinct (map (\<lambda>x. e_key (dat c x)) (before_key c1 ?key (L ?s) @ rest))"
          unfolding split [symmetric] by (rule contentD(2) [OF D(5) il])
        then have "e_key (dat c y) \<notin> (\<lambda>x. e_key (dat c x)) ` set zs" unfolding r(1) by simp
        moreover have "e_key (dat c x) \<in> (\<lambda>x. e_key (dat c x)) ` set zs" using r(2) by (rule imageI)
        ultimately show ?thesis using s1(11) [of y] by metis
      qed
      then show ?thesis using kx ek by simp
    qed
    note ln = link_new_ok [where xs = kept and ys = "tl rest", OF inv2 pend2 hash2 L2s new]
    define c' where "c' = count_insert e (apc_cache_wlocked_link_entry (last (slot_at c2 i # kept)) e c2)"
    define L3 where "L3 = L2(slot_at c2 i := kept @ e # tl rest)"
    have ln': "cache_inv c' L3" "\<And>x. strip (dat c' x) = strip (dat c2 x)"
      "c' = c2\<lparr>dat := dat c', h_mem_size := h_mem_size c', h_nentries := h_nentries c2 + 1,
         h_ninserts := int64_of (h_ninserts c2 + 1)\<rparr>"
      unfolding L3_def c'_def by (rule ln; assumption)+
    have cont: "contents c' xs = contents c2 xs" for xs by (simp add: contents_def ln'(2))
    have cfg: "same_config c c'"
      using cf2 by (subst ln'(3)) (simp add: same_config_def config_def core_def)
    have gcs: "slot_at c i \<noteq> gc_at c" by (rule ad(9) [OF il])
    have cl: "contents c2 kept = contents c1 kept" "contents c2 (tl rest) = tl (contents c1 rest)"
      using contents_evicted [OF ev2, of kept] contents_evicted [OF ev2, of "tl rest"] sub(2) False
      by (auto simp: left_def)
    have "(True, contents c' (L3 ?s), contents c' (L3 (gc_at c))) =
        a_insert c exclusive (strip (dat c e)) es (contents c (L (gc_at c)))"
      using v(2) False refd con g1 k1(14) f1(1,2) f2(1) gcs ste cl ln'(2) [of e]
      by (simp add: a_insert_def Let_def gone2_def cont L3_def)
    moreover have "contents c' (L3 (slot_at c j)) = contents c (L (slot_at c j))" if "j < nslots c" "j \<noteq> i" for j
      using others [OF that] that f1(1) f2(1) by (simp add: cont L3_def)
    moreover have "strip (dat c' e) = strip (dat c e)" using ln'(2) ste by simp
    moreover have "h_ninserts c' = int64_of (h_ninserts c + 1)" "h_lastkey c' = h_lastkey c"
      using same_core_sel(17,22) [OF core2] by (subst ln'(3), simp)+
    moreover have "e \<in> members (slots c') L3"
      using same_config_fun(4) [OF cfg] same_config_fun(1) [OF cf2] il by (auto simp: members_def slots_def L3_def)
    moreover have "apc_cache_wlocked_insert e exclusive c = Some (True, c')"
      using step False f1(1) f2(1) by (simp add: c'_def)
    ultimately show ?thesis
      using False ln'(1) cfg f1(1) f2(1) by (intro exI [of _ True] exI [of _ c'] exI [of _ L3] conjI) (simp_all add: es_def)
  qed
qed

subsection \<open>Looking up and deleting\<close>

lemma find_key_ok:
  assumes I: "cache_inv c L" and i: "i < nslots c" "L (slot_at c i) = xs @ ys"
  shows "find_key key (zstr_hash c key) (e_next (dat c (last (slot_at c i # xs)))) c =
    Some (find (\<lambda>x. e_key (dat c x) = key) ys)"
  using i(2)
proof (induction ys arbitrary: xs)
  case Nil
  have "slot_at c i \<in> heads c" using header_addrs [OF cache_invD(6) [OF I]] i(1) by auto
  from head_step(1) [OF I this Nil refl] show ?case by (subst find_key.simps) simp
next
  case (Cons y ys)
  have a: "slot_at c i \<in> heads c" using header_addrs [OF cache_invD(6) [OF I]] i(1) by auto
  note h = head_step(2) [OF I a Cons(2) refl]
  have "y \<in> set (L (slot_at c i))" using Cons(2) by simp
  note k = slot_key_equals [OF I i(1) this, of key]
  have "last (slot_at c i # xs @ [y]) = y" by simp
  with Cons.IH [of "xs @ [y]"] Cons(2) h k show ?case by (subst find_key.simps) (simp add: Let_def)
qed

lemma find_key_slot:
  assumes I: "cache_inv c L" and i: "i < nslots c"
  shows "find_key key (zstr_hash c key) (e_next (dat c (slot_addr c i))) c =
    Some (find (\<lambda>x. e_key (dat c x) = key) (L (slot_at c i)))"
  using find_key_ok [OF I i, of "[]" "L (slot_at c i)"] header_addrs(2) [OF cache_invD(6) [OF I] i] by simp

lemma find_contents:
  "find (\<lambda>e. e_key e = key) (contents c xs) = map_option (\<lambda>x. strip (dat c x)) (find (\<lambda>x. e_key (dat c x) = key) xs)"
  by (induction xs) simp_all

lemma delete_scan_ok:
  assumes I: "cache_inv c L" and i: "i < nslots c" "L (slot_at c i) = xs @ ys"
  shows "from_key c key ys = [] \<Longrightarrow> delete_scan key (zstr_hash c key) (last (slot_at c i # xs)) c = Some (False, c)"
    "from_key c key ys \<noteq> [] \<Longrightarrow> \<exists>c'. delete_scan key (zstr_hash c key) (last (slot_at c i # xs)) c = Some (True, c') \<and>
      cache_inv c' (drop_list c L (slot_at c i) (xs @ before_key c key ys @ tl (from_key c key ys)) [hd (from_key c key ys)]) \<and>
      evicted c {hd (from_key c key ys)} c'"
  using i(2)
proof (induction ys arbitrary: xs)
  case Nil
  have "slot_at c i \<in> heads c" using header_addrs [OF cache_invD(6) [OF I]] i(1) by auto
  {
    case 1
    from head_step(1) [OF I \<open>slot_at c i \<in> heads c\<close> 1(2) refl] show ?case by (subst delete_scan.simps) simp
  next
    case 2
    then show ?case by (simp add: from_key_def)
  }
next
  case (Cons y ys)
  have a: "slot_at c i \<in> heads c" using header_addrs [OF cache_invD(6) [OF I]] i(1) by auto
  have step: "delete_scan key (zstr_hash c key) (last (slot_at c i # xs)) c =
      (if e_key (dat c y) = key
       then Option.bind (apc_cache_wlocked_remove_entry y c) (\<lambda>c'. Some (True, c'))
       else delete_scan key (zstr_hash c key) (last (slot_at c i # xs @ [y])) c)"
    if l: "L (slot_at c i) = xs @ y # ys" for xs
  proof -
    have y: "y \<in> set (L (slot_at c i))" using l by simp
    from head_step(2) [OF I a l refl] slot_key_equals [OF I i(1) y, of key]
    show ?thesis by (subst delete_scan.simps) (simp add: Let_def)
  qed
  {
    case 1
    then have "e_key (dat c y) \<noteq> key" "from_key c key ys = []" by (auto simp: from_key_def split: if_splits)
    with step [OF 1(2)] 1(2) Cons(1) [of "xs @ [y]"] show ?case by simp
  next
    case 2
    show ?case
    proof (cases "e_key (dat c y) = key")
      case True
      then have "from_key c key (y # ys) = y # ys" "before_key c key (y # ys) = []"
        by (simp_all add: from_key_def before_key_def)
      with step [OF 2(2)] True remove_in_slot [OF I i(1) 2(2)] show ?thesis by auto
    next
      case False
      then have "from_key c key (y # ys) = from_key c key ys" "before_key c key (y # ys) = y # before_key c key ys"
        by (simp_all add: from_key_def before_key_def)
      with step [OF 2(2)] 2 False Cons(2) [of "xs @ [y]"] show ?thesis by simp
    qed
  }
qed

definition a_delete :: "int \<Rightarrow> string \<Rightarrow> 'v entry list \<Rightarrow> 'v entry list \<Rightarrow> bool \<times> 'v entry list \<times> 'v entry list" where
  "a_delete now key es g =
     (case dropWhile (\<lambda>e. e_key e \<noteq> key) es of
        [] \<Rightarrow> (False, es, g)
      | y # rest \<Rightarrow> (True, takeWhile (\<lambda>e. e_key e \<noteq> key) es @ rest, a_drop now [y] g))"

lemma delete_ok:
  fixes key :: string
  assumes I: "cache_inv c L"
  defines "i \<equiv> slot_of c key"
  shows "\<exists>b c' L'. delete_scan key (zstr_hash c key) (slot_addr c i) c = Some (b, c') \<and> cache_inv c' L' \<and>
    (b, contents c' (L' (slot_at c i)), contents c' (L' (gc_at c))) =
      a_delete (clock c) key (contents c (L (slot_at c i))) (contents c (L (gc_at c))) \<and>
    (\<forall>j<nslots c. j \<noteq> i \<longrightarrow> contents c' (L' (slot_at c j)) = contents c (L (slot_at c j))) \<and> same_core c c'"
proof -
  note D = cache_invD [OF I] and ad = header_addrs [OF cache_invD(6) [OF I]]
  have il: "i < nslots c" using header_okD(2) [OF D(6)] by (simp add: i_def slot_of_def)
  let ?ys = "L (slot_at c i)"
  have l: "?ys = [] @ ?ys" by simp
  note del = delete_scan_ok [OF I il l, of key]
  have fk: "contents c (from_key c key ?ys) = dropWhile (\<lambda>e. e_key e \<noteq> key) (contents c ?ys)" by (rule contents_filters(5))
  show ?thesis
  proof (cases "from_key c key ?ys")
    case Nil
    then have dw: "dropWhile (\<lambda>e. e_key e \<noteq> key) (contents c ?ys) = []" using fk contents_simps(1) by metis
    then have "a_delete (clock c) key (contents c ?ys) (contents c (L (gc_at c))) = (False, contents c ?ys, contents c (L (gc_at c)))"
      unfolding a_delete_def dw by simp
    then show ?thesis using del(1) Nil I ad(2) [OF il] by (intro exI [of _ False] exI [of _ c] exI [of _ L]) simp
  next
    case (Cons y zs)
    let ?pre = "before_key c key ?ys"
    have split: "?pre @ y # zs = ?ys" using Cons by (simp add: before_key_def from_key_def flip: Cons)
    obtain c' where c': "delete_scan key (zstr_hash c key) (slot_at c i) c = Some (True, c')"
      "cache_inv c' (drop_list c L (slot_at c i) (?pre @ zs) [y])" "evicted c {y} c'"
      using del(2) Cons by auto
    have dist: "distinct (?pre @ y # zs)" unfolding split by (rule listsD(4) [OF D(7) ad(8) [OF il]])
    have ev: "evicted c (set [y]) c'" using c'(3) by simp
    have "set (?pre @ y # zs) = set ?ys" using split by simp
    then have sub: "set (?pre @ zs) \<union> set [y] \<subseteq> set ?ys" "set (?pre @ zs) \<inter> set [y] = {}" using dist by auto
    note v = view_drop [OF I il ev sub]
    have dw: "dropWhile (\<lambda>e. e_key e \<noteq> key) (contents c ?ys) = strip (dat c y) # contents c zs" using fk Cons by simp
    have "(True, contents c' (drop_list c L (slot_at c i) (?pre @ zs) [y] (slot_at c i)),
        contents c' (drop_list c L (slot_at c i) (?pre @ zs) [y] (gc_at c))) =
        a_delete (clock c) key (contents c ?ys) (contents c (L (gc_at c)))"
      unfolding v(1,2) by (simp add: a_delete_def dw contents_filters(4))
    then show ?thesis using c' v(3) evicted_sel(1) [OF c'(3)] ad(2) [OF il]
      by (intro exI [of _ True] exI [of _ c'] exI [of _ "drop_list c L (slot_at c i) (?pre @ zs) [y]"]) simp
  qed
qed

subsection \<open>Sweeping all slots\<close>

definition sweep_step :: "('v entry \<Rightarrow> bool) \<Rightarrow> nat \<Rightarrow> (nat \<Rightarrow> ('v, 'x) cstate \<Rightarrow> ('v, 'x) cstate option) \<Rightarrow>
    ('v, 'x) cstate \<Rightarrow> bool" where
  "sweep_step P i f c \<longleftrightarrow> (\<forall>L. cache_inv c L \<longrightarrow>
     (\<exists>c'. f i c = Some c' \<and> cache_inv c' (drop_list c L (slot_at c i)
          (filter (\<lambda>x. \<not> P (strip (dat c x))) (L (slot_at c i))) (filter (\<lambda>x. P (strip (dat c x))) (L (slot_at c i)))) \<and>
        evicted c (set (filter (\<lambda>x. P (strip (dat c x))) (L (slot_at c i)))) c'))"

lemma contents_filter: "contents c (filter (\<lambda>x. P (strip (dat c x))) xs) = filter P (contents c xs)"
  by (induction xs) simp_all

lemma sweep_ok:
  assumes I: "cache_inv c L" and ds: "distinct is" "set is \<subseteq> {..<nslots c}"
    and f: "\<And>i c1. i \<in> set is \<Longrightarrow> same_core c c1 \<Longrightarrow> sweep_step P i f c1"
  shows "\<exists>c' L'. for_slots is f c = Some c' \<and> cache_inv c' L' \<and> same_core c c' \<and>
    (\<forall>j<nslots c. contents c' (L' (slot_at c j)) =
       (if j \<in> set is then filter (\<lambda>e. \<not> P e) (contents c (L (slot_at c j))) else contents c (L (slot_at c j)))) \<and>
    contents c' (L' (gc_at c)) =
      a_drop (clock c) (concat (map (\<lambda>i. filter P (contents c (L (slot_at c i)))) is)) (contents c (L (gc_at c)))"
  using assms
proof (induction "is" arbitrary: c L)
  case Nil
  then show ?case by auto
next
  case (Cons i js)
  let ?s = "slot_at c i" and ?k = "filter (\<lambda>x. \<not> P (strip (dat c x))) (L (slot_at c i))"
    and ?g = "filter (\<lambda>x. P (strip (dat c x))) (L (slot_at c i))"
  have il: "i < nslots c" using Cons.prems(3) by simp
  obtain c1 where c1: "f i c = Some c1" "cache_inv c1 (drop_list c L ?s ?k ?g)" "evicted c (set ?g) c1"
    using Cons.prems(4) [of i c] Cons.prems(1) unfolding sweep_step_def by fastforce
  let ?L1 = "drop_list c L ?s ?k ?g"
  have sub: "set ?k \<union> set ?g \<subseteq> set (L ?s)" "set ?k \<inter> set ?g = {}" by auto
  note v = view_drop [OF Cons.prems(1) il c1(3) sub]
  note s1 = evicted_sel(1) [OF c1(3)]
  note k1 = same_core_sel [OF s1] and f1 = same_core_addrs [OF s1]
  have st: "sweep_step P j f c2" if "j \<in> set js" "same_core c1 c2" for j c2
    using Cons.prems(4) [of j c2] that same_core_trans [OF s1] by simp
  obtain c' L' where c': "for_slots js f c1 = Some c'" "cache_inv c' L'" "same_core c1 c'"
    "\<forall>j<nslots c1. contents c' (L' (slot_at c1 j)) =
       (if j \<in> set js then filter (\<lambda>e. \<not> P e) (contents c1 (?L1 (slot_at c1 j))) else contents c1 (?L1 (slot_at c1 j)))"
    "contents c' (L' (gc_at c1)) =
      a_drop (clock c1) (concat (map (\<lambda>i. filter P (contents c1 (?L1 (slot_at c1 i)))) js)) (contents c1 (?L1 (gc_at c1)))"
    using Cons.IH [OF c1(2)] Cons.prems(2,3) st k1(10) by auto
  have other: "contents c1 (?L1 (slot_at c j)) = contents c (L (slot_at c j))" if "j < nslots c" "j \<noteq> i" for j
    by (rule v(3) [OF that])
  have "contents c' (L' (slot_at c j)) =
      (if j \<in> set (i # js) then filter (\<lambda>e. \<not> P e) (contents c (L (slot_at c j))) else contents c (L (slot_at c j)))"
    if j: "j < nslots c" for j
    using c'(4) j k1(10) f1(1) other [OF j] v(1) Cons.prems(2)
    by (cases "j = i") (auto simp: contents_filter [of c "\<lambda>e. \<not> P e"])
  moreover have mp: "map (\<lambda>j. filter P (contents c1 (?L1 (slot_at c j)))) js = map (\<lambda>j. filter P (contents c (L (slot_at c j)))) js"
  proof (rule map_cong)
    fix j assume "j \<in> set js"
    then have "j < nslots c" "j \<noteq> i" using Cons.prems(2,3) by auto
    with other show "filter P (contents c1 (?L1 (slot_at c j))) = filter P (contents c (L (slot_at c j)))" by simp
  qed simp
  have "contents c' (L' (gc_at c)) =
      a_drop (clock c) (concat (map (\<lambda>i. filter P (contents c (L (slot_at c i)))) (i # js))) (contents c (L (gc_at c)))"
    using c'(5) unfolding k1(27) f1(1,2) mp v(2) by (simp add: contents_filter)
  ultimately show ?case using c1(1) c'(1,2) same_core_trans [OF s1 c'(3)] by auto
qed

end
