(* ===== verification/Cache_Move.thy ===== *)
theory Cache_Move imports Cache_View begin

text \<open>
  Defragmentation under the cache: \<open>apc_cache_wlocked_move_entry\<close> is a callback the allocator may use to
  move allocations (an interpretation of the locale \<open>relocatable\<close>). Afterwards every list holds the same
  entries in the same order, at their new addresses.
\<close>

subsection \<open>The contents as lists\<close>

lemma slots_disjoint:
  assumes "lists (c_header c) (dat c) (heads c) L" "header_ok A c"
  shows "\<forall>i\<in>{..<nslots c}. \<forall>j\<in>{..<nslots c}. i \<noteq> j \<longrightarrow> set (L (slot_at c i)) \<inter> set (L (slot_at c j)) = {}"
  using listsD(7) [OF assms(1)] header_addrs(8) [OF assms(2)] by (metis lessThan_iff slot_at_inj)

lemma sum_slots:
  assumes l: "lists (c_header c) (dat c) (heads c) L" and h: "header_ok A c"
  shows "(\<Sum>x\<in>members (slots c) L. f (strip (dat c x))) = (\<Sum>i<nslots c. \<Sum>e\<leftarrow>contents c (L (slot_at c i)). f e)"
    (is "?l = ?r")
proof -
  have "members (slots c) L = (\<Union>i<nslots c. set (L (slot_at c i)))" by (auto simp: members_def slots_def)
  then have "?l = (\<Sum>i<nslots c. \<Sum>x\<in>set (L (slot_at c i)). f (strip (dat c x)))"
    using slots_disjoint [OF l h] by (simp add: sum.UNION_disjoint)
  also have "\<dots> = ?r"
    using listsD(4) [OF l header_addrs(8) [OF h]]
    by (intro sum.cong) (simp_all add: contents_def comp_def sum_list_distinct_conv_sum_set)
  finally show ?thesis .
qed

lemma content_lists:
  assumes l: "lists (c_header c) (dat c) (heads c) L" and h: "header_ok A c"
  shows "cache_content A c L \<longleftrightarrow> (\<forall>i<nslots c. (\<forall>x\<in>set (L (slot_at c i)). slot_entry A c i x) \<and>
      distinct (map e_key (contents c (L (slot_at c i))))) \<and>
    h_nentries c = (\<Sum>i<nslots c. \<Sum>e\<leftarrow>contents c (L (slot_at c i)). 1) \<and>
    h_mem_size c = (\<Sum>i<nslots c. \<Sum>e\<leftarrow>contents c (L (slot_at c i)). e_mem_size e)"
proof -
  have "int (card (members (slots c) L)) = (\<Sum>x\<in>members (slots c) L. (\<lambda>_. 1) (strip (dat c x)))" by simp
  also have "\<dots> = (\<Sum>i<nslots c. \<Sum>e\<leftarrow>contents c (L (slot_at c i)). 1)" by (rule sum_slots [OF l h])
  finally have n: "int (card (members (slots c) L)) = (\<Sum>i<nslots c. \<Sum>e\<leftarrow>contents c (L (slot_at c i)). 1)" .
  have "(\<Sum>x\<in>members (slots c) L. e_mem_size (dat c x)) = (\<Sum>x\<in>members (slots c) L. e_mem_size (strip (dat c x)))"
    by simp
  also have "\<dots> = (\<Sum>i<nslots c. \<Sum>e\<leftarrow>contents c (L (slot_at c i)). e_mem_size e)" by (rule sum_slots [OF l h])
  finally show ?thesis using n
    by (simp add: cache_content_def contents_def comp_def)
qed

subsection \<open>The structure in the allocations\<close>

definition stored :: "(nat \<Rightarrow> 'v entry list) \<Rightarrow> (nat \<Rightarrow> nat option) \<Rightarrow> ('v, 'x) cstate \<Rightarrow> bool" where
  "stored V A c \<longleftrightarrow> (\<exists>L. cache_layout A c L \<and> cache_content A c L \<and> (\<forall>a\<in>heads c. contents c (L a) = V a))"

lemma storedI: "cache_layout A c L \<Longrightarrow> cache_content A c L \<Longrightarrow> (\<And>a. a \<in> heads c \<Longrightarrow> contents c (L a) = V a) \<Longrightarrow> stored V A c"
  by (auto simp: stored_def)

lemma stored_frame:
  assumes s: "stored V A c" and d: "\<And>p n x. A p = Some n \<Longrightarrow> p \<le> x \<Longrightarrow> x < p + n \<Longrightarrow> d x = dat c x"
  shows "stored V A (c\<lparr>blk := m, dat := d, avail := a, sma_locked := l, sma_lock_results := rs\<rparr>)" (is "stored V A ?c")
proof -
  obtain L where L: "cache_layout A c L" "cache_content A c L" "\<forall>a\<in>heads c. contents c (L a) = V a"
    using s by (auto simp: stored_def)
  note lay = layoutD [OF L(1)] and C = contentD [OF L(2)]
  obtain n where n: "A (c_header c) = Some n" "header_bytes c + 8 * nslots c \<le> n" using header_okD(6) [OF lay(1)] by blast
  have dh: "d x = dat c x" if "x \<in> heads c" for x
    using d [OF n(1), of x] n(2) header_addrs(4) [OF lay(1) that] by simp
  have da: "d x = dat c x" if "x \<in> dom A" for x using that d [of x _ x] lay(3) [of x] by fastforce
  have dm: "d x = dat c x" if "x \<in> members (heads c) L" for x using da lay(4) [OF that] by simp
  have ad: "heads ?c = heads c" "slots ?c = slots c" "slot_at ?c = slot_at c"
    by (simp_all add: heads_def slots_def slot_at_def gc_at_def fun_eq_iff)
  have cont: "contents ?c (L a) = contents c (L a)" if "a \<in> heads c" for a
    using dm members_mem [OF that] by (simp add: contents_def)
  have "cache_layout A ?c L"
  proof (rule layoutI)
    have e: "c_header ?c = c_header c" "hdr_size ?c = hdr_size c" "nslots ?c = nslots c" "gc_offset ?c = gc_offset c"
      "header_bytes ?c = header_bytes c" by simp_all
    show "header_ok A ?c" using lay(1) unfolding header_ok_def e .
    show "lists (c_header ?c) (dat ?c) (heads ?c) L"
    proof -
      have "lists (c_header c) d (heads c) L = lists (c_header c) (dat c) (heads c) L"
        by (rule lists_cong) (use dh dm in auto)
      then show ?thesis using lay(2) ad by simp
    qed
    show "0 < n" if "A p = Some n" for p n by (rule lay(3) [OF that])
    show "x \<in> dom A \<and> x \<noteq> c_header ?c" if "x \<in> members (heads ?c) L" for x using lay(4) that ad by simp
    show "0 < e_ref_count (dat ?c p)" if "p \<in> dom A" "p \<noteq> c_header ?c" "p \<notin> members (heads ?c) L" for p
      using lay(5) [of p] da that ad by simp
  qed
  moreover have "cache_content A ?c L"
  proof -
    have lc: "lists (c_header ?c) (dat ?c) (heads ?c) L" "header_ok A ?c"
      using layoutD(2,1) [OF \<open>cache_layout A ?c L\<close>] .
    have "slot_entry A ?c i x" if "i < nslots c" "x \<in> set (L (slot_at c i))" for i x
      using C(1) [OF that] dm [of x] members_mem [where L = L, OF header_addrs(8) [OF lay(1) that(1)] that(2)]
      by (simp add: slot_entry_def)
    then show ?thesis
      using L(2) cont header_addrs(8) [OF lay(1)]
      by (simp add: content_lists [OF lc] content_lists [OF lay(2,1)] ad del: contents_simps)
  qed
  ultimately show ?thesis using L(3) cont ad by (intro storedI) auto
qed

lemma move_entry_refuses: "0 < e_ref_count (dat c p) \<Longrightarrow> apc_cache_wlocked_move_entry p q c = (False, c)"
  by (simp add: apc_cache_wlocked_move_entry_def)

lemma stored_move:
  assumes s: "stored V A c" and p: "A p = Some n" and q: "q < p" "first_block (hdr_size c) + BHDR \<le> q"
    and sep: "\<forall>p' n'. A p' = Some n' \<and> p' \<noteq> p \<longrightarrow> p' \<noteq> q \<and> (q + n \<le> p' \<or> p' + n' \<le> q)"
    and mv: "apc_cache_wlocked_move_entry p q c = (True, c1)"
  shows "\<exists>d. c1 = c\<lparr>dat := d\<rparr> \<and> stored V (A(p := None, q \<mapsto> n)) (c\<lparr>dat := memmove d q p n\<rparr>)"
proof -
  obtain L where L: "cache_layout A c L" "cache_content A c L" "\<forall>a\<in>heads c. contents c (L a) = V a"
    using s by (auto simp: stored_def)
  note lay = layoutD [OF L(1)] and C = contentD [OF L(2)] and hd = header_okD [OF layoutD(1) [OF L(1)]]
    and ad = header_addrs [OF layoutD(1) [OF L(1)]]
  let ?h = "c_header c" and ?A = "A(p := None, q \<mapsto> n)"
  obtain m where m: "A ?h = Some m" "header_bytes c + 8 * nslots c \<le> m" using hd(6) by blast
  have n0: "0 < n" by (rule lay(3) [OF p])
  have ph: "p \<noteq> ?h" using q hd(1) by simp
  have "\<not> 0 < e_ref_count (dat c p)" using mv move_entry_refuses by fastforce
  then have pm: "p \<in> members (heads c) L" using lay(5) [of p] p ph by blast
  then obtain a where a: "a \<in> heads c" "p \<in> set (L a)" by (auto simp: members_def)
  then obtain xs ys where l: "L a = xs @ p # ys" by (meson split_list)
  have qh: "?h < q" "?h + m \<le> q" using sep m(1) ph q(2) hd(1) n0 by fastforce+
  have ps: "p < SEG_MAX" "p \<notin> heads c" using lay(6) [OF pm] by auto
  have qs: "q < SEG_MAX" using q(1) ps by simp
  have qH: "q \<notin> heads c" using ad(4) [of q] m(2) qh by auto
  have out: "x < q \<or> q + n \<le> x" "x \<noteq> q" if "x \<in> dom A" "x \<noteq> p" for x
    using that sep lay(3) [of x] by fastforce+
  have outH: "x < q" if "x \<in> heads c" for x using ad(4) [OF that] m(2) qh by simp
  have qM: "q \<notin> members (heads c) L - {p}" using out(2) lay(4) by blast
  \<comment> \<open>the redirection\<close>
  have el: "elist ?h (dat c) a (xs @ p # ys)" and dist: "distinct (a # xs @ p # ys)"
    using listsD [OF lay(2) a(1)] l by auto
  define d where "d = redirectd ?h p q (dat c)"
  let ?d = "memmove d q p n"
  have pv: "?h + e_prev (dat c p) = last (a # xs)" "e_next (dat c p) \<noteq> 0 \<Longrightarrow> ?h + e_next (dat c p) \<in> set ys"
  proof -
    have "?h \<le> last (a # xs)" by (rule list_pos(2) [OF lay(2) a(1) l])
    then show "?h + e_prev (dat c p) = last (a # xs)" using el by (auto simp: elist_append elist_Cons)
    assume nz: "e_next (dat c p) \<noteq> 0"
    have r: "elist ?h (dat c) p ys" using el by (simp add: elist_append elist_Cons)
    obtain y zs where "ys = y # zs" using nz elist_next(2) [OF r] by (cases ys) auto
    then show "?h + e_next (dat c p) \<in> set ys" using r by (auto simp: elist_Cons)
  qed
  have la: "last (a # xs) \<in> set (a # xs)" by (rule last_in_set)
  then have np: "?h + e_prev (dat c p) \<noteq> p" "e_next (dat c p) \<noteq> 0 \<Longrightarrow> ?h + e_next (dat c p) \<noteq> p"
    using pv dist by auto
  have lt: "?h + e_prev (dat c p) < SEG_MAX" "e_next (dat c p) \<noteq> 0 \<Longrightarrow> ?h + e_next (dat c p) < SEG_MAX"
  proof -
    show "?h + e_prev (dat c p) < SEG_MAX"
      using la pv(1) ad(4) [OF a(1)] hd(5) elist_mem [OF el, of "last (a # xs)"] by auto
    show "?h + e_next (dat c p) < SEG_MAX" if "e_next (dat c p) \<noteq> 0"
      using pv(2) [OF that] elist_mem [OF el] by auto
  qed
  have c1: "c1 = c\<lparr>dat := d\<rparr>"
    using mv move_entry_redirectd [of c p q] lt np(1) qh(1) qs by (auto simp: d_def split: if_splits)
  have dq: "?d q = d p" using n0 by (simp add: memmove_def)
  have body: "e_next (?d q) = e_next (dat c p)" "e_prev (?d q) = e_prev (dat c p)"
    unfolding dq unfolding d_def using np by (auto simp: redirectd_next redirectd_prev)
  have rest: "?d x = d x" if "x \<in> heads c \<or> x \<in> dom A" "x \<noteq> p" for x
  proof -
    have "x < q \<or> q + n \<le> x" using that out(1) [of x] outH [of x] by blast
    then show ?thesis by (auto simp: memmove_def)
  qed
  have strp: "strip (d x) = strip (dat c x)" for x
    unfolding d_def by (rule same_body_strip [OF same_body_redirectd])
  have mA: "x \<in> dom A" if "x \<in> members (heads c) L" for x using lay(4) [OF that] by simp
  let ?c = "c\<lparr>dat := ?d\<rparr>" and ?L = "L(a := xs @ q # ys)"
  have fa: "heads ?c = heads c" "slots ?c = slots c" "slot_at ?c = slot_at c" "gc_at ?c = gc_at c"
    by (simp_all add: heads_def slots_def slot_at_def gc_at_def fun_eq_iff)
  have lists': "lists ?h ?d (heads c) ?L"
    by (rule lists_move [where q = q and d' = ?d and e = p, OF lay(2) a(1) l qH qM qh(1) qs body]) (use rest mA ps(2) in \<open>auto simp: d_def\<close>)
  have mem: "members (heads c) ?L = insert q (members (heads c) L - {p})"
  proof -
    have "members (heads c) (L(a := xs @ ys)) = members (heads c) L - {p}"
      using members_unlink(1) [OF lay(2) a(1) l] .
    moreover have "(L(a := xs @ ys))(a := xs @ q # ys) = ?L" by simp
    moreover have "members (heads c) ((L(a := xs @ ys))(a := xs @ q # ys)) = insert q (members (heads c) (L(a := xs @ ys)))"
      by (rule members_link [OF a(1)]) simp
    ultimately show ?thesis by simp
  qed
  have sq: "strip (?d q) = strip (dat c p)" using strp dq by simp
  have sx: "strip (?d x) = strip (dat c x)" if "x \<in> members (heads c) L" "x \<noteq> p" for x
    using rest [of x] mA [OF that(1)] that(2) strp by simp
  have sub: "set xs \<union> set ys \<subseteq> members (heads c) L" using members_mem [OF a(1), of _ L] l by auto
  have cont: "contents ?c (?L b) = contents c (L b)" if b: "b \<in> heads c" for b
  proof (cases "b = a")
    case True
    have "contents ?c xs = contents c xs" "contents ?c ys = contents c ys"
      using sub dist sx by (auto simp: contents_def)
    then show ?thesis using True l sq by simp
  next
    case False
    have "p \<notin> set (L b)" using listsD(7) [OF lay(2) a(1) b] False l by auto
    then show ?thesis using False sx members_mem [OF b, of _ L] by (auto simp: contents_def)
  qed
  have layout': "cache_layout ?A ?c ?L"
  proof (rule layoutI)
    show hk: "header_ok ?A ?c" by (rule header_ok_core [OF lay(1)]) (use ph qh in auto)
    show "lists (c_header ?c) (dat ?c) (heads ?c) ?L" using lists' fa by simp
    show "0 < k" if "?A x = Some k" for x k using that lay(3) n0 by (auto split: if_splits)
    show "x \<in> dom ?A \<and> x \<noteq> c_header ?c" if "x \<in> members (heads ?c) ?L" for x
      using that mem fa lay(4) [of x] qh(1) by auto
    show "0 < e_ref_count (dat ?c x)" if "x \<in> dom ?A" "x \<noteq> c_header ?c" "x \<notin> members (heads ?c) ?L" for x
    proof -
      have x: "x \<in> dom A" "x \<noteq> p" "x \<notin> members (heads c) L" using that mem fa pm q(1) by (auto split: if_splits)
      then have "strip (?d x) = strip (dat c x)" using rest [of x] strp by simp
      with lay(5) [OF x(1) _ x(3)] that(2) show ?thesis by (auto dest: strip_eqD(2))
    qed
  qed
  have "cache_content ?A ?c ?L"
  proof -
    have "slot_entry ?A ?c i x" if i: "i < nslots c" and x: "x \<in> set (?L (slot_at c i))" for i x
    proof (cases "x = q \<and> slot_at c i = a")
      case True
      with C(1) [OF i, of p] l p q(1) strip_eqD(8,10,11) [OF sq] show ?thesis by (simp add: slot_entry_def)
    next
      case False
      then have xL: "x \<in> set (L (slot_at c i))" using x l by (auto split: if_splits)
      have xm: "x \<in> members (heads c) L" by (rule members_mem [where L = L, OF ad(8) [OF i] xL])
      have xp: "x \<noteq> p"
      proof
        assume "x = p"
        then have "slot_at c i = a" using listsD(7) [OF lay(2) a(1) ad(8) [OF i]] a(2) xL by blast
        then show False using x \<open>x = p\<close> dist q(1) by auto
      qed
      have "x \<noteq> q" using qM xm xp by blast
      with C(1) [OF i xL] xp strip_eqD(8,10,11) [OF sx [OF xm xp]] show ?thesis by (simp add: slot_entry_def)
    qed
    then show ?thesis
      using L(2) cont ad(8)
      by (simp add: content_lists [OF layoutD(2,1) [OF layout']] content_lists [OF lay(2,1)] fa
          del: contents_simps fun_upd_apply)
  qed
  then have "stored V ?A ?c" using layout' cont L(3) fa by (intro storedI [where L = ?L]) (auto simp del: fun_upd_apply)
  then show ?thesis using c1 by blast
qed

interpretation entries: relocatable "stored V" apc_cache_wlocked_move_entry
  for V :: "nat \<Rightarrow> 'v entry list"
proof (unfold_locales, goal_cases)
  case (1 A s d m a l rs)
  then show ?case by (intro stored_frame) auto
next
  case (2 A s p n q s')
  then show ?case by (auto simp: apc_cache_wlocked_move_entry_def Let_def split: if_splits)
next
  case (3 A s p n q s1)
  from stored_move [OF 3(1-4) _ 3(6)] 3(5) show ?case by blast
qed

end
