(* ===== verification/Cache_Expunge.thy ===== *)
theory Cache_Expunge imports Cache_Move begin

text \<open>
  Making room: the full expunge, and \<open>apc_cache_default_expunge\<close>, the callback with which the allocator
  asks the cache for memory. The locale \<open>expunger\<close> is what \<open>apc_sma_malloc\<close> relies on; the cache provides
  it.
\<close>

subsection \<open>Time and locks\<close>

lemma apc_time_ok: "\<exists>r. snd (apc_time c) = c\<lparr>request_time := r\<rparr>"
proof (cases "use_request_time c \<and> request_time c = 0")
  case False
  then have "snd (apc_time c) = c" by (auto simp: apc_time_def Let_def)
  then show ?thesis by (intro exI [of _ "request_time c"]) simp
qed (auto simp: apc_time_def Let_def)

lemma apc_time_inv:
  "cache_inv (snd (apc_time c)) L = cache_inv c L" "same_config c (snd (apc_time c))"
  "contents (snd (apc_time c)) = contents c" "h_ncleanups (snd (apc_time c)) = h_ncleanups c"
  "h_lastkey (snd (apc_time c)) = h_lastkey c" "dat (snd (apc_time c)) = dat c"
proof -
  obtain r where r: "snd (apc_time c) = c\<lparr>request_time := r\<rparr>" using apc_time_ok by blast
  show "cache_inv (snd (apc_time c)) L = cache_inv c L" by (rule cache_inv_fields(1)) (simp_all add: r)
  show "same_config c (snd (apc_time c))" "contents (snd (apc_time c)) = contents c"
    "h_ncleanups (snd (apc_time c)) = h_ncleanups c" "h_lastkey (snd (apc_time c)) = h_lastkey c"
    "dat (snd (apc_time c)) = dat c"
    by (simp_all add: r contents_def fun_eq_iff)
qed

text \<open>Whether an attempt to take the cache lock returns, and the outcome of the next attempt.\<close>

definition lockable :: "('v, 'x) cstate \<Rightarrow> bool" where
  "lockable c \<longleftrightarrow> entry_level c \<noteq> 0 \<or> cache_lock c = Unlocked"

definition lock_gets :: "('v, 'x) cstate \<Rightarrow> bool" where
  "lock_gets c \<longleftrightarrow> entry_level c \<noteq> 0 \<or> (case cache_lock_results c of [] \<Rightarrow> True | r # _ \<Rightarrow> r)"

text \<open>Like \<open>same_config\<close>, but lock attempts may have been made.\<close>

definition same_env :: "('v, 'x) cstate \<Rightarrow> ('v, 'x) cstate \<Rightarrow> bool" where
  "same_env c c' \<longleftrightarrow> same_config (c\<lparr>cache_lock_results := []\<rparr>) (c'\<lparr>cache_lock_results := []\<rparr>)"

lemma config_lock [simp]:
  "config (c\<lparr>cache_lock_results := rs\<rparr>) = (config c)\<lparr>cache_lock_results := rs\<rparr>"
  "config (c\<lparr>cache_lock := l\<rparr>) = (config c)\<lparr>cache_lock := l\<rparr>"
  by (cases c, simp add: config_def core_def)+

lemma same_env_refl [simp]: "same_env c c"
  by (simp add: same_env_def)

lemma same_env_trans [trans]: "same_env c1 c2 \<Longrightarrow> same_env c2 c3 \<Longrightarrow> same_env c1 c3"
  unfolding same_env_def by (rule same_config_trans)

lemma same_config_env: "same_config c c' \<Longrightarrow> same_env c c'"
proof -
  assume "same_config c c'"
  then have "config c' = config c" by (simp add: same_config_def)
  then have "(config c')\<lparr>cache_lock_results := []\<rparr> = (config c)\<lparr>cache_lock_results := []\<rparr>" by simp
  then show ?thesis by (simp add: same_env_def same_config_def)
qed

lemma same_env_sel:
  assumes "same_env c c'"
  shows "cache_exists c' = cache_exists c" "c_header c' = c_header c" "header_bytes c' = header_bytes c"
    "gc_offset c' = gc_offset c" "nslots c' = nslots c" "c_gc_ttl c' = c_gc_ttl c" "c_ttl c' = c_ttl c"
    "c_smart c' = c_smart c" "c_defend c' = c_defend c" "cache_lock c' = cache_lock c"
    "entry_level c' = entry_level c" "zstr_hash c' = zstr_hash c" "clock c' = clock c"
    "use_request_time c' = use_request_time c" "sapi_request_time c' = sapi_request_time c" "pid c' = pid c"
    "sma_max_alloc_size c' = sma_max_alloc_size c" "hdr_size c' = hdr_size c"
  using same_config_sel [OF assms [unfolded same_env_def]] by simp_all

lemma same_env_fun:
  assumes "same_env c c'"
  shows "slot_at c' = slot_at c" "gc_at c' = gc_at c" "heads c' = heads c" "slots c' = slots c"
    "apc_cache_entry_expired c' = apc_cache_entry_expired c" "slot_of c' = slot_of c" "lockable c' = lockable c"
  using same_env_sel [OF assms]
  by (auto simp: slot_at_def gc_at_def heads_def slots_def apc_cache_entry_expired_def
      apc_cache_entry_soft_expired_def slot_of_def lockable_def fun_eq_iff)

text \<open>The state while the lock is held (or at a deeper entry level, where no lock is taken).\<close>

definition locked :: "lock_mode \<Rightarrow> ('v, 'x) cstate \<Rightarrow> ('v, 'x) cstate" where
  "locked l c = (if entry_level c \<noteq> 0 then c
     else c\<lparr>cache_lock := l, cache_lock_results := tl (cache_lock_results c)\<rparr>)"

lemma lock_as_ok:
  assumes "lockable c"
  shows "apc_cache_lock_as l c =
    Some (lock_gets c, if lock_gets c then locked l c else c\<lparr>cache_lock_results := tl (cache_lock_results c)\<rparr>)"
  using assms
  by (auto simp: apc_cache_lock_as_def lockable_def lock_gets_def locked_def split: list.splits bool.splits)

lemma cache_inv_locked [simp]: "cache_inv (locked l c) L = cache_inv c L"
  "cache_inv (c\<lparr>cache_lock_results := rs\<rparr>) L = cache_inv c L" "cache_inv (c\<lparr>cache_lock := m\<rparr>) L = cache_inv c L"
  by (rule cache_inv_fields(1); simp add: locked_def)+

lemma contents_locked [simp]: "contents (locked l c) = contents c" "contents (c\<lparr>cache_lock_results := rs\<rparr>) = contents c"
  "contents (c\<lparr>cache_lock := m\<rparr>) = contents c" "dat (locked l c) = dat c" "entry_level (locked l c) = entry_level c"
  by (simp_all add: contents_def locked_def fun_eq_iff)

lemma same_env_failed [simp]: "same_env c (c\<lparr>cache_lock_results := rs\<rparr>)"
  by (simp add: same_env_def)

text \<open>Doing something under the lock that keeps the configuration, and releasing it.\<close>

text \<open>When all lock attempts succeed, this stays so.\<close>

lemma lock_results_unlock:
  assumes s: "same_config (locked l c) c'" and r: "cache_lock_results c = []"
  shows "cache_lock_results (apc_cache_wunlock c') = []" "cache_lock_results (apc_cache_runlock c') = []"
proof -
  have "cache_lock_results c' = []" using same_config_sel(11) [OF s] r by (simp add: locked_def)
  then show "cache_lock_results (apc_cache_wunlock c') = []" "cache_lock_results (apc_cache_runlock c') = []"
    by (simp_all add: apc_cache_wunlock_def apc_cache_runlock_def)
qed

lemma same_env_unlock:
  assumes "lockable c" and s: "same_config (locked l c) c'"
  shows "same_env c (apc_cache_wunlock c')" "same_env c (apc_cache_runlock c')"
proof -
  have w: "same_env c (apc_cache_wunlock c')"
  proof (cases "entry_level c = 0")
    case False
    then show ?thesis using same_config_env [OF s] same_config_sel(12) [OF s]
      by (simp add: locked_def apc_cache_wunlock_def)
  next
    case True
    then have c: "cache_lock c = Unlocked" "entry_level c' = 0"
      using assms(1) same_config_sel(12) [OF s] by (simp_all add: lockable_def)
    have "config c' = config (locked l c)" using s by (simp add: same_config_def)
    then have "(config c')\<lparr>cache_lock := Unlocked, cache_lock_results := []\<rparr> =
        (config (locked l c))\<lparr>cache_lock := Unlocked, cache_lock_results := []\<rparr>" by simp
    then have "config (c'\<lparr>cache_lock := Unlocked, cache_lock_results := []\<rparr>) =
        config (c\<lparr>cache_lock := Unlocked, cache_lock_results := []\<rparr>)"
      using True by (cases "config c") (simp add: locked_def)
    moreover have "c\<lparr>cache_lock := Unlocked, cache_lock_results := []\<rparr> = c\<lparr>cache_lock_results := []\<rparr>"
      using c(1) by (cases c) simp
    ultimately show ?thesis using c(2)
      unfolding same_env_def same_config_def by (simp only: apc_cache_wunlock_def if_False simp_thms)
  qed
  then show "same_env c (apc_cache_wunlock c')" .
  show "same_env c (apc_cache_runlock c')" using w by (simp add: apc_cache_wunlock_def apc_cache_runlock_def)
qed

lemma cache_inv_unlock [simp]:
  "cache_inv (apc_cache_wunlock c) L = cache_inv c L" "cache_inv (apc_cache_runlock c) L = cache_inv c L"
  "contents (apc_cache_wunlock c) = contents c" "contents (apc_cache_runlock c) = contents c"
  "dat (apc_cache_wunlock c) = dat c" "dat (apc_cache_runlock c) = dat c"
  by (simp_all add: apc_cache_wunlock_def apc_cache_runlock_def)

subsection \<open>The full expunge\<close>

lemma sweep_expunge:
  assumes "i < nslots c"
  shows "sweep_step (\<lambda>_. True) i (\<lambda>i c. expunge_slot (slot_addr c i) c) c"
  unfolding sweep_step_def
proof (intro allI impI)
  fix L assume I: "cache_inv c L"
  from expunge_slot_ok [OF I assms refl] header_addrs(2) [OF cache_invD(6) [OF I] assms]
  show "\<exists>c'. expunge_slot (slot_addr c i) c = Some c' \<and> cache_inv c' (drop_list c L (slot_at c i)
        (filter (\<lambda>x. \<not> True) (L (slot_at c i))) (filter (\<lambda>x. True) (L (slot_at c i)))) \<and>
      evicted c (set (filter (\<lambda>x. True) (L (slot_at c i)))) c'"
    by simp
qed

lemma real_expunge_ok:
  assumes I: "cache_inv c L"
  shows "\<exists>c' L'. apc_cache_wlocked_real_expunge c = Some c' \<and> cache_inv c' L' \<and> same_config c c' \<and>
    (\<forall>i<nslots c. L' (slot_at c i) = []) \<and>
    contents c' (L' (gc_at c)) =
      a_drop (clock c) (concat (map (\<lambda>i. contents c (L (slot_at c i))) [0..<nslots c])) (contents c (L (gc_at c))) \<and>
    h_nentries c' = 0 \<and> h_mem_size c' = 0 \<and> h_lastkey c' = no_key \<and> h_nhits c' = 0 \<and> h_nmisses c' = 0 \<and>
    h_ninserts c' = 0 \<and> h_ncleanups c' = h_ncleanups c"
proof -
  let ?c = "c\<lparr>h_nexpunges := int64_of (h_nexpunges c + 1)\<rparr>"
  have I0: "cache_inv ?c L" using I cache_inv_fields(1) [of ?c c L] by simp
  have f0: "slot_at ?c = slot_at c" "gc_at ?c = gc_at c" "contents ?c = contents c"
    by (simp_all add: slot_at_def gc_at_def contents_def fun_eq_iff)
  have st: "sweep_step (\<lambda>_. True) i (\<lambda>i c. expunge_slot (slot_addr c i) c) c1"
    if "i \<in> set [0..<nslots ?c]" "same_core ?c c1" for i c1
    by (rule sweep_expunge) (use that same_core_sel(10) [OF that(2)] in simp)
  have ds: "distinct [0..<nslots ?c]" "set [0..<nslots ?c] \<subseteq> {..<nslots ?c}" by auto
  obtain c1 L' where c1: "for_slots [0..<nslots ?c] (\<lambda>i c. expunge_slot (slot_addr c i) c) ?c = Some c1"
    "cache_inv c1 L'" "same_core ?c c1"
    "\<forall>j<nslots ?c. contents c1 (L' (slot_at ?c j)) = (if j \<in> set [0..<nslots ?c] then filter (\<lambda>e. \<not> True) (contents ?c (L (slot_at ?c j))) else contents ?c (L (slot_at ?c j)))"
    "contents c1 (L' (gc_at ?c)) = a_drop (clock ?c) (concat (map (\<lambda>i. filter (\<lambda>_. True) (contents ?c (L (slot_at ?c i)))) [0..<nslots ?c])) (contents ?c (L (gc_at ?c)))"
    using sweep_ok [OF I0 ds st] by blast
  have emp: "L' (slot_at c i) = []" if "i < nslots c" for i using c1(4) that f0 by simp
  let ?t = "apc_time c1"
  define c' where "c' = (snd ?t)\<lparr>h_stime := fst ?t, h_ninserts := 0, h_nentries := 0, h_nhits := 0, h_nmisses := 0,
    h_lastkey := no_key\<rparr>"
  have cf: "same_config c c1"
    using same_config_trans [OF _ same_core_config [OF c1(3)]] by simp
  note k1 = same_config_sel [OF cf] and fn1 = same_config_fun [OF cf]
  have "members (slots c1) L' = {}" using emp fn1(4) by (auto simp: members_def slots_def)
  then have z: "h_nentries c1 = 0" "h_mem_size c1 = 0" using contentD(3,4) [OF cache_invD(5) [OF c1(2)]] by simp_all
  obtain r where r: "snd ?t = c1\<lparr>request_time := r\<rparr>" using apc_time_ok by blast
  have inv': "cache_inv c' L'"
    using c1(2) cache_inv_fields(1) [of c' c1 L'] z(1) by (simp add: c'_def r)
  have "same_config c1 c'" by (simp add: c'_def r same_config_def config_def core_def)
  then have cfg: "same_config c c'" by (rule same_config_trans [OF cf])
  have "contents c' = contents c1" by (simp add: c'_def r contents_def fun_eq_iff)
  moreover have "h_mem_size c' = 0" "h_ncleanups c' = h_ncleanups c"
    using z(2) same_core_sel(18) [OF c1(3)] by (simp_all add: c'_def r)
  moreover have "apc_cache_wlocked_real_expunge c = Some c'"
    using c1(1) by (simp add: apc_cache_wlocked_real_expunge_def Let_def c'_def)
  moreover have "h_nentries c' = 0" "h_lastkey c' = no_key" "h_nhits c' = 0" "h_nmisses c' = 0" "h_ninserts c' = 0"
    by (simp_all add: c'_def)
  ultimately show ?thesis using inv' cfg emp c1(5) f0 by auto
qed

lemma sweep_expire:
  assumes "i < nslots c1" "same_core c c1"
  shows "sweep_step (\<lambda>e. apc_cache_entry_expired c e t) i (\<lambda>i c. expire_slot t (slot_addr c i) c) c1"
  unfolding sweep_step_def
proof (intro allI impI)
  fix L assume I: "cache_inv c1 L"
  have ex: "apc_cache_entry_expired c = apc_cache_entry_expired c1"
    using same_config_fun(5) [OF same_core_config [OF assms(2)]] by simp
  have l: "L (slot_at c1 i) = [] @ L (slot_at c1 i)" by simp
  from expire_slot_ok [OF I assms(1) l, of t] header_addrs(2) [OF cache_invD(6) [OF I] assms(1)]
  show "\<exists>c'. expire_slot t (slot_addr c1 i) c1 = Some c' \<and> cache_inv c' (drop_list c1 L (slot_at c1 i)
        (filter (\<lambda>x. \<not> apc_cache_entry_expired c (strip (dat c1 x)) t) (L (slot_at c1 i)))
        (filter (\<lambda>x. apc_cache_entry_expired c (strip (dat c1 x)) t) (L (slot_at c1 i)))) \<and>
      evicted c1 (set (filter (\<lambda>x. apc_cache_entry_expired c (strip (dat c1 x)) t) (L (slot_at c1 i)))) c'"
    by (simp add: ex)
qed

subsection \<open>Defragmentation\<close>

lemma defrag_ok:
  assumes I: "cache_inv c L"
  shows "\<exists>c' L'. apc_sma_defrag apc_cache_wlocked_move_entry c = Some c' \<and> cache_inv c' L' \<and>
    (\<forall>a\<in>heads c. contents c' (L' a) = contents c (L a)) \<and>
    c' = c\<lparr>blk := blk c', avail := avail c', dat := dat c'\<rparr> \<and> avail c \<le> avail c'"
proof -
  note D = cache_invD [OF I]
  define V where "V = (\<lambda>a. contents c (L a))"
  have J: "stored V (sma_allocs c) c" by (rule storedI [OF D(4,5)]) (simp add: V_def)
  obtain c' where c': "apc_sma_defrag apc_cache_wlocked_move_entry c = Some c'" "sma_ready c'"
    "stored V (sma_allocs c') c'" "avail c \<le> avail c'"
    "c' = c\<lparr>sma_lock_results := tl (sma_lock_results c), blk := blk c', dat := dat c', avail := avail c'\<rparr>"
    using entries.defrag_total [OF D(1) J] by blast
  obtain L' where L': "cache_layout (sma_allocs c') c' L'" "cache_content (sma_allocs c') c' L'"
    "\<forall>a\<in>heads c'. contents c' (L' a) = V a"
    using c'(3) by (auto simp: stored_def)
  have e: "c' = c\<lparr>blk := blk c', avail := avail c', dat := dat c'\<rparr>"
    by (subst c'(5)) (use D(3) in \<open>cases c; simp\<close>)
  have "same_config c c'" by (subst e) simp
  then have h: "heads c' = heads c" by (rule same_config_fun(3))
  have "sma_lock_results c' = []" by (subst e) (simp add: D(3))
  then have "cache_inv c' L'" using c'(2) L'(1,2) by (simp add: cache_inv_def)
  then show ?thesis using c'(1,4) e L'(3) h by (auto simp: V_def)
qed

lemma contiguous_loop_total:
  assumes "dll m a fs z" "0 \<notin> set fs" "z \<noteq> 0" "fnext (m z) = 0"
  shows "\<exists>b. contiguous_loop m r a = Some b"
  using assms
proof (induction fs arbitrary: a)
  case Nil
  then show ?case
    by (simp add: contiguous_loop.simps [of m r a] contiguous_loop.simps [of m r z]) blast
next
  case (Cons f fs)
  then have "\<exists>b. contiguous_loop m r f = Some b" by simp
  with Cons.prems show ?case by (auto simp: contiguous_loop.simps [of m r a])
qed

lemma contiguous_total:
  assumes r: "sma_ready s" and l: "sma_lock_results s = []"
  shows "\<exists>b. apc_sma_check_avail_contiguous n s = Some (b, s) \<and> (n \<le> sma_max_alloc_size s \<longrightarrow> b = sma_fits n s)"
proof -
  have ok: "sma_ok s" and nl: "\<not> sma_locked s" using r by (simp_all add: sma_ready_def)
  have w: "lock_works s" using l by (simp add: lock_works_def)
  have inv: "sma_inv s (sma_blocks s) (sma_frees s)" using ok by (simp add: sma_ok_def)
  then have "heap_inv (blk s) (hdr_size s) (seg_end s) (sma_blocks s) (sma_frees s)" by (simp add: sma_inv_def)
  note hw = heap_inv_walk [OF this]
  obtain b0 where b0: "contiguous_loop (blk s) (alignword (uadd n BHDR)) (hdr_size s) = Some b0"
    using contiguous_loop_total [OF hw(1-4)] by blast
  have al: "after_lock s = s" using l by (cases s) simp
  have un: "s\<lparr>sma_locked := False, sma_lock_results := tl (sma_lock_results s)\<rparr> = s"
    "(after_lock s)\<lparr>sma_locked := False\<rparr> = s" using nl l by (cases s, simp)+
  have "\<exists>b. apc_sma_check_avail_contiguous n s = Some (b, s)"
    using sma_lock_eq [OF nl] w b0 un by (auto simp: apc_sma_check_avail_contiguous_def Let_def sma_unlock_def)
  then show ?thesis using apc_sma_check_avail_contiguous_fits [OF r, of n] w by fastforce
qed

subsection \<open>The expunge callback\<close>

definition wanted :: "('v, 'x) cstate \<Rightarrow> nat \<Rightarrow> nat" where
  "wanted c sz = (if 0 < c_smart c then umul (nat (c_smart c)) sz else sz)"

text \<open>What an expunge does to the slots: it removes the expired entries, or everything.\<close>

definition slots_as :: "('v, 'x) cstate \<Rightarrow> (nat \<Rightarrow> nat list) \<Rightarrow> (nat \<Rightarrow> 'v entry list) \<Rightarrow> bool" where
  "slots_as c L f \<longleftrightarrow> (\<forall>i<nslots c. contents c (L (slot_at c i)) = f i)"

definition unexpired :: "('v, 'x) cstate \<Rightarrow> int \<Rightarrow> 'v entry list \<Rightarrow> 'v entry list" where
  "unexpired c t = filter (\<lambda>e. \<not> apc_cache_entry_expired c e t)"

lemma expunge_locked_ok:
  fixes c :: "('v, 'x) cstate"
  assumes I: "cache_inv c L"
  shows "\<exists>c' L'. expunge_locked (h_ncleanups c) t sz c = Some (True, apc_cache_wunlock c') \<and> cache_inv c' L' \<and>
    same_config c c' \<and>
    (slots_as c' L' (\<lambda>i. []) \<or>
     slots_as c' L' (\<lambda>i. unexpired c t (contents c (L (slot_at c i)))) \<and>
     (wanted c sz \<le> sma_max_alloc_size c \<longrightarrow> sma_fits (wanted c sz) c'))"
proof -
  let ?P = "\<lambda>e. apc_cache_entry_expired c e t" and ?sz = "wanted c sz"
  have st: "sweep_step ?P i (\<lambda>i c. expire_slot t (slot_addr c i) c) c1"
    if "i \<in> set [0..<nslots c]" "same_core c c1" for i c1
    by (rule sweep_expire) (use that same_core_sel(10) [OF that(2)] in simp_all)
  have ds: "distinct [0..<nslots c]" "set [0..<nslots c] \<subseteq> {..<nslots c}" by auto
  obtain c1 L1 where c1: "for_slots [0..<nslots c] (\<lambda>i c. expire_slot t (slot_addr c i) c) c = Some c1"
    "cache_inv c1 L1" "same_core c c1"
    "\<forall>j<nslots c. contents c1 (L1 (slot_at c j)) = (if j \<in> set [0..<nslots c] then filter (\<lambda>e. \<not> ?P e) (contents c (L (slot_at c j))) else contents c (L (slot_at c j)))"
    using sweep_ok [OF I ds st] by blast
  obtain c2 L2 where c2: "apc_cache_wlocked_gc c1 = Some c2" "cache_inv c2 L2" "same_core c1 c2"
    "\<forall>j<nslots c. contents c2 (L2 (slot_at c j)) = contents c1 (L1 (slot_at c j))"
  proof -
    obtain c2 where c2: "apc_cache_wlocked_gc c1 = Some c2"
      "cache_inv c2 (L1(gc_at c1 := filter (\<lambda>x. gc_keeps c1 (clock c1) (dat c1 x)) (L1 (gc_at c1))))"
      "collected c1 (set (filter (\<lambda>x. \<not> gc_keeps c1 (clock c1) (dat c1 x)) (L1 (gc_at c1)))) c2"
      using gc_ok [OF c1(2)] by blast
    have "slot_at c j \<noteq> gc_at c1" if "j < nslots c" for j
      using header_addrs(9) [OF cache_invD(6) [OF c1(2)], of j] that same_core_addrs(1) [OF c1(3)] same_core_sel(10) [OF c1(3)]
      by simp
    then show ?thesis using that c2 contents_collected [OF c2(3)] by (auto simp: collected_def)
  qed
  have s2: "same_core c c2" using same_core_trans [OF c1(3) c2(3)] .
  note k2 = same_core_sel [OF s2] and f2 = same_core_addrs [OF s2]
  have un2: "slots_as c2 L2 (\<lambda>i. unexpired c t (contents c (L (slot_at c i))))"
    using c2(4) c1(4) f2 k2(10) by (simp add: slots_as_def unexpired_def)
  define fin where "fin = (\<lambda>c :: ('v, 'x) cstate. c\<lparr>h_ncleanups := int64_of (h_ncleanups c + 1)\<rparr>)"
  have fin: "cache_inv (fin c) L = cache_inv c L" "same_config c (fin c)" "slots_as (fin c) L f = slots_as c L f"
    "sma_fits n (fin c) = sma_fits n c" for c :: "('v, 'x) cstate" and L f n
    using cache_inv_fields [of "fin c" c] sma_cong(5) [of "fin c" c n]
    by (simp_all add: fin_def slots_as_def contents_def)
  have clear: "\<exists>c' L'. Option.bind (apc_cache_wlocked_real_expunge c3) (\<lambda>c3. Some (True, apc_cache_wunlock (fin c3))) =
      Some (True, apc_cache_wunlock c') \<and> cache_inv c' L' \<and> same_config c c' \<and> slots_as c' L' (\<lambda>i. [])"
    if i3: "cache_inv c3 L3" and s3: "same_config c c3" for c3 L3
  proof -
    obtain c4 L4 where c4: "apc_cache_wlocked_real_expunge c3 = Some c4" "cache_inv c4 L4" "same_config c3 c4"
      "\<forall>i<nslots c3. L4 (slot_at c3 i) = []"
      using real_expunge_ok [OF i3] by blast
    have "slots_as c4 L4 (\<lambda>i. [])"
      using c4(4) same_config_sel(5) [OF c4(3)] same_config_fun(1) [OF c4(3)] by (simp add: slots_as_def)
    then show ?thesis
      using c4 fin same_config_trans [OF same_config_trans [OF s3 c4(3)] fin(2)]
      by (intro exI [of _ "fin c4"] exI [of _ L4]) simp
  qed
  have run: "expunge_locked (h_ncleanups c) t sz c =
      (if \<not> apc_sma_check_avail ?sz c2
       then Option.bind (apc_cache_wlocked_real_expunge c2) (\<lambda>c3. Some (True, apc_cache_wunlock (fin c3)))
       else Option.bind (apc_sma_defrag apc_cache_wlocked_move_entry
               (c2\<lparr>h_ndefragmentations := int64_of (h_ndefragmentations c2 + 1)\<rparr>)) (\<lambda>c3.
            Option.bind (apc_sma_check_avail_contiguous ?sz c3) (\<lambda>r.
              if \<not> fst r then Option.bind (apc_cache_wlocked_real_expunge (snd r)) (\<lambda>c3. Some (True, apc_cache_wunlock (fin c3)))
              else Some (True, apc_cache_wunlock (fin ((snd r)\<lparr>h_lastkey := no_key\<rparr>))))))"
    unfolding expunge_locked_def Let_def wanted_def fin_def using c1(1) c2(1) by simp
  show ?thesis
  proof (cases "apc_sma_check_avail ?sz c2")
    case False
    with clear [OF c2(2) same_core_config [OF s2]] show ?thesis unfolding run by auto
  next
    case True
    let ?c = "c2\<lparr>h_ndefragmentations := int64_of (h_ndefragmentations c2 + 1)\<rparr>"
    have i2: "cache_inv ?c L2" using c2(2) cache_inv_fields(1) [of ?c c2] by simp
    obtain c3 L3 where c3: "apc_sma_defrag apc_cache_wlocked_move_entry ?c = Some c3" "cache_inv c3 L3"
      "\<forall>a\<in>heads ?c. contents c3 (L3 a) = contents ?c (L2 a)"
      "c3 = ?c\<lparr>blk := blk c3, avail := avail c3, dat := dat c3\<rparr>"
      using defrag_ok [OF i2] by blast
    have "same_config ?c c3" by (subst c3(4)) simp
    moreover have "same_config c ?c" using same_config_trans [OF same_core_config [OF s2]] by simp
    ultimately have s3: "same_config c c3" by (rule same_config_trans [rotated])
    have "heads ?c = heads c2" "contents ?c = contents c2"
      by (simp_all add: heads_def gc_at_def slots_def slot_at_def contents_def fun_eq_iff)
    then have un3: "slots_as c3 L3 (\<lambda>i. unexpired c t (contents c (L (slot_at c i))))"
      using un2 c3(3) same_config_fun(1) [OF s3] same_config_sel(5) [OF s3] f2 k2(10)
        header_addrs(8) [OF cache_invD(6) [OF c2(2)]]
      by (simp add: slots_as_def)
    obtain b where b: "apc_sma_check_avail_contiguous ?sz c3 = Some (b, c3)"
      "?sz \<le> sma_max_alloc_size c3 \<longrightarrow> b = sma_fits ?sz c3"
      using contiguous_total [OF cache_invD(1,3) [OF c3(2)]] by blast
    show ?thesis
    proof (cases b)
      case False
      with clear [OF c3(2) s3] True c3(1) b(1) show ?thesis unfolding run by auto
    next
      case bt: True
      let ?l = "c3\<lparr>h_lastkey := no_key\<rparr>"
      have l: "cache_inv ?l L3" "same_config c ?l" "slots_as ?l L3 f = slots_as c3 L3 f" "sma_fits n ?l = sma_fits n c3" for f n
        using c3(2) cache_inv_fields [of ?l c3] sma_cong(5) [of ?l c3 n] same_config_trans [OF s3]
        by (simp_all add: slots_as_def contents_def)
      show ?thesis
        unfolding run
        using True bt c3(1) b fin(1) [of ?l] fin(3,4) l un3 same_config_trans [OF l(2) fin(2)] same_config_sel(18) [OF s3]
        by (intro exI [of _ "fin ?l"] exI [of _ L3]) simp
    qed
  qed
qed

lemma default_expunge_ok:
  assumes I: "cache_inv c L" and l: "lockable c" and x: "cache_exists c"
  shows "\<exists>c' L'. apc_cache_default_expunge sz c = Some (True, c') \<and> cache_inv c' L' \<and> same_env c c' \<and>
    (if lock_gets c
     then slots_as c' L' (\<lambda>i. []) \<or>
       slots_as c' L' (\<lambda>i. unexpired c (fst (apc_time c)) (contents c (L (slot_at c i)))) \<and>
       (wanted c sz \<le> sma_max_alloc_size c \<longrightarrow> sma_fits (wanted c sz) c')
     else slots_as c' L' (\<lambda>i. contents c (L (slot_at c i))))"
proof -
  let ?t = "fst (apc_time c)"
  define c0 where "c0 = snd (apc_time c)"
  note t0 = apc_time_inv [of c, folded c0_def]
  note k0 = same_config_sel [OF t0(2)] and f0 = same_config_fun [OF t0(2)]
  have I0: "cache_inv c0 L" and l0: "lockable c0" and g0: "lock_gets c0 = lock_gets c"
    using I t0(1) l k0(10,11,12) by (simp_all add: lockable_def lock_gets_def)
  note lk = lock_as_ok [OF l0, of Wlocked]
  show ?thesis
  proof (cases "lock_gets c")
    case False
    let ?c' = "c0\<lparr>cache_lock_results := tl (cache_lock_results c0)\<rparr>"
    have "apc_cache_default_expunge sz c = Some (True, ?c')"
      using x lk g0 False by (simp add: apc_cache_default_expunge_def apc_cache_wlock_def Let_def c0_def)
    moreover have "slots_as ?c' L (\<lambda>i. contents c (L (slot_at c i)))"
      using f0 k0(5) t0(3) by (simp add: slots_as_def slot_at_def [of ?c'] slot_at_def [of c0, symmetric])
    moreover have "same_env c ?c'" using same_env_trans [OF same_config_env [OF t0(2)]] by simp
    ultimately show ?thesis using False I0 by (intro exI [of _ ?c'] exI [of _ L]) simp
  next
    case True
    let ?c = "locked Wlocked c0"
    have hc: "h_ncleanups ?c = h_ncleanups c" using t0(4) by (simp add: locked_def)
    have Ic: "cache_inv ?c L" using I0 by simp
    obtain c' L' where c': "expunge_locked (h_ncleanups ?c) ?t sz ?c = Some (True, apc_cache_wunlock c')"
      "cache_inv c' L'" "same_config ?c c'"
      "slots_as c' L' (\<lambda>i. []) \<or>
       slots_as c' L' (\<lambda>i. unexpired ?c ?t (contents ?c (L (slot_at ?c i)))) \<and>
       (wanted ?c sz \<le> sma_max_alloc_size ?c \<longrightarrow> sma_fits (wanted ?c sz) c')"
      using expunge_locked_ok [OF Ic] by blast
    have eq: "apc_cache_default_expunge sz c = Some (True, apc_cache_wunlock c')"
      using x lk g0 True c'(1) hc by (simp add: apc_cache_default_expunge_def apc_cache_wlock_def Let_def c0_def)
    have env: "same_env c (apc_cache_wunlock c')"
      using same_env_trans [OF same_config_env [OF t0(2)] same_env_unlock(1) [OF l0 c'(3)]] .
    have sl: "slots_as (apc_cache_wunlock c') L' f = slots_as c' L' f" for f
      by (simp add: slots_as_def) (simp add: apc_cache_wunlock_def slot_at_def)
    have ft: "sma_fits n (apc_cache_wunlock c') = sma_fits n c'" for n
      by (rule sma_cong(5)) (simp_all add: apc_cache_wunlock_def)
    have lc: "slot_at ?c = slot_at c0" "sma_max_alloc_size ?c = sma_max_alloc_size c0" "wanted ?c = wanted c0"
      "unexpired ?c = unexpired c0"
      by (simp_all add: locked_def slot_at_def wanted_def unexpired_def apc_cache_entry_expired_def
          apc_cache_entry_soft_expired_def fun_eq_iff)
    have "wanted c0 = wanted c" "unexpired c0 = unexpired c"
      using k0(8) f0(5) by (simp_all add: wanted_def unexpired_def fun_eq_iff)
    with c'(4) lc f0 k0(18) t0(3) have "slots_as c' L' (\<lambda>i. []) \<or>
       slots_as c' L' (\<lambda>i. unexpired c ?t (contents c (L (slot_at c i)))) \<and>
       (wanted c sz \<le> sma_max_alloc_size c \<longrightarrow> sma_fits (wanted c sz) c')" by simp
    then show ?thesis using True eq env c'(2) sl ft by (intro exI [of _ "apc_cache_wunlock c'"] exI [of _ L']) simp
  qed
qed

end
