(* ===== verification/Cache_Client.thy ===== *)
theory Cache_Client imports Cache_Expunge begin

text \<open>
  Allocating and writing entries: the cache as the client of \<open>apc_sma_malloc\<close> and as the provider of its
  expunge callback, \<open>apc_persist\<close>, and writes to the fields of an entry that are not links.
\<close>

subsection \<open>The cache as an expunger\<close>

lemma cache_okD: "cache_ok c \<Longrightarrow> sma_ready c" "cache_ok c \<Longrightarrow> sma_lock_results c = []"
  by (simp_all add: cache_ok_def cache_inv_def)

lemma after_lock_nil: "sma_lock_results c = [] \<Longrightarrow> after_lock c = c"
  by (cases c) simp

interpretation cache_expunge: expunger "\<lambda>c. cache_ok c \<and> lockable c" apc_cache_default_expunge
proof (unfold_locales, goal_cases)
  case (1 s)
  then show ?case by (simp add: cache_okD)
next
  case (2 s)
  moreover have "after_lock s = s" by (rule after_lock_nil) (use 2 cache_okD(2) in blast)
  ultimately show ?case by (simp only:)
next
  case (3 s n)
  show ?case
  proof (cases "cache_exists s")
    case False
    with 3 show ?thesis by (simp add: apc_cache_default_expunge_def)
  next
    case True
    from 3 have I: "cache_inv s (cache_lists s)" by (simp add: cache_ok_def)
    obtain c' L' where c': "apc_cache_default_expunge n s = Some (True, c')" "cache_inv c' L'" "same_env s c'"
      using default_expunge_ok [OF I _ True] 3 by blast
    then show ?thesis using 3 same_env_fun(7) [OF c'(3)] cache_inv_ok by auto
  qed
qed

subsection \<open>A new allocation\<close>

lemma alloc_ok:
  assumes I: "cache_inv c L" and s: "malloc_served apc_persist_sma_init_entry n c p c'" and n: "0 < n"
  shows "cache_inv c' L" "p \<in> sma_live c'" "p \<noteq> c_header c" "p \<notin> members (heads c) L" "same_config c c'"
    "a \<in> heads c \<Longrightarrow> contents c' (L a) = contents c (L a)" "e_ref_count (dat c' p) = 1" "n \<le> sma_room c' p"
    "p \<notin> heads c"
proof -
  note D = cache_invD [OF I] and lay = layoutD [OF cache_invD(4) [OF I]] and ad = header_addrs [OF cache_invD(6) [OF I]]
  have m: "sma_ready c'" "p \<notin> sma_live c" "sma_live c' = insert p (sma_live c)" "n \<le> sma_room c' p"
    "\<forall>q\<in>sma_live c. sma_room c' q = sma_room c q"
    and c0: "c' = c\<lparr>sma_lock_results := tl (sma_lock_results c), blk := blk c', avail := avail c',
      dat := apc_persist_sma_init_entry p (dat c)\<rparr>"
    using s by (auto simp: malloc_served_def)
  have c': "c' = c\<lparr>blk := blk c', avail := avail c', dat := apc_persist_sma_init_entry p (dat c)\<rparr>"
    by (subst c0) (use D(3) in \<open>cases c; simp\<close>)
  show rm: "n \<le> sma_room c' p" by fact
  have d: "dat c' = (dat c)(p := (dat c p)\<lparr>e_ref_count := 1\<rparr>)" by (subst c') (simp add: apc_persist_sma_init_entry_def)
  have core: "same_core c c'" by (subst c') (simp add: same_core_def core_def)
  show "same_config c c'" by (rule same_core_config [OF core])
  note k = same_core_sel [OF core] and f = same_core_addrs [OF core]
  have hl: "c_header c \<in> sma_live c" using header_okD(6) [OF D(6)] sma_allocs_dom [of c] by blast
  have mem: "x \<in> sma_live c \<and> x \<noteq> p" if "x \<in> members (heads c) L" for x using D(8) [OF that] m(2) by auto
  show pl: "p \<in> sma_live c'" "p \<noteq> c_header c" "p \<notin> members (heads c) L" "e_ref_count (dat c' p) = 1"
    using m mem hl d by auto
  have al: "sma_allocs c' = (sma_allocs c)(p \<mapsto> sma_room c' p)" by (rule sma_allocs_update [OF m(3,5,2)])
  obtain h where h: "sma_allocs c (c_header c) = Some h" "header_bytes c + 8 * nslots c \<le> h"
    using header_okD(6) [OF D(6)] by blast
  show ph: "p \<notin> heads c"
  proof
    assume "p \<in> heads c"
    then have "c_header c < p" "p < c_header c + sma_room c' (c_header c)"
      using ad(4) [of p] h m(5) hl sma_allocs_room [OF hl] by auto
    with sma_live_disjoint [of c' "c_header c" p] m(1,3) hl show False by (auto simp: sma_ready_def)
  qed
  have nx: "e_next (dat c' x) = e_next (dat c x)" "e_prev (dat c' x) = e_prev (dat c x)" for x by (simp_all add: d)
  have "cache_layout (sma_allocs c') c' L"
  proof (rule layoutI)
    show "header_ok (sma_allocs c') c'" by (rule header_ok_core [OF D(6) core]) (use al pl in simp)
    show "lists (c_header c') (dat c') (heads c') L"
      using lists_cong [of "heads c" L "dat c'" "dat c" "c_header c"] nx D(7) f(4) k(7) by simp
    show "0 < z" if "sma_allocs c' x = Some z" for x z using that al lay(3) m(4) n by (auto split: if_splits)
    show "x \<in> dom (sma_allocs c') \<and> x \<noteq> c_header c'" if "x \<in> members (heads c') L" for x
      using that mem [of x] D(8) [of x] f(4) k(7) m(3) sma_allocs_dom [of c'] by auto
    show "0 < e_ref_count (dat c' x)" if "x \<in> dom (sma_allocs c')" "x \<noteq> c_header c'" "x \<notin> members (heads c') L" for x
      using that lay(5) [of x] f(4) k(7) al d by (auto split: if_splits)
  qed
  moreover have "cache_content (sma_allocs c') c' L"
  proof (rule content_cong [OF D(5) core])
    fix x assume "x \<in> members (slots c) L"
    then have "x \<noteq> p" using mem members_heads(1) [of c L] by blast
    then show "sma_allocs c' x = sma_allocs c x \<and> e_key (dat c' x) = e_key (dat c x) \<and>
      e_hash (dat c' x) = e_hash (dat c x) \<and> e_mem_size (dat c' x) = e_mem_size (dat c x)" using al d by simp
  qed (rule refl, (subst c', simp)+)
  moreover have "sma_lock_results c' = []" using k(5) D(3) by simp
  ultimately show "cache_inv c' L" using m(1) by (simp add: cache_inv_def)
  show "contents c' (L a) = contents c (L a)" if "a \<in> heads c"
    using mem members_mem [OF that, of _ L] d by (auto simp: contents_def)
qed

subsection \<open>Writing to an entry\<close>

lemma upd_entry_sel [simp]:
  "dat (upd_entry p f c) = (dat c)(p := f (dat c p))" "same_core c (upd_entry p f c)"
  "sma_allocs (upd_entry p f c) = sma_allocs c" "sma_ready (upd_entry p f c) = sma_ready c"
  "sma_live (upd_entry p f c) = sma_live c" "sma_room (upd_entry p f c) = sma_room c"
  using sma_cong [of "upd_entry p f c" c]
  by (simp_all add: upd_entry_def sma_ready_def same_core_def core_def)

lemma upd_entry_slots [simp]:
  "slot_at (upd_entry p f c) = slot_at c" "gc_at (upd_entry p f c) = gc_at c" "heads (upd_entry p f c) = heads c"
  "slots (upd_entry p f c) = slots c" "nslots (upd_entry p f c) = nslots c" "c_header (upd_entry p f c) = c_header c"
  "h_nentries (upd_entry p f c) = h_nentries c" "h_mem_size (upd_entry p f c) = h_mem_size c"
  "sma_lock_results (upd_entry p f c) = sma_lock_results c" "zstr_hash (upd_entry p f c) = zstr_hash c"
  "entry_level (upd_entry p f c) = entry_level c" "cache_lock (upd_entry p f c) = cache_lock c"
  "cache_lock_results (upd_entry p f c) = cache_lock_results c" "cache_exists (upd_entry p f c) = cache_exists c"
  "h_ninserts (upd_entry p f c) = h_ninserts c" "h_lastkey (upd_entry p f c) = h_lastkey c"
  "h_nhits (upd_entry p f c) = h_nhits c" "h_nmisses (upd_entry p f c) = h_nmisses c"
  by (simp_all add: upd_entry_def slot_at_def gc_at_def heads_def slots_def fun_eq_iff)

text \<open>The fields a write to a member may not touch.\<close>

definition keeps_place :: "('v entry \<Rightarrow> 'v entry) \<Rightarrow> 'v entry \<Rightarrow> bool" where
  "keeps_place f e \<longleftrightarrow> e_next (f e) = e_next e \<and> e_prev (f e) = e_prev e \<and> e_key (f e) = e_key e \<and>
     e_hash (f e) = e_hash e \<and> e_mem_size (f e) = e_mem_size e"

lemma upd_member_ok:
  assumes I: "cache_inv c L" and p: "p \<in> members (heads c) L" and f: "keeps_place f (dat c p)"
  shows "cache_inv (upd_entry p f c) L"
proof -
  note D = cache_invD [OF I]
  let ?c = "upd_entry p f c"
  have e: "e_next (dat ?c x) = e_next (dat c x)" "e_prev (dat ?c x) = e_prev (dat c x)" "e_key (dat ?c x) = e_key (dat c x)"
    "e_hash (dat ?c x) = e_hash (dat c x)" "e_mem_size (dat ?c x) = e_mem_size (dat c x)" for x
    using f by (auto simp: keeps_place_def)
  have "cache_layout (sma_allocs c) ?c L"
    by (rule layout_cong [OF D(4)]) (use e p layoutD(5) [OF D(4)] in auto)
  moreover have "cache_content (sma_allocs c) ?c L" by (rule content_cong [OF D(5)]) (use e in auto)
  ultimately show ?thesis using D(1,3) by (simp add: cache_inv_def)
qed

lemma upd_outside_ok:
  assumes I: "cache_inv c L" and p: "p \<notin> members (heads c) L" "p \<notin> heads c" and r: "0 < e_ref_count (f (dat c p))"
  shows "cache_inv (upd_entry p f c) L"
    "\<And>a. a \<in> heads c \<Longrightarrow> contents (upd_entry p f c) (L a) = contents c (L a)"
proof -
  note D = cache_invD [OF I]
  let ?c = "upd_entry p f c"
  have "cache_layout (sma_allocs c) ?c L"
    by (rule layout_cong [OF D(4)]) (use p r layoutD(5) [OF D(4)] in auto)
  moreover have "cache_content (sma_allocs c) ?c L"
    by (rule content_cong [OF D(5)]) (use p members_heads(1) [of c L] in auto)
  ultimately show "cache_inv ?c L" using D(1,3) by (simp add: cache_inv_def)
  fix a assume "a \<in> heads c"
  then have "p \<notin> set (L a)" using p members_mem [of a "heads c" p L] by blast
  then show "contents ?c (L a) = contents c (L a)" by (auto simp: contents_def)
qed

subsection \<open>Persisting\<close>

text \<open>What happened to the slots while memory was made for a new entry.\<close>

definition made_room :: "('v, 'x) cstate \<Rightarrow> (nat \<Rightarrow> nat list) \<Rightarrow> ('v, 'x) cstate \<Rightarrow> (nat \<Rightarrow> nat list) \<Rightarrow> bool" where
  "made_room c L c' L' \<longleftrightarrow>
     slots_as c' L' (\<lambda>i. contents c (L (slot_at c i))) \<or>
     slots_as c' L' (\<lambda>i. unexpired c (fst (apc_time c)) (contents c (L (slot_at c i)))) \<or> slots_as c' L' (\<lambda>i. [])"

lemma made_roomI:
  assumes "made_room c L c1 L1" "nslots c2 = nslots c1" "\<forall>i<nslots c1. contents c2 (L2 (slot_at c2 i)) = contents c1 (L1 (slot_at c1 i))"
  shows "made_room c L c2 L2"
  using assms by (auto simp: made_room_def slots_as_def)

lemma malloc_entry_ok:
  assumes I: "cache_inv c L" and l: "lockable c" and x: "cache_exists c" and n: "0 < n"
  shows "\<exists>r c' L'. apc_sma_malloc apc_cache_default_expunge apc_persist_sma_init_entry n c = Some (r, c') \<and>
    cache_inv c' L' \<and> same_env c c' \<and> made_room c L c' L' \<and>
    (case r of
       None \<Rightarrow> sma_max_alloc_size c < n \<or> \<not> sma_fits n c'
     | Some p \<Rightarrow> p \<in> sma_live c' \<and> p \<noteq> c_header c' \<and> p \<notin> members (heads c') L' \<and> p \<notin> heads c' \<and>
         e_ref_count (dat c' p) = 1 \<and> n \<le> sma_room c' p)"
proof -
  let ?ini = "apc_persist_sma_init_entry" and ?ex = "apc_cache_default_expunge"
  have "cache_ok c" by (rule cache_inv_ok [OF I])
  then have st: "cache_ok c \<and> lockable c" using l by simp
  have al: "after_lock c = c" by (rule after_lock_nil) (rule cache_invD(3) [OF I])
  obtain r c' c1 where m: "apc_sma_malloc ?ex ?ini n c = Some (r, c')" "c1 = c \<or> ?ex n c = Some (True, c1)"
    "cache_ok c1 \<and> lockable c1"
    "case r of None \<Rightarrow> (c' = c1 \<or> c' = after_lock c1) \<and>
        (sma_max_alloc_size c1 < n \<or> \<not> lock_works c1 \<or> \<not> sma_fits n c1 \<and> ?ex n c = Some (True, c1))
     | Some p \<Rightarrow> malloc_served ?ini n c1 p c'"
    using cache_expunge.malloc_total [OF st, of ?ini n] unfolding al by blast
  obtain L1 where L1: "cache_inv c1 L1" "same_env c c1" "made_room c L c1 L1"
  proof (cases "c1 = c")
    case True
    then show ?thesis using that [of L] I by (simp add: made_room_def slots_as_def)
  next
    case False
    then have e: "?ex n c = Some (True, c1)" using m(2) by blast
    obtain c2 L2 where c2: "?ex n c = Some (True, c2)" "cache_inv c2 L2" "same_env c c2"
      "if lock_gets c
       then slots_as c2 L2 (\<lambda>i. []) \<or>
         slots_as c2 L2 (\<lambda>i. unexpired c (fst (apc_time c)) (contents c (L (slot_at c i)))) \<and>
         (wanted c n \<le> sma_max_alloc_size c \<longrightarrow> sma_fits (wanted c n) c2)
       else slots_as c2 L2 (\<lambda>i. contents c (L (slot_at c i)))"
      using default_expunge_ok [OF I l x] by blast
    then show ?thesis using that [of L2] e by (auto simp: made_room_def split: if_splits)
  qed
  note D1 = cache_invD [OF L1(1)]
  have w1: "lock_works c1" "after_lock c1 = c1" using D1(3) after_lock_nil by (auto simp: lock_works_def)
  show ?thesis
  proof (cases r)
    case None
    then show ?thesis using m L1 w1 same_env_sel(17) [OF L1(2)] by auto
  next
    case (Some p)
    have sv: "malloc_served ?ini n c1 p c'" using m(4) Some by simp
    note a = alloc_ok [OF L1(1) sv n]
    note k = same_config_sel [OF a(5)] and f = same_config_fun [OF a(5)]
    have "made_room c L c' L1"
      by (rule made_roomI [OF L1(3)]) (use k f a(6) header_addrs(8) [OF D1(6)] in auto)
    then show ?thesis
      using m(1) Some a same_env_trans [OF L1(2) same_config_env [OF a(5)]] k f by (intro exI [of _ r]) auto
  qed
qed

lemma persist_ok:
  assumes I: "cache_inv c L" and l: "lockable c" and x: "cache_exists c"
    and img: "\<And>sz zv data. img key val = Some (sz, zv, data) \<Longrightarrow> 0 < sz"
  shows "\<exists>r c' L'. apc_persist img key val c = Some (r, c') \<and> cache_inv c' L' \<and> same_env c c' \<and>
    made_room c L c' L' \<and>
    (case r of
       None \<Rightarrow> True
     | Some a \<Rightarrow> pending c' L' a \<and> (\<exists>sz zv data. img key val = Some (sz, zv, data) \<and> e_mem_size (dat c' a) = int sz \<and>
         e_val (dat c' a) = zv \<and> e_data (dat c' a) = data \<and> e_key (dat c' a) = key \<and> e_ref_count (dat c' a) = 1))"
proof (cases "img key val")
  case None
  then show ?thesis using I by (intro exI [of _ None] exI [of _ c] exI [of _ L])
      (simp add: apc_persist_def made_room_def slots_as_def)
next
  case (Some t)
  obtain sz zv data where t: "t = (sz, zv, data)" by (cases t)
  have im: "img key val = Some (sz, zv, data)" using Some t by simp
  obtain r c1 L1 where m: "apc_sma_malloc apc_cache_default_expunge apc_persist_sma_init_entry sz c = Some (r, c1)"
    "cache_inv c1 L1" "same_env c c1" "made_room c L c1 L1"
    "case r of None \<Rightarrow> sma_max_alloc_size c < sz \<or> \<not> sma_fits sz c1
     | Some p \<Rightarrow> p \<in> sma_live c1 \<and> p \<noteq> c_header c1 \<and> p \<notin> members (heads c1) L1 \<and> p \<notin> heads c1 \<and>
         e_ref_count (dat c1 p) = 1 \<and> sz \<le> sma_room c1 p"
    using malloc_entry_ok [OF I l x img [OF im]] by blast
  show ?thesis
  proof (cases r)
    case None
    then show ?thesis using m im by (intro exI [of _ None] exI [of _ c1] exI [of _ L1]) (simp add: apc_persist_def)
  next
    case (Some a)
    let ?f = "\<lambda>e. e\<lparr>e_key := key, e_hash := zstr_hash c key, e_val := zv, e_data := data, e_mem_size := int sz\<rparr>"
    let ?c = "upd_entry a ?f c1"
    have a: "a \<in> sma_live c1" "a \<noteq> c_header c1" "a \<notin> members (heads c1) L1" "a \<notin> heads c1"
      "e_ref_count (dat c1 a) = 1" "sz \<le> sma_room c1 a"
      using m(5) Some by auto
    have u: "cache_inv ?c L1" "\<And>b. b \<in> heads c1 \<Longrightarrow> contents ?c (L1 b) = contents c1 (L1 b)"
      using upd_outside_ok [OF m(2) a(3,4), of ?f] a(5) by simp_all
    have "made_room c L ?c L1"
      by (rule made_roomI [OF m(4)]) (use u(2) header_addrs(8) [OF cache_invD(6) [OF m(2)]] in auto)
    moreover have "pending ?c L1 a"
      using a img [OF im] same_env_sel(12) [OF m(3)] by (simp add: pending_def)
    moreover have "apc_persist img key val c = Some (Some a, ?c)" using m(1) im Some by (simp add: apc_persist_def)
    moreover have "same_env c ?c"
      using same_env_trans [OF m(3) same_config_env [OF same_core_config [OF upd_entry_sel(2)]]] .
    ultimately show ?thesis
      using u(1) a(5) im by (intro exI [of _ "Some a"] exI [of _ ?c] exI [of _ L1]) simp
  qed
qed

end
