(* ===== verification/Cache_Map.thy ===== *)
theory Cache_Map imports Cache_Client begin

text \<open>
  The cache as a map from keys to entries (\<open>cache_map\<close>): what the operations on the lists mean for it, and
  the API functions of \<open>apc_cache.c\<close> stated over it.
\<close>

subsection \<open>From lists to the map\<close>

definition entry_at :: "('v, 'x) cstate \<Rightarrow> (nat \<Rightarrow> nat list) \<Rightarrow> string \<Rightarrow> nat option" where
  "entry_at c L key = find (\<lambda>x. e_key (dat c x) = key) (L (slot_at c (slot_of c key)))"

lemma slot_of_less: "cache_inv c L \<Longrightarrow> slot_of c key < nslots c"
  by (drule cache_invD(6), drule header_okD(2)) (simp add: slot_of_def)

lemma cache_map_find:
  "cache_inv c L \<Longrightarrow> cache_map c key = find (\<lambda>e. e_key e = key) (contents c (L (slot_at c (slot_of c key))))"
  by (frule slot_of_less [of c L key]) (simp add: cache_map_def view_lists(1))

lemma cache_map_entry:
  "cache_inv c L \<Longrightarrow> cache_map c key = map_option (\<lambda>x. strip (dat c x)) (entry_at c L key)"
  by (simp add: cache_map_find entry_at_def find_contents)

lemma cache_map_slots:
  assumes "cache_inv c L" "slots_as c L f"
  shows "cache_map c key = find (\<lambda>e. e_key e = key) (f (slot_of c key))"
  using assms slot_of_less [OF assms(1)] by (simp add: cache_map_find slots_as_def)

lemma slot_keys_distinct:
  assumes "cache_inv c L" "i < nslots c"
  shows "distinct (map e_key (contents c (L (slot_at c i))))"
  using contentD(2) [OF cache_invD(5) [OF assms(1)] assms(2)] by (simp add: contents_def comp_def)

lemma find_distinct_iff:
  "distinct (map g xs) \<Longrightarrow> find (\<lambda>e. g e = k) xs = Some e \<longleftrightarrow> e \<in> set xs \<and> g e = k"
  by (induction xs) (auto simp: image_iff)

lemma find_filter_key:
  assumes "distinct (map e_key xs)"
  shows "find (\<lambda>e. e_key e = k) (filter P xs) =
    (case find (\<lambda>e. e_key e = k) xs of Some e \<Rightarrow> if P e then Some e else None | None \<Rightarrow> None)"
  using assms
proof (induction xs)
  case (Cons x xs)
  have "find (\<lambda>e. e_key e = e_key x) xs = None" using Cons.prems by (auto simp: find_None_iff image_iff)
  with Cons show ?case by (auto split: option.splits)
qed simp

lemma entry_at_iff:
  assumes I: "cache_inv c L"
  shows "entry_at c L key = Some x \<longleftrightarrow> x \<in> members (slots c) L \<and> e_key (dat c x) = key"
proof -
  note D = cache_invD [OF I]
  have d: "distinct (map (\<lambda>x. e_key (dat c x)) (L (slot_at c (slot_of c key))))"
    by (rule contentD(2) [OF D(5) slot_of_less [OF I]])
  have "entry_at c L key = Some x \<longleftrightarrow> x \<in> set (L (slot_at c (slot_of c key))) \<and> e_key (dat c x) = key"
    unfolding entry_at_def by (rule find_distinct_iff [OF d])
  also have "\<dots> \<longleftrightarrow> x \<in> members (slots c) L \<and> e_key (dat c x) = key"
    using contentD(1) [OF D(5)] slot_of_less [OF I, of key]
    by (auto simp: members_slots slot_entry_def slot_of_def)
  finally show ?thesis .
qed

text \<open>Writing to an entry changes the map at its key only.\<close>

lemma cache_map_upd:
  assumes I: "cache_inv c L" and p: "p \<in> members (slots c) L" and f: "keeps_place f (dat c p)"
  shows "cache_map (upd_entry p f c) = (cache_map c)(e_key (dat c p) \<mapsto> strip (f (dat c p)))"
proof
  fix k
  let ?c = "upd_entry p f c"
  have I': "cache_inv ?c L" by (rule upd_member_ok [OF I _ f]) (use p members_heads(1) in blast)
  have key: "e_key (dat ?c x) = e_key (dat c x)" for x using f by (simp add: keeps_place_def)
  have at: "entry_at ?c L k = entry_at c L k" by (simp add: entry_at_def slot_of_def key del: upd_entry_sel(1))
  have "entry_at c L k = Some p \<longleftrightarrow> e_key (dat c p) = k" using entry_at_iff [OF I] p by simp
  then show "cache_map ?c k = ((cache_map c)(e_key (dat c p) \<mapsto> strip (f (dat c p)))) k"
    by (cases "entry_at c L k") (auto simp: cache_map_entry [OF I'] cache_map_entry [OF I] at)
qed

lemma cache_map_outside:
  assumes I: "cache_inv c L" and p: "p \<notin> members (heads c) L" "p \<notin> heads c" and r: "0 < e_ref_count (f (dat c p))"
  shows "cache_map (upd_entry p f c) = cache_map c"
proof
  fix k
  note u = upd_outside_ok [OF I p, of f, OF r]
  have "slot_at c (slot_of c k) \<in> heads c" using header_addrs(8) [OF cache_invD(6) [OF I] slot_of_less [OF I]] .
  from u(2) [OF this] show "cache_map (upd_entry p f c) k = cache_map c k"
    by (simp add: cache_map_find [OF u(1)] cache_map_find [OF I] slot_of_def del: upd_entry_sel)
qed

lemma cache_map_fields:
  assumes "blk c' = blk c" "dat c' = dat c" "hdr_size c' = hdr_size c" "sma_size c' = sma_size c"
    "c_header c' = c_header c" "header_bytes c' = header_bytes c" "nslots c' = nslots c" "zstr_hash c' = zstr_hash c"
  shows "cache_map c' = cache_map c"
proof -
  have "sma_blocks c' = sma_blocks c" using assms by (simp add: sma_blocks_def)
  moreover have "slot_of c' = slot_of c" "slot_at c' = slot_at c"
    using assms by (simp_all add: slot_of_def slot_at_def fun_eq_iff)
  moreover have "contents c' = contents c" using assms(2) by (simp add: contents_def fun_eq_iff)
  ultimately show ?thesis unfolding cache_map_def bucket_def cache_lists_def assms(2,5) by simp
qed

lemma cache_map_locks [simp]:
  "cache_map (locked l c) = cache_map c" "cache_map (c\<lparr>cache_lock_results := rs\<rparr>) = cache_map c"
  "cache_map (apc_cache_wunlock c) = cache_map c" "cache_map (apc_cache_runlock c) = cache_map c"
  "cache_map (snd (apc_time c)) = cache_map c"
  "cache_map (c\<lparr>h_nhits := n\<rparr>) = cache_map c" "cache_map (c\<lparr>h_nmisses := n\<rparr>) = cache_map c"
  "cache_map (c\<lparr>h_lastkey := lk\<rparr>) = cache_map c" "cache_map (c\<lparr>entry_level := lv\<rparr>) = cache_map c"
proof -
  show "cache_map (snd (apc_time c)) = cache_map c"
    using apc_time_ok [of c] by (auto intro: cache_map_fields)
qed (rule cache_map_fields; simp add: locked_def apc_cache_wunlock_def apc_cache_runlock_def)+

lemma made_room_map:
  assumes I: "cache_inv c L" and I': "cache_inv c' L'" and e: "same_env c c'" and m: "made_room c L c' L'"
  shows "cache_map c' k = cache_map c k \<or> cache_map c' k = None"
proof -
  have s: "slot_of c' k = slot_of c k" using same_env_fun(6) [OF e] by simp
  have i: "slot_of c k < nslots c" by (rule slot_of_less [OF I])
  note map = cache_map_slots [OF I', of _ k] cache_map_find [OF I, of k]
  from m consider "slots_as c' L' (\<lambda>i. contents c (L (slot_at c i)))"
    | "slots_as c' L' (\<lambda>i. unexpired c (fst (apc_time c)) (contents c (L (slot_at c i))))" | "slots_as c' L' (\<lambda>i. [])"
    unfolding made_room_def by blast
  then show ?thesis
  proof cases
    case 2
    from map(1) [OF 2] show ?thesis
      unfolding unexpired_def s map(2) find_filter_key [OF slot_keys_distinct [OF I i]]
      by (auto split: option.splits)
  qed (use map s in auto)
qed

subsection \<open>The map after an insert\<close>

lemma a_insert_find:
  assumes a: "a_insert c exclusive new es g = (b, es', g')" and d: "distinct (map e_key es)"
  shows "b \<longleftrightarrow> \<not> (exclusive \<and> (\<exists>e. find (\<lambda>e. e_key e = e_key new) es = Some e \<and>
      \<not> apc_cache_entry_hard_expired e (e_ctime new)))"
    "find (\<lambda>e. e_key e = e_key new) es' = (if b then Some new else find (\<lambda>e. e_key e = e_key new) es)"
    "k \<noteq> e_key new \<Longrightarrow> find (\<lambda>e. e_key e = k) es' = find (\<lambda>e. e_key e = k) es \<or>
      find (\<lambda>e. e_key e = k) es' = None \<and>
      (\<exists>e. find (\<lambda>e. e_key e = k) es = Some e \<and> apc_cache_entry_expired c e (e_ctime new))"
proof -
  let ?t = "e_ctime new" and ?key = "e_key new"
  define pre where "pre = takeWhile (\<lambda>e. e_key e \<noteq> ?key) es"
  define rest where "rest = dropWhile (\<lambda>e. e_key e \<noteq> ?key) es"
  define kept where "kept = filter (\<lambda>e. \<not> apc_cache_entry_expired c e ?t) pre"
  have es: "es = pre @ rest" by (simp add: pre_def rest_def)
  have fr: "find (\<lambda>e. e_key e = ?key) es = (case rest of [] \<Rightarrow> None | e # _ \<Rightarrow> Some e)"
    by (simp add: find_dropWhile rest_def comp_def)
  have b: "b \<longleftrightarrow> \<not> (exclusive \<and> rest \<noteq> [] \<and> \<not> apc_cache_entry_hard_expired (hd rest) ?t)"
    and es': "es' = (if b then kept @ new # tl rest else kept @ rest)"
    using a by (auto simp: a_insert_def Let_def pre_def rest_def kept_def split: if_splits)
  show "b \<longleftrightarrow> \<not> (exclusive \<and> (\<exists>e. find (\<lambda>e. e_key e = ?key) es = Some e \<and> \<not> apc_cache_entry_hard_expired e ?t))"
    unfolding b fr by (cases rest) auto
  have nk: "find (\<lambda>e. e_key e = ?key) kept = None" "find (\<lambda>e. e_key e = ?key) pre = None"
    by (auto simp: find_None_iff kept_def pre_def dest: set_takeWhileD)
  have app: "find P (xs @ ys) = (case find P xs of None \<Rightarrow> find P ys | Some x \<Rightarrow> Some x)" for P and xs ys :: "'v entry list"
    by (induction xs) auto
  show "find (\<lambda>e. e_key e = ?key) es' = (if b then Some new else find (\<lambda>e. e_key e = ?key) es)"
    using nk unfolding es' es by (simp add: app)
  assume k: "k \<noteq> ?key"
  have dp: "distinct (map e_key pre)" using d es by (metis distinct_append map_append)
  have fk: "find (\<lambda>e. e_key e = k) kept = (case find (\<lambda>e. e_key e = k) pre of
      Some e \<Rightarrow> if \<not> apc_cache_entry_expired c e ?t then Some e else None | None \<Rightarrow> None)"
    unfolding kept_def by (rule find_filter_key [OF dp])
  have hd: "find (\<lambda>e. e_key e = k) (tl rest) = find (\<lambda>e. e_key e = k) rest"
  proof (cases rest)
    case (Cons y zs)
    then have "e_key y = ?key" using dropWhile_eq_Cons_conv [of _ es y zs] by (auto simp: rest_def)
    then show ?thesis using k Cons by simp
  qed simp
  have rk: "find (\<lambda>e. e_key e = k) rest = None" if "find (\<lambda>e. e_key e = k) pre = Some e" for e
  proof -
    have "k \<in> e_key ` set pre" using that by (auto simp: find_Some_iff)
    then have "k \<notin> e_key ` set rest" using d unfolding es by auto
    then show ?thesis by (auto simp: find_None_iff)
  qed
  have f': "find (\<lambda>e. e_key e = k) es' = (case find (\<lambda>e. e_key e = k) kept of None \<Rightarrow> find (\<lambda>e. e_key e = k) rest | Some x \<Rightarrow> Some x)"
    using k hd by (auto simp: es' app split: option.splits)
  have f0: "find (\<lambda>e. e_key e = k) es = (case find (\<lambda>e. e_key e = k) pre of None \<Rightarrow> find (\<lambda>e. e_key e = k) rest | Some x \<Rightarrow> Some x)"
    by (simp add: es app)
  show "find (\<lambda>e. e_key e = k) es' = find (\<lambda>e. e_key e = k) es \<or>
      find (\<lambda>e. e_key e = k) es' = None \<and>
      (\<exists>e. find (\<lambda>e. e_key e = k) es = Some e \<and> apc_cache_entry_expired c e ?t)"
    unfolding f' f0 fk using rk by (cases "find (\<lambda>e. e_key e = k) pre") auto
qed

lemma insert_map:
  assumes I: "cache_inv c L" and p: "pending c L e"
  defines "key \<equiv> e_key (dat c e)" and "t \<equiv> e_ctime (dat c e)"
  shows "\<exists>b c' L'. apc_cache_wlocked_insert e exclusive c = Some (b, c') \<and> cache_inv c' L' \<and> same_config c c' \<and>
    (b \<longleftrightarrow> \<not> (exclusive \<and> (\<exists>en. cache_map c key = Some en \<and> \<not> apc_cache_entry_hard_expired en t))) \<and>
    cache_map c' key = (if b then Some (strip (dat c e)) else cache_map c key) \<and>
    (\<forall>k. k \<noteq> key \<longrightarrow> cache_map c' k = cache_map c k \<or>
      cache_map c' k = None \<and> (\<exists>en. cache_map c k = Some en \<and> apc_cache_entry_expired c en t)) \<and>
    (if b then e \<in> members (slots c') L' else pending c' L' e) \<and> strip (dat c' e) = strip (dat c e)"
proof -
  define i where "i = slot_of c key"
  obtain b c' L' where r: "apc_cache_wlocked_insert e exclusive c = Some (b, c')" "cache_inv c' L'"
    "(b, contents c' (L' (slot_at c i)), contents c' (L' (gc_at c))) =
      a_insert c exclusive (strip (dat c e)) (contents c (L (slot_at c i))) (contents c (L (gc_at c)))"
    "\<forall>j<nslots c. j \<noteq> i \<longrightarrow> contents c' (L' (slot_at c j)) = contents c (L (slot_at c j))"
    "same_config c c'" "strip (dat c' e) = strip (dat c e)" "\<not> b \<longrightarrow> pending c' L' e"
    "b \<longrightarrow> e \<in> members (slots c') L'"
    using insert_ok [OF I p, of exclusive] by (fastforce simp: i_def key_def)
  have il: "i < nslots c" unfolding i_def by (rule slot_of_less [OF I])
  note f = same_config_fun [OF r(5)]
  have dk: "distinct (map e_key (contents c (L (slot_at c i))))" by (rule slot_keys_distinct [OF I il])
  note af = a_insert_find [OF r(3) [symmetric] dk]
  have m: "cache_map c k = find (\<lambda>e. e_key e = k) (contents c (L (slot_at c (slot_of c k))))"
    "cache_map c' k = find (\<lambda>e. e_key e = k) (contents c' (L' (slot_at c (slot_of c k))))" for k
    using cache_map_find [OF I, of k] cache_map_find [OF r(2), of k] f(1,7) by simp_all
  have mk: "cache_map c key = find (\<lambda>e. e_key e = key) (contents c (L (slot_at c i)))"
    "cache_map c' key = find (\<lambda>e. e_key e = key) (contents c' (L' (slot_at c i)))"
    using m [of key] by (simp_all add: i_def)
  have "b \<longleftrightarrow> \<not> (exclusive \<and> (\<exists>en. cache_map c key = Some en \<and> \<not> apc_cache_entry_hard_expired en t))"
    using af(1) unfolding mk by (simp add: key_def t_def)
  moreover have "cache_map c' key = (if b then Some (strip (dat c e)) else cache_map c key)"
    using af(2) unfolding mk by (simp add: key_def)
  moreover have "cache_map c' k = cache_map c k \<or>
      cache_map c' k = None \<and> (\<exists>en. cache_map c k = Some en \<and> apc_cache_entry_expired c en t)" if k: "k \<noteq> key" for k
  proof (cases "slot_of c k = i")
    case True
    with af(3) [of k] k show ?thesis unfolding m by (simp add: key_def t_def)
  next
    case False
    with r(4) slot_of_less [OF I, of k] show ?thesis unfolding m by simp
  qed
  ultimately show ?thesis using r by auto
qed

end
