(* ===== verification/Cache_Calls.thy ===== *)
theory Cache_Calls imports Cache_Map begin

text \<open>
  The functions of the API of \<open>apc_cache.c\<close> under the invariant: each returns, restores the lock, keeps the
  invariant and acts on the map as stated.
\<close>

subsection \<open>Preliminaries\<close>

lemma pending_fields:
  assumes "blk c' = blk c" "dat c' = dat c" "hdr_size c' = hdr_size c" "sma_size c' = sma_size c"
    "avail c' = avail c" "min_block_size c' = min_block_size c" "sma_max_alloc_size c' = sma_max_alloc_size c"
    "c_header c' = c_header c" "header_bytes c' = header_bytes c" "gc_offset c' = gc_offset c"
    "nslots c' = nslots c" "zstr_hash c' = zstr_hash c"
  shows "pending c' L e = pending c L e"
proof -
  have "heads c' = heads c" using assms by (simp add: heads_def gc_at_def slots_def slot_at_def)
  moreover have "sma_live c' = sma_live c" "sma_room c' = sma_room c"
    using sma_cong [OF assms(1,3,4,5,6,7)] by simp_all
  ultimately show ?thesis unfolding pending_def assms by simp
qed

lemma pending_locked [simp]:
  "pending (locked l c) L e = pending c L e" "pending (apc_cache_wunlock c) L e = pending c L e"
  "pending (c\<lparr>cache_lock_results := rs\<rparr>) L e = pending c L e"
  by (rule pending_fields; simp add: locked_def apc_cache_wunlock_def)+

lemma members_locked [simp]:
  "heads (locked l c) = heads c" "slots (locked l c) = slots c"
  "heads (apc_cache_wunlock c) = heads c" "slots (apc_cache_wunlock c) = slots c"
  "heads (apc_cache_runlock c) = heads c" "slots (apc_cache_runlock c) = slots c"
  by (simp_all add: locked_def apc_cache_wunlock_def apc_cache_runlock_def heads_def gc_at_def slots_def slot_at_def)

lemma free_pending_ok:
  assumes I: "cache_inv c L" and p: "pending c L e"
  shows "\<exists>c'. free_entry e c = Some c' \<and> cache_inv c' L \<and> same_config c c' \<and> cache_map c' = cache_map c"
proof -
  note D = cache_invD [OF I] and lay = layoutD [OF cache_invD(4) [OF I]]
  have e: "e \<in> sma_live c" "e \<noteq> c_header c" "e \<notin> members (heads c) L" using p by (auto simp: pending_def)
  obtain c' where c': "free_entry e c = Some c'" "sma_ready c'" "c' = c\<lparr>blk := blk c', avail := avail c'\<rparr>"
    "sma_allocs c' = (sma_allocs c)(e := None)"
    using free_entry_ok [OF D(1,3) e(1)] by blast
  have core: "same_core c c'" by (subst c'(3)) simp
  note f = same_core_addrs [OF core] and k = same_core_sel [OF core]
  have d: "dat c' = dat c" "h_nentries c' = h_nentries c" "h_mem_size c' = h_mem_size c" by (subst c'(3), simp)+
  have "cache_layout (sma_allocs c') c' L"
  proof (rule layoutI)
    show "header_ok (sma_allocs c') c'" by (rule header_ok_core [OF D(6) core]) (use c'(4) e in simp)
    show "lists (c_header c') (dat c') (heads c') L" using D(7) d f(4) k(7) by simp
    show "0 < n" if "sma_allocs c' p = Some n" for p n using that c'(4) lay(3) by (auto split: if_splits)
    show "x \<in> dom (sma_allocs c') \<and> x \<noteq> c_header c'" if "x \<in> members (heads c') L" for x
    proof -
      have "x \<in> members (heads c) L" using that f(4) by simp
      with lay(4) [OF this] e(3) c'(4) k(7) show ?thesis by auto
    qed
    show "0 < e_ref_count (dat c' x)" if "x \<in> dom (sma_allocs c')" "x \<noteq> c_header c'" "x \<notin> members (heads c') L" for x
      using that lay(5) [of x] c'(4) d f(4) k(7) by (auto split: if_splits)
  qed
  moreover have "cache_content (sma_allocs c') c' L"
    by (rule content_cong [OF D(5) core]) (use d c'(4) e(3) members_heads(1) [of c L] in auto)
  ultimately have inv: "cache_inv c' L" using c'(2) k(5) D(3) by (simp add: cache_inv_def)
  have "cache_map c' = cache_map c"
  proof
    fix key
    have "contents c' = contents c" using d by (simp add: contents_def fun_eq_iff)
    then show "cache_map c' key = cache_map c key"
      using cache_map_find [OF inv, of key] cache_map_find [OF I, of key] same_config_fun(1,7) [OF same_core_config [OF core]]
      by simp
  qed
  then show ?thesis using c'(1) inv same_core_config [OF core] by blast
qed

lemma defense_ok:
  "\<exists>lk. snd (apc_cache_defense key t c) = c\<lparr>h_lastkey := lk\<rparr>"
proof -
  have "c = c\<lparr>h_lastkey := h_lastkey c\<rparr>" by simp
  then have "\<exists>lk. c = c\<lparr>h_lastkey := lk\<rparr>" by (rule exI)
  then show ?thesis unfolding apc_cache_defense_def Let_def by (auto split: if_splits simp del: cache.update_convs)
qed

lemma cache_inv_lastkey [simp]: "cache_inv (c\<lparr>h_lastkey := lk\<rparr>) L = cache_inv c L"
  by (rule cache_inv_fields(1)) simp_all

lemma cache_inv_counters [simp]:
  "cache_inv (c\<lparr>h_nhits := n\<rparr>) L = cache_inv c L" "cache_inv (c\<lparr>h_nmisses := n\<rparr>) L = cache_inv c L"
  "cache_inv (c\<lparr>entry_level := lv\<rparr>) L = cache_inv c L"
  by (rule cache_inv_fields(1); simp)+

subsection \<open>Storing\<close>

text \<open>The entry a successful store leaves in the cache.\<close>

definition fresh_entry :: "('v, 'x) cstate \<Rightarrow> string \<Rightarrow> int \<Rightarrow> int \<Rightarrow> nat \<Rightarrow> zval \<Rightarrow> 'v \<Rightarrow> 'v entry" where
  "fresh_entry c key ttl t sz zv data = \<lparr>e_next = 0, e_prev = 0, e_ttl = ttl, e_ref_count = 0, e_nhits = 0,
     e_ctime = t, e_mtime = t, e_dtime = 0, e_atime = t, e_mem_size = int sz, e_val = zv,
     e_hash = zstr_hash c key, e_key = key, e_data = data\<rparr>"

text \<open>The other keys are untouched, or their entries have been removed.\<close>

definition others_kept :: "('v, 'x) cstate \<Rightarrow> string \<Rightarrow> ('v, 'x) cstate \<Rightarrow> bool" where
  "others_kept c key c' \<longleftrightarrow> (\<forall>k. k \<noteq> key \<longrightarrow> cache_map c' k = cache_map c k \<or> cache_map c' k = None)"

text \<open>The other keys are untouched, or their entries had expired and have been removed.\<close>

definition kept_or_expired :: "('v, 'x) cstate \<Rightarrow> string \<Rightarrow> int \<Rightarrow> ('v, 'x) cstate \<Rightarrow> bool" where
  "kept_or_expired c key t c' \<longleftrightarrow> (\<forall>k. k \<noteq> key \<longrightarrow> cache_map c' k = cache_map c k \<or>
     cache_map c' k = None \<and> (\<exists>en. cache_map c k = Some en \<and> apc_cache_entry_expired c en t))"

lemma kept_or_expired_weak:
  "kept_or_expired c key t c' \<Longrightarrow> \<forall>k. k \<noteq> key \<longrightarrow> cache_map c' k = cache_map c k \<or> cache_map c' k = None"
  unfolding kept_or_expired_def by auto

text \<open>The part of a store under the write lock, from a pending entry on.\<close>

lemma insert_release_full:
  fixes c :: "('v, 'x) cstate"
  assumes I: "cache_inv c L" and p: "pending c L e" and r: "e_ref_count (dat c e) = 1"
  defines "key \<equiv> e_key (dat c e)"
  shows "\<exists>b c1 L1. apc_cache_wlocked_insert e exclusive c = Some (b, c1) \<and> same_config c c1 \<and>
    cache_inv c1 L1 \<and> kept_or_expired c key (e_ctime (dat c e)) c1 \<and>
    (b \<longleftrightarrow> \<not> (exclusive \<and> (\<exists>en. cache_map c key = Some en \<and> \<not> apc_cache_entry_hard_expired en (e_ctime (dat c e))))) \<and>
    (b \<longrightarrow> (\<forall>u::('v, 'x) cstate. dat u = dat c1 \<longrightarrow> cache_inv u L1 \<longrightarrow> cache_map u = cache_map c1 \<longrightarrow> slots u = slots c1 \<longrightarrow>
         cache_inv (apc_cache_entry_release e u) L1 \<and>
         cache_map (apc_cache_entry_release e u) = (cache_map c1)(key \<mapsto> strip ((dat c e)\<lparr>e_ref_count := 0\<rparr>)))) \<and>
    (\<not> b \<longrightarrow> pending c1 L1 e \<and> cache_map c1 key = cache_map c key \<and> exclusive \<and>
       (\<exists>en. cache_map c key = Some en \<and> \<not> apc_cache_entry_hard_expired en (e_ctime (dat c e))))"
proof -
  obtain b c1 L1 where i: "apc_cache_wlocked_insert e exclusive c = Some (b, c1)" "cache_inv c1 L1" "same_config c c1"
    "b \<longleftrightarrow> \<not> (exclusive \<and> (\<exists>en. cache_map c key = Some en \<and> \<not> apc_cache_entry_hard_expired en (e_ctime (dat c e))))"
    "cache_map c1 key = (if b then Some (strip (dat c e)) else cache_map c key)"
    "\<forall>k. k \<noteq> key \<longrightarrow> cache_map c1 k = cache_map c k \<or>
      cache_map c1 k = None \<and> (\<exists>en. cache_map c k = Some en \<and> apc_cache_entry_expired c en (e_ctime (dat c e)))"
    "if b then e \<in> members (slots c1) L1 else pending c1 L1 e" "strip (dat c1 e) = strip (dat c e)"
    using insert_map [OF I p, of exclusive] unfolding key_def by blast
  have rel: "cache_inv (apc_cache_entry_release e u) L1 \<and>
      cache_map (apc_cache_entry_release e u) = (cache_map c1)(key \<mapsto> strip ((dat c e)\<lparr>e_ref_count := 0\<rparr>))"
    if b: b and u: "dat u = dat c1" "cache_inv u L1" "cache_map u = cache_map c1" "slots u = slots c1"
    for u :: "('v, 'x) cstate"
  proof -
    let ?f = "\<lambda>e. e\<lparr>e_ref_count := int64_of (e_ref_count e - 1)\<rparr>"
    have m: "e \<in> members (slots u) L1" using i(7) b u(4) by simp
    have mh: "e \<in> members (heads u) L1" using m members_heads(1) by blast
    have k: "keeps_place ?f (dat u e)" by (simp add: keeps_place_def)
    have key: "e_key (dat c1 e) = key" using i(8) strip_eqD(11) key_def by blast
    have "e_ref_count (dat c1 e) = 1" using strip_eqD(2) [OF i(8)] r by simp
    then have "strip (?f (dat c1 e)) = (strip (dat c1 e))\<lparr>e_ref_count := 0\<rparr>" by (simp add: strip_def int64_of_def)
    also have "\<dots> = strip ((dat c e)\<lparr>e_ref_count := 0\<rparr>)" unfolding i(8) by (simp add: strip_def)
    finally have st: "strip (?f (dat c1 e)) = strip ((dat c e)\<lparr>e_ref_count := 0\<rparr>)" .
    have "cache_map (upd_entry e ?f u) = (cache_map c1)(key \<mapsto> strip ((dat c e)\<lparr>e_ref_count := 0\<rparr>))"
      using cache_map_upd [OF u(2) m k] by (simp only: u(1,3) key st)
    then show ?thesis unfolding apc_cache_entry_release_def using upd_member_ok [OF u(2) mh k] by (rule conjI [rotated])
  qed
  show ?thesis
  proof (rule exI [of _ b], rule exI [of _ c1], rule exI [of _ L1], intro conjI impI)
    show "apc_cache_wlocked_insert e exclusive c = Some (b, c1)" "same_config c c1" "cache_inv c1 L1" by fact+
    show "kept_or_expired c key (e_ctime (dat c e)) c1" using i(6) by (simp only: kept_or_expired_def)
    show "b \<longleftrightarrow> \<not> (exclusive \<and> (\<exists>en. cache_map c key = Some en \<and> \<not> apc_cache_entry_hard_expired en (e_ctime (dat c e))))" by fact
    show "\<forall>u::('v, 'x) cstate. dat u = dat c1 \<longrightarrow> cache_inv u L1 \<longrightarrow> cache_map u = cache_map c1 \<longrightarrow> slots u = slots c1 \<longrightarrow>
         cache_inv (apc_cache_entry_release e u) L1 \<and>
         cache_map (apc_cache_entry_release e u) = (cache_map c1)(key \<mapsto> strip ((dat c e)\<lparr>e_ref_count := 0\<rparr>))" if b
      by (intro allI impI rel that)
    assume "\<not> b"
    with i(4,5,7) show "pending c1 L1 e" "cache_map c1 key = cache_map c key" "exclusive"
      "\<exists>en. cache_map c key = Some en \<and> \<not> apc_cache_entry_hard_expired en (e_ctime (dat c e))" by simp_all
  qed
qed

lemma insert_release_ok:
  fixes c :: "('v, 'x) cstate"
  assumes I: "cache_inv c L" and p: "pending c L e" and r: "e_ref_count (dat c e) = 1"
  defines "key \<equiv> e_key (dat c e)"
  shows "\<exists>b c1 L1. apc_cache_wlocked_insert e exclusive c = Some (b, c1) \<and> same_config c c1 \<and>
    cache_inv c1 L1 \<and> (\<forall>k. k \<noteq> key \<longrightarrow> cache_map c1 k = cache_map c k \<or> cache_map c1 k = None) \<and>
    (b \<longrightarrow> (\<forall>u::('v, 'x) cstate. dat u = dat c1 \<longrightarrow> cache_inv u L1 \<longrightarrow> cache_map u = cache_map c1 \<longrightarrow> slots u = slots c1 \<longrightarrow>
         cache_inv (apc_cache_entry_release e u) L1 \<and>
         cache_map (apc_cache_entry_release e u) = (cache_map c1)(key \<mapsto> strip ((dat c e)\<lparr>e_ref_count := 0\<rparr>)))) \<and>
    (\<not> b \<longrightarrow> pending c1 L1 e \<and> cache_map c1 key = cache_map c key \<and> exclusive \<and>
       (\<exists>en. cache_map c key = Some en \<and> \<not> apc_cache_entry_hard_expired en (e_ctime (dat c e))))"
  unfolding key_def
  by (insert insert_release_full [OF I p r, of exclusive], elim exE conjE, intro exI, rule conjI, assumption, rule conjI,
      assumption, rule conjI, assumption, rule conjI, erule kept_or_expired_weak, rule conjI, assumption, assumption)

lemma others_keptI: "(\<And>k. k \<noteq> key \<Longrightarrow> cache_map c' k = cache_map c k \<or> cache_map c' k = None) \<Longrightarrow> others_kept c key c'"
  by (simp add: others_kept_def)

lemma set_values_ok:
  fixes ttl t :: int
  assumes I: "cache_inv c L" and p: "pending c L e" and r: "e_ref_count (dat c e) = 1"
  defines "c' \<equiv> upd_entry e (apc_cache_set_entry_values ttl t) c"
  shows "cache_inv c' L" "pending c' L e" "same_config c c'" "cache_map c' = cache_map c"
    "e_key (dat c' e) = e_key (dat c e)" "e_ref_count (dat c' e) = 1" "e_ctime (dat c' e) = t"
    "strip ((dat c' e)\<lparr>e_ref_count := 0\<rparr>) = \<lparr>e_next = 0, e_prev = 0, e_ttl = ttl, e_ref_count = 0, e_nhits = 0,
       e_ctime = t, e_mtime = t, e_dtime = 0, e_atime = t, e_mem_size = e_mem_size (dat c e), e_val = e_val (dat c e),
       e_hash = e_hash (dat c e), e_key = e_key (dat c e), e_data = e_data (dat c e)\<rparr>"
proof -
  have m: "e \<notin> members (heads c) L" and h: "e \<notin> heads c"
    using p pending_place(3) [OF I p] by (auto simp: pending_def)
  have f: "0 < e_ref_count (apc_cache_set_entry_values ttl t (dat c e))"
    using r by (simp add: apc_cache_set_entry_values_def)
  show "cache_inv c' L" unfolding c'_def by (rule upd_outside_ok(1) [where f = "apc_cache_set_entry_values ttl t", OF I m h f])
  show "cache_map c' = cache_map c" unfolding c'_def
    by (rule cache_map_outside [where f = "apc_cache_set_entry_values ttl t", OF I m h f])
  show "pending c' L e" using p by (simp add: pending_def c'_def apc_cache_set_entry_values_def)
  show "same_config c c'" unfolding c'_def by (rule same_core_config [OF upd_entry_sel(2)])
  show "e_key (dat c' e) = e_key (dat c e)" "e_ref_count (dat c' e) = 1" "e_ctime (dat c' e) = t"
    using r by (simp_all add: c'_def apc_cache_set_entry_values_def)
  show "strip ((dat c' e)\<lparr>e_ref_count := 0\<rparr>) = \<lparr>e_next = 0, e_prev = 0, e_ttl = ttl, e_ref_count = 0, e_nhits = 0,
       e_ctime = t, e_mtime = t, e_dtime = 0, e_atime = t, e_mem_size = e_mem_size (dat c e), e_val = e_val (dat c e),
       e_hash = e_hash (dat c e), e_key = e_key (dat c e), e_data = e_data (dat c e)\<rparr>"
    by (simp add: c'_def strip_def apc_cache_set_entry_values_def)
qed

text \<open>Everything before the insert: time, defense, memory and the values of the entry.\<close>

lemma prepare_ok:
  assumes I: "cache_inv c L" and l: "lockable c" and x: "cache_exists c"
    and img: "\<And>sz zv data. img key val = Some (sz, zv, data) \<Longrightarrow> 0 < sz"
  shows "\<exists>r c1 L1. apc_persist img key val c = Some (r, c1) \<and>
    cache_inv c1 L1 \<and> same_env c c1 \<and> (\<forall>k. cache_map c1 k = cache_map c k \<or> cache_map c1 k = None) \<and>
    (\<forall>a. r = Some a \<longrightarrow> pending c1 L1 a \<and> e_ref_count (dat c1 a) = 1 \<and> e_key (dat c1 a) = key \<and>
      (\<exists>sz zv data. img key val = Some (sz, zv, data) \<and> e_mem_size (dat c1 a) = int sz \<and> e_val (dat c1 a) = zv \<and>
        e_data (dat c1 a) = data \<and> e_hash (dat c1 a) = zstr_hash c key))"
proof -
  obtain r c1 L1 where p: "apc_persist img key val c = Some (r, c1)" "cache_inv c1 L1" "same_env c c1"
    "made_room c L c1 L1"
    "case r of None \<Rightarrow> True
     | Some a \<Rightarrow> pending c1 L1 a \<and> (\<exists>sz zv data. img key val = Some (sz, zv, data) \<and> e_mem_size (dat c1 a) = int sz \<and>
         e_val (dat c1 a) = zv \<and> e_data (dat c1 a) = data \<and> e_key (dat c1 a) = key \<and> e_ref_count (dat c1 a) = 1)"
    using persist_ok [OF I l x, of img key val] img by blast
  note mr = made_room_map [OF I p(2,3,4)]
  have "e_hash (dat c1 a) = zstr_hash c (e_key (dat c1 a))" if "pending c1 L1 a" for a
    using that same_env_sel(12) [OF p(3)] by (simp add: pending_def)
  then show ?thesis using p mr by (intro exI [of _ r] exI [of _ c1] exI [of _ L1]) (auto split: option.splits)
qed

lemma store_ok:
  fixes c :: "('v, 'x) cstate"
  assumes I: "cache_inv c L" and l: "lockable c" and x: "cache_exists c"
    and img: "\<And>sz zv data. img key val = Some (sz, zv, data) \<Longrightarrow> 0 < sz"
  shows "\<exists>b c' L'. apc_cache_store img key val ttl exclusive c = Some (b, c') \<and> cache_inv c' L' \<and> same_env c c' \<and>
    others_kept c key c' \<and>
    (if b then \<exists>sz zv data. img key val = Some (sz, zv, data) \<and>
       cache_map c' key = Some (fresh_entry c key ttl (fst (apc_time c)) sz zv data)
     else cache_map c' key = cache_map c key \<or> cache_map c' key = None)"
proof -
  let ?t = "fst (apc_time c)" and ?v = "apc_cache_set_entry_values ttl (fst (apc_time c))"
  define c0 where "c0 = snd (apc_time c)"
  note t0 = apc_time_inv [of c, folded c0_def]
  have m0: "cache_map c0 = cache_map c" by (simp add: c0_def)
  have x0: "cache_exists c0" using same_config_sel(1) [OF t0(2)] x by simp
  define d where "d = apc_cache_defense key ?t c0"
  obtain lk where lk: "snd d = c0\<lparr>h_lastkey := lk\<rparr>" using defense_ok d_def by blast
  have Id: "cache_inv (snd d) L" and ed: "same_env c (snd d)" and md: "cache_map (snd d) = cache_map c"
    using I t0(1) m0 same_env_trans [OF same_config_env [OF t0(2)] same_config_env [OF same_config_intro(6)]]
    by (simp_all add: lk)
  have ld: "lockable (snd d)" and xd: "cache_exists (snd d)"
    using same_env_fun(7) [OF ed] l same_env_sel(1) [OF ed] x by simp_all
  show ?thesis
  proof (cases "fst d")
    case True
    then have "apc_cache_store img key val ttl exclusive c = Some (False, snd d)"
      using x0 by (simp add: apc_cache_store_def Let_def c0_def [symmetric] d_def [symmetric])
    then show ?thesis using Id ed md
      by (intro exI [of _ False] exI [of _ "snd d"] exI [of _ L]) (simp add: others_kept_def)
  next
    case nd: False
    obtain r c1 L1 where p: "apc_persist img key val (snd d) = Some (r, c1)" "cache_inv c1 L1" "same_env (snd d) c1"
      "\<forall>k. cache_map c1 k = cache_map (snd d) k \<or> cache_map c1 k = None"
      "\<forall>a. r = Some a \<longrightarrow> pending c1 L1 a \<and> e_ref_count (dat c1 a) = 1 \<and> e_key (dat c1 a) = key \<and>
        (\<exists>sz zv data. img key val = Some (sz, zv, data) \<and> e_mem_size (dat c1 a) = int sz \<and> e_val (dat c1 a) = zv \<and>
          e_data (dat c1 a) = data \<and> e_hash (dat c1 a) = zstr_hash (snd d) key)"
      using prepare_ok [OF Id ld xd, of img key val] img by blast
    have e1: "same_env c c1" using same_env_trans [OF ed p(3)] .
    have l1: "lockable c1" using same_env_fun(7) [OF e1] l by simp
    have m1: "\<forall>k. cache_map c1 k = cache_map c k \<or> cache_map c1 k = None" using p(4) md by simp
    show ?thesis
    proof (cases r)
      case None
      then have "apc_cache_store img key val ttl exclusive c = Some (False, c1)"
        using x0 nd p(1) by (simp add: apc_cache_store_def Let_def c0_def [symmetric] d_def [symmetric])
      then show ?thesis using p(2) e1 m1
        by (intro exI [of _ False] exI [of _ c1] exI [of _ L1]) (simp add: others_kept_def)
    next
      case (Some a)
      obtain sz zv data where a: "pending c1 L1 a" "e_ref_count (dat c1 a) = 1" "e_key (dat c1 a) = key"
        "img key val = Some (sz, zv, data)" "e_mem_size (dat c1 a) = int sz" "e_val (dat c1 a) = zv"
        "e_data (dat c1 a) = data" "e_hash (dat c1 a) = zstr_hash c key"
        using p(5) Some same_env_sel(12) [OF ed] by auto
      define c2 where "c2 = upd_entry a ?v c1"
      note sv = set_values_ok [OF p(2) a(1,2), of ttl ?t, folded c2_def]
      have e2: "same_env c c2" using same_env_trans [OF e1 same_config_env [OF sv(3)]] .
      have l2: "lockable c2" using same_env_fun(7) [OF e2] l by simp
      note lk2 = lock_as_ok [OF l2, of Wlocked, folded apc_cache_wlock_def]
      have run: "apc_cache_store img key val ttl exclusive c =
          Option.bind (apc_cache_wlock c2) (\<lambda>w.
            if \<not> fst w then Option.bind (free_entry a (snd w)) (\<lambda>c'. Some (False, c'))
            else Option.bind (apc_cache_wlocked_insert a exclusive (snd w)) (\<lambda>i.
              if fst i then Some (True, apc_cache_entry_release a (apc_cache_wunlock (snd i)))
              else Option.bind (free_entry a (apc_cache_wunlock (snd i))) (\<lambda>c''. Some (False, c''))))"
        using x0 nd p(1) Some
        unfolding apc_cache_store_def Let_def c0_def [symmetric] d_def [symmetric] by (simp add: c2_def)
      show ?thesis
      proof (cases "lock_gets c2")
        case False
        let ?c3 = "c2\<lparr>cache_lock_results := tl (cache_lock_results c2)\<rparr>"
        have I3: "cache_inv ?c3 L1" "pending ?c3 L1 a" using sv(1,2) by simp_all
        obtain c4 where c4: "free_entry a ?c3 = Some c4" "cache_inv c4 L1" "same_config ?c3 c4" "cache_map c4 = cache_map ?c3"
          using free_pending_ok [OF I3] by blast
        have e4: "same_env c c4"
          using same_env_trans [OF same_env_trans [OF e2 same_env_failed] same_config_env [OF c4(3)]] .
        have "apc_cache_store img key val ttl exclusive c = Some (False, c4)" using run lk2 False c4(1) by simp
        then show ?thesis using c4(2,4) e4 m1 sv(4)
          by (intro exI [of _ False] exI [of _ c4] exI [of _ L1]) (simp add: others_kept_def)
      next
        case True
        let ?c3 = "locked Wlocked c2"
        have I3: "cache_inv ?c3 L1" "pending ?c3 L1 a" "e_ref_count (dat ?c3 a) = 1" using sv(1,2,6) by simp_all
        have k3: "e_key (dat ?c3 a) = key" "cache_map ?c3 = cache_map c1" using sv(4,5) a(3) by simp_all
        obtain b c4 L4 where i: "apc_cache_wlocked_insert a exclusive ?c3 = Some (b, c4)" "same_config ?c3 c4" "cache_inv c4 L4"
          "\<forall>k. k \<noteq> key \<longrightarrow> cache_map c4 k = cache_map c1 k \<or> cache_map c4 k = None"
          "b \<longrightarrow> (\<forall>u::('v, 'x) cstate. dat u = dat c4 \<longrightarrow> cache_inv u L4 \<longrightarrow> cache_map u = cache_map c4 \<longrightarrow> slots u = slots c4 \<longrightarrow>
             cache_inv (apc_cache_entry_release a u) L4 \<and>
             cache_map (apc_cache_entry_release a u) = (cache_map c4)(key \<mapsto> strip ((dat ?c3 a)\<lparr>e_ref_count := 0\<rparr>)))"
          "\<not> b \<longrightarrow> pending c4 L4 a \<and> cache_map c4 key = cache_map c1 key \<and> exclusive \<and>
             (\<exists>en. cache_map c1 key = Some en \<and> \<not> apc_cache_entry_hard_expired en (e_ctime (dat ?c3 a)))"
          using insert_release_ok [OF I3, of exclusive] unfolding k3 by blast
        have eu: "same_env c (apc_cache_wunlock c4)"
          using same_env_trans [OF e2 same_env_unlock(1) [OF l2 i(2)]] .
        have fe: "strip ((dat ?c3 a)\<lparr>e_ref_count := 0\<rparr>) = fresh_entry c key ttl ?t sz zv data"
          using sv(8) a(3,5-8) by (simp add: fresh_entry_def)
        have mo: "cache_map c4 k = cache_map c k \<or> cache_map c4 k = None" if "k \<noteq> key" for k
          using i(4) m1 that by metis
        show ?thesis
        proof (cases b)
          case True
          let ?c5 = "apc_cache_entry_release a (apc_cache_wunlock c4)"
          have r5: "cache_inv ?c5 L4" "cache_map ?c5 = (cache_map c4)(key \<mapsto> fresh_entry c key ttl ?t sz zv data)"
            using i(5) [rule_format, OF True, of "apc_cache_wunlock c4"] i(3) fe by simp_all
          have "same_env c ?c5"
            using same_env_trans [OF eu same_config_env [OF same_core_config [OF upd_entry_sel(2)]]]
            unfolding apc_cache_entry_release_def .
          moreover have "apc_cache_store img key val ttl exclusive c = Some (True, ?c5)"
            using run lk2 \<open>lock_gets c2\<close> i(1) True by simp
          ultimately show ?thesis using r5 mo a(4)
            by (intro exI [of _ True] exI [of _ ?c5] exI [of _ L4]) (simp add: others_kept_def)
        next
          case False
          let ?c5 = "apc_cache_wunlock c4"
          have I5: "cache_inv ?c5 L4" "pending ?c5 L4 a" using i(3,6) False by simp_all
          obtain c6 where c6: "free_entry a ?c5 = Some c6" "cache_inv c6 L4" "same_config ?c5 c6" "cache_map c6 = cache_map ?c5"
            using free_pending_ok [OF I5] by blast
          have "same_env c c6" using same_env_trans [OF eu same_config_env [OF c6(3)]] .
          moreover have "apc_cache_store img key val ttl exclusive c = Some (False, c6)"
            using run lk2 \<open>lock_gets c2\<close> i(1) False c6(1) by simp
          moreover have "cache_map c4 key = cache_map c key \<or> cache_map c4 key = None" using i(6) False m1 by metis
          ultimately show ?thesis using c6(2,4) mo
            by (intro exI [of _ False] exI [of _ c6] exI [of _ L4]) (simp add: others_kept_def)
        qed
      qed
    qed
  qed
qed

end
