(* ===== verification/Cache_Reads.thy ===== *)
theory Cache_Reads imports Cache_Calls begin

text \<open>
  Looking up, fetching, deleting, clearing and updating through the API of \<open>apc_cache.c\<close> under the
  invariant: what each returns in terms of the map \<open>cache_map\<close>, and what it does to the map.
\<close>

subsection \<open>Lookup\<close>

text \<open>The entry a reader may see at time \<open>t\<close>.\<close>

definition lookup :: "('v, 'x) cstate \<Rightarrow> string \<Rightarrow> int \<Rightarrow> 'v entry option" where
  "lookup c key t = (case cache_map c key of
     None \<Rightarrow> None | Some en \<Rightarrow> if apc_cache_entry_hard_expired en t then None else Some en)"

definition hit :: "int \<Rightarrow> 'v entry \<Rightarrow> 'v entry" where
  "hit t e = e\<lparr>e_nhits := int64_of (e_nhits e + 1), e_atime := t\<rparr>"

lemma int64_round [simp]: "int64_of (int64_of (x + 1) - 1) = int64_of x"
  by (simp add: int64_of_def mod_simps add.commute)

lemma find_slot_ok:
  assumes I: "cache_inv c L"
  shows "find_key key (fst (apc_cache_hash_slot c key))
    (e_next (dat c (slot_addr c (snd (apc_cache_hash_slot c key))))) c = Some (entry_at c L key)"
proof -
  have s: "slot_of c key < nslots c" by (rule slot_of_less [OF I])
  then show ?thesis
    using find_key_slot [OF I s, of key] header_addrs(2) [OF cache_invD(6) [OF I] s]
    by (simp add: apc_cache_hash_slot_def entry_at_def slot_of_def)
qed

lemma rlocked_find_nostat_ok:
  assumes I: "cache_inv c L"
  shows "\<exists>r. apc_cache_rlocked_find_nostat key t c = Some r \<and> lookup c key t = map_option (\<lambda>a. strip (dat c a)) r \<and>
    (\<forall>a. r = Some a \<longrightarrow> a \<in> members (slots c) L \<and> e_key (dat c a) = key)"
  using find_slot_ok [OF I, of key] cache_map_entry [OF I, of key] entry_at_iff [OF I, of key]
  by (cases "entry_at c L key") (auto simp: apc_cache_rlocked_find_nostat_def lookup_def Let_def)

lemma rlocked_find_ok:
  assumes I: "cache_inv c L"
  shows "lookup c key t = None \<Longrightarrow>
      apc_cache_rlocked_find key t c = Some (None, c\<lparr>h_nmisses := int64_of (h_nmisses c + 1)\<rparr>)"
    "lookup c key t = Some en \<Longrightarrow> \<exists>a\<in>members (slots c) L. e_key (dat c a) = key \<and> strip (dat c a) = en \<and>
      apc_cache_rlocked_find key t c = Some (Some a, upd_entry a (hit t) (c\<lparr>h_nhits := int64_of (h_nhits c + 1)\<rparr>))"
proof -
  note run = apc_cache_rlocked_find_def [of key t c, unfolded Let_def find_slot_ok [OF I]]
  note m = cache_map_entry [OF I, of key]
  show "apc_cache_rlocked_find key t c = Some (None, c\<lparr>h_nmisses := int64_of (h_nmisses c + 1)\<rparr>)"
    if n: "lookup c key t = None"
  proof (cases "entry_at c L key")
    case None
    then show ?thesis unfolding run None by simp
  next
    case (Some a)
    then have "apc_cache_entry_hard_expired (dat c a) t" using n m by (simp add: lookup_def split: if_splits)
    then show ?thesis unfolding run Some by simp
  qed
  assume y: "lookup c key t = Some en"
  then obtain a where a: "entry_at c L key = Some a" "strip (dat c a) = en" "\<not> apc_cache_entry_hard_expired (dat c a) t"
    using m by (cases "entry_at c L key") (auto simp: lookup_def split: if_splits)
  have "apc_cache_rlocked_find key t c = Some (Some a, upd_entry a (hit t) (c\<lparr>h_nhits := int64_of (h_nhits c + 1)\<rparr>))"
    unfolding run a(1) using a(3) by (simp add: hit_def [abs_def])
  then show "\<exists>a\<in>members (slots c) L. e_key (dat c a) = key \<and> strip (dat c a) = en \<and>
      apc_cache_rlocked_find key t c = Some (Some a, upd_entry a (hit t) (c\<lparr>h_nhits := int64_of (h_nhits c + 1)\<rparr>))"
    using a entry_at_iff [OF I, of key a] by blast
qed

lemma hit_place [simp]:
  "keeps_place (hit t) e" "strip (hit t e) = hit t (strip e)" "e_ref_count (hit t e) = e_ref_count e"
  "e_key (hit t e) = e_key e" "e_val (hit t e) = e_val e" "e_data (hit t e) = e_data e"
  by (simp_all add: keeps_place_def hit_def strip_def)

text \<open>A hit, as the map and the invariant see it.\<close>

lemma hit_ok:
  fixes t n :: int
  assumes I: "cache_inv c L" and a: "a \<in> members (slots c) L"
  defines "c' \<equiv> upd_entry a (hit t) (c\<lparr>h_nhits := n\<rparr>)"
  shows "cache_inv c' L" "same_config c c'" "dat c' a = hit t (dat c a)"
    "cache_map c' = (cache_map c)(e_key (dat c a) \<mapsto> hit t (strip (dat c a)))" "slots c' = slots c" "heads c' = heads c"
proof -
  have f: "slots (c\<lparr>h_nhits := n\<rparr>) = slots c" "heads (c\<lparr>h_nhits := n\<rparr>) = heads c" by (rule cache_inv_fields; simp)+
  have i0: "cache_inv (c\<lparr>h_nhits := n\<rparr>) L" and a0: "a \<in> members (slots (c\<lparr>h_nhits := n\<rparr>)) L"
    "a \<in> members (heads (c\<lparr>h_nhits := n\<rparr>)) L"
    using I a f members_heads(1) [of c L] by auto
  show "cache_inv c' L" unfolding c'_def by (rule upd_member_ok [OF i0 a0(2)]) simp
  show "same_config c c'" unfolding c'_def
    using same_config_trans [OF same_config_intro(1) same_core_config [OF upd_entry_sel(2)]] .
  show "dat c' a = hit t (dat c a)" by (simp add: c'_def)
  show "cache_map c' = (cache_map c)(e_key (dat c a) \<mapsto> hit t (strip (dat c a)))"
    unfolding c'_def using cache_map_upd [OF i0 a0(1), of "hit t"] by simp
  show "slots c' = slots c" "heads c' = heads c" using f by (simp_all add: c'_def)
qed

text \<open>Taking and dropping a reference.\<close>

lemma incref_release_ok:
  assumes I: "cache_inv c L" and a: "a \<in> members (slots c) L"
  defines "c' \<equiv> upd_entry a (\<lambda>e. e\<lparr>e_ref_count := int64_of (e_ref_count e + 1)\<rparr>) c"
  shows "cache_inv c' L" "same_config c c'" "a \<in> members (slots c') L" "e_key (dat c' a) = e_key (dat c a)"
    "cache_map c' = (cache_map c)(e_key (dat c a) \<mapsto> (strip (dat c a))\<lparr>e_ref_count := int64_of (e_ref_count (dat c a) + 1)\<rparr>)"
proof -
  have k: "keeps_place (\<lambda>e. e\<lparr>e_ref_count := int64_of (e_ref_count e + 1)\<rparr>) (dat c a)" by (simp add: keeps_place_def)
  show "cache_inv c' L" unfolding c'_def by (rule upd_member_ok [OF I _ k]) (use a members_heads(1) in blast)
  show "same_config c c'" unfolding c'_def by (rule same_core_config [OF upd_entry_sel(2)])
  show "a \<in> members (slots c') L" "e_key (dat c' a) = e_key (dat c a)" using a by (simp_all add: c'_def)
  have "strip ((dat c a)\<lparr>e_ref_count := x\<rparr>) = (strip (dat c a))\<lparr>e_ref_count := x\<rparr>" for x by (simp add: strip_def)
  then show "cache_map c' = (cache_map c)(e_key (dat c a) \<mapsto> (strip (dat c a))\<lparr>e_ref_count := int64_of (e_ref_count (dat c a) + 1)\<rparr>)"
    unfolding c'_def using cache_map_upd [OF I a k] by simp
qed


lemma release_ok:
  assumes I: "cache_inv c L" and a: "a \<in> members (slots c) L"
  defines "c' \<equiv> apc_cache_entry_release a c"
  shows "cache_inv c' L" "same_config c c'"
    "cache_map c' = (cache_map c)(e_key (dat c a) \<mapsto> (strip (dat c a))\<lparr>e_ref_count := int64_of (e_ref_count (dat c a) - 1)\<rparr>)"
proof -
  let ?f = "\<lambda>e. e\<lparr>e_ref_count := int64_of (e_ref_count e - 1)\<rparr>"
  have k: "keeps_place ?f (dat c a)" by (simp add: keeps_place_def)
  show "cache_inv c' L" unfolding c'_def apc_cache_entry_release_def
    by (rule upd_member_ok [OF I _ k]) (use a members_heads(1) in blast)
  show "same_config c c'" unfolding c'_def apc_cache_entry_release_def by (rule same_core_config [OF upd_entry_sel(2)])
  have "strip ((dat c a)\<lparr>e_ref_count := x\<rparr>) = (strip (dat c a))\<lparr>e_ref_count := x\<rparr>" for x by (simp add: strip_def)
  then show "cache_map c' = (cache_map c)(e_key (dat c a) \<mapsto> (strip (dat c a))\<lparr>e_ref_count := int64_of (e_ref_count (dat c a) - 1)\<rparr>)"
    unfolding c'_def apc_cache_entry_release_def using cache_map_upd [OF I a k] by simp
qed

subsection \<open>Fetching\<close>

text \<open>A fetched entry: the hit is counted; the reference taken for the copy has been dropped again.\<close>

definition fetched :: "int \<Rightarrow> 'v entry \<Rightarrow> 'v entry" where
  "fetched t e = (hit t e)\<lparr>e_ref_count := int64_of (e_ref_count e)\<rparr>"

lemma lookup_locked [simp]:
  "lookup (locked l c) = lookup c" "lookup (apc_cache_wunlock c) = lookup c" "lookup (apc_cache_runlock c) = lookup c"
  "lookup (c\<lparr>cache_lock_results := rs\<rparr>) = lookup c" "lookup (snd (apc_time c)) = lookup c"
  "lookup (c\<lparr>entry_level := lv\<rparr>) = lookup c"
  by (simp_all add: lookup_def fun_eq_iff)

lemma find_incref_ok:
  assumes I: "cache_inv c L"
  shows "lookup c key t = None \<Longrightarrow> apc_cache_rlocked_find_incref key t c =
      Some (None, c\<lparr>h_nmisses := int64_of (h_nmisses c + 1)\<rparr>)"
    "lookup c key t = Some en \<Longrightarrow> \<exists>a c'. apc_cache_rlocked_find_incref key t c = Some (Some a, c') \<and>
      cache_inv c' L \<and> same_config c c' \<and> a \<in> members (slots c') L \<and> e_key (dat c' a) = key \<and>
      strip (dat c' a) = (hit t en)\<lparr>e_ref_count := int64_of (e_ref_count en + 1)\<rparr> \<and>
      cache_map c' = (cache_map c)(key \<mapsto> strip (dat c' a))"
proof -
  show "apc_cache_rlocked_find_incref key t c = Some (None, c\<lparr>h_nmisses := int64_of (h_nmisses c + 1)\<rparr>)"
    if "lookup c key t = None"
    using rlocked_find_ok(1) [OF I that] by (simp add: apc_cache_rlocked_find_incref_def)
  assume "lookup c key t = Some en"
  from rlocked_find_ok(2) [OF I this] obtain a where a: "a \<in> members (slots c) L" "e_key (dat c a) = key"
    "strip (dat c a) = en"
    "apc_cache_rlocked_find key t c = Some (Some a, upd_entry a (hit t) (c\<lparr>h_nhits := int64_of (h_nhits c + 1)\<rparr>))" by blast
  define c1 where "c1 = upd_entry a (hit t) (c\<lparr>h_nhits := int64_of (h_nhits c + 1)\<rparr>)"
  note h = hit_ok [OF I a(1), of t "int64_of (h_nhits c + 1)", folded c1_def]
  have a1: "a \<in> members (slots c1) L" using a(1) h(5) by simp
  let ?f = "\<lambda>e. e\<lparr>e_ref_count := int64_of (e_ref_count e + 1)\<rparr>"
  define c2 where "c2 = upd_entry a ?f c1"
  note r = incref_release_ok [OF h(1) a1, folded c2_def]
  have st: "strip (dat c2 a) = (hit t en)\<lparr>e_ref_count := int64_of (e_ref_count en + 1)\<rparr>"
    unfolding a(3) [symmetric] by (simp add: c2_def h(3) hit_def strip_def)
  have e3: "e_ref_count (dat c1 a) = e_ref_count en" "strip (dat c1 a) = hit t en"
    using h(3) a(3) by (auto simp: hit_place)
  have "cache_map c2 = (cache_map c)(key \<mapsto> strip (dat c2 a))"
    unfolding r(5) st e3 h(4) using h(3) a(2) by simp
  moreover have "apc_cache_rlocked_find_incref key t c = Some (Some a, c2)"
    using a(4) by (simp add: apc_cache_rlocked_find_incref_def c1_def c2_def)
  moreover have "e_key (dat c2 a) = key" using r(4) h(3) a(2) by simp
  ultimately show "\<exists>a c'. apc_cache_rlocked_find_incref key t c = Some (Some a, c') \<and>
      cache_inv c' L \<and> same_config c c' \<and> a \<in> members (slots c') L \<and> e_key (dat c' a) = key \<and>
      strip (dat c' a) = (hit t en)\<lparr>e_ref_count := int64_of (e_ref_count en + 1)\<rparr> \<and>
      cache_map c' = (cache_map c)(key \<mapsto> strip (dat c' a))"
    using r(1,3) same_config_trans [OF h(2) r(2)] st by blast
qed

text \<open>A miss.\<close>

lemma miss_ok [simp]:
  "same_config c (c\<lparr>h_nmisses := n\<rparr>)" "cache_map (c\<lparr>h_nmisses := n\<rparr>) = cache_map c"
  "cache_inv (c\<lparr>h_nmisses := n\<rparr>) L = cache_inv c L"
  by simp_all

text \<open>What a fetch does to the map.\<close>

definition fetch_map :: "('v, 'x) cstate \<Rightarrow> string \<Rightarrow> int \<Rightarrow> string \<Rightarrow> 'v entry option" where
  "fetch_map c key t = (case lookup c key t of
     None \<Rightarrow> cache_map c | Some en \<Rightarrow> (cache_map c)(key \<mapsto> fetched t en))"

definition fetch_value :: "(zval \<Rightarrow> 'v \<Rightarrow> 'a option) \<Rightarrow> ('v, 'x) cstate \<Rightarrow> string \<Rightarrow> int \<Rightarrow> 'a option" where
  "fetch_value unp c key t = (case lookup c key t of None \<Rightarrow> None | Some en \<Rightarrow> unp (e_val en) (e_data en))"

lemma release_fetched:
  assumes I: "cache_inv c L" and a: "a \<in> members (slots c) L" "e_key (dat c a) = key"
    and s: "strip (dat c a) = (hit t en)\<lparr>e_ref_count := int64_of (e_ref_count en + 1)\<rparr>"
    and m: "cache_map c = m(key \<mapsto> strip (dat c a))"
  shows "cache_map (apc_cache_entry_release a c) = m(key \<mapsto> fetched t en)"
proof -
  have r: "e_ref_count (dat c a) = int64_of (e_ref_count en + 1)" using arg_cong [OF s, of e_ref_count] by simp
  have "(strip (dat c a))\<lparr>e_ref_count := int64_of (e_ref_count (dat c a) - 1)\<rparr> = fetched t en"
    unfolding r s by (simp add: fetched_def)
  then show ?thesis unfolding release_ok(3) [OF I a(1)] a(2) m by simp
qed

lemma fetch_ok:
  assumes I: "cache_inv c L" and l: "lockable c" and x: "cache_exists c"
  shows "\<exists>c'. apc_cache_fetch unp key t c = Some (if lock_gets c then fetch_value unp c key t else None, c') \<and>
    cache_inv c' L \<and> same_env c c' \<and> cache_map c' = (if lock_gets c then fetch_map c key t else cache_map c) \<and>
    (cache_lock_results c = [] \<longrightarrow> cache_lock_results c' = [])"
proof (cases "lock_gets c")
  case False
  then show ?thesis using x I lock_as_ok [OF l, of Rlocked] by (auto simp: apc_cache_fetch_def apc_cache_rlock_def lock_gets_def split: list.splits)
next
  case True
  let ?c = "locked Rlocked c"
  have lk: "apc_cache_rlock c = Some (True, ?c)" using True lock_as_ok [OF l, of Rlocked] by (simp add: apc_cache_rlock_def)
  have Ic: "cache_inv ?c L" using I by simp
  show ?thesis
  proof (cases "lookup c key t")
    case None
    let ?c' = "?c\<lparr>h_nmisses := int64_of (h_nmisses ?c + 1)\<rparr>"
    have "apc_cache_rlocked_find_incref key t ?c = Some (None, ?c')" using find_incref_ok(1) [OF Ic] None by simp
    then have "apc_cache_fetch unp key t c = Some (None, apc_cache_runlock ?c')"
      using x lk by (simp add: apc_cache_fetch_def)
    moreover have "same_env c (apc_cache_runlock ?c')" by (rule same_env_unlock(2) [OF l miss_ok(1)])
    ultimately show ?thesis using None True Ic
      by (simp add: fetch_value_def fetch_map_def lock_results_unlock(2) [OF miss_ok(1)])
  next
    case (Some en)
    then obtain a c2 where r: "apc_cache_rlocked_find_incref key t ?c = Some (Some a, c2)" "cache_inv c2 L"
      "same_config ?c c2" "a \<in> members (slots c2) L" "e_key (dat c2 a) = key"
      "strip (dat c2 a) = (hit t en)\<lparr>e_ref_count := int64_of (e_ref_count en + 1)\<rparr>"
      "cache_map c2 = (cache_map c)(key \<mapsto> strip (dat c2 a))"
      using find_incref_ok(2) [OF Ic, of key t en] by auto
    let ?c3 = "apc_cache_runlock c2"
    have u: "cache_inv ?c3 L" "a \<in> members (slots ?c3) L" "e_key (dat ?c3 a) = key"
      "strip (dat ?c3 a) = (hit t en)\<lparr>e_ref_count := int64_of (e_ref_count en + 1)\<rparr>"
      "cache_map ?c3 = (cache_map c)(key \<mapsto> strip (dat ?c3 a))" using r by simp_all
    have v: "e_val (dat c2 a) = e_val en" "e_data (dat c2 a) = e_data en"
      using arg_cong [OF r(6), of e_val] arg_cong [OF r(6), of e_data] by simp_all
    have "apc_cache_fetch unp key t c = Some (unp (e_val en) (e_data en), apc_cache_entry_release a ?c3)"
      using x lk r(1) v by (simp add: apc_cache_fetch_def apc_cache_entry_fetch_zval_def)
    moreover have "same_env c (apc_cache_entry_release a ?c3)"
      using same_env_trans [OF same_env_unlock(2) [OF l r(3)] same_config_env [OF release_ok(2) [OF u(1,2)]]] .
    moreover have "cache_lock_results c = [] \<longrightarrow> cache_lock_results (apc_cache_entry_release a ?c3) = []"
      using lock_results_unlock(2) [OF r(3)] same_config_sel(11) [OF release_ok(2) [OF u(1,2)]] by simp
    ultimately show ?thesis
      using True Some release_ok(1) [OF u(1,2)] release_fetched [OF u] by (simp add: fetch_value_def fetch_map_def)
  qed
qed

lemma exists_ok:
  assumes I: "cache_inv c L" and l: "lockable c" and x: "cache_exists c"
  shows "\<exists>c'. apc_cache_exists key t c = Some (lock_gets c \<and> lookup c key t \<noteq> None, c') \<and> cache_inv c' L \<and> same_env c c' \<and>
    cache_map c' = (if lock_gets c then (case lookup c key t of
       None \<Rightarrow> cache_map c | Some en \<Rightarrow> (cache_map c)(key \<mapsto> hit t en)) else cache_map c) \<and>
    (cache_lock_results c = [] \<longrightarrow> cache_lock_results c' = [])"
proof (cases "lock_gets c")
  case False
  then show ?thesis using x I lock_as_ok [OF l, of Rlocked] by (auto simp: apc_cache_exists_def apc_cache_rlock_def lock_gets_def split: list.splits)
next
  case True
  let ?c = "locked Rlocked c"
  have lk: "apc_cache_rlock c = Some (True, ?c)" using True lock_as_ok [OF l, of Rlocked] by (simp add: apc_cache_rlock_def)
  have Ic: "cache_inv ?c L" using I by simp
  show ?thesis
  proof (cases "lookup c key t")
    case None
    let ?c' = "?c\<lparr>h_nmisses := int64_of (h_nmisses ?c + 1)\<rparr>"
    have "apc_cache_rlocked_find key t ?c = Some (None, ?c')" using rlocked_find_ok(1) [OF Ic] None by simp
    then have "apc_cache_exists key t c = Some (False, apc_cache_runlock ?c')"
      using x lk by (simp add: apc_cache_exists_def)
    moreover have "same_env c (apc_cache_runlock ?c')" by (rule same_env_unlock(2) [OF l miss_ok(1)])
    ultimately show ?thesis using None True Ic by (simp add: lock_results_unlock(2) [OF miss_ok(1)])
  next
    case (Some en)
    then obtain a where r: "a \<in> members (slots ?c) L" "e_key (dat ?c a) = key" "strip (dat ?c a) = en"
      "apc_cache_rlocked_find key t ?c = Some (Some a, upd_entry a (hit t) (?c\<lparr>h_nhits := int64_of (h_nhits ?c + 1)\<rparr>))"
      using rlocked_find_ok(2) [OF Ic, of key t en] by auto
    note h = hit_ok [OF Ic r(1), of t "int64_of (h_nhits ?c + 1)"]
    have "apc_cache_exists key t c =
        Some (True, apc_cache_runlock (upd_entry a (hit t) (?c\<lparr>h_nhits := int64_of (h_nhits ?c + 1)\<rparr>)))"
      using x lk r(4) by (simp add: apc_cache_exists_def)
    then show ?thesis using True Some h(1) same_env_unlock(2) [OF l h(2)] lock_results_unlock(2) [OF h(2)] h(4) r(2,3) by simp
  qed
qed

end
