(* ===== verification/Cache_Updates.thy ===== *)
theory Cache_Updates imports Cache_Reads begin

text \<open>
  Deleting, clearing, the statistics of a key and the in-place updates of \<open>apc_cache.c\<close>, stated over the
  map of the cache.
\<close>

subsection \<open>Deleting\<close>

lemma find_append: "find P (xs @ ys) = (case find P xs of None \<Rightarrow> find P ys | Some x \<Rightarrow> Some x)"
  by (induction xs) auto

lemma takeWhile_tl_find:
  assumes d: "distinct (map e_key es)" and r: "dropWhile (\<lambda>e. e_key e \<noteq> key) es = y # rest"
  shows "find (\<lambda>e. e_key e = k) (takeWhile (\<lambda>e. e_key e \<noteq> key) es @ rest) =
    (if k = key then None else find (\<lambda>e. e_key e = k) es)"
proof -
  define pre where "pre = takeWhile (\<lambda>e. e_key e \<noteq> key) es"
  have es: "es = pre @ y # rest" using takeWhile_dropWhile_id [of "\<lambda>e. e_key e \<noteq> key" es] unfolding r pre_def by (rule sym)
  have y: "e_key y = key" using hd_dropWhile [of "\<lambda>e. e_key e \<noteq> key" es] unfolding r by simp
  have p: "find (\<lambda>e. e_key e = key) pre = None" unfolding find_None_iff pre_def by (auto dest: set_takeWhileD)
  have q: "find (\<lambda>e. e_key e = key) rest = None" using d y unfolding es find_None_iff by (auto simp: image_iff)
  show ?thesis
  proof (cases "k = key")
    case True
    then show ?thesis using p q unfolding pre_def [symmetric] find_append by simp
  next
    case False
    then have s: "find (\<lambda>e. e_key e = k) (y # rest) = find (\<lambda>e. e_key e = k) rest" using y by auto
    have "find (\<lambda>e. e_key e = k) es = find (\<lambda>e. e_key e = k) (pre @ rest)" unfolding es find_append s ..
    then show ?thesis unfolding pre_def [symmetric] using False by simp
  qed
qed

lemma delete_map:
  assumes I: "cache_inv c L"
  shows "\<exists>c' L'. delete_scan key (fst (apc_cache_hash_slot c key)) (slot_addr c (snd (apc_cache_hash_slot c key))) c =
      Some (cache_map c key \<noteq> None, c') \<and>
    cache_inv c' L' \<and> same_config c c' \<and> cache_map c' = (cache_map c)(key := None) \<and> request_time c' = request_time c"
proof -
  define i where "i = slot_of c key"
  obtain b c' L' where r: "delete_scan key (zstr_hash c key) (slot_addr c i) c = Some (b, c')" "cache_inv c' L'"
    "(b, contents c' (L' (slot_at c i)), contents c' (L' (gc_at c))) =
      a_delete (clock c) key (contents c (L (slot_at c i))) (contents c (L (gc_at c)))"
    "\<forall>j<nslots c. j \<noteq> i \<longrightarrow> contents c' (L' (slot_at c j)) = contents c (L (slot_at c j))" "same_core c c'"
    using delete_ok [OF I, of key] unfolding i_def by blast
  note cf = same_core_config [OF r(5)]
  have d: "distinct (map e_key (contents c (L (slot_at c i))))"
    unfolding i_def by (rule slot_keys_distinct [OF I slot_of_less [OF I]])
  have m: "cache_map c k = find (\<lambda>e. e_key e = k) (contents c (L (slot_at c (slot_of c k))))"
    "cache_map c' k = find (\<lambda>e. e_key e = k) (contents c' (L' (slot_at c (slot_of c k))))" for k
    using cache_map_find [OF I, of k] cache_map_find [OF r(2), of k] same_config_fun(1,7) [OF cf] by simp_all
  have k: "b = (cache_map c key \<noteq> None)" "find (\<lambda>e. e_key e = k) (contents c' (L' (slot_at c i))) =
      (if k = key then None else find (\<lambda>e. e_key e = k) (contents c (L (slot_at c i))))" for k
  proof -
    have "b = (cache_map c key \<noteq> None) \<and> find (\<lambda>e. e_key e = k) (contents c' (L' (slot_at c i))) =
      (if k = key then None else find (\<lambda>e. e_key e = k) (contents c (L (slot_at c i))))"
    proof (cases "dropWhile (\<lambda>e. e_key e \<noteq> key) (contents c (L (slot_at c i)))")
      case Nil
      then have n: "find (\<lambda>e. e_key e = key) (contents c (L (slot_at c i))) = None"
        by (simp add: find_None_iff dropWhile_eq_Nil_conv)
      then show ?thesis using r(3) [unfolded a_delete_def Nil list.case] m(1) [of key] by (auto simp: i_def)
    next
      case (Cons y zs)
      have "y \<in> set (contents c (L (slot_at c i)))" "e_key y = key"
        using set_dropWhileD [of y "\<lambda>e. e_key e \<noteq> key" "contents c (L (slot_at c i))"]
          hd_dropWhile [of "\<lambda>e. e_key e \<noteq> key" "contents c (L (slot_at c i))"] unfolding Cons by simp_all
      then have "find (\<lambda>e. e_key e = key) (contents c (L (slot_at c i))) \<noteq> None" by (auto simp: find_None_iff)
      then show ?thesis using r(3) [unfolded a_delete_def Cons list.case] m(1) [of key] takeWhile_tl_find [OF d Cons]
        by (simp add: i_def)
    qed
    then show "b = (cache_map c key \<noteq> None)" "find (\<lambda>e. e_key e = k) (contents c' (L' (slot_at c i))) =
      (if k = key then None else find (\<lambda>e. e_key e = k) (contents c (L (slot_at c i))))" by simp_all
  qed
  have "cache_map c' = (cache_map c)(key := None)"
  proof
    fix k
    show "cache_map c' k = ((cache_map c)(key := None)) k"
      using r(4) slot_of_less [OF I, of k] k(2) [of k] m [of k] by (cases "slot_of c k = i") (auto simp: i_def)
  qed
  then show ?thesis using r(1,2) cf k(1) same_core_sel(29) [OF r(5)] by (auto simp: apc_cache_hash_slot_def i_def slot_of_def)
qed

lemma hash_slot_env: "same_env c c' \<Longrightarrow> apc_cache_hash_slot c' = apc_cache_hash_slot c"
  "same_env c c' \<Longrightarrow> slot_addr c' = slot_addr c"
  using same_env_sel [of c c'] by (simp_all add: apc_cache_hash_slot_def slot_addr_def fun_eq_iff)

lemma locked_slots [simp]: "apc_cache_hash_slot (locked l c) = apc_cache_hash_slot c" "slot_addr (locked l c) = slot_addr c"
  by (simp_all add: locked_def apc_cache_hash_slot_def slot_addr_def fun_eq_iff)

lemma delete_api_ok:
  assumes I: "cache_inv c L" and l: "lockable c" and x: "cache_exists c"
  shows "\<exists>c' L'. apc_cache_delete key c = Some (lock_gets c \<and> cache_map c key \<noteq> None, c') \<and> cache_inv c' L' \<and>
    same_env c c' \<and> cache_map c' = (if lock_gets c then (cache_map c)(key := None) else cache_map c)"
proof (cases "lock_gets c")
  case False
  then show ?thesis using x I lock_as_ok [OF l, of Wlocked] by (auto simp: apc_cache_delete_def apc_cache_wlock_def Let_def)
next
  case True
  let ?c = "locked Wlocked c"
  have lk: "apc_cache_wlock c = Some (True, ?c)" using True lock_as_ok [OF l, of Wlocked] by (simp add: apc_cache_wlock_def)
  have Ic: "cache_inv ?c L" using I by simp
  obtain c1 L1 where d: "delete_scan key (fst (apc_cache_hash_slot c key)) (slot_addr c (snd (apc_cache_hash_slot c key))) ?c =
      Some (cache_map c key \<noteq> None, c1)" "cache_inv c1 L1" "same_config ?c c1" "cache_map c1 = (cache_map c)(key := None)"
    using delete_map [OF Ic, of key] by auto
  have "apc_cache_delete key c = Some (cache_map c key \<noteq> None, apc_cache_wunlock c1)"
    using x lk d(1) by (simp add: apc_cache_delete_def Let_def)
  then show ?thesis using True d(2,4) same_env_unlock(1) [OF l d(3)]
    by (intro exI [of _ "apc_cache_wunlock c1"] exI [of _ L1]) simp
qed

subsection \<open>Clearing\<close>

lemma cache_map_empty:
  assumes "cache_inv c L" "\<forall>i<nslots c. L (slot_at c i) = []"
  shows "cache_map c = Map.empty"
proof
  fix k
  show "cache_map c k = None" using cache_map_find [OF assms(1), of k] assms(2) slot_of_less [OF assms(1), of k] by simp
qed

lemma clear_ok:
  assumes I: "cache_inv c L" and l: "lockable c" and x: "cache_exists c"
  shows "\<exists>c' L'. apc_cache_clear c = Some c' \<and> cache_inv c' L' \<and> same_env c c' \<and>
    (if lock_gets c then cache_map c' = Map.empty \<and> h_nentries c' = 0 \<and> h_mem_size c' = 0 \<and> h_nhits c' = 0 \<and>
       h_nmisses c' = 0 \<and> h_ninserts c' = 0 \<and> h_ncleanups c' = 0 \<and> h_nexpunges c' = 0 \<and> h_ndefragmentations c' = 0 \<and>
       contents c' (L' (gc_at c')) = a_drop (clock c) (concat (map (\<lambda>i. contents c (L (slot_at c i))) [0..<nslots c]))
         (contents c (L (gc_at c)))
     else cache_map c' = cache_map c)"
proof (cases "lock_gets c")
  case False
  then show ?thesis using x I lock_as_ok [OF l, of Wlocked] by (auto simp: apc_cache_clear_def apc_cache_wlock_def)
next
  case True
  let ?c = "locked Wlocked c"
  have lk: "apc_cache_wlock c = Some (True, ?c)" using True lock_as_ok [OF l, of Wlocked] by (simp add: apc_cache_wlock_def)
  have Ic: "cache_inv ?c L" using I by simp
  have lc: "slot_at ?c = slot_at c" "gc_at ?c = gc_at c" "nslots ?c = nslots c" "clock ?c = clock c"
    by (simp_all add: locked_def slot_at_def gc_at_def fun_eq_iff)
  obtain c1 L1 where e: "apc_cache_wlocked_real_expunge ?c = Some c1" "cache_inv c1 L1" "same_config ?c c1"
    "\<forall>i<nslots ?c. L1 (slot_at ?c i) = []"
    "contents c1 (L1 (gc_at ?c)) = a_drop (clock ?c) (concat (map (\<lambda>i. contents ?c (L (slot_at ?c i))) [0..<nslots ?c]))
       (contents ?c (L (gc_at ?c)))"
    "h_nentries c1 = 0" "h_mem_size c1 = 0" "h_nhits c1 = 0" "h_nmisses c1 = 0" "h_ninserts c1 = 0"
    using real_expunge_ok [OF Ic] by blast
  define c2 where "c2 = (snd (apc_time c1))\<lparr>h_stime := fst (apc_time c1), h_ncleanups := 0, h_ndefragmentations := 0,
    h_nexpunges := 0\<rparr>"
  obtain r where r: "snd (apc_time c1) = c1\<lparr>request_time := r\<rparr>" using apc_time_ok by blast
  have i2: "cache_inv c2 L1" "slot_at c2 = slot_at c1" "gc_at c2 = gc_at c1"
    using e(2) cache_inv_fields [of c2 c1] by (simp_all add: c2_def r)
  have s2: "same_config ?c c2"
    by (rule same_config_trans [OF e(3)]) (simp add: c2_def r same_config_def config_def core_def)
  note k2 = same_config_sel [OF s2] and f2 = same_config_fun [OF s2]
  have ct: "contents c2 = contents c1" by (simp add: c2_def r contents_def fun_eq_iff)
  have "cache_map c2 = Map.empty" by (rule cache_map_empty [OF i2(1)]) (use e(4) k2(5) f2(1) in simp)
  moreover have "apc_cache_clear c = Some (apc_cache_wunlock c2)"
    using x lk e(1) by (simp add: apc_cache_clear_def c2_def Let_def)
  moreover have "gc_at (apc_cache_wunlock c2) = gc_at ?c" using f2(2) by (simp add: apc_cache_wunlock_def gc_at_def)
  moreover have u: "h_nentries (apc_cache_wunlock c2) = 0 \<and> h_mem_size (apc_cache_wunlock c2) = 0 \<and>
      h_nhits (apc_cache_wunlock c2) = 0 \<and> h_nmisses (apc_cache_wunlock c2) = 0 \<and> h_ninserts (apc_cache_wunlock c2) = 0 \<and>
      h_ncleanups (apc_cache_wunlock c2) = 0 \<and> h_nexpunges (apc_cache_wunlock c2) = 0 \<and>
      h_ndefragmentations (apc_cache_wunlock c2) = 0"
    using e(6-) by (simp add: apc_cache_wunlock_def c2_def r)
  ultimately show ?thesis using True i2(1) same_env_unlock(1) [OF l s2] e(5) ct lc
    by (intro exI [of _ "apc_cache_wunlock c2"] exI [of _ L1]) simp
qed


subsection \<open>Statistics of a key\<close>

lemma key_stat_strip [simp]: "key_stat_of (strip e) = key_stat_of e"
  by (simp add: key_stat_of_def)

lemma stat_ok:
  assumes I: "cache_inv c L" and l: "lockable c" and x: "cache_exists c"
  shows "\<exists>c'. apc_cache_stat key c = Some (if lock_gets c then map_option key_stat_of (cache_map c key) else None, c') \<and>
    cache_inv c' L \<and> same_env c c' \<and> cache_map c' = cache_map c"
proof (cases "lock_gets c")
  case False
  then show ?thesis using x I lock_as_ok [OF l, of Rlocked] by (simp add: apc_cache_stat_def apc_cache_rlock_def Let_def)
next
  case True
  let ?c = "locked Rlocked c"
  have lk: "apc_cache_rlock c = Some (True, ?c)" using True lock_as_ok [OF l, of Rlocked] by (simp add: apc_cache_rlock_def)
  have Ic: "cache_inv ?c L" using I by simp
  have e: "entry_at ?c L key = entry_at c L key"
    by (simp add: entry_at_def) (simp add: locked_def slot_at_def slot_of_def)
  have "apc_cache_stat key c = Some (map_option key_stat_of (cache_map c key), apc_cache_runlock ?c)"
    using x lk find_slot_ok [OF Ic, of key] cache_map_entry [OF I, of key]
    by (cases "entry_at c L key") (simp_all add: apc_cache_stat_def Let_def e)
  then show ?thesis using True I same_env_unlock(2) [OF l same_config_refl] by simp
qed

subsection \<open>Atomic updates\<close>

definition set_long :: "int \<Rightarrow> int \<Rightarrow> 'v entry \<Rightarrow> 'v entry" where
  "set_long v t e = e\<lparr>e_val := IS_LONG v, e_mtime := t\<rparr>"

lemma set_long_place [simp]: "keeps_place (set_long v t) e" "strip (set_long v t e) = set_long v t (strip e)"
  by (simp_all add: keeps_place_def set_long_def strip_def)

text \<open>The updater's data after an update of what the lookup found.\<close>

definition updated_data :: "('d \<Rightarrow> int \<Rightarrow> bool \<times> int \<times> 'd) \<Rightarrow> 'd \<Rightarrow> bool \<Rightarrow> 'v entry option \<Rightarrow> 'd" where
  "updated_data u d got r = (case r of
     Some en \<Rightarrow> if got \<and> z_is_long (e_val en) then snd (snd (u d (z_lval (e_val en)))) else d
   | None \<Rightarrow> d)"

lemma atomic_update_once_ok:
  fixes key :: string and t :: int
  assumes I: "cache_inv c L" and l: "lockable c"
  defines "r \<equiv> lookup c key t"
  shows "\<exists>c'. atomic_update_once u d key t c =
      Some ((if \<not> lock_gets c then Some False
            else case r of None \<Rightarrow> None
                 | Some en \<Rightarrow> Some (z_is_long (e_val en) \<and> fst (u d (z_lval (e_val en)))), updated_data u d (lock_gets c) r), c') \<and>
    cache_inv c' L \<and> same_env c c' \<and> request_time c' = request_time c \<and>
    cache_map c' = (case r of
        Some en \<Rightarrow> if lock_gets c \<and> z_is_long (e_val en)
          then (cache_map c)(key \<mapsto> set_long (fst (snd (u d (z_lval (e_val en))))) t en) else cache_map c
      | None \<Rightarrow> cache_map c) \<and> (cache_lock_results c = [] \<longrightarrow> cache_lock_results c' = [])"
proof (cases "lock_gets c")
  case False
  then show ?thesis using I lock_as_ok [OF l, of Rlocked] by (auto simp: atomic_update_once_def updated_data_def apc_cache_rlock_def lock_gets_def split: option.splits list.splits)
next
  case True
  let ?c = "locked Rlocked c"
  have lk: "apc_cache_rlock c = Some (True, ?c)" using True lock_as_ok [OF l, of Rlocked] by (simp add: apc_cache_rlock_def)
  have Ic: "cache_inv ?c L" using I by simp
  have rt: "request_time (apc_cache_runlock (upd_entry a f ?c)) = request_time c"
    "request_time (apc_cache_runlock ?c) = request_time c" for a f
    by (simp_all add: apc_cache_runlock_def upd_entry_def locked_def)
  obtain e where e: "apc_cache_rlocked_find_nostat key t ?c = Some e" "r = map_option (\<lambda>a. strip (dat c a)) e"
    "\<forall>a. e = Some a \<longrightarrow> a \<in> members (slots c) L \<and> e_key (dat c a) = key"
    using rlocked_find_nostat_ok [OF Ic, of key t] unfolding r_def by auto
  show ?thesis
  proof (cases e)
    case None
    then show ?thesis using e lk True I rt same_env_unlock(2) [OF l same_config_refl]
      by (simp add: atomic_update_once_def updated_data_def lock_results_unlock(2) [OF same_config_refl])
  next
    case (Some a)
    have a: "a \<in> members (slots ?c) L" "e_key (dat ?c a) = key" "a \<in> members (heads ?c) L"
      using e(3) Some members_heads(1) [of c L] by auto
    show ?thesis
    proof (cases "z_is_long (e_val (dat c a))")
      case False
      then show ?thesis using e(1,2) Some lk True I rt same_env_unlock(2) [OF l same_config_refl]
        by (simp add: atomic_update_once_def updated_data_def Let_def lock_results_unlock(2) [OF same_config_refl])
    next
      case lg: True
      let ?v = "u d (z_lval (e_val (dat c a)))"
      let ?c1 = "upd_entry a (set_long (fst (snd ?v)) t) ?c"
      have "atomic_update_once u d key t c = Some ((Some (fst ?v), snd (snd ?v)), apc_cache_runlock ?c1)"
        using e(1) Some lk lg by (simp add: atomic_update_once_def Let_def set_long_def [abs_def])
      moreover have "cache_inv ?c1 L" by (rule upd_member_ok [OF Ic a(3)]) simp
      moreover have "cache_map ?c1 = (cache_map c)(key \<mapsto> set_long (fst (snd ?v)) t (strip (dat c a)))"
        using cache_map_upd [OF Ic a(1), of "set_long (fst (snd ?v)) t"] a(2) by simp
      moreover have "same_env c (apc_cache_runlock ?c1)"
        by (rule same_env_unlock(2) [OF l same_core_config [OF upd_entry_sel(2)]])
      moreover have "cache_lock_results c = [] \<longrightarrow> cache_lock_results (apc_cache_runlock ?c1) = []"
        using lock_results_unlock(2) [OF same_core_config [OF upd_entry_sel(2)]] by blast
      ultimately show ?thesis using True lg e(2) Some rt by (simp add: updated_data_def)
    qed
  qed
qed

lemma apc_time_again: "request_time c' = request_time (snd (apc_time c)) \<Longrightarrow> same_env c c' \<Longrightarrow>
    fst (apc_time c') = fst (apc_time c)"
  using same_env_sel(13,14,15) [of c c'] by (auto simp: apc_time_def Let_def split: if_splits)

lemma lookup_map: "cache_map c' key = cache_map c key \<Longrightarrow> lookup c' key t = lookup c key t"
  by (simp add: lookup_def)

text \<open>
  \<open>apc_cache_atomic_update_long\<close>: an integer is updated in place; a missing key is created with 0 first
  when the caller asks for it.
\<close>

text \<open>What may be under the key when an insertion or the update after it fails: the old entry, none, 0 or the new value.\<close>

definition left_at :: "('v, 'x) cstate \<Rightarrow> string \<Rightarrow> int \<Rightarrow> 'v entry option \<Rightarrow> bool" where
  "left_at c key v r \<longleftrightarrow> r = cache_map c key \<or> r = None \<or> (\<exists>en. r = Some en \<and> e_val en \<in> {IS_LONG 0, IS_LONG v})"

lemma atomic_update_ok:
  fixes c :: "('v, 'x) cstate"
  assumes I: "cache_inv c L" and l: "lockable c" and x: "cache_exists c"
    and img: "\<And>sz zv data. img key (IS_LONG 0) = Some (sz, zv, data) \<Longrightarrow> 0 < sz \<and> zv = IS_LONG 0"
  defines "t \<equiv> fst (apc_time c)"
  shows "\<exists>b d' c' L'. apc_cache_atomic_update_long img key u d ins ttl c = Some ((b, d'), c') \<and> cache_inv c' L' \<and> same_env c c' \<and>
    others_kept c key c' \<and>
    (case lookup c key t of
       Some en \<Rightarrow> if lock_gets c \<and> z_is_long (e_val en)
         then b = fst (u d (z_lval (e_val en))) \<and> d' = snd (snd (u d (z_lval (e_val en)))) \<and>
           cache_map c' = (cache_map c)(key \<mapsto> set_long (fst (snd (u d (z_lval (e_val en))))) t en)
         else \<not> b \<and> d' = d \<and> cache_map c' = cache_map c
     | None \<Rightarrow> if ins \<and> lock_gets c
         then (\<exists>sz data. img key (IS_LONG 0) = Some (sz, IS_LONG 0, data) \<and> b = fst (u d 0) \<and> d' = snd (snd (u d 0)) \<and>
             cache_map c' key = Some (set_long (fst (snd (u d 0))) t (fresh_entry c key (int32_of ttl) t sz (IS_LONG 0) data))) \<or>
           \<not> b \<and> left_at c key (fst (snd (u d 0))) (cache_map c' key)
         else \<not> b \<and> d' = d \<and> cache_map c' = cache_map c)"
proof -
  define c0 where "c0 = snd (apc_time c)"
  note t0 = apc_time_inv [of c, folded c0_def]
  have m0: "cache_map c0 = cache_map c" "lookup c0 = lookup c" by (simp_all add: c0_def)
  have e0: "same_env c c0" by (rule same_config_env [OF t0(2)])
  have x0: "cache_exists c0" using same_env_sel(1) [OF e0] x by simp
  have l0: "lockable c0" using same_env_fun(7) [OF e0] l by simp
  have g0: "lock_gets c0 = lock_gets c" using same_config_sel(11,12) [OF t0(2)] by (simp add: lock_gets_def)
  have I0: "cache_inv c0 L" using I t0(1) by simp
  obtain c1 where u1: "atomic_update_once u d key t c0 = Some ((if \<not> lock_gets c then Some False
            else case lookup c key t of None \<Rightarrow> None
                 | Some en \<Rightarrow> Some (z_is_long (e_val en) \<and> fst (u d (z_lval (e_val en)))), updated_data u d (lock_gets c) (lookup c key t)), c1)"
    "cache_inv c1 L" "same_env c0 c1" "request_time c1 = request_time c0"
    "cache_map c1 = (case lookup c key t of
        Some en \<Rightarrow> if lock_gets c \<and> z_is_long (e_val en)
          then (cache_map c)(key \<mapsto> set_long (fst (snd (u d (z_lval (e_val en))))) t en) else cache_map c
      | None \<Rightarrow> cache_map c)"
    using atomic_update_once_ok [OF I0 l0, of u d key t] unfolding m0 g0 by blast
  have e1: "same_env c c1" using same_env_trans [OF e0 u1(3)] .
  have run: "apc_cache_atomic_update_long img key u d ins ttl c =
      (let d1 = updated_data u d (lock_gets c) (lookup c key t) in case (if \<not> lock_gets c then Some False
            else case lookup c key t of None \<Rightarrow> None
                 | Some en \<Rightarrow> Some (z_is_long (e_val en) \<and> fst (u d (z_lval (e_val en))))) of
         Some b \<Rightarrow> Some ((b, d1), c1)
       | None \<Rightarrow> if \<not> ins then Some ((False, d1), c1)
           else Option.bind (apc_cache_store img key (IS_LONG 0) (int32_of ttl) True c1) (\<lambda>s.
             Option.bind (atomic_update_once u d1 key t (snd s)) (\<lambda>r2.
               Some ((case fst (fst r2) of Some b \<Rightarrow> b | None \<Rightarrow> False, snd (fst r2)), snd r2))))"
    using x0 u1(1) unfolding apc_cache_atomic_update_long_def Let_def c0_def [symmetric] t_def [symmetric]
    by (simp cong: if_cong option.case_cong)
  show ?thesis
  proof (cases "lock_gets c \<and> lookup c key t = None \<and> ins")
    case False
    then show ?thesis using run u1(2,5) e1 unfolding updated_data_def Let_def
      by (cases "lookup c key t") (auto simp: others_kept_def split: if_splits)
  next
    case True
    have m1: "cache_map c1 = cache_map c" using u1(5) True by simp
    have l1: "lockable c1" using same_env_fun(7) [OF e1] l by simp
    have x1: "cache_exists c1" using same_env_sel(1) [OF e1] x by simp
    obtain b2 c2 L2 where s: "apc_cache_store img key (IS_LONG 0) (int32_of ttl) True c1 = Some (b2, c2)"
      "cache_inv c2 L2" "same_env c1 c2" "others_kept c1 key c2"
      "if b2 then \<exists>sz zv data. img key (IS_LONG 0) = Some (sz, zv, data) \<and>
         cache_map c2 key = Some (fresh_entry c1 key (int32_of ttl) (fst (apc_time c1)) sz zv data)
       else cache_map c2 key = cache_map c1 key \<or> cache_map c2 key = None"
      using store_ok [OF u1(2) l1 x1, of img key "IS_LONG 0" "int32_of ttl" True] img by blast
    have e2: "same_env c c2" using same_env_trans [OF e1 s(3)] .
    have l2: "lockable c2" using same_env_fun(7) [OF e2] l by simp
    obtain c3 d3 where u3: "atomic_update_once u d key t c2 = Some ((if \<not> lock_gets c2 then Some False
            else case lookup c2 key t of None \<Rightarrow> None
                 | Some en \<Rightarrow> Some (z_is_long (e_val en) \<and> fst (u d (z_lval (e_val en)))), d3), c3)"
      "d3 = updated_data u d (lock_gets c2) (lookup c2 key t)"
      "cache_inv c3 L2" "same_env c2 c3"
      "cache_map c3 = (case lookup c2 key t of
        Some en \<Rightarrow> if lock_gets c2 \<and> z_is_long (e_val en)
          then (cache_map c2)(key \<mapsto> set_long (fst (snd (u d (z_lval (e_val en))))) t en) else cache_map c2
      | None \<Rightarrow> cache_map c2)"
      using atomic_update_once_ok [OF s(2) l2, of u d key t] by blast
    have e3: "same_env c c3" using same_env_trans [OF e2 u3(4)] .
    have ok: "others_kept c key c3" using s(4) m1 u3(5) by (auto simp: others_kept_def split: option.splits if_splits)
    have t1: "fst (apc_time c1) = t" unfolding t_def by (rule apc_time_again [OF u1(4) [unfolded c0_def] e1])
    define b3 where "b3 = (lock_gets c2 \<and> (case lookup c2 key t of None \<Rightarrow> False
      | Some en \<Rightarrow> z_is_long (e_val en) \<and> fst (u d (z_lval (e_val en)))))"
    have r3: "apc_cache_atomic_update_long img key u d ins ttl c = Some ((b3, d3), c3)"
      using run True s(1) u3(1) by (simp add: b3_def updated_data_def split: option.splits)
    have old: "cache_map c2 key = cache_map c key \<or> cache_map c2 key = None" "lookup c2 key t = None" if "\<not> b2"
      using s(5) that m1 True by (auto simp: lookup_def split: option.splits if_splits)
    obtain sz data where f: "b2 \<longrightarrow> img key (IS_LONG 0) = Some (sz, IS_LONG 0, data)"
      "b2 \<longrightarrow> cache_map c2 key = Some (fresh_entry c key (int32_of ttl) t sz (IS_LONG 0) data)"
      using s(5) img same_env_sel(12) [OF e1] t1 by (cases b2) (fastforce simp: fresh_entry_def)+
    have fv: "e_val (fresh_entry c key (int32_of ttl) t sz (IS_LONG 0) data) = IS_LONG 0" by (simp add: fresh_entry_def)
    have "(\<exists>sz data. img key (IS_LONG 0) = Some (sz, IS_LONG 0, data) \<and> b3 = fst (u d 0) \<and> d3 = snd (snd (u d 0)) \<and>
             cache_map c3 key = Some (set_long (fst (snd (u d 0))) t (fresh_entry c key (int32_of ttl) t sz (IS_LONG 0) data))) \<or>
           \<not> b3 \<and> left_at c key (fst (snd (u d 0))) (cache_map c3 key)"
    proof (cases "b2 \<and> b3")
      case True
      have "lookup c2 key t \<noteq> None" using True by (auto simp: b3_def split: option.splits)
      then have "lookup c2 key t = Some (fresh_entry c key (int32_of ttl) t sz (IS_LONG 0) data)"
        using f(2) True by (simp add: lookup_def split: if_splits)
      then show ?thesis using f(1) True u3(2,5) fv by (auto simp: b3_def updated_data_def)
    next
      case False
      then have nb: "\<not> b3" using old(2) by (auto simp: b3_def)
      have "left_at c key (fst (snd (u d 0))) (cache_map c3 key)"
      proof (cases b2)
        case True
        then have l: "lookup c2 key t = None \<or> lookup c2 key t = Some (fresh_entry c key (int32_of ttl) t sz (IS_LONG 0) data)"
          using f(2) by (simp add: lookup_def)
        have "cache_map c2 key = Some (fresh_entry c key (int32_of ttl) t sz (IS_LONG 0) data)" using f(2) True by blast
        then show ?thesis using l u3(5) fv by (cases "lock_gets c2") (auto simp: left_at_def set_long_def)
      next
        case False
        then show ?thesis using old u3(5) by (auto simp: left_at_def)
      qed
      then show ?thesis using nb by blast
    qed
    then show ?thesis using r3 u3(3) e3 ok True by (intro exI [of _ b3] exI [of _ d3] exI [of _ c3] exI [of _ L2]) simp
  qed
qed

end
