(* ===== verification/Cache_Entry.thy ===== *)
theory Cache_Entry imports Cache_Updates begin

text \<open>
  \<open>apcu_entry\<close>: under one write lock, look a key up and, when it is missing, let the user's function compute
  the value and store it. The function may itself use the cache.
\<close>

subsection \<open>Storing without taking the lock\<close>

lemma store_internal_ok:
  fixes c :: "('v, 'x) cstate"
  assumes I: "cache_inv c L" and l: "lockable c" and x: "cache_exists c"
    and img: "\<And>sz zv data. img key val = Some (sz, zv, data) \<Longrightarrow> 0 < sz"
  shows "\<exists>b c' L'. apc_cache_store_internal img key val ttl exclusive c = Some (b, c') \<and> cache_inv c' L' \<and> same_env c c' \<and>
    others_kept c key c' \<and>
    (if b then \<exists>sz zv data. img key val = Some (sz, zv, data) \<and>
       cache_map c' key = Some (fresh_entry c key ttl (fst (apc_time c)) sz zv data)
     else cache_map c' key = cache_map c key \<or> cache_map c' key = None)"
proof -
  let ?t = "fst (apc_time c)" and ?v = "apc_cache_set_entry_values ttl (fst (apc_time c))"
  define c0 where "c0 = snd (apc_time c)"
  note t0 = apc_time_inv [of c, folded c0_def]
  have m0: "cache_map c0 = cache_map c" by (simp add: c0_def)
  define d where "d = apc_cache_defense key ?t c0"
  obtain lk where lk: "snd d = c0\<lparr>h_lastkey := lk\<rparr>" using defense_ok d_def by blast
  have Id: "cache_inv (snd d) L" and ed: "same_env c (snd d)" and md: "cache_map (snd d) = cache_map c"
    using I t0(1) m0 same_env_trans [OF same_config_env [OF t0(2)] same_config_env [OF same_config_intro(6)]]
    by (simp_all add: lk)
  have ld: "lockable (snd d)" and xd: "cache_exists (snd d)"
    using same_env_fun(7) [OF ed] l same_env_sel(1) [OF ed] x by simp_all
  show ?thesis
  proof (cases "fst d")
    case True
    then have "apc_cache_store_internal img key val ttl exclusive c = Some (False, snd d)"
      by (simp add: apc_cache_store_internal_def Let_def c0_def [symmetric] d_def [symmetric])
    then show ?thesis using Id ed md
      by (intro exI [of _ False] exI [of _ "snd d"] exI [of _ L]) (simp add: others_kept_def)
  next
    case nd: False
    obtain r c1 L1 where p: "apc_persist img key val (snd d) = Some (r, c1)" "cache_inv c1 L1" "same_env (snd d) c1"
      "\<forall>k. cache_map c1 k = cache_map (snd d) k \<or> cache_map c1 k = None"
      "\<forall>a. r = Some a \<longrightarrow> pending c1 L1 a \<and> e_ref_count (dat c1 a) = 1 \<and> e_key (dat c1 a) = key \<and>
        (\<exists>sz zv data. img key val = Some (sz, zv, data) \<and> e_mem_size (dat c1 a) = int sz \<and> e_val (dat c1 a) = zv \<and>
          e_data (dat c1 a) = data \<and> e_hash (dat c1 a) = zstr_hash (snd d) key)"
      using prepare_ok [OF Id ld xd, of img key val] img by blast
    have e1: "same_env c c1" using same_env_trans [OF ed p(3)] .
    have m1: "\<forall>k. cache_map c1 k = cache_map c k \<or> cache_map c1 k = None" using p(4) md by simp
    show ?thesis
    proof (cases r)
      case None
      then have "apc_cache_store_internal img key val ttl exclusive c = Some (False, c1)"
        using nd p(1) by (simp add: apc_cache_store_internal_def Let_def c0_def [symmetric] d_def [symmetric])
      then show ?thesis using p(2) e1 m1
        by (intro exI [of _ False] exI [of _ c1] exI [of _ L1]) (simp add: others_kept_def)
    next
      case (Some a)
      obtain sz zv data where a: "pending c1 L1 a" "e_ref_count (dat c1 a) = 1" "e_key (dat c1 a) = key"
        "img key val = Some (sz, zv, data)" "e_mem_size (dat c1 a) = int sz" "e_val (dat c1 a) = zv"
        "e_data (dat c1 a) = data" "e_hash (dat c1 a) = zstr_hash c key"
        using p(5) Some same_env_sel(12) [OF ed] by auto
      define c2 where "c2 = upd_entry a ?v c1"
      note sv = set_values_ok [OF p(2) a(1,2), of ttl ?t, folded c2_def]
      have e2: "same_env c c2" using same_env_trans [OF e1 same_config_env [OF sv(3)]] .
      have k3: "e_key (dat c2 a) = key" "cache_map c2 = cache_map c1" using sv(4,5) a(3) by simp_all
      obtain b c4 L4 where i: "apc_cache_wlocked_insert a exclusive c2 = Some (b, c4)" "same_config c2 c4" "cache_inv c4 L4"
        "\<forall>k. k \<noteq> key \<longrightarrow> cache_map c4 k = cache_map c1 k \<or> cache_map c4 k = None"
        "b \<longrightarrow> (\<forall>u::('v, 'x) cstate. dat u = dat c4 \<longrightarrow> cache_inv u L4 \<longrightarrow> cache_map u = cache_map c4 \<longrightarrow> slots u = slots c4 \<longrightarrow>
           cache_inv (apc_cache_entry_release a u) L4 \<and>
           cache_map (apc_cache_entry_release a u) = (cache_map c4)(key \<mapsto> strip ((dat c2 a)\<lparr>e_ref_count := 0\<rparr>)))"
        "\<not> b \<longrightarrow> pending c4 L4 a \<and> cache_map c4 key = cache_map c1 key \<and> exclusive \<and>
           (\<exists>en. cache_map c1 key = Some en \<and> \<not> apc_cache_entry_hard_expired en (e_ctime (dat c2 a)))"
        using insert_release_ok [OF sv(1,2,6), of exclusive] unfolding k3 by blast
      have e4: "same_env c c4" using same_env_trans [OF e2 same_config_env [OF i(2)]] .
      have run: "apc_cache_store_internal img key val ttl exclusive c =
          (if b then Some (True, apc_cache_entry_release a c4)
           else Option.bind (free_entry a c4) (\<lambda>c''. Some (False, c'')))"
        using nd p(1) Some i(1)
        unfolding apc_cache_store_internal_def Let_def c0_def [symmetric] d_def [symmetric] by (simp add: c2_def)
      have fe: "strip ((dat c2 a)\<lparr>e_ref_count := 0\<rparr>) = fresh_entry c key ttl ?t sz zv data"
        using sv(8) a(3,5-8) by (simp add: fresh_entry_def)
      have mo: "cache_map c4 k = cache_map c k \<or> cache_map c4 k = None" if "k \<noteq> key" for k
        using i(4) m1 that by metis
      show ?thesis
      proof (cases b)
        case True
        let ?c5 = "apc_cache_entry_release a c4"
        have r5: "cache_inv ?c5 L4" "cache_map ?c5 = (cache_map c4)(key \<mapsto> fresh_entry c key ttl ?t sz zv data)"
          using i(5) [rule_format, OF True, of c4] i(3) fe by simp_all
        have "same_env c ?c5"
          using same_env_trans [OF e4 same_config_env [OF same_core_config [OF upd_entry_sel(2)]]]
          unfolding apc_cache_entry_release_def .
        then show ?thesis using run True r5 mo a(4)
          by (intro exI [of _ True] exI [of _ ?c5] exI [of _ L4]) (simp add: others_kept_def)
      next
        case False
        have I5: "cache_inv c4 L4" "pending c4 L4 a" using i(3,6) False by simp_all
        obtain c6 where c6: "free_entry a c4 = Some c6" "cache_inv c6 L4" "same_config c4 c6" "cache_map c6 = cache_map c4"
          using free_pending_ok [OF I5] by blast
        have "same_env c c6" using same_env_trans [OF e4 same_config_env [OF c6(3)]] .
        moreover have "cache_map c4 key = cache_map c key \<or> cache_map c4 key = None" using i(6) False m1 by metis
        ultimately show ?thesis using run False c6 mo
          by (intro exI [of _ False] exI [of _ c6] exI [of _ L4]) (simp add: others_kept_def)
      qed
    qed
  qed
qed


subsection \<open>Entering and leaving\<close>

definition enter :: "('v, 'x) cstate \<Rightarrow> ('v, 'x) cstate" where
  "enter c = (locked Wlocked c)\<lparr>entry_level := entry_level c + 1\<rparr>"

definition leave :: "('v, 'x) cstate \<Rightarrow> ('v, 'x) cstate" where
  "leave c = apc_cache_wunlock (c\<lparr>entry_level := entry_level c - 1\<rparr>)"

lemma config_level [simp]: "config (c\<lparr>entry_level := lv\<rparr>) = (config c)\<lparr>entry_level := lv\<rparr>"
  by (cases c) (simp add: config_def core_def)

lemma enter_simps [simp]:
  "cache_inv (enter c) L = cache_inv c L" "cache_map (enter c) = cache_map c" "lookup (enter c) = lookup c"
  "entry_level (enter c) = entry_level c + 1" "cache_exists (enter c) = cache_exists c" "slots (enter c) = slots c"
  "lockable (enter c)"
  by (simp_all add: enter_def) (simp_all add: lockable_def locked_def slots_def slot_at_def)

lemma leave_simps [simp]:
  "cache_inv (leave c) L = cache_inv c L" "cache_map (leave c) = cache_map c"
  by (simp_all add: leave_def)

lemma leave_env:
  assumes l: "lockable c" and e: "same_env (enter c) c'"
  shows "same_env c (leave c')"
proof -
  define d where "d = c'\<lparr>entry_level := entry_level c, cache_lock_results := cache_lock_results (locked Wlocked c)\<rparr>"
  have lv: "entry_level c' = entry_level c + 1" using same_env_sel(11) [OF e] by simp
  have "config (c'\<lparr>cache_lock_results := []\<rparr>) = config ((enter c)\<lparr>cache_lock_results := []\<rparr>)"
    using e by (simp add: same_env_def same_config_def)
  then have "(config (c'\<lparr>cache_lock_results := []\<rparr>))\<lparr>entry_level := entry_level c, cache_lock_results := cache_lock_results (locked Wlocked c)\<rparr> =
      (config ((enter c)\<lparr>cache_lock_results := []\<rparr>))\<lparr>entry_level := entry_level c, cache_lock_results := cache_lock_results (locked Wlocked c)\<rparr>"
    by simp
  then have "config d = config ((enter c)\<lparr>entry_level := entry_level c, cache_lock_results := cache_lock_results (locked Wlocked c)\<rparr>)"
    by (simp add: d_def)
  moreover have "(enter c)\<lparr>entry_level := entry_level c, cache_lock_results := cache_lock_results (locked Wlocked c)\<rparr> = locked Wlocked c"
    by (cases c) (simp add: enter_def locked_def)
  ultimately have "same_config (locked Wlocked c) d" by (simp add: same_config_def)
  from same_env_unlock(1) [OF l this] have "same_env c (apc_cache_wunlock d)" .
  also have "apc_cache_wunlock d = (leave c')\<lparr>cache_lock_results := cache_lock_results (locked Wlocked c)\<rparr>"
    using lv by (simp add: d_def leave_def apc_cache_wunlock_def)
  finally show ?thesis by (simp add: same_env_def same_config_def)
qed

text \<open>What the user's function may do: anything that leaves the cache in order.\<close>

definition well_behaved :: "(string \<Rightarrow> ('v, 'x) cstate \<Rightarrow> ('a option \<times> ('v, 'x) cstate) option) \<Rightarrow> bool" where
  "well_behaved gen \<longleftrightarrow> (\<forall>key c. cache_ok c \<longrightarrow> cache_exists c \<longrightarrow> 0 < entry_level c \<longrightarrow>
     (\<exists>v c'. gen key c = Some (v, c') \<and> cache_ok c' \<and> same_env c c'))"

lemma entry_ok:
  fixes c :: "('v, 'x) cstate"
  assumes I: "cache_inv c L" and l: "lockable c" and x: "cache_exists c" and gen: "well_behaved gen"
    and img: "\<And>val sz zv data. img key val = Some (sz, zv, data) \<Longrightarrow> 0 < sz"
  shows "\<exists>v c' L'. apc_cache_entry img unp gen key ttl now c = Some (v, c') \<and> cache_inv c' L' \<and> same_env c c' \<and>
    (if lock_gets c then
       (case lookup c key now of
          Some en \<Rightarrow> v = unp (e_val en) (e_data en) \<and> cache_map c' = (cache_map c)(key \<mapsto> fetched now en)
        | None \<Rightarrow> \<exists>c1. gen key ((enter c)\<lparr>h_nmisses := int64_of (h_nmisses c + 1)\<rparr>) = Some (v, c1) \<and>
            (case v of
               None \<Rightarrow> cache_map c' = cache_map c1
             | Some val \<Rightarrow> others_kept c1 key c' \<and>
                 ((\<exists>sz zv data. img key val = Some (sz, zv, data) \<and> cache_map c' key =
                    Some (fresh_entry c key (int32_of ttl) (fst (apc_time c1)) sz zv data)) \<or>
                  cache_map c' key = cache_map c1 key \<or> cache_map c' key = None)))
     else v = None \<and> cache_map c' = cache_map c)"
proof (cases "lock_gets c")
  case False
  then show ?thesis using x I lock_as_ok [OF l, of Wlocked] by (auto simp: apc_cache_entry_def apc_cache_wlock_def)
next
  case True
  have lk: "apc_cache_wlock c = Some (True, locked Wlocked c)" using True lock_as_ok [OF l, of Wlocked] by (simp add: apc_cache_wlock_def)
  have en: "(locked Wlocked c)\<lparr>entry_level := entry_level (locked Wlocked c) + 1\<rparr> = enter c" by (simp add: enter_def)
  have Ie: "cache_inv (enter c) L" using I by simp
  have run: "apc_cache_entry img unp gen key ttl now c = Option.bind (apc_cache_rlocked_find_incref key now (enter c)) (\<lambda>r.
      case fst r of
        None \<Rightarrow> Option.bind (gen key (snd r)) (\<lambda>g.
          case fst g of
            None \<Rightarrow> Some (None, leave (snd g))
          | Some v \<Rightarrow> Option.bind (apc_cache_store_internal img key v (int32_of (uint32_of ttl)) True (snd g)) (\<lambda>s.
              Some (Some v, leave (snd s))))
      | Some a \<Rightarrow> Some (apc_cache_entry_fetch_zval unp a (snd r), leave (apc_cache_entry_release a (snd r))))"
    using x unfolding apc_cache_entry_def lk leave_def en [symmetric] by (simp add: Let_def cong: option.case_cong)
  show ?thesis
  proof (cases "lookup c key now")
    case (Some e)
    then obtain a c2 where r: "apc_cache_rlocked_find_incref key now (enter c) = Some (Some a, c2)" "cache_inv c2 L"
      "same_config (enter c) c2" "a \<in> members (slots c2) L" "e_key (dat c2 a) = key"
      "strip (dat c2 a) = (hit now e)\<lparr>e_ref_count := int64_of (e_ref_count e + 1)\<rparr>"
      "cache_map c2 = (cache_map c)(key \<mapsto> strip (dat c2 a))"
      using find_incref_ok(2) [OF Ie, of key now e] by auto
    have v: "e_val (dat c2 a) = e_val e" "e_data (dat c2 a) = e_data e"
      using arg_cong [OF r(6), of e_val] arg_cong [OF r(6), of e_data] by simp_all
    let ?c3 = "apc_cache_entry_release a c2"
    have "same_env (enter c) ?c3"
      using same_env_trans [OF same_config_env [OF r(3)] same_config_env [OF release_ok(2) [OF r(2,4)]]] .
    then have "same_env c (leave ?c3)" by (rule leave_env [OF l])
    then show ?thesis
      using run r(1) v Some True release_ok(1) [OF r(2,4)] release_fetched [OF r(2,4,5,6,7)]
      by (intro exI [of _ "unp (e_val e) (e_data e)"] exI [of _ "leave ?c3"] exI [of _ L])
        (simp add: apc_cache_entry_fetch_zval_def)
  next
    case None
    define p where "p = (enter c)\<lparr>h_nmisses := int64_of (h_nmisses c + 1)\<rparr>"
    have hm: "h_nmisses (enter c) = h_nmisses c" by (simp add: enter_def locked_def)
    have f: "apc_cache_rlocked_find_incref key now (enter c) = Some (None, p)"
      using find_incref_ok(1) [OF Ie] None hm by (simp add: p_def)
    have p: "cache_ok p" "cache_exists p" "0 < entry_level p" "same_env (enter c) p"
      using Ie x same_config_env [OF miss_ok(1)] by (auto simp: p_def intro: cache_inv_ok)
    obtain v c1 where g: "gen key p = Some (v, c1)" "cache_ok c1" "same_env p c1"
      using gen p(1-3) unfolding well_behaved_def by blast
    have e1: "same_env (enter c) c1" using same_env_trans [OF p(4) g(3)] .
    have I1: "cache_inv c1 (cache_lists c1)" using g(2) by (simp add: cache_ok_def)
    have l1: "lockable c1" using same_env_fun(7) [OF e1] by simp
    have x1: "cache_exists c1" using same_env_sel(1) [OF e1] x by simp
    have zs: "zstr_hash c1 = zstr_hash c" using same_env_sel(12) [OF e1] by (simp add: enter_def locked_def)
    show ?thesis
    proof (cases v)
      case vn: None
      then show ?thesis using run f g(1) I1 leave_env [OF l e1] True None
        by (intro exI [of _ None] exI [of _ "leave c1"] exI [of _ "cache_lists c1"]) (simp add: p_def [symmetric])
    next
      case (Some val)
      obtain b c2 L2 where s: "apc_cache_store_internal img key val (int32_of ttl) True c1 = Some (b, c2)" "cache_inv c2 L2"
        "same_env c1 c2" "others_kept c1 key c2"
        "if b then \<exists>sz zv data. img key val = Some (sz, zv, data) \<and>
           cache_map c2 key = Some (fresh_entry c1 key (int32_of ttl) (fst (apc_time c1)) sz zv data)
         else cache_map c2 key = cache_map c1 key \<or> cache_map c2 key = None"
        using store_internal_ok [OF I1 l1 x1, of img key val "int32_of ttl" True] img by blast
      have "same_env c (leave c2)" by (rule leave_env [OF l same_env_trans [OF e1 s(3)]])
      moreover have "fresh_entry c1 = fresh_entry c" using zs by (simp add: fresh_entry_def fun_eq_iff)
      ultimately show ?thesis using run f g(1) s Some True None
        by (intro exI [of _ "Some val"] exI [of _ "leave c2"] exI [of _ L2])
          (simp add: p_def [symmetric] int32_of_uint32_of others_kept_def split: if_splits)
    qed
  qed
qed

end
