(* ===== verification/Cache_Create.thy ===== *)
theory Cache_Create imports Cache_Updates begin

text \<open>
  Creating a cache in a fresh segment establishes the invariant; the number of slots is a prime of the
  table; and the information functions: \<open>apc_cache_info\<close> lists exactly the entries of the slots and of the
  garbage list.
\<close>

subsection \<open>Number of slots\<close>

lemma make_prime_loop_mem: "make_prime_loop n prev ks = prev \<or> make_prime_loop n prev ks \<in> set ks"
  by (induction n prev ks rule: make_prime_loop.induct) auto

lemma make_prime_loop_next:
  "make_prime_loop n prev ks = (case filter (\<lambda>k. n < k) ks of [] \<Rightarrow> last (prev # ks) | k # _ \<Rightarrow> k)"
  by (induction n prev ks rule: make_prime_loop.induct) (auto split: list.split)

lemma make_prime_range: "257 \<le> make_prime n \<and> make_prime n \<le> 10485667"
proof -
  have "make_prime n \<in> set primes" unfolding make_prime_def
  proof (cases "filter (\<lambda>k. n < k) primes")
    case Nil
    have "last (0 # primes) \<in> set primes" by (simp add: primes_def)
    then show "make_prime_loop n 0 primes \<in> set primes" unfolding make_prime_loop_next Nil by simp
  next
    case (Cons k ks)
    have "k \<in> set (filter (\<lambda>k. n < k) primes)" unfolding Cons by simp
    then have "k \<in> set primes" by simp
    then show "make_prime_loop n 0 primes \<in> set primes" unfolding make_prime_loop_next Cons by simp
  qed
  moreover have "\<forall>k\<in>set primes. 257 \<le> k \<and> k \<le> 10485667" unfolding primes_def by simp
  ultimately show ?thesis by blast
qed

subsection \<open>The first allocation of a segment\<close>

lemma malloc_fresh:
  assumes r: "sma_ready s" and n: "n \<le> sma_max_alloc_size s" and l: "lock_works s" and f: "sma_fits n s"
    and fr: "sma_frees s = [b]"
  shows "\<exists>s'. apc_sma_malloc ex ini n s = Some (Some (b + BHDR), s') \<and> malloc_served ini n s (b + BHDR) s'"
proof -
  have ok: "sma_ok s" and nl: "\<not> sma_locked s" using r by (simp_all add: sma_ready_def)
  let ?l = "s\<lparr>sma_locked := True, sma_lock_results := tl (sma_lock_results s)\<rparr>"
  have inv: "sma_inv ?l (sma_blocks s) (sma_frees s)" using ok by (simp add: sma_ok_def sma_inv_def)
  have n39: "n + 39 < U64" using n sma_ok_facts(1,2) [OF ok] by simp
  have ex: "\<exists>b\<in>set (sma_frees s). alignword (n + BHDR) \<le> bsize (blk ?l b)" using f by (simp add: sma_fits_def)
  obtain c t where a: "sma_allocate n ?l = Some (c + BHDR, t)" "c \<in> set (sma_frees s)"
    using sma_allocate_some [OF inv n39 ex] by metis
  have c: "c = b" using a(2) fr by simp
  obtain p s' where p: "apc_sma_malloc_loop ex ini n False s = Some (Some p, s')" "sma_ready s'"
    "s' = s\<lparr>sma_lock_results := tl (sma_lock_results s), blk := blk s', avail := avail s', dat := ini p (dat s)\<rparr>"
    "p \<notin> sma_live s" "sma_live s' = insert p (sma_live s)" "n \<le> sma_room s' p"
    "\<forall>q\<in>sma_live s. sma_room s' q = sma_room s q"
    using malloc_round(4) [OF r n l f, of ex ini False] by blast
  have "c + BHDR = p \<or> c + BHDR = SIZE_MAX"
    using p(1) a(1) n l
    by (auto simp: apc_sma_malloc_loop.simps [of ex ini n False s] sma_lock_eq [OF nl] lock_works_def split: if_splits)
  moreover have "c + BHDR \<noteq> SIZE_MAX"
  proof -
    have h: "heap_inv (blk s) (hdr_size s) (seg_end s) (sma_blocks s) (sma_frees s)" using inv by (simp add: sma_inv_def)
    note cb = heap_inv_fs [OF h a(2)]
    show ?thesis using heap_inv_mem(4,9) [OF h, of c] cb by simp
  qed
  ultimately show ?thesis using p c unfolding apc_sma_malloc_def malloc_served_def by blast
qed


subsection \<open>Creating\<close>

lemma zero_heads_next: "h \<le> a \<Longrightarrow> a < h + n \<Longrightarrow> e_next (zero_heads h n d a) = 0"
  by (simp add: zero_heads_def)

text \<open>The number of slots that is asked for, and the size of the header with its slots.\<close>

definition slots_wanted :: "int \<Rightarrow> ('v, 'x) cstate \<Rightarrow> nat" where
  "slots_wanted hint c = nat (make_prime (int32_of (if 0 < hint then hint else int (sma_size c div 2048))))"

lemma slots_wanted_range: "257 \<le> slots_wanted hint c" "slots_wanted hint c \<le> 10485667"
  unfolding slots_wanted_def
  using make_prime_range [of "int32_of (if 0 < hint then hint else int (sma_size c div 2048))"] by linarith+

text \<open>The description of the segment in the shared header, and the constants of the platform.\<close>

definition same_segment :: "('v, 'x) cstate \<Rightarrow> ('v, 'x) cstate \<Rightarrow> bool" where
  "same_segment c c' \<longleftrightarrow> abi_version c' = abi_version c \<and> shm_max_alloc_size c' = shm_max_alloc_size c \<and> seg_size c' = seg_size c \<and>
     init_complete c' = init_complete c \<and> sma_size c' = sma_size c \<and> sma_max_alloc_size c' = sma_max_alloc_size c \<and>
     hdr_size c' = hdr_size c \<and> header_bytes c' = header_bytes c \<and> gc_offset c' = gc_offset c \<and> zstr_hash c' = zstr_hash c"

lemma create_ok:
  assumes r: "sma_ready c" "sma_lock_results c = []" "sma_live c = {}" "sma_frees c = [first_block (hdr_size c)]"
    and x: "\<not> cache_exists c" and g: "0 < gc_offset c" "gc_offset c + 8 \<le> header_bytes c"
    and n: "header_bytes c + 8 * slots_wanted hint c \<le> sma_max_alloc_size c"
    and f: "sma_fits (header_bytes c + 8 * slots_wanted hint c) c"
  shows "\<exists>c'. apc_cache_create hint gc_ttl ttl smart defend c = Some (True, c') \<and> cache_inv c' (\<lambda>_. []) \<and>
    cache_exists c' \<and> nslots c' = slots_wanted hint c \<and> cache_lock c' = Unlocked \<and> h_nentries c' = 0 \<and>
    c_ttl c' = ttl \<and> c_gc_ttl c' = gc_ttl \<and> c_smart c' = smart \<and> c_defend c' = defend \<and> entry_level c' = entry_level c \<and>
    same_segment c c'"
proof -
  define k where "k = slots_wanted hint c"
  define sz where "sz = header_bytes c + 8 * k"
  let ?h = "first_block (hdr_size c) + BHDR"
  have ok: "sma_ok c" using r(1) by (simp add: sma_ready_def)
  note fc = sma_ok_facts(1,2) [OF ok]
  have k: "257 \<le> k" "k \<le> 10485667" using slots_wanted_range by (simp_all add: k_def)
  have sz0: "sz \<le> sma_max_alloc_size c" "sma_fits sz c" "0 < sz" using n f k by (simp_all add: sz_def k_def)
  have szU: "uadd (header_bytes c) (umul k 8) = sz"
    using sz0(1) fc k by (simp add: uadd_small umul_small sz_def)
  have lw: "lock_works c" using r(2) by (simp add: lock_works_def)
  obtain s where s: "apc_sma_malloc apc_cache_default_expunge (\<lambda>p d. d) sz c = Some (Some ?h, s)"
    "malloc_served (\<lambda>p d. d) sz c ?h s"
    using malloc_fresh [OF r(1) sz0(1) lw sz0(2) r(4)] by blast
  have m: "sma_ready s" "s = c\<lparr>sma_lock_results := tl (sma_lock_results c), blk := blk s, avail := avail s, dat := dat c\<rparr>"
    "sma_live s = {?h}" "sz \<le> sma_room s ?h"
    using s(2) unfolding malloc_served_def r(3) by blast+
  define c' where "c' = s\<lparr>dat := zero_heads ?h sz (dat s), cache_exists := True, c_header := ?h,
      h_nhits := 0, h_nmisses := 0, h_ninserts := 0, h_nentries := 0, h_ncleanups := 0,
      h_ndefragmentations := 0, h_nexpunges := 0, h_mem_size := 0, h_lastkey := no_key,
      h_stime := clock s, nslots := k, c_gc_ttl := gc_ttl, c_ttl := ttl,
      c_smart := smart, c_defend := defend, cache_lock := Unlocked\<rparr>"
  have sel: "header_bytes s = header_bytes c" "gc_offset s = gc_offset c" "hdr_size s = hdr_size c"
    "sma_lock_results s = []" "entry_level s = entry_level c" by (subst m(2), simp add: r(2))+
  have seg: "same_segment c s" unfolding same_segment_def by (intro conjI; subst m(2)) simp_all
  have run: "apc_cache_create hint gc_ttl ttl smart defend c = Some (True, c')"
    using s(1) szU unfolding apc_cache_create_def Let_def k_def [unfolded slots_wanted_def, symmetric]
    by (simp add: c'_def)
  have al: "sma_allocs c' = sma_allocs s" "sma_ready c' = sma_ready s"
    using sma_cong [of c' s] by (simp_all add: c'_def sma_ready_def)
  have hl: "?h \<in> sma_live s" using m(3) by simp
  have rng: "?h + sz + BHDR \<le> sma_size s"
    using sma_live_range(2) [OF _ hl] m(1,4) by (simp add: sma_ready_def)
  have SM: "sma_size s < SEG_MAX" using sma_ok_facts(1,2) [of s] m(1) by (simp add: sma_ready_def)
  have hd: "header_ok (sma_allocs c') c'"
    using g k rng SM m(4) sma_allocs_room [OF hl] unfolding al(1) header_ok_def by (simp add: c'_def sel sz_def)
  note ad = header_addrs [OF hd]
  have zero: "e_next (dat c' a) = 0" if "a \<in> heads c'" for a
    using ad(4) [OF that] by (simp add: c'_def sel sz_def zero_heads_next)
  have "cache_layout (sma_allocs c') c' (\<lambda>_. [])"
  proof (rule layoutI [OF hd])
    show "lists (c_header c') (dat c') (heads c') (\<lambda>_. [])"
      using zero ad(4) header_okD(5) [OF hd] by (force simp: lists_def elist_Nil)
    show "0 < z" if "sma_allocs c' p = Some z" for p z
      using that m(3,4) sz0(3) sma_allocs_dom [of s] sma_allocs_room [OF hl] unfolding al by (cases "p = ?h") auto
    show "0 < e_ref_count (dat c' p)" if "p \<in> dom (sma_allocs c')" "p \<noteq> c_header c'" for p
      using that sma_allocs_dom [of s] m(3) unfolding al by (simp add: c'_def)
  qed (simp add: members_def)
  moreover have "cache_content (sma_allocs c') c' (\<lambda>_. [])"
    by (simp add: cache_content_def members_def) (simp add: c'_def)
  ultimately have "cache_inv c' (\<lambda>_. [])" using al(2) m(1) sel(4) by (simp add: cache_inv_def) (simp add: c'_def)
  moreover have "same_segment c c'" using seg by (simp add: same_segment_def c'_def)
  ultimately show ?thesis using run by (intro exI [of _ c']) (simp add: c'_def k_def sel)
qed

subsection \<open>Information\<close>

lemma link_info_strip [simp]: "apc_cache_link_info (strip e) = apc_cache_link_info e"
  by (simp add: apc_cache_link_info_def)

lemma info_walk_ok:
  assumes I: "cache_inv c L" and a: "a \<in> heads c" "L a = xs @ ys"
  shows "info_walk (e_next (dat c (last (a # xs)))) c = Some (map apc_cache_link_info (contents c ys))"
  using a(2)
proof (induction ys arbitrary: xs)
  case Nil
  from head_step(1) [OF I a(1) Nil refl] show ?case by (subst info_walk.simps) simp
next
  case (Cons y ys)
  have "info_walk (e_next (dat c y)) c = Some (map apc_cache_link_info (contents c ys))"
    using Cons.IH [of "xs @ [y]"] Cons.prems by simp
  with head_step(2) [OF I a(1) Cons.prems refl] show ?case by (subst info_walk.simps) (simp add: Let_def)
qed

definition entry_infos :: "('v, 'x) cstate \<Rightarrow> (nat \<Rightarrow> nat list) \<Rightarrow> nat list \<Rightarrow> link_info list" where
  "entry_infos c L is = concat (map (\<lambda>i. map apc_cache_link_info (contents c (L (slot_at c i)))) is)"

lemma info_slots_ok:
  assumes I: "cache_inv c L" and "set js \<subseteq> {..<nslots c}"
  shows "info_slots js c = Some (entry_infos c L js,
    map (\<lambda>i. (i, length (L (slot_at c i)))) (filter (\<lambda>i. L (slot_at c i) \<noteq> []) js))"
  using assms(2)
proof (induction js)
  case (Cons i js)
  have "i < nslots c" using Cons by simp
  note h = header_addrs(2,8) [OF cache_invD(6) [OF I] this]
  show ?case using Cons info_walk_ok [OF I h(2), of "[]"] h(1) by (simp add: entry_infos_def)
qed (simp add: entry_infos_def)

lemma entry_infos_length:
  assumes I: "cache_inv c L"
  shows "int (length (entry_infos c L [0..<nslots c])) = h_nentries c"
proof -
  note D = cache_invD [OF I] and ad = header_addrs [OF cache_invD(6) [OF I]]
  have d: "distinct (L (slot_at c i))" if "i < nslots c" for i by (rule listsD(4) [OF D(7) ad(8) [OF that]])
  have "length (entry_infos c L [0..<nslots c]) = (\<Sum>i<nslots c. length (L (slot_at c i)))"
    by (simp add: entry_infos_def length_concat comp_def interv_sum_list_conv_sum_set_nat atLeast0LessThan)
  also have "\<dots> = (\<Sum>i<nslots c. card (set (L (slot_at c i))))" using d by (intro sum.cong) (simp_all add: distinct_card)
  also have "\<dots> = card (\<Union>i<nslots c. set (L (slot_at c i)))"
    by (rule card_UN_disjoint [symmetric]) (use listsD(7) [OF D(7) ad(8)] ad(8) in \<open>auto simp del: Int_iff\<close>)
  also have "(\<Union>i<nslots c. set (L (slot_at c i))) = members (slots c) L" by (auto simp: members_def slots_def)
  finally show ?thesis using contentD(3) [OF D(5)] by simp
qed

text \<open>The answer of \<open>apc_cache_info\<close>.\<close>

lemma info_ok:
  assumes I: "cache_inv c L" and l: "lockable c" and x: "cache_exists c" and g: "lock_gets c"
  shows "\<exists>i c'. apc_cache_info limited c = Some (Some i, c') \<and> cache_inv c' L \<and> same_env c c' \<and> cache_map c' = cache_map c \<and>
    ci_num_entries i = h_nentries c \<and> ci_mem_size i = h_mem_size c \<and> ci_num_slots i = nslots c \<and>
    (\<not> limited \<longrightarrow> ci_cache_list i = entry_infos c L [0..<nslots c] \<and>
       ci_deleted_list i = map apc_cache_link_info (contents c (L (gc_at c))) \<and>
       ci_slot_distribution i = map (\<lambda>i. (i, length (L (slot_at c i)))) (filter (\<lambda>i. L (slot_at c i) \<noteq> []) [0..<nslots c]))"
proof -
  let ?c = "locked Rlocked c"
  have lk: "apc_cache_rlock c = Some (True, ?c)" using g lock_as_ok [OF l, of Rlocked] by (simp add: apc_cache_rlock_def)
  have Ic: "cache_inv ?c L" using I by simp
  have f: "slot_at ?c = slot_at c" "gc_at ?c = gc_at c" "nslots ?c = nslots c" "h_nentries ?c = h_nentries c"
    "h_mem_size ?c = h_mem_size c" "entry_infos ?c = entry_infos c"
    by (auto simp: locked_def slot_at_def gc_at_def entry_infos_def contents_def fun_eq_iff)
  have s: "info_slots [0..<nslots c] ?c = Some (entry_infos c L [0..<nslots c],
    map (\<lambda>i. (i, length (L (slot_at c i)))) (filter (\<lambda>i. L (slot_at c i) \<noteq> []) [0..<nslots c]))"
    using info_slots_ok [OF Ic, of "[0..<nslots c]"] f by (simp add: subset_eq)
  have gw: "info_walk (e_next (dat ?c (gc_addr ?c))) ?c = Some (map apc_cache_link_info (contents c (L (gc_at c))))"
    using info_walk_ok [OF Ic header_addrs(6) [OF cache_invD(6) [OF Ic]], of "[]"] f
      header_addrs(1) [OF cache_invD(6) [OF Ic]] by simp
  have e: "same_env c (apc_cache_runlock ?c)" by (rule same_env_unlock(2) [OF l same_config_refl])
  have run: "apc_cache_info limited c =
      (let i = \<lparr>ci_num_slots = nslots ?c, ci_ttl = c_ttl ?c, ci_num_hits = h_nhits ?c,
                ci_num_misses = h_nmisses ?c, ci_num_inserts = h_ninserts ?c, ci_num_entries = h_nentries ?c,
                ci_cleanups = h_ncleanups ?c, ci_defragmentations = h_ndefragmentations ?c,
                ci_expunges = h_nexpunges ?c, ci_start_time = h_stime ?c, ci_mem_size = h_mem_size ?c,
                ci_cache_list = [], ci_deleted_list = [], ci_slot_distribution = []\<rparr>
       in if limited then Some (Some i, apc_cache_runlock ?c)
          else Some (Some (i\<lparr>ci_cache_list := entry_infos c L [0..<nslots c],
            ci_deleted_list := map apc_cache_link_info (contents c (L (gc_at c))),
            ci_slot_distribution := map (\<lambda>i. (i, length (L (slot_at c i)))) (filter (\<lambda>i. L (slot_at c i) \<noteq> []) [0..<nslots c])\<rparr>),
            apc_cache_runlock ?c))"
    unfolding apc_cache_info_def lk using x s gw f(3) by (simp add: Let_def)
  show ?thesis unfolding run Let_def using Ic e f by (cases limited) simp_all
qed

end
