(* ===== verification/Cache_Example.thy ===== *)
theory Cache_Example imports Cache_Entry Cache_Create begin

text \<open>
  A small cache on which the properties are instantiated: a segment of 1024 bytes with the header at 128
  (two slots, at 240 and 248, the \<open>gc\<close> head at 232), an entry with key \<open>a\<close> at 288 in slot 1, an entry with
  key \<open>b\<close> at 424 that a process has allocated and not yet linked, an entry at 560 on the garbage list, and a
  free block of 328 bytes.
\<close>

definition ex_data :: "'v \<Rightarrow> string \<Rightarrow> int \<Rightarrow> 'v entry" where
  "ex_data d key n = \<lparr>e_next = 0, e_prev = 0, e_ttl = 0, e_ref_count = n, e_nhits = 0, e_ctime = 10, e_mtime = 10,
     e_dtime = 0, e_atime = 10, e_mem_size = 100, e_val = IS_LONG 5, e_hash = length key, e_key = key, e_data = d\<rparr>"

definition ex_free :: block_t where
  "ex_free = \<lparr>bsize = 0, prev_size = 0, fnext = 0, fprev = 0\<rparr>"

definition ex_cache :: "'v \<Rightarrow> 'v cache" where
  "ex_cache d = \<lparr>sma_initialized = True, sma_size = 1024, sma_max_alloc_size = 864, hdr_size = 64,
     sma_locked = False, sma_lock_results = [], min_block_size = 40, avail = 328,
     blk = (\<lambda>_. ex_free)
      (64 := \<lparr>bsize = 0, prev_size = 0, fnext = 664, fprev = 0\<rparr>,
       96 := \<lparr>bsize = 160, prev_size = 0, fnext = 0, fprev = 160\<rparr>,
       256 := \<lparr>bsize = 136, prev_size = 0, fnext = 0, fprev = 136\<rparr>,
       392 := \<lparr>bsize = 136, prev_size = 0, fnext = 0, fprev = 136\<rparr>,
       528 := \<lparr>bsize = 136, prev_size = 0, fnext = 0, fprev = 136\<rparr>,
       664 := \<lparr>bsize = 328, prev_size = 0, fnext = 992, fprev = 64\<rparr>,
       992 := \<lparr>bsize = 0, prev_size = 328, fnext = 0, fprev = 664\<rparr>),
     dat = (\<lambda>_. ex_data d [] 0)
      (232 := (ex_data d [] 0)\<lparr>e_next := 432\<rparr>,
       248 := (ex_data d [] 0)\<lparr>e_next := 160\<rparr>,
       288 := (ex_data d ''a'' 0)\<lparr>e_prev := 120\<rparr>,
       424 := ex_data d ''b'' 1,
       560 := (ex_data d ''c'' 1)\<lparr>e_prev := 104, e_dtime := 15\<rparr>),
     abi_version = 0, cache_header_offset = 0, shm_nslots = 0, shm_max_alloc_size = 0, seg_size = 0,
     shm_serializer_name = [], init_complete = False,
     cache_exists = True, c_header = 128, header_bytes = 112, gc_offset = 104, nslots = 2, c_gc_ttl = 3600, c_ttl = 0,
     c_smart = 0, c_defend = True, h_nhits = 0, h_nmisses = 0, h_ninserts = 0, h_ncleanups = 0,
     h_ndefragmentations = 0, h_nexpunges = 0, h_nentries = 1, h_mem_size = 100, h_stime = 1, h_lastkey = no_key,
     cache_lock = Unlocked, cache_lock_results = [], entry_level = 0, zstr_hash = length, clock = 20,
     use_request_time = False, request_time = 0, sapi_request_time = 0, pid = 7\<rparr>"

lemma exd_blocks: "sma_blocks (ex_cache d) = [96, 256, 392, 528, 664]" "sma_frees (ex_cache d) = [664]"
proof -
  show b: "sma_blocks (ex_cache d) = [96, 256, 392, 528, 664]" by (simp add: ex_cache_def sma_blocks_def block_walk.simps)
  show "sma_frees (ex_cache d) = [664]" by (simp add: b sma_frees_def) (simp add: ex_cache_def)
qed

lemma exd_segment: "sma_ready (ex_cache d)" "sma_live (ex_cache d) = {128, 288, 424, 560}" "sma_allocs (ex_cache d) 128 = Some 128"
  "sma_room (ex_cache d) 128 = 128" "sma_room (ex_cache d) 288 = 104" "sma_room (ex_cache d) 424 = 104" "sma_room (ex_cache d) 560 = 104"
proof -
  have "sma_ok (ex_cache d)"
    by (simp add: sma_ok_def exd_blocks)
      (auto simp: ex_cache_def ex_free_def sma_inv_def heap_inv_def frame_ok_def is_free_def block_ok_def tag_def)
  then show "sma_ready (ex_cache d)" by (simp add: sma_ready_def) (simp add: ex_cache_def)
  show l: "sma_live (ex_cache d) = {128, 288, 424, 560}" by (simp add: sma_live_def exd_blocks) (simp add: ex_cache_def is_free_def)
  show r: "sma_room (ex_cache d) 128 = 128" "sma_room (ex_cache d) 288 = 104" "sma_room (ex_cache d) 424 = 104" "sma_room (ex_cache d) 560 = 104"
    by (simp_all add: sma_room_def ex_cache_def)
  show "sma_allocs (ex_cache d) 128 = Some 128" using sma_allocs_room [of 128 "ex_cache d"] by (simp add: l r)
qed

definition ex1_lists :: "nat \<Rightarrow> nat list" where
  "ex1_lists a = (if a = 248 then [288] else if a = 232 then [560] else [])"

lemma exd_fields: "c_header (ex_cache d) = 128" "header_bytes (ex_cache d) = 112" "gc_offset (ex_cache d) = 104" "nslots (ex_cache d) = 2" "hdr_size (ex_cache d) = 64"
  "h_nentries (ex_cache d) = 1" "h_mem_size (ex_cache d) = 100" "zstr_hash (ex_cache d) = length" "sma_lock_results (ex_cache d) = []"
  "slot_at (ex_cache d) i = 240 + 8 * i" "gc_at (ex_cache d) = 232" "cache_exists (ex_cache d)" "lock_gets (ex_cache d)" "lockable (ex_cache d)" "slot_of (ex_cache d) key = length key mod 2"
  "clock (ex_cache d) = 20" "fst (apc_time (ex_cache d)) = 20" "use_request_time (ex_cache d) = False" "sma_max_alloc_size (ex_cache d) = 864" "c_ttl (ex_cache d) = 0"
  "entry_level (ex_cache d) = 0" "cache_lock (ex_cache d) = Unlocked" "c_gc_ttl (ex_cache d) = 3600" "pid (ex_cache d) = 7" "c_defend (ex_cache d) = True"
  by (simp_all add: ex_cache_def slot_at_def gc_at_def lock_gets_def lockable_def slot_of_def apc_time_def)

lemma less_two: "i < 2 \<longleftrightarrow> i = 0 \<or> i = (1::nat)"
  by auto

lemma exd_slots: "slots (ex_cache d) = {240, 248}" "heads (ex_cache d) = {232, 240, 248}" "members (slots (ex_cache d)) ex1_lists = {288}"
  "members (heads (ex_cache d)) ex1_lists = {288, 560}"
proof -
  have "{..<nslots (ex_cache d)} = {0, 1}" by (auto simp: exd_fields)
  then show s: "slots (ex_cache d) = {240, 248}" by (simp add: slots_def exd_fields)
  then show h: "heads (ex_cache d) = {232, 240, 248}" by (simp add: heads_def exd_fields)
  show "members (slots (ex_cache d)) ex1_lists = {288}" "members (heads (ex_cache d)) ex1_lists = {288, 560}"
    unfolding s h by (auto simp: members_def ex1_lists_def)
qed

lemma exd_inv: "cache_inv (ex_cache d) ex1_lists"
proof -
  have hd: "header_ok (sma_allocs (ex_cache d)) (ex_cache d)" using exd_segment(3) [where d = d] by (simp add: header_ok_def exd_fields)
  have ls: "lists (c_header (ex_cache d)) (dat (ex_cache d)) (heads (ex_cache d)) ex1_lists"
    unfolding lists_def exd_slots(2) by (simp add: ex1_lists_def exd_fields(1) elist_def) (simp add: ex_cache_def ex_data_def)
  have al: "sma_allocs (ex_cache d) p \<noteq> None \<Longrightarrow> p \<in> {128, 288, 424, 560}" for p
    using sma_allocs_dom [of "ex_cache d"] exd_segment(2) [where d = d] by blast
  have rm: "sma_allocs (ex_cache d) 288 = Some 104" "sma_allocs (ex_cache d) 424 = Some 104" "sma_allocs (ex_cache d) 560 = Some 104"
    using sma_allocs_room [of 288 "ex_cache d"] sma_allocs_room [of 424 "ex_cache d"] sma_allocs_room [of 560 "ex_cache d"] exd_segment [where d = d] by simp_all
  have a: "e_hash (dat (ex_cache d) 288) = 1" "e_key (dat (ex_cache d) 288) = ''a''" "e_mem_size (dat (ex_cache d) 288) = 100"
    by (simp_all add: ex_cache_def ex_data_def)
  have "cache_layout (sma_allocs (ex_cache d)) (ex_cache d) ex1_lists"
  proof (rule layoutI [OF hd ls])
    show "0 < n" if "sma_allocs (ex_cache d) p = Some n" for p n using al [of p] that rm exd_segment(3) [where d = d] by auto
    show "x \<in> dom (sma_allocs (ex_cache d)) \<and> x \<noteq> c_header (ex_cache d)" if "x \<in> members (heads (ex_cache d)) ex1_lists" for x
      using that rm unfolding exd_slots(4) by (auto simp: exd_fields)
    show "0 < e_ref_count (dat (ex_cache d) p)"
      if "p \<in> dom (sma_allocs (ex_cache d))" "p \<noteq> c_header (ex_cache d)" "p \<notin> members (heads (ex_cache d)) ex1_lists" for p
    proof -
      have "p = 424" using al [of p] that unfolding exd_slots(4) by (auto simp: exd_fields)
      then show ?thesis by (simp add: ex_cache_def ex_data_def)
    qed
  qed
  moreover have "cache_content (sma_allocs (ex_cache d)) (ex_cache d) ex1_lists"
    unfolding cache_content_def exd_slots(3) slot_entry_def using rm
    by (simp add: exd_fields less_two ex1_lists_def a)
  ultimately show ?thesis using exd_segment(1) [where d = d] by (simp add: cache_inv_def exd_fields)
qed

lemma exd_ok: "cache_ok (ex_cache d)"
  by (rule cache_inv_ok [OF exd_inv])

lemma exd_lists: "cache_lists (ex_cache d) 232 = [560]" "cache_lists (ex_cache d) 240 = []" "cache_lists (ex_cache d) 248 = [288]"
  using cache_lists_inv [OF exd_inv [where d = d]] by (simp_all add: exd_slots ex1_lists_def)

lemma exd_dat: "strip (dat (ex_cache d) 288) = ex_data d ''a'' 0" "strip (dat (ex_cache d) 424) = ex_data d ''b'' 1"
  "strip (dat (ex_cache d) 560) = (ex_data d ''c'' 1)\<lparr>e_dtime := 15\<rparr>" "dat (ex_cache d) 424 = ex_data d ''b'' 1"
  by (simp_all add: ex_cache_def strip_def ex_data_def)

lemma exd_contents: "bucket (ex_cache d) 0 = []" "bucket (ex_cache d) 1 = [ex_data d ''a'' 0]" "garbage (ex_cache d) = [(ex_data d ''c'' 1)\<lparr>e_dtime := 15\<rparr>]"
  by (simp_all add: bucket_def garbage_def exd_fields exd_lists exd_dat)

lemma exd_map: "cache_map (ex_cache d) = [''a'' \<mapsto> ex_data d ''a'' 0]"
proof
  fix key :: string
  have "length key mod 2 = 0 \<or> length key mod 2 = 1" by presburger
  then show "cache_map (ex_cache d) key = [''a'' \<mapsto> ex_data d ''a'' 0] key"
    using exd_contents [where d = d] by (auto simp: cache_map_def exd_fields ex_data_def)
qed

lemma exd_pending: "pending (ex_cache d) (cache_lists (ex_cache d)) 424"
proof -
  have "members (heads (ex_cache d)) (cache_lists (ex_cache d)) = members (heads (ex_cache d)) ex1_lists"
    unfolding exd_slots(2) by (simp add: members_def exd_lists ex1_lists_def)
  then show ?thesis using exd_slots(4) [where d = d] exd_segment [where d = d] by (simp add: pending_def exd_dat(4)) (simp add: exd_fields ex_data_def)
qed

text \<open>With numbers as the data of the entries.\<close>

abbreviation ex_entry :: "string \<Rightarrow> int \<Rightarrow> nat entry" where
  "ex_entry \<equiv> ex_data 0"

abbreviation ex1 :: "nat cache" where
  "ex1 \<equiv> ex_cache 0"

lemmas ex1_blocks = exd_blocks [where d = "0 :: nat"]
  and ex1_segment = exd_segment [where d = "0 :: nat"]
  and ex1_fields = exd_fields [where d = "0 :: nat"]
  and ex1_slots = exd_slots [where d = "0 :: nat"]
  and ex1_inv = exd_inv [where d = "0 :: nat"]
  and ex1_ok = exd_ok [where d = "0 :: nat"]
  and ex1_lists = exd_lists [where d = "0 :: nat"]
  and ex1_dat = exd_dat [where d = "0 :: nat"]
  and ex1_contents = exd_contents [where d = "0 :: nat"]
  and ex1_map = exd_map [where d = "0 :: nat"]
  and ex1_pending = exd_pending [where d = "0 :: nat"]

end
