(* ===== verification/Cache_Store.thy ===== *)
theory Cache_Store imports Cache_Reads begin

text \<open>
  When a store succeeds: the request is not refused by slam defense, the image of the value fits into the
  segment, the lock is obtained and, for an exclusive store, the key is not taken.
\<close>

lemma cache_map_contents:
  assumes I: "cache_inv c L" and I': "cache_inv c' L" and s: "same_config c c'"
    and e: "\<And>a. a \<in> heads c \<Longrightarrow> contents c' (L a) = contents c (L a)"
  shows "cache_map c' = cache_map c"
proof
  fix k
  have "slot_of c k < nslots c" by (rule slot_of_less [OF I])
  then have "slot_at c (slot_of c k) \<in> heads c" using header_addrs(8) [OF cache_invD(6) [OF I]] by blast
  then show "cache_map c' k = cache_map c k"
    using cache_map_find [OF I, of k] cache_map_find [OF I', of k] e same_config_fun(1,7) [OF s] by simp
qed

lemma persist_fits_ok:
  assumes I: "cache_inv c L" and img: "img key val = Some (sz, zv, data)" "0 < sz" "sz \<le> sma_max_alloc_size c"
    and f: "sma_fits sz c"
  shows "\<exists>a c'. apc_persist img key val c = Some (Some a, c') \<and> cache_inv c' L \<and> same_config c c' \<and>
    cache_map c' = cache_map c \<and> pending c' L a \<and> e_ref_count (dat c' a) = 1 \<and> e_key (dat c' a) = key \<and>
    e_mem_size (dat c' a) = int sz \<and> e_val (dat c' a) = zv \<and> e_data (dat c' a) = data \<and>
    e_hash (dat c' a) = zstr_hash c key"
proof -
  note D = cache_invD [OF I]
  have lw: "lock_works c" using D(3) by (simp add: lock_works_def)
  obtain a s where m: "apc_sma_malloc apc_cache_default_expunge apc_persist_sma_init_entry sz c = Some (Some a, s)"
    "malloc_served apc_persist_sma_init_entry sz c a s"
    using malloc_round(4) [OF D(1) img(3) lw f, of apc_cache_default_expunge apc_persist_sma_init_entry False]
    unfolding apc_sma_malloc_def malloc_served_def by blast
  note al = alloc_ok [OF I m(2) img(2)]
  let ?f = "\<lambda>e. e\<lparr>e_key := key, e_hash := zstr_hash c key, e_val := zv, e_data := data, e_mem_size := int sz\<rparr>"
  let ?c = "upd_entry a ?f s"
  have h: "heads s = heads c" "c_header s = c_header c" "zstr_hash s = zstr_hash c"
    using same_config_fun(3) [OF al(5)] same_config_sel(2,13) [OF al(5)] by simp_all
  have a: "a \<notin> members (heads s) L" "a \<notin> heads s" using al(4,9) h by simp_all
  have u: "cache_inv ?c L" "\<And>b. b \<in> heads s \<Longrightarrow> contents ?c (L b) = contents s (L b)"
    using upd_outside_ok [where f = ?f, OF al(1) a] al(7) by simp_all
  have s: "same_config c ?c" using same_config_trans [OF al(5) same_core_config [OF upd_entry_sel(2)]] .
  have "cache_map ?c = cache_map c"
    by (rule cache_map_contents [OF I u(1) s]) (use u(2) al(6) h in simp)
  moreover have "pending ?c L a" using al(2,3,8) a img(2) h by (simp add: pending_def)
  moreover have "apc_persist img key val c = Some (Some a, ?c)" using m(1) img(1) by (simp add: apc_persist_def)
  ultimately show ?thesis using u(1) s al(7) by (intro exI [of _ a] exI [of _ ?c]) simp
qed

lemma store_succeeds:
  fixes c :: "('v, 'x) cstate"
  assumes I: "cache_inv c L" and l: "lockable c" and x: "cache_exists c" and g: "lock_gets c"
    and nd: "\<not> fst (apc_cache_defense key (fst (apc_time c)) (snd (apc_time c)))"
    and img: "img key val = Some (sz, zv, data)" "0 < sz" "sz \<le> sma_max_alloc_size c" and f: "sma_fits sz c"
    and ex: "exclusive \<longrightarrow> lookup c key (fst (apc_time c)) = None"
  shows "\<exists>c' L'. apc_cache_store img key val ttl exclusive c = Some (True, c') \<and> cache_inv c' L' \<and> same_env c c' \<and>
    cache_map c' key = Some (fresh_entry c key ttl (fst (apc_time c)) sz zv data) \<and>
    kept_or_expired c key (fst (apc_time c)) c'"
proof -
  let ?t = "fst (apc_time c)" and ?v = "apc_cache_set_entry_values ttl (fst (apc_time c))"
  define c0 where "c0 = snd (apc_time c)"
  obtain r where r: "c0 = c\<lparr>request_time := r\<rparr>" using apc_time_ok c0_def by blast
  note t0 = apc_time_inv [of c, folded c0_def]
  define d where "d = apc_cache_defense key ?t c0"
  obtain lk where lk: "snd d = c0\<lparr>h_lastkey := lk\<rparr>" using defense_ok d_def by blast
  have Id: "cache_inv (snd d) L" using I t0(1) by (simp add: lk)
  have sd: "same_config c (snd d)" using same_config_trans [OF t0(2)] by (simp add: lk)
  have md: "cache_map (snd d) = cache_map c" by (simp add: lk c0_def)
  have fd: "sma_fits sz (snd d)" using f sma_cong(5) [of "snd d" c sz] by (simp add: lk r)
  have zd: "sz \<le> sma_max_alloc_size (snd d)" using img(3) by (simp add: lk r)
  obtain a c1 where p: "apc_persist img key val (snd d) = Some (Some a, c1)" "cache_inv c1 L" "same_config (snd d) c1"
    "cache_map c1 = cache_map (snd d)" "pending c1 L a" "e_ref_count (dat c1 a) = 1" "e_key (dat c1 a) = key"
    "e_mem_size (dat c1 a) = int sz" "e_val (dat c1 a) = zv" "e_data (dat c1 a) = data"
    "e_hash (dat c1 a) = zstr_hash (snd d) key"
    using persist_fits_ok [where img = img and key = key and val = val, OF Id img(1,2) zd fd] by blast
  define c2 where "c2 = upd_entry a ?v c1"
  note sv = set_values_ok [OF p(2,5,6), of ttl ?t, folded c2_def]
  have s2: "same_config c c2" using same_config_trans [OF same_config_trans [OF sd p(3)] sv(3)] .
  note k2 = same_config_sel [OF s2] and f2 = same_config_fun [OF s2]
  have l2: "lockable c2" and g2: "lock_gets c2" using l g k2 by (simp_all add: lockable_def lock_gets_def)
  let ?c3 = "locked Wlocked c2"
  have lk2: "apc_cache_wlock c2 = Some (True, ?c3)" using lock_as_ok [OF l2, of Wlocked] g2 by (simp add: apc_cache_wlock_def)
  have I3: "cache_inv ?c3 L" "pending ?c3 L a" "e_ref_count (dat ?c3 a) = 1" using sv(1,2,6) by simp_all
  have k3: "e_key (dat ?c3 a) = key" "cache_map ?c3 = cache_map c" "e_ctime (dat ?c3 a) = ?t"
    using sv(4,5,7) p(4,7) md by simp_all
  have ne: "\<not> (exclusive \<and> (\<exists>en. cache_map c key = Some en \<and> \<not> apc_cache_entry_hard_expired en ?t))"
    using ex by (auto simp: lookup_def split: if_splits)
  obtain b c4 L4 where i: "apc_cache_wlocked_insert a exclusive ?c3 = Some (b, c4)" "same_config ?c3 c4" "cache_inv c4 L4"
    "kept_or_expired ?c3 key ?t c4"
    "b \<longleftrightarrow> \<not> (exclusive \<and> (\<exists>en. cache_map c key = Some en \<and> \<not> apc_cache_entry_hard_expired en ?t))"
    "b \<longrightarrow> (\<forall>u::('v, 'x) cstate. dat u = dat c4 \<longrightarrow> cache_inv u L4 \<longrightarrow> cache_map u = cache_map c4 \<longrightarrow> slots u = slots c4 \<longrightarrow>
       cache_inv (apc_cache_entry_release a u) L4 \<and>
       cache_map (apc_cache_entry_release a u) = (cache_map c4)(key \<mapsto> strip ((dat ?c3 a)\<lparr>e_ref_count := 0\<rparr>)))"
    using insert_release_full [OF I3, of exclusive] unfolding k3 by blast
  have bt: b using i(5) ne by blast
  let ?c5 = "apc_cache_entry_release a (apc_cache_wunlock c4)"
  have "strip ((dat ?c3 a)\<lparr>e_ref_count := 0\<rparr>) = fresh_entry c key ttl ?t sz zv data"
    using sv(8) p(7-11) same_config_sel(13) [OF sd] by (simp add: fresh_entry_def)
  then have r5: "cache_inv ?c5 L4" "cache_map ?c5 = (cache_map c4)(key \<mapsto> fresh_entry c key ttl ?t sz zv data)"
    using i(6) [rule_format, OF bt, of "apc_cache_wunlock c4"] i(3) by simp_all
  have ee: "apc_cache_entry_expired ?c3 = apc_cache_entry_expired c"
    using f2(5) by (simp add: apc_cache_entry_expired_def apc_cache_entry_soft_expired_def locked_def fun_eq_iff)
  have "kept_or_expired c key ?t ?c5" using i(4) k3(2) r5(2) ee by (simp add: kept_or_expired_def)
  moreover have "same_env c ?c5"
    using same_env_trans [OF same_env_trans [OF same_config_env [OF s2] same_env_unlock(1) [OF l2 i(2)]]
        same_config_env [OF same_core_config [OF upd_entry_sel(2)]]]
    unfolding apc_cache_entry_release_def .
  moreover have "apc_cache_store img key val ttl exclusive c = Some (True, ?c5)"
    using x nd p(1) lk2 i(1) bt same_config_sel(1) [OF t0(2)]
    unfolding apc_cache_store_def Let_def c0_def [symmetric] d_def [symmetric] by (simp add: c2_def d_def c0_def)
  ultimately show ?thesis using r5 by (intro exI [of _ ?c5] exI [of _ L4]) simp
qed

end
