(* ===== verification/Cache_Properties.thy ===== *)
theory Cache_Properties imports Cache_Example Cache_Store begin

text \<open>
  The properties of the cache, each instantiated on the cache \<open>ex1\<close>. The hypotheses are the invariant
  \<open>cache_ok\<close>, that the process does not already hold the cache lock (\<open>lockable\<close>) and that the cache
  exists; the outcome of a lock attempt is \<open>lock_gets\<close>.
\<close>

subsection \<open>Reading the lists off the memory\<close>

lemma bucket_inv: "cache_inv c L \<Longrightarrow> i < nslots c \<Longrightarrow> bucket c i = contents c (L (slot_at c i))"
  using cache_lists_inv [of c L "slot_at c i"] header_addrs(8) [OF cache_invD(6), of c L i] by (simp add: bucket_def)

lemma garbage_inv: "cache_inv c L \<Longrightarrow> garbage c = contents c (L (gc_at c))"
  using cache_lists_inv [of c L "gc_at c"] header_addrs(6) [OF cache_invD(6), of c L] by (simp add: garbage_def)

lemma cache_okI: "cache_ok c \<Longrightarrow> cache_inv c (cache_lists c)"
  by (simp add: cache_ok_def)

subsection \<open>Creation and layout\<close>

text \<open>
  \<open>make_prime\<close> returns the first number of the table that exceeds its argument, and the last one of
  the table when there is none; so a cache never has less than 257 and never more than 10485667 slots.
\<close>

theorem make_prime_spec:
  "make_prime n \<in> set primes \<and> 257 \<le> make_prime n \<and> make_prime n \<le> 10485667 \<and>
   (n < make_prime n \<or> (\<forall>p\<in>set primes. p \<le> n) \<and> make_prime n = 10485667) \<and>
   (\<forall>p\<in>set primes. p \<le> n \<or> make_prime n \<le> p)"
proof -
  have s: "sorted primes" by (simp add: primes_def)
  have r: "make_prime n \<in> set primes \<and> (n < make_prime n \<or> (\<forall>p\<in>set primes. p \<le> n) \<and> make_prime n = 10485667) \<and>
    (\<forall>p\<in>set primes. p \<le> n \<or> make_prime n \<le> p)"
  proof (cases "filter (\<lambda>k. n < k) primes")
    case Nil
    then have "\<forall>p\<in>set primes. p \<le> n" unfolding filter_empty_conv by auto
    moreover have "make_prime n = 10485667" unfolding make_prime_def make_prime_loop_next Nil by (simp add: primes_def)
    ultimately show ?thesis by (simp add: primes_def)
  next
    case (Cons k ks)
    have m: "make_prime n = k" unfolding make_prime_def make_prime_loop_next Cons by simp
    have "k \<in> set (filter (\<lambda>k. n < k) primes)" unfolding Cons by simp
    then have k: "k \<in> set primes" "n < k" by simp_all
    have "sorted (filter (\<lambda>k. n < k) primes)" using s by (rule sorted_wrt_filter)
    then have le: "\<forall>p\<in>set (filter (\<lambda>k. n < k) primes). k \<le> p" unfolding Cons by auto
    have "p \<le> n \<or> k \<le> p" if "p \<in> set primes" for p using that le by (cases "n < p") simp_all
    then show ?thesis using m k by simp
  qed
  with make_prime_range show ?thesis by blast
qed

theorem make_prime_spec_witness: "make_prime 4096 = 4099 \<and> make_prime 4096 \<le> 10485667"
  using make_prime_spec [of 4096] by (simp add: make_prime_def primes_def)

text \<open>
  \<open>apc_cache_create\<close> on a fresh segment with room for the header establishes the invariant of the
  cache: no key is present, the counters are 0, the lock is free, and it has the number of slots asked for.
\<close>

theorem apc_cache_create_ok:
  assumes "sma_ready c" "sma_lock_results c = []" "sma_live c = {}" "sma_frees c = [first_block (hdr_size c)]"
    "\<not> cache_exists c" "0 < gc_offset c" "gc_offset c + 8 \<le> header_bytes c"
    "header_bytes c + 8 * slots_wanted hint c \<le> sma_max_alloc_size c"
    "sma_fits (header_bytes c + 8 * slots_wanted hint c) c"
  shows "\<exists>c'. apc_cache_create hint gc_ttl ttl smart defend c = Some (True, c') \<and> cache_ok c' \<and> cache_exists c' \<and>
    lockable c' \<and> cache_map c' = Map.empty \<and> garbage c' = [] \<and> h_nentries c' = 0 \<and> nslots c' = slots_wanted hint c \<and>
    c_ttl c' = ttl \<and> c_gc_ttl c' = gc_ttl \<and> c_smart c' = smart \<and> c_defend c' = defend"
proof -
  obtain c' where c': "apc_cache_create hint gc_ttl ttl smart defend c = Some (True, c')" "cache_inv c' (\<lambda>_. [])"
    "cache_exists c'" "nslots c' = slots_wanted hint c" "cache_lock c' = Unlocked" "h_nentries c' = 0"
    "c_ttl c' = ttl" "c_gc_ttl c' = gc_ttl" "c_smart c' = smart" "c_defend c' = defend"
    using create_ok [OF assms] by blast
  have "cache_map c' = Map.empty" by (rule cache_map_empty [OF c'(2)]) simp
  moreover have "garbage c' = []" using garbage_inv [OF c'(2)] by simp
  moreover have "lockable c'" using c'(5) by (simp add: lockable_def)
  ultimately show ?thesis using c' cache_inv_ok [OF c'(2)] by blast
qed

definition ex_fresh :: "nat cache" where
  "ex_fresh = ex1\<lparr>sma_size := 4096, sma_max_alloc_size := 3936, avail := 3968, cache_exists := False,
     blk := (\<lambda>_. ex_free)
      (64 := \<lparr>bsize = 0, prev_size = 0, fnext = 96, fprev = 0\<rparr>,
       96 := \<lparr>bsize = 3968, prev_size = 0, fnext = 4064, fprev = 64\<rparr>,
       4064 := \<lparr>bsize = 0, prev_size = 3968, fnext = 0, fprev = 96\<rparr>)\<rparr>"

lemma ex_fresh_blocks: "sma_blocks ex_fresh = [96]" "sma_frees ex_fresh = [96]"
proof -
  show b: "sma_blocks ex_fresh = [96]" by (simp add: ex_fresh_def ex_cache_def sma_blocks_def block_walk.simps)
  show "sma_frees ex_fresh = [96]" by (simp add: b sma_frees_def) (simp add: ex_fresh_def ex_cache_def)
qed

lemma ex_fresh_ready: "sma_ready ex_fresh" "sma_live ex_fresh = {}"
proof -
  have "sma_ok ex_fresh"
    by (simp add: sma_ok_def ex_fresh_blocks)
      (auto simp: ex_fresh_def ex_cache_def ex_free_def sma_inv_def heap_inv_def frame_ok_def is_free_def block_ok_def tag_def)
  then show "sma_ready ex_fresh" by (simp add: sma_ready_def) (simp add: ex_fresh_def ex_cache_def)
  show "sma_live ex_fresh = {}" by (simp add: sma_live_def ex_fresh_blocks) (simp add: ex_fresh_def ex_cache_def is_free_def)
qed

theorem apc_cache_create_ok_witness:
  "\<exists>c'. apc_cache_create 100 3600 0 0 True ex_fresh = Some (True, c') \<and> cache_ok c' \<and> cache_map c' = Map.empty \<and> nslots c' = 257"
proof -
  have k: "slots_wanted 100 ex_fresh = 257"
    by (simp add: slots_wanted_def int32_of_def make_prime_def) (simp add: primes_def)
  have f: "sma_fits 2168 ex_fresh" unfolding sma_fits_def ex_fresh_blocks
    by (simp add: ex_fresh_def alignword_def uadd_def)
  have h: "header_bytes ex_fresh = 112" "sma_max_alloc_size ex_fresh = 3936" "gc_offset ex_fresh = 104"
    "\<not> cache_exists ex_fresh" "sma_lock_results ex_fresh = []" "hdr_size ex_fresh = 64" by (simp_all add: ex_fresh_def ex_cache_def)
  show ?thesis
    using apc_cache_create_ok [of ex_fresh 100 3600 0 0 True] ex_fresh_ready ex_fresh_blocks(2) h f unfolding k h by auto
qed

text \<open>
  C38: the layout check of \<open>apc_cache_attach\<close> does not reject every corrupt header: a slot count of
  \<open>2 ^ 61 - 1\<close> passes the test for overflow of the multiplication, and the end of the slots wraps around
  to the end of the header minus 8, so the check accepts it although the slots fill the address space.
\<close>

theorem attach_layout_ok_wraps:
  assumes "0 < off" "8 \<le> hbytes" "off + hbytes - 8 \<le> sz" "off + hbytes < U64" "sz < U64"
  shows "attach_layout_ok hbytes off (2 ^ 61 - 1) sz \<and> sz < off + hbytes + 8 * (2 ^ 61 - 1)"
proof -
  have m: "umul 2305843009213693951 8 = 18446744073709551608" by (simp add: umul_def)
  have e: "uadd (uadd off hbytes) 18446744073709551608 = off + hbytes - 8"
    using assms by (simp add: uadd_def mod_eq_nat1E le_mod_geq)
  show ?thesis using assms m e by (auto simp: attach_layout_ok_def Let_def)
qed

theorem attach_layout_ok_wraps_witness:
  "attach_layout_ok 112 128 (2 ^ 61 - 1) 1024 \<and> (1024::nat) < 128 + 112 + 8 * (2 ^ 61 - 1)"
  using attach_layout_ok_wraps [of 128 112 1024] by simp


subsection \<open>Storing\<close>

text \<open>
  C6: \<open>apc_cache_wlocked_insert\<close> refines the insertion \<open>a_insert\<close> on lists: it always returns; the slot
  of the key and the garbage list change exactly as the specification says (expired entries that lie before
  the key are removed, the old entry of the key is replaced or, for an exclusive insert, wins), every other
  slot is untouched, and the invariant holds again.
\<close>

theorem apc_cache_wlocked_insert_refines:
  assumes "cache_ok c" "pending c (cache_lists c) e"
  shows "\<exists>b c'. apc_cache_wlocked_insert e exclusive c = Some (b, c') \<and> cache_ok c' \<and>
    (b, bucket c' (slot_of c (e_key (dat c e))), garbage c') =
      a_insert c exclusive (strip (dat c e)) (bucket c (slot_of c (e_key (dat c e)))) (garbage c) \<and>
    (\<forall>j<nslots c. j \<noteq> slot_of c (e_key (dat c e)) \<longrightarrow> bucket c' j = bucket c j)"
proof -
  let ?i = "slot_of c (e_key (dat c e))"
  note I = cache_okI [OF assms(1)]
  have i: "?i < nslots c" by (rule slot_of_less [OF I])
  obtain b c' L' where r: "apc_cache_wlocked_insert e exclusive c = Some (b, c')" "cache_inv c' L'"
    "(b, contents c' (L' (slot_at c ?i)), contents c' (L' (gc_at c))) =
      a_insert c exclusive (strip (dat c e)) (contents c (cache_lists c (slot_at c ?i))) (contents c (cache_lists c (gc_at c)))"
    "\<forall>j<nslots c. j \<noteq> ?i \<longrightarrow> contents c' (L' (slot_at c j)) = contents c (cache_lists c (slot_at c j))" "same_config c c'"
    using insert_ok [OF I assms(2), of exclusive] by blast
  have b: "bucket c' j = contents c' (L' (slot_at c j))" if "j < nslots c" for j
    using bucket_inv [OF r(2), of j] that same_config_fun(1) [OF r(5)] same_config_sel(5) [OF r(5)] by simp
  have "garbage c' = contents c' (L' (gc_at c))"
    using garbage_inv [OF r(2)] same_config_fun(2) [OF r(5)] by simp
  then show ?thesis using r b i cache_inv_ok [OF r(2)] by (intro exI [of _ b] exI [of _ c']) (simp add: bucket_def garbage_def)
qed

theorem apc_cache_wlocked_insert_refines_witness:
  "\<exists>b c'. apc_cache_wlocked_insert 424 True ex1 = Some (b, c') \<and> cache_ok c' \<and> b \<and>
    bucket c' 1 = [ex_entry ''a'' 0, ex_entry ''b'' 1] \<and> garbage c' = garbage ex1"
proof -
  have k: "slot_of ex1 (e_key (dat ex1 424)) = 1" by (simp add: ex1_dat ex1_fields) (simp add: ex_data_def)
  have a: "a_insert ex1 True (ex_entry ''b'' 1) (bucket ex1 1) (garbage ex1) =
      (True, [ex_entry ''a'' 0, ex_entry ''b'' 1], garbage ex1)"
    unfolding ex1_contents
    by (simp add: a_insert_def gc_keeps_def int64_of_def apc_cache_entry_expired_def apc_cache_entry_hard_expired_def
        apc_cache_entry_soft_expired_def ex1_fields) (simp add: ex_data_def)
  show ?thesis
    using apc_cache_wlocked_insert_refines [OF ex1_ok ex1_pending, of True] unfolding k ex1_dat(2) a by auto
qed

text \<open>
  C7: \<open>apc_cache_store\<close> succeeds whenever slam defense does not refuse it, the lock is obtained, the image of
  the value fits into free memory and, for an exclusive store (\<open>apcu_add\<close>), no live entry has the key. The
  key then maps to an unreferenced entry with the persisted value, the ttl and the current time; other keys
  are untouched unless their entries had expired; the lock is released and the invariant holds.
\<close>

theorem apc_cache_store_succeeds:
  assumes "cache_ok c" "lockable c" "cache_exists c" "lock_gets c"
    "\<not> fst (apc_cache_defense key (fst (apc_time c)) (snd (apc_time c)))"
    "img key val = Some (sz, zv, data)" "0 < sz" "sz \<le> sma_max_alloc_size c" "sma_fits sz c"
    "exclusive \<longrightarrow> lookup c key (fst (apc_time c)) = None"
  shows "\<exists>c'. apc_cache_store img key val ttl exclusive c = Some (True, c') \<and> cache_ok c' \<and> same_env c c' \<and>
    cache_map c' key = Some (fresh_entry c key ttl (fst (apc_time c)) sz zv data) \<and>
    kept_or_expired c key (fst (apc_time c)) c'"
proof -
  obtain c' L' where "apc_cache_store img key val ttl exclusive c = Some (True, c')" "cache_inv c' L'" "same_env c c'"
    "cache_map c' key = Some (fresh_entry c key ttl (fst (apc_time c)) sz zv data)"
    "kept_or_expired c key (fst (apc_time c)) c'"
    using store_succeeds [OF cache_okI [OF assms(1)] assms(2-5), where img = img and val = val, OF assms(6-10)] by blast
  then show ?thesis using cache_inv_ok by blast
qed

lemma exd_fits: "sma_fits 90 (ex_cache d)"
  unfolding sma_fits_def exd_blocks by (simp add: ex_cache_def alignword_def uadd_def)

lemma exd_defense: "\<not> fst (apc_cache_defense key (fst (apc_time (ex_cache d))) (snd (apc_time (ex_cache d))))"
  by (simp add: apc_cache_defense_def Let_def ex_cache_def no_key_def apc_time_def)

lemmas ex1_fits = exd_fits [where d = "0 :: nat"] and ex1_defense = exd_defense [where d = "0 :: nat"]

theorem apc_cache_store_succeeds_witness:
  "\<exists>c'. apc_cache_store (\<lambda>key v. Some (90, IS_LONG v, 3)) ''ab'' 4 7 True ex1 = Some (True, c') \<and> cache_ok c' \<and>
    map_option e_val (cache_map c' ''ab'') = Some (IS_LONG 4) \<and> map_option e_ttl (cache_map c' ''ab'') = Some 7"
  using apc_cache_store_succeeds [OF ex1_ok ex1_fields(14,12,13) ex1_defense,
      of "\<lambda>key v. Some (90, IS_LONG v, 3)" "''ab''" 4 90 "IS_LONG 4" 3 True 7]
  by (fastforce simp: ex1_fields ex1_fits ex1_map lookup_def fresh_entry_def)



lemma store_then_fetch:
  assumes "cache_ok c" "lockable c" "cache_exists c" "lock_gets c"
    "\<not> fst (apc_cache_defense key (fst (apc_time c)) (snd (apc_time c)))"
    "img key val = Some (sz, zv, data)" "0 < sz" "sz \<le> sma_max_alloc_size c" "sma_fits sz c"
    "ttl = 0 \<or> t \<le> int64_of (fst (apc_time c) + ttl)"
  shows "\<exists>c' c''. apc_cache_store img key val ttl False c = Some (True, c') \<and>
    apc_cache_fetch unp key t c' = Some (if lock_gets c' then unp zv data else None, c'') \<and> cache_ok c''"
proof -
  have ne: "False \<longrightarrow> lookup c key (fst (apc_time c)) = None" by simp
  obtain c' L' where s: "apc_cache_store img key val ttl False c = Some (True, c')" "cache_inv c' L'" "same_env c c'"
    "cache_map c' key = Some (fresh_entry c key ttl (fst (apc_time c)) sz zv data)"
    using store_succeeds [OF cache_okI [OF assms(1)] assms(2-5), where img = img and val = val, OF assms(6-9) ne] by blast
  have l: "lockable c'" "cache_exists c'" using same_env_fun(7) [OF s(3)] same_env_sel(1) [OF s(3)] assms(2,3) by simp_all
  have "lookup c' key t = Some (fresh_entry c key ttl (fst (apc_time c)) sz zv data)"
    using s(4) assms(10) by (auto simp: lookup_def apc_cache_entry_hard_expired_def fresh_entry_def)
  then have "fetch_value unp c' key t = unp zv data" by (simp add: fetch_value_def fresh_entry_def)
  moreover obtain c'' where "apc_cache_fetch unp key t c' = Some (if lock_gets c' then fetch_value unp c' key t else None, c'')"
    "cache_inv c'' L'"
    using fetch_ok [OF s(2) l, of unp key t] by blast
  ultimately show ?thesis using s(1) cache_inv_ok by (intro exI [of _ c'] exI [of _ c'']) simp
qed

text \<open>
  what was stored is fetched: a fetch at any time at which the entry has not hard expired returns
  the value whose image was stored, if unpacking is the inverse of packing for this value.
\<close>

theorem apc_cache_store_fetch:
  assumes "cache_ok c" "lockable c" "cache_exists c" "lock_gets c"
    "\<not> fst (apc_cache_defense key (fst (apc_time c)) (snd (apc_time c)))"
    "img key val = Some (sz, zv, data)" "0 < sz" "sz \<le> sma_max_alloc_size c" "sma_fits sz c" "unp zv data = Some val"
    "ttl = 0 \<or> t \<le> int64_of (fst (apc_time c) + ttl)"
  shows "\<exists>c' c''. apc_cache_store img key val ttl False c = Some (True, c') \<and>
    apc_cache_fetch unp key t c' = Some (if lock_gets c' then Some val else None, c'') \<and> cache_ok c''"
  using store_then_fetch [OF assms(1-5), where img = img and val = val, OF assms(6-9,11), where unp = unp] unfolding assms(10) .

theorem apc_cache_store_fetch_witness:
  "\<exists>c' c''. apc_cache_store (\<lambda>key v. Some (90, IS_LONG v, 3)) ''ab'' 4 7 False ex1 = Some (True, c') \<and>
    apc_cache_fetch (\<lambda>zv _. if z_is_long zv then Some (z_lval zv) else None) ''ab'' 27 c' =
      Some (if lock_gets c' then Some 4 else None, c'')"
  using apc_cache_store_fetch [OF ex1_ok ex1_fields(14,12,13) ex1_defense,
      of "\<lambda>key v. Some (90, IS_LONG v, 3)" "''ab''" 4 90 "IS_LONG 4" 3 "\<lambda>zv _. if z_is_long zv then Some (z_lval zv) else None" 7 27]
  by (fastforce simp: ex1_fields ex1_fits int64_of_def)

end
