(* ===== verification/Cache_Behaviour.thy ===== *)
theory Cache_Behaviour imports Cache_Properties begin

text \<open>
  More properties of the cache: reading, removing, making room, updating, \<open>apcu_entry\<close> and the information
  functions.
\<close>

subsection \<open>Reading\<close>

text \<open>
  C23: \<open>apc_cache_fetch\<close> returns the unpacked value of the entry with the key, unless there is none, it has
  hard expired or the lock fails; a hit updates the hit count and the access time of that entry and leaves its
  reference count as it was; nothing else in the map changes and the lock is released.
\<close>

theorem apc_cache_fetch_correct:
  assumes "cache_ok c" "lockable c" "cache_exists c"
  shows "\<exists>c'. apc_cache_fetch unp key t c = Some (if lock_gets c then fetch_value unp c key t else None, c') \<and>
    cache_ok c' \<and> same_env c c' \<and> cache_map c' = (if lock_gets c then fetch_map c key t else cache_map c)"
  using fetch_ok [OF cache_okI [OF assms(1)] assms(2,3), of unp key t] cache_inv_ok by blast

theorem apc_cache_fetch_correct_witness:
  "\<exists>c'. apc_cache_fetch (\<lambda>zv _. Some zv) ''a'' 30 ex1 = Some (Some (IS_LONG 5), c') \<and> cache_ok c' \<and>
    cache_map c' ''a'' = Some ((ex_entry ''a'' 0)\<lparr>e_nhits := 1, e_atime := 30\<rparr>)"
  using apc_cache_fetch_correct [OF ex1_ok ex1_fields(14,12), of "\<lambda>zv _. Some zv" "''a''" 30]
  by (auto simp: ex1_fields fetch_value_def fetch_map_def lookup_def ex1_map apc_cache_entry_hard_expired_def fetched_def
      hit_def ex_data_def int64_of_def)

text \<open>
  \<open>apc_cache_exists\<close> answers exactly whether \<open>apc_cache_fetch\<close> would find an entry at that time; it
  counts as a hit but takes no reference.
\<close>

theorem apc_cache_exists_iff_fetch:
  assumes "cache_ok c" "lockable c" "cache_exists c"
  shows "\<exists>b c' v c''. apc_cache_exists key t c = Some (b, c') \<and> apc_cache_fetch (\<lambda>zv data. Some (zv, data)) key t c = Some (v, c'') \<and>
    (b \<longleftrightarrow> v \<noteq> None) \<and> cache_ok c' \<and> same_env c c' \<and> dom (cache_map c') = dom (cache_map c)"
proof -
  note I = cache_okI [OF assms(1)]
  obtain c' where e: "apc_cache_exists key t c = Some (lock_gets c \<and> lookup c key t \<noteq> None, c')" "cache_inv c' (cache_lists c)"
    "same_env c c'" "cache_map c' = (if lock_gets c then (case lookup c key t of
       None \<Rightarrow> cache_map c | Some en \<Rightarrow> (cache_map c)(key \<mapsto> hit t en)) else cache_map c)"
    using exists_ok [OF I assms(2,3), of key t] by blast
  obtain c'' where f: "apc_cache_fetch (\<lambda>zv data. Some (zv, data)) key t c =
      Some (if lock_gets c then fetch_value (\<lambda>zv data. Some (zv, data)) c key t else None, c'')"
    using fetch_ok [OF I assms(2,3), of "\<lambda>zv data. Some (zv, data)" key t] by blast
  have "dom (cache_map c') = dom (cache_map c)"
    using e(4) by (auto simp: lookup_def split: option.splits if_splits)
  moreover have "(lock_gets c \<and> lookup c key t \<noteq> None) = ((if lock_gets c then fetch_value (\<lambda>zv data. Some (zv, data)) c key t else None) \<noteq> None)"
    by (simp add: fetch_value_def split: option.splits)
  ultimately show ?thesis using e(1-3) f cache_inv_ok
    by (intro exI [of _ "lock_gets c \<and> lookup c key t \<noteq> None"] exI [of _ c']
        exI [of _ "if lock_gets c then fetch_value (\<lambda>zv data. Some (zv, data)) c key t else None"] exI [of _ c'']) simp
qed

theorem apc_cache_exists_iff_fetch_witness:
  "\<exists>b c' v c''. apc_cache_exists ''q'' 30 ex1 = Some (b, c') \<and> apc_cache_fetch (\<lambda>zv data. Some (zv, data)) ''q'' 30 ex1 = Some (v, c'') \<and>
    (b \<longleftrightarrow> v \<noteq> None)"
  using apc_cache_exists_iff_fetch [OF ex1_ok ex1_fields(14,12), of "''q''" 30] by blast

text \<open>
  C40: \<open>apc_cache_stat\<close> and \<open>apc_cache_delete\<close> do not look at the hard ttl: for an entry that has hard
  expired, which \<open>apc_cache_fetch\<close> treats as missing, \<open>apc_cache_stat\<close> still returns its statistics and
  \<open>apc_cache_delete\<close> reports success.
\<close>

theorem stat_delete_see_expired:
  assumes "cache_ok c" "lockable c" "cache_exists c" "lock_gets c" "cache_map c key = Some en"
    "apc_cache_entry_hard_expired en t"
  shows "(\<exists>c'. apc_cache_fetch unp key t c = Some (None, c')) \<and>
    (\<exists>c'. apc_cache_stat key c = Some (Some (key_stat_of en), c')) \<and> (\<exists>c'. apc_cache_delete key c = Some (True, c'))"
proof -
  note I = cache_okI [OF assms(1)]
  have "lookup c key t = None" using assms(5,6) by (simp add: lookup_def)
  then have "\<exists>c'. apc_cache_fetch unp key t c = Some (None, c')"
    using fetch_ok [OF I assms(2,3), of unp key t] by (auto simp: fetch_value_def split: if_splits)
  moreover have "\<exists>c'. apc_cache_stat key c = Some (Some (key_stat_of en), c')"
    using stat_ok [OF I assms(2,3), of key] assms(4,5) by auto
  moreover have "\<exists>c'. apc_cache_delete key c = Some (True, c')"
    using delete_api_ok [OF I assms(2,3), of key] assms(4,5) by auto
  ultimately show ?thesis by blast
qed

text \<open>The cache \<open>ex1\<close> with a ttl of 5 seconds on its entry.\<close>

definition ex_ttl :: "nat cache" where
  "ex_ttl = upd_entry 288 (\<lambda>e. e\<lparr>e_ttl := 5\<rparr>) ex1"

lemma ex_ttl_ok: "cache_inv ex_ttl ex1_lists" "cache_map ex_ttl = [''a'' \<mapsto> (ex_entry ''a'' 0)\<lparr>e_ttl := 5\<rparr>]"
  "lockable ex_ttl" "lock_gets ex_ttl" "cache_exists ex_ttl"
proof -
  have m: "288 \<in> members (heads ex1) ex1_lists" "288 \<in> members (slots ex1) ex1_lists" unfolding ex1_slots(3,4) by simp_all
  have k: "keeps_place (\<lambda>e. e\<lparr>e_ttl := 5\<rparr>) (dat ex1 288)" by (simp add: keeps_place_def)
  show "cache_inv ex_ttl ex1_lists" unfolding ex_ttl_def by (rule upd_member_ok [OF ex1_inv m(1) k])
  have s: "e_key (dat ex1 288) = ''a''" "strip ((dat ex1 288)\<lparr>e_ttl := 5\<rparr>) = (ex_entry ''a'' 0)\<lparr>e_ttl := 5\<rparr>"
    by (simp_all add: ex_cache_def ex_data_def strip_def)
  show "cache_map ex_ttl = [''a'' \<mapsto> (ex_entry ''a'' 0)\<lparr>e_ttl := 5\<rparr>]"
    unfolding ex_ttl_def using cache_map_upd [OF ex1_inv m(2) k] by (simp add: s ex1_map)
  show "lockable ex_ttl" "lock_gets ex_ttl" "cache_exists ex_ttl"
    by (simp_all add: ex_ttl_def upd_entry_def ex_cache_def lockable_def lock_gets_def)
qed

theorem stat_delete_see_expired_witness:
  "(\<exists>c'. apc_cache_stat ''a'' ex_ttl = Some (Some (key_stat_of ((ex_entry ''a'' 0)\<lparr>e_ttl := 5\<rparr>)), c')) \<and>
   (\<exists>c'. apc_cache_fetch (\<lambda>zv _. Some zv) ''a'' 16 ex_ttl = Some (None, c'))"
  using stat_delete_see_expired [OF cache_inv_ok [OF ex_ttl_ok(1)] ex_ttl_ok(3,5,4),
      of "''a''" "(ex_entry ''a'' 0)\<lparr>e_ttl := 5\<rparr>" 16 "\<lambda>zv _. Some zv"]
  by (simp add: ex_ttl_ok apc_cache_entry_hard_expired_def ex_data_def int64_of_def)

subsection \<open>Removing\<close>

text \<open>
  \<open>apc_cache_delete\<close> reports whether the key was present and removes exactly that key; the other keys
  keep their entries, the lock is released and the invariant holds.
\<close>

theorem apc_cache_delete_correct:
  assumes "cache_ok c" "lockable c" "cache_exists c"
  shows "\<exists>c'. apc_cache_delete key c = Some (lock_gets c \<and> key \<in> dom (cache_map c), c') \<and> cache_ok c' \<and> same_env c c' \<and>
    cache_map c' = (if lock_gets c then (cache_map c)(key := None) else cache_map c)"
  using delete_api_ok [OF cache_okI [OF assms(1)] assms(2,3), of key] cache_inv_ok by (auto simp: domIff)

theorem apc_cache_delete_correct_witness:
  "\<exists>c'. apc_cache_delete ''a'' ex1 = Some (True, c') \<and> cache_ok c' \<and> cache_map c' = Map.empty"
  using apc_cache_delete_correct [OF ex1_ok ex1_fields(14,12), of "''a''"] by (auto simp: ex1_fields ex1_map)

text \<open>
  C26: removing an entry that is still referenced (a reader is copying its value) frees no memory: the
  allocation stays, its value is unchanged and it is put on the garbage list with the time of the deletion.
\<close>

theorem referenced_entry_survives:
  assumes "cache_ok c" "i < nslots c" "cache_lists c (slot_at c i) = xs @ a # ys" "0 < e_ref_count (dat c a)"
  shows "\<exists>c'. apc_cache_wlocked_remove_entry a c = Some c' \<and> cache_ok c' \<and> a \<in> sma_live c' \<and>
    strip (dat c' a) = deleted_at (clock c) (strip (dat c a)) \<and> garbage c' = deleted_at (clock c) (strip (dat c a)) # garbage c"
proof -
  note I = cache_okI [OF assms(1)]
  have ad: "slot_at c i \<in> heads c" "slot_at c i \<noteq> gc_at c"
    using header_addrs(8,9) [OF cache_invD(6) [OF I] assms(2)] by simp_all
  let ?L = "drop_list c (cache_lists c) (slot_at c i) (xs @ ys) [a]"
  obtain c' where c': "apc_cache_wlocked_remove_entry a c = Some c'" "cache_inv c' ?L" "evicted c {a} c'"
    using remove_in_slot [OF I assms(2,3)] by blast
  have st: "strip (dat c' a) = deleted_at (clock c) (strip (dat c a))"
    using c'(3) assms(4) by (simp add: evicted_def deleted_at_def)
  have core: "same_core c c'" using c'(3) by (simp add: evicted_def)
  have gl: "?L (gc_at c') = a # cache_lists c (gc_at c)"
    using assms(4) ad(2) same_core_addrs(2) [OF core] by (simp add: drop_list_def held_def)
  have "a \<in> members (heads c') ?L"
    using members_mem [OF header_addrs(6) [OF cache_invD(6) [OF c'(2)]], of a ?L] gl by simp
  then have "a \<in> sma_live c'" using cache_invD(8) [OF c'(2)] by blast
  moreover have "garbage c' = deleted_at (clock c) (strip (dat c a)) # contents c' (cache_lists c (gc_at c))"
    using garbage_inv [OF c'(2)] gl st by simp
  moreover have "contents c' (cache_lists c (gc_at c)) = garbage c"
  proof -
    have "a \<notin> set (cache_lists c (gc_at c))"
      using listsD(7) [OF cache_invD(7) [OF I] ad(1) header_addrs(6) [OF cache_invD(6) [OF I]] ad(2)] assms(3) by auto
    then show ?thesis using contents_evicted [OF c'(3), of "cache_lists c (gc_at c)"] by (simp add: garbage_def)
  qed
  ultimately show ?thesis using c'(1) st cache_inv_ok [OF c'(2)] by (intro exI [of _ c']) simp
qed

text \<open>The cache \<open>ex1\<close> while a reader holds a reference to its entry.\<close>

definition ex_held :: "nat cache" where
  "ex_held = upd_entry 288 (\<lambda>e. e\<lparr>e_ref_count := 1\<rparr>) ex1"

theorem referenced_entry_survives_witness:
  "\<exists>c'. apc_cache_wlocked_remove_entry 288 ex_held = Some c' \<and> cache_ok c' \<and> 288 \<in> sma_live c' \<and>
    e_val (dat c' 288) = IS_LONG 5 \<and> e_dtime (dat c' 288) = 20"
proof -
  have m: "288 \<in> members (heads ex1) ex1_lists" unfolding ex1_slots(4) by simp
  have I: "cache_inv ex_held ex1_lists"
    unfolding ex_held_def by (rule upd_member_ok [OF ex1_inv m]) (simp add: keeps_place_def)
  have h: "heads ex_held = heads ex1" "slot_at ex_held 1 = 248" "nslots ex_held = 2" "clock ex_held = 20"
    by (simp_all add: ex_held_def ex1_fields) (simp add: upd_entry_def ex_cache_def)
  have l: "cache_lists ex_held (slot_at ex_held 1) = [] @ 288 # []"
    unfolding h(2) using cache_lists_inv [OF I, of 248] by (simp add: h(1) ex1_slots ex1_lists_def)
  have e: "e_ref_count (dat ex_held 288) = 1" "e_val (dat ex_held 288) = IS_LONG 5"
    by (simp_all add: ex_held_def) (simp add: ex_cache_def ex_data_def)
  obtain c' where c': "apc_cache_wlocked_remove_entry 288 ex_held = Some c'" "cache_ok c'" "288 \<in> sma_live c'"
    "strip (dat c' 288) = deleted_at 20 (strip (dat ex_held 288))"
    using referenced_entry_survives [OF cache_inv_ok [OF I] _ l] h e by auto
  have "e_val (dat c' 288) = IS_LONG 5" "e_dtime (dat c' 288) = 20"
    using arg_cong [OF c'(4), of e_val] arg_cong [OF c'(4), of e_dtime] e by (simp_all add: deleted_at_def)
  then show ?thesis using c'(1-3) by blast
qed


text \<open>
  \<open>apc_cache_clear\<close> leaves no key and resets the counters; of the entries that were in the cache exactly
  those that are still referenced survive, on the garbage list.
\<close>

theorem apc_cache_clear_correct:
  assumes "cache_ok c" "lockable c" "cache_exists c" "lock_gets c"
  shows "\<exists>c'. apc_cache_clear c = Some c' \<and> cache_ok c' \<and> same_env c c' \<and> cache_map c' = Map.empty \<and>
    h_nentries c' = 0 \<and> h_mem_size c' = 0 \<and> h_nhits c' = 0 \<and> h_nmisses c' = 0 \<and> h_ninserts c' = 0 \<and>
    h_ncleanups c' = 0 \<and> h_nexpunges c' = 0 \<and> h_ndefragmentations c' = 0 \<and>
    garbage c' = a_drop (clock c) (concat (map (bucket c) [0..<nslots c])) (garbage c)"
proof -
  obtain c' L' where c': "apc_cache_clear c = Some c'" "cache_inv c' L'" "same_env c c'" "cache_map c' = Map.empty"
    "h_nentries c' = 0" "h_mem_size c' = 0" "h_nhits c' = 0" "h_nmisses c' = 0" "h_ninserts c' = 0"
    "h_ncleanups c' = 0" "h_nexpunges c' = 0" "h_ndefragmentations c' = 0"
    "contents c' (L' (gc_at c')) = a_drop (clock c) (concat (map (\<lambda>i. contents c (cache_lists c (slot_at c i))) [0..<nslots c]))
       (contents c (cache_lists c (gc_at c)))"
    using clear_ok [OF cache_okI [OF assms(1)] assms(2,3)] assms(4) by auto
  have "garbage c' = a_drop (clock c) (concat (map (bucket c) [0..<nslots c])) (garbage c)"
    using garbage_inv [OF c'(2)] c'(13) by (simp add: bucket_def [abs_def] garbage_def)
  then show ?thesis using c'(1-12) cache_inv_ok by (intro exI [of _ c']) simp
qed

theorem apc_cache_clear_correct_witness:
  "\<exists>c'. apc_cache_clear ex1 = Some c' \<and> cache_ok c' \<and> cache_map c' = Map.empty \<and> garbage c' = garbage ex1"
proof -
  have b: "bucket ex1 0 = []" "bucket ex1 (Suc 0) = [ex_entry ''a'' 0]" using ex1_contents by simp_all
  have "[0..<nslots ex1] = [0, 1]" by (simp add: ex1_fields upt_rec)
  then have "a_drop (clock ex1) (concat (map (bucket ex1) [0..<nslots ex1])) (garbage ex1) = garbage ex1"
    using b by (simp add: a_drop_def) (simp add: ex_data_def)
  then show ?thesis using apc_cache_clear_correct [OF ex1_ok ex1_fields(14,12,13)] by auto
qed



subsection \<open>Making room\<close>

text \<open>
  C16: \<open>apc_cache_default_expunge\<close>, the allocator's callback, always returns, asks for one more attempt,
  releases the lock and keeps the invariant. If it got the lock, either the cache is empty or only expired
  entries have been removed and a block of the wanted size (\<open>apc.smart\<close> times the request) is free.
\<close>

theorem apc_cache_default_expunge_makes_room:
  assumes "cache_ok c" "lockable c" "cache_exists c"
  shows "\<exists>c'. apc_cache_default_expunge sz c = Some (True, c') \<and> cache_ok c' \<and> same_env c c' \<and>
    (if lock_gets c
     then (\<forall>i<nslots c. bucket c' i = []) \<or>
       (\<forall>i<nslots c. bucket c' i = unexpired c (fst (apc_time c)) (bucket c i)) \<and>
       (sma_max_alloc_size c < wanted c sz \<or> sma_fits (wanted c sz) c')
     else \<forall>i<nslots c. bucket c' i = bucket c i)"
proof -
  note I = cache_okI [OF assms(1)]
  obtain c' L' where c': "apc_cache_default_expunge sz c = Some (True, c')" "cache_inv c' L'" "same_env c c'"
    "if lock_gets c
     then slots_as c' L' (\<lambda>i. []) \<or>
       slots_as c' L' (\<lambda>i. unexpired c (fst (apc_time c)) (contents c (cache_lists c (slot_at c i)))) \<and>
       (wanted c sz \<le> sma_max_alloc_size c \<longrightarrow> sma_fits (wanted c sz) c')
     else slots_as c' L' (\<lambda>i. contents c (cache_lists c (slot_at c i)))"
    using default_expunge_ok [OF I assms(2,3)] by blast
  have sl: "slots_as c' L' f \<longleftrightarrow> (\<forall>i<nslots c. bucket c' i = f i)" for f
    using bucket_inv [OF c'(2)] same_env_sel(5) [OF c'(3)] by (simp add: slots_as_def)
  show ?thesis using c'(1,3,4) cache_inv_ok [OF c'(2)] unfolding sl bucket_def [of c]
    by (intro exI [of _ c']) (auto split: if_splits)
qed

theorem apc_cache_default_expunge_makes_room_witness:
  "\<exists>c'. apc_cache_default_expunge 400 ex1 = Some (True, c') \<and> cache_ok c' \<and>
    (bucket c' 1 = [] \<or> bucket c' 1 = [ex_entry ''a'' 0] \<and> sma_fits 400 c')"
proof -
  have "unexpired ex1 20 [ex_entry ''a'' 0] = [ex_entry ''a'' 0]"
    by (simp add: unexpired_def apc_cache_entry_expired_def apc_cache_entry_hard_expired_def
        apc_cache_entry_soft_expired_def ex1_fields) (simp add: ex_data_def)
  moreover have "wanted ex1 400 = 400" by (simp add: wanted_def ex_cache_def)
  ultimately show ?thesis
    using apc_cache_default_expunge_makes_room [OF ex1_ok ex1_fields(14,12), of 400] ex1_contents
    by (auto simp: ex1_fields less_two)
qed



text \<open>
  C17: defragmentation of the segment under the cache moves entries without the cache noticing: it always
  returns, every slot and the garbage list hold the same entries in the same order, no free byte is lost,
  and only the memory has changed.
\<close>

theorem defrag_keeps_cache:
  assumes "cache_ok c"
  shows "\<exists>c'. apc_sma_defrag apc_cache_wlocked_move_entry c = Some c' \<and> cache_ok c' \<and>
    (\<forall>i<nslots c. bucket c' i = bucket c i) \<and> garbage c' = garbage c \<and> avail c \<le> avail c' \<and>
    c' = c\<lparr>blk := blk c', avail := avail c', dat := dat c'\<rparr>"
proof -
  note I = cache_okI [OF assms]
  obtain c' L' where c': "apc_sma_defrag apc_cache_wlocked_move_entry c = Some c'" "cache_inv c' L'"
    "\<forall>a\<in>heads c. contents c' (L' a) = contents c (cache_lists c a)"
    "c' = c\<lparr>blk := blk c', avail := avail c', dat := dat c'\<rparr>" "avail c \<le> avail c'"
    using defrag_ok [OF I] by blast
  have s: "same_config c c'" by (subst c'(4)) simp
  have "bucket c' i = bucket c i" if "i < nslots c" for i
    using bucket_inv [OF c'(2), of i] that c'(3) same_config_fun(1) [OF s] same_config_sel(5) [OF s]
      header_addrs(8) [OF cache_invD(6) [OF I] that] by (simp add: bucket_def)
  moreover have "garbage c' = garbage c"
    using garbage_inv [OF c'(2)] c'(3) same_config_fun(2) [OF s] header_addrs(6) [OF cache_invD(6) [OF I]]
    by (simp add: garbage_def)
  ultimately show ?thesis using c'(1,4,5) cache_inv_ok [OF c'(2)] by blast
qed

theorem defrag_keeps_cache_witness:
  "\<exists>c'. apc_sma_defrag apc_cache_wlocked_move_entry ex1 = Some c' \<and> cache_ok c' \<and> bucket c' 1 = [ex_entry ''a'' 0] \<and>
    garbage c' = garbage ex1"
  using defrag_keeps_cache [OF ex1_ok] ex1_contents by (auto simp: ex1_fields less_two)


subsection \<open>Updating\<close>






text \<open>
  slam defense: after a process has stored a key, a store of the same key by another process within the
  same second is refused without touching the cache, while the process itself and stores of keys with another
  hash or length are let through.
\<close>

theorem apc_cache_defense_refuses:
  assumes "c_defend c"
  shows "let c1 = snd (apc_cache_defense key t c) in
    (fst (apc_cache_defense key t c) \<or>
     (\<forall>key' t' p. fst (apc_cache_defense key' t' (c1\<lparr>pid := p\<rparr>)) \<longleftrightarrow>
        p \<noteq> pid c \<and> t' = t \<and> zstr_hash c key' = zstr_hash c key \<and> length key' = length key))"
  using assms by (auto simp: apc_cache_defense_def Let_def)

theorem apc_cache_defense_refuses_witness:
  "fst (apc_cache_defense ''a'' 20 ((snd (apc_cache_defense ''a'' 20 ex1))\<lparr>pid := 8\<rparr>))"
  using apc_cache_defense_refuses [of ex1 "''a''" 20] ex1_fields(25) ex1_defense [of "''a''"]
  unfolding Let_def by (auto simp: ex1_fields) (simp add: apc_cache_defense_def ex_cache_def no_key_def Let_def)

subsection \<open>Information\<close>

text \<open>
  \<open>apc_cache_info\<close> changes nothing and lists every entry of the slots once, in slot order, and every
  entry of the garbage list; the number of entries listed is the counter \<open>nentries\<close>.
\<close>

theorem apc_cache_info_complete:
  assumes "cache_ok c" "lockable c" "cache_exists c" "lock_gets c"
  shows "\<exists>i c'. apc_cache_info False c = Some (Some i, c') \<and> cache_ok c' \<and> same_env c c' \<and> cache_map c' = cache_map c \<and>
    ci_cache_list i = map apc_cache_link_info (concat (map (bucket c) [0..<nslots c])) \<and>
    ci_deleted_list i = map apc_cache_link_info (garbage c) \<and> int (length (ci_cache_list i)) = ci_num_entries i"
proof -
  note I = cache_okI [OF assms(1)]
  obtain i c' where r: "apc_cache_info False c = Some (Some i, c')" "cache_inv c' (cache_lists c)" "same_env c c'"
    "cache_map c' = cache_map c" "ci_num_entries i = h_nentries c"
    "ci_cache_list i = entry_infos c (cache_lists c) [0..<nslots c]"
    "ci_deleted_list i = map apc_cache_link_info (contents c (cache_lists c (gc_at c)))"
    using info_ok [OF I assms(2-4), of False] by blast
  then show ?thesis using entry_infos_length [OF I] cache_inv_ok [OF r(2)]
    by (intro exI [of _ i] exI [of _ c'])
      (simp add: entry_infos_def bucket_def [abs_def] garbage_def map_concat comp_def)
qed

theorem apc_cache_info_complete_witness:
  "\<exists>i c'. apc_cache_info False ex1 = Some (Some i, c') \<and> map li_info (ci_cache_list i) = [''a''] \<and>
    map li_info (ci_deleted_list i) = [''c''] \<and> ci_num_entries i = 1"
proof -
  have b: "bucket ex1 0 = []" "bucket ex1 (Suc 0) = [ex_entry ''a'' 0]" using ex1_contents by simp_all
  have "[0..<nslots ex1] = [0, 1]" by (simp add: ex1_fields upt_rec)
  then have "concat (map (bucket ex1) [0..<nslots ex1]) = [ex_entry ''a'' 0]" using b by simp
  then show ?thesis
    using apc_cache_info_complete [OF ex1_ok ex1_fields(14,12,13)]
    by (auto simp: apc_cache_link_info_def ex1_contents) (auto simp: ex_data_def)
qed

end
