(* ===== verification/Rwlock.thy ===== *)
theory Rwlock imports Prelude begin

text \<open>
  The read/write lock of \<open>apc_lock.c\<close> for Windows: three words in shared memory (reader count, writer
  flag, process id of the writer), manipulated with interlocked operations by processes that may be
  interleaved at every access and may die at any point. A process is a program counter with the local
  variables of the function it executes; \<open>exec\<close> is one atomic step of one process, \<open>lock_step\<close> a step of
  the system.
\<close>

subsection \<open>State\<close>

text \<open>\<open>apc_lock_t\<close>\<close>

record rwlock =
  readers :: int
  writer :: int
  writer_pid :: nat

text \<open>
  Where a process is in \<open>apc_lock_rlock_impl\<close> (\<open>R_\<close>), \<open>apc_lock_runlock\<close>, \<open>apc_lock_wlock_impl\<close> (\<open>W_\<close>) or
  \<open>apc_lock_wunlock\<close>. The arguments are the locals \<open>spins\<close>, \<open>start_tick\<close> and \<open>timeout_pid\<close>, then
  \<open>holder_pid\<close> or the expected process id of \<open>apc_lock_try_clear_writer\<close>; \<open>W_drain\<close> has \<open>drain_spins\<close> and
  \<open>drain_start\<close>.
\<close>

datatype r_pc =
    R_wait nat nat nat | R_holder nat nat nat | R_alive nat nat nat nat | R_clock nat nat nat nat
  | R_timeout nat nat nat | R_reset nat nat | R_clear nat nat nat nat | R_cleared nat nat nat
  | R_inc nat nat nat | R_check nat nat nat | R_dec nat nat nat | R_held | R_unlock

datatype w_pc =
    W_try nat nat nat | W_set_pid | W_start | W_drain nat nat | W_clock_drain nat nat | W_abort | W_aborted
  | W_holder nat nat nat | W_alive nat nat nat nat | W_clock nat nat nat nat
  | W_timeout nat nat nat | W_reset nat nat | W_clear nat nat nat nat | W_clear_timeout nat nat nat
  | W_cleared | W_held | W_unlock | W_unlocked

datatype lock_pc = Idle | Reader r_pc | Writer w_pc

text \<open>
  What the operating system answers: whether a process is running, whether \<open>OpenProcess\<close> succeeds for its
  id, the exit code (if it can be read), and \<open>GetTickCount64\<close>.
\<close>

record lock_sys =
  lk :: rwlock
  pc :: "nat \<Rightarrow> lock_pc"
  running :: "nat \<Rightarrow> bool"
  opens :: "nat \<Rightarrow> bool"
  exit_code :: "nat \<Rightarrow> nat option"
  tick :: nat

definition APC_LOCK_SPIN_CRASH_CHECK :: nat where "APC_LOCK_SPIN_CRASH_CHECK = 1024"
definition APC_LOCK_TIMEOUT_MS :: nat where "APC_LOCK_TIMEOUT_MS = 30000"

definition STILL_ACTIVE :: nat where "STILL_ACTIVE = 259"

definition apc_lock_create :: "rwlock" where
  "apc_lock_create = \<lparr>readers = 0, writer = 0, writer_pid = 0\<rparr>"

definition apc_lock_process_alive :: "lock_sys \<Rightarrow> nat \<Rightarrow> bool" where
  "apc_lock_process_alive s p \<longleftrightarrow> p \<noteq> 0 \<and> opens s p \<and>
     (case exit_code s p of Some e \<Rightarrow> e = STILL_ACTIVE | None \<Rightarrow> True)"

text \<open>Whether the processes are checked for a crash after this many spins.\<close>

definition crash_check :: "nat \<Rightarrow> bool" where
  "crash_check n \<longleftrightarrow> APC_LOCK_SPIN_CRASH_CHECK \<le> n \<and> n mod 1024 = 0"

subsection \<open>The steps of one process\<close>

text \<open>
  \<open>apc_lock_try_clear_writer\<close> up to the result of its compare-and-exchange: the process goes on at \<open>cleared\<close>
  (where it still has to reset the flag) or at \<open>changed\<close>.
\<close>

definition apc_lock_try_clear_writer :: "rwlock \<Rightarrow> nat \<Rightarrow> lock_pc \<Rightarrow> lock_pc \<Rightarrow> rwlock \<times> lock_pc" where
  [simp]: "apc_lock_try_clear_writer l expected_pid cleared changed =
     (if writer_pid l = expected_pid then (l\<lparr>writer_pid := 0\<rparr>, cleared) else (l, changed))"

fun rlock_step :: "lock_sys \<Rightarrow> r_pc \<Rightarrow> rwlock \<times> lock_pc" where
  "rlock_step s (R_wait n st tp) =
     (lk s, if writer (lk s) = 0 then Reader (R_inc n st tp)
            else if crash_check (n + 1) then Reader (R_holder (n + 1) st tp) else Reader (R_wait (n + 1) st tp))"
| "rlock_step s (R_holder n st tp) = (lk s, Reader (R_alive n st tp (writer_pid (lk s))))"
| "rlock_step s (R_alive n st tp h) =
     (lk s, if h \<noteq> 0 \<and> \<not> apc_lock_process_alive s h then Reader (R_clear n st tp h) else Reader (R_clock n st tp h))"
| "rlock_step s (R_clock n st tp h) =
     (lk s, if st = 0 then Reader (R_wait n (tick s) h)
            else if APC_LOCK_TIMEOUT_MS < tick s - st then Reader (R_timeout n st tp) else Reader (R_wait n st tp))"
| "rlock_step s (R_timeout n st tp) =
     (lk s, if tp \<noteq> 0 \<and> \<not> apc_lock_process_alive s tp then Reader (R_clear n st tp tp) else Reader (R_reset n (tick s)))"
| "rlock_step s (R_reset n st) = (lk s, Reader (R_wait n st (writer_pid (lk s))))"
| "rlock_step s (R_clear n st tp h) =
     apc_lock_try_clear_writer (lk s) h (Reader (R_cleared n st tp)) (Reader (R_inc n st tp))"
| "rlock_step s (R_cleared n st tp) = ((lk s)\<lparr>writer := 0\<rparr>, Reader (R_inc n st tp))"
| "rlock_step s (R_inc n st tp) = ((lk s)\<lparr>readers := int32_of (readers (lk s) + 1)\<rparr>, Reader (R_check n st tp))"
| "rlock_step s (R_check n st tp) = (lk s, if writer (lk s) = 0 then Reader R_held else Reader (R_dec n st tp))"
| "rlock_step s (R_dec n st tp) = ((lk s)\<lparr>readers := int32_of (readers (lk s) - 1)\<rparr>, Reader (R_wait n st tp))"
| "rlock_step s R_unlock = ((lk s)\<lparr>readers := int32_of (readers (lk s) - 1)\<rparr>, Idle)"
| "rlock_step s R_held = (lk s, Reader R_held)"

fun wlock_step :: "lock_sys \<Rightarrow> nat \<Rightarrow> w_pc \<Rightarrow> rwlock \<times> lock_pc" where
  "wlock_step s p (W_try n st tp) =
     (if writer (lk s) = 0 then ((lk s)\<lparr>writer := 1\<rparr>, Writer W_set_pid)
      else (lk s, if crash_check (n + 1) then Writer (W_holder (n + 1) st tp) else Writer (W_try (n + 1) st tp)))"
| "wlock_step s p W_set_pid = ((lk s)\<lparr>writer_pid := p\<rparr>, Writer W_start)"
| "wlock_step s p W_start = (lk s, Writer (W_drain 0 (tick s)))"
| "wlock_step s p (W_drain k d) =
     (lk s, if readers (lk s) = 0 then Writer W_held
            else if (k + 1) mod 4096 = 0 then Writer (W_clock_drain (k + 1) d) else Writer (W_drain (k + 1) d))"
| "wlock_step s p (W_clock_drain k d) =
     (lk s, if APC_LOCK_TIMEOUT_MS < tick s - d then Writer W_abort else Writer (W_drain k d))"
| "wlock_step s p W_abort = ((lk s)\<lparr>writer_pid := 0\<rparr>, Writer W_aborted)"
| "wlock_step s p W_aborted = ((lk s)\<lparr>writer := 0\<rparr>, Idle)"
| "wlock_step s p (W_holder n st tp) = (lk s, Writer (W_alive n st tp (writer_pid (lk s))))"
| "wlock_step s p (W_alive n st tp h) =
     (lk s, if h \<noteq> 0 \<and> h \<noteq> p \<and> \<not> apc_lock_process_alive s h then Writer (W_clear n st tp h) else Writer (W_clock n st tp h))"
| "wlock_step s p (W_clear n st tp h) =
     apc_lock_try_clear_writer (lk s) h (Writer W_cleared) (Writer (W_clock n st tp h))"
| "wlock_step s p (W_clock n st tp h) =
     (lk s, if st = 0 then Writer (W_try n (tick s) h)
            else if APC_LOCK_TIMEOUT_MS < tick s - st then Writer (W_timeout n st tp) else Writer (W_try n st tp))"
| "wlock_step s p (W_timeout n st tp) =
     (lk s, if tp \<noteq> 0 \<and> \<not> apc_lock_process_alive s tp then Writer (W_clear_timeout n st tp) else Writer (W_reset n (tick s)))"
| "wlock_step s p (W_clear_timeout n st tp) =
     apc_lock_try_clear_writer (lk s) tp (Writer W_cleared) (Writer (W_reset n (tick s)))"
| "wlock_step s p (W_reset n st) = (lk s, Writer (W_try n st (writer_pid (lk s))))"
| "wlock_step s p W_cleared = ((lk s)\<lparr>writer := 0\<rparr>, Writer (W_try 0 0 0))"
| "wlock_step s p W_unlock = ((lk s)\<lparr>writer_pid := 0\<rparr>, Writer W_unlocked)"
| "wlock_step s p W_unlocked = ((lk s)\<lparr>writer := 0\<rparr>, Idle)"
| "wlock_step s p W_held = (lk s, Writer W_held)"

definition exec :: "nat \<Rightarrow> lock_sys \<Rightarrow> lock_sys" where
  "exec p s =
     (let r = (case pc s p of Idle \<Rightarrow> (lk s, Idle) | Reader c \<Rightarrow> rlock_step s c | Writer c \<Rightarrow> wlock_step s p c)
      in s\<lparr>lk := fst r, pc := (pc s)(p := snd r)\<rparr>)"

subsection \<open>The system\<close>

inductive lock_step :: "nat set \<Rightarrow> lock_sys \<Rightarrow> lock_sys \<Rightarrow> bool" for P :: "nat set" where
  run: "p \<in> P \<Longrightarrow> running s p \<Longrightarrow> lock_step P s (exec p s)"
| rlock: "p \<in> P \<Longrightarrow> running s p \<Longrightarrow> pc s p = Idle \<Longrightarrow> lock_step P s (s\<lparr>pc := (pc s)(p := Reader (R_wait 0 0 0))\<rparr>)"
| wlock: "p \<in> P \<Longrightarrow> running s p \<Longrightarrow> pc s p = Idle \<Longrightarrow> lock_step P s (s\<lparr>pc := (pc s)(p := Writer (W_try 0 0 0))\<rparr>)"
| runlock: "p \<in> P \<Longrightarrow> running s p \<Longrightarrow> pc s p = Reader R_held \<Longrightarrow> lock_step P s (s\<lparr>pc := (pc s)(p := Reader R_unlock)\<rparr>)"
| wunlock: "p \<in> P \<Longrightarrow> running s p \<Longrightarrow> pc s p = Writer W_held \<Longrightarrow> lock_step P s (s\<lparr>pc := (pc s)(p := Writer W_unlock)\<rparr>)"
| die: "p \<in> P \<Longrightarrow> lock_step P s (s\<lparr>running := (running s)(p := False), opens := (opens s)(p := o'),
      exit_code := (exit_code s)(p := e)\<rparr>)"
| time: "lock_step P s (s\<lparr>tick := tick s + n\<rparr>)"

inductive lock_reach :: "nat set \<Rightarrow> lock_sys \<Rightarrow> lock_sys \<Rightarrow> bool" for P :: "nat set" where
  refl: "lock_reach P s s"
| step: "lock_reach P s t \<Longrightarrow> lock_step P t u \<Longrightarrow> lock_reach P s u"

definition lock_init :: "lock_sys \<Rightarrow> bool" where
  "lock_init s \<longleftrightarrow> lk s = apc_lock_create \<and> (\<forall>p. pc s p = Idle)"

text \<open>
  What the code relies on: process ids are not 0, a running process can be opened and its exit code reads
  \<open>STILL_ACTIVE\<close>, and there are less than \<open>2 ^ 31\<close> processes.
\<close>

definition processes_ok :: "nat set \<Rightarrow> lock_sys \<Rightarrow> bool" where
  "processes_ok P s \<longleftrightarrow> finite P \<and> card P < 2147483648 \<and> 0 \<notin> P \<and>
     (\<forall>p\<in>P. running s p \<longrightarrow> apc_lock_process_alive s p)"

subsection \<open>The invariant\<close>

text \<open>The writer flag is set on behalf of this process, and its id is stored.\<close>

fun owns :: "lock_pc \<Rightarrow> bool" where
  "owns (Writer W_start) = True" | "owns (Writer (W_drain _ _)) = True" | "owns (Writer (W_clock_drain _ _)) = True"
| "owns (Writer W_abort) = True" | "owns (Writer W_held) = True" | "owns (Writer W_unlock) = True" | "owns _ = False"

text \<open>The writer flag is set, the id is 0, and this process is the one to go on.\<close>

fun between :: "lock_pc \<Rightarrow> bool" where
  "between (Writer W_set_pid) = True" | "between (Writer W_aborted) = True" | "between (Writer W_unlocked) = True"
| "between (Writer W_cleared) = True" | "between (Reader (R_cleared _ _ _)) = True" | "between _ = False"

text \<open>The process is counted in \<open>readers\<close>; it may read the data.\<close>

fun counted :: "lock_pc \<Rightarrow> bool" where
  "counted (Reader (R_check _ _ _)) = True" | "counted (Reader (R_dec _ _ _)) = True" | "counted (Reader R_held) = True"
| "counted (Reader R_unlock) = True" | "counted _ = False"

fun may_read :: "lock_pc \<Rightarrow> bool" where
  "may_read (Reader R_held) = True" | "may_read (Reader R_unlock) = True" | "may_read _ = False"

text \<open>The process has waited until there were no readers; it may write the data.\<close>

fun may_write :: "lock_pc \<Rightarrow> bool" where
  "may_write (Writer W_held) = True" | "may_write (Writer W_unlock) = True" | "may_write (Writer W_unlocked) = True"
| "may_write _ = False"

text \<open>The process whose lock is about to be cleared.\<close>

fun victim :: "lock_pc \<Rightarrow> nat option" where
  "victim (Reader (R_clear n st tp h)) = Some h" | "victim (Writer (W_clear n st tp h)) = Some h"
| "victim (Writer (W_clear_timeout n st tp)) = Some tp" | "victim _ = None"

definition writer_inv :: "nat set \<Rightarrow> lock_sys \<Rightarrow> bool" where
  "writer_inv P s \<longleftrightarrow> (writer (lk s) = 0 \<and> writer_pid (lk s) = 0 \<or> writer (lk s) = 1 \<and> writer_pid (lk s) \<in> insert 0 P) \<and>
     (\<forall>p\<in>P. running s p \<longrightarrow> owns (pc s p) \<longrightarrow> writer (lk s) = 1 \<and> writer_pid (lk s) = p) \<and>
     (\<forall>p\<in>P. running s p \<longrightarrow> between (pc s p) \<longrightarrow> writer (lk s) = 1 \<and> writer_pid (lk s) = 0) \<and>
     (\<forall>p\<in>P. \<forall>q\<in>P. running s p \<longrightarrow> running s q \<longrightarrow> between (pc s p) \<longrightarrow> between (pc s q) \<longrightarrow> p = q)"

definition victim_inv :: "nat set \<Rightarrow> lock_sys \<Rightarrow> bool" where
  "victim_inv P s \<longleftrightarrow> (\<forall>p\<in>P. \<forall>h. victim (pc s p) = Some h \<longrightarrow> h \<noteq> 0 \<and> (h \<in> P \<longrightarrow> \<not> running s h))"

definition readers_inv :: "nat set \<Rightarrow> lock_sys \<Rightarrow> bool" where
  "readers_inv P s \<longleftrightarrow> readers (lk s) = int (card {p \<in> P. counted (pc s p)})"

definition excl_inv :: "nat set \<Rightarrow> lock_sys \<Rightarrow> bool" where
  "excl_inv P s \<longleftrightarrow> (\<forall>q\<in>P. running s q \<longrightarrow> may_write (pc s q) \<longrightarrow> (\<forall>p\<in>P. \<not> may_read (pc s p)))"

definition lock_inv :: "nat set \<Rightarrow> lock_sys \<Rightarrow> bool" where
  "lock_inv P s \<longleftrightarrow> processes_ok P s \<and> writer_inv P s \<and> victim_inv P s \<and> readers_inv P s \<and> excl_inv P s"


subsection \<open>Every step keeps the invariant\<close>

lemma exec_frame [simp]:
  "running (exec p s) = running s" "opens (exec p s) = opens s" "exit_code (exec p s) = exit_code s"
  "processes_ok P (exec p s) = processes_ok P s" "q \<noteq> p \<Longrightarrow> pc (exec p s) q = pc s q"
  by (simp_all add: exec_def Let_def processes_ok_def apc_lock_process_alive_def)

text \<open>What a step of \<open>p\<close> does to the lock and to the place of \<open>p\<close>, as far as the invariant looks.\<close>

definition moves :: "lock_sys \<Rightarrow> lock_sys \<Rightarrow> nat \<Rightarrow> bool" where
  "moves s t p \<longleftrightarrow> t = s\<lparr>lk := lk t, pc := (pc s)(p := pc t p)\<rparr>"

lemma moves_exec: "moves s (exec p s) p"
  by (simp add: moves_def exec_def Let_def)

lemma movesD:
  assumes "moves s t p"
  shows "running t = running s" "processes_ok P t = processes_ok P s" "q \<noteq> p \<Longrightarrow> pc t q = pc s q"
    "pc t = (pc s)(p := pc t p)"
proof -
  have t: "t = s\<lparr>lk := lk t, pc := (pc s)(p := pc t p)\<rparr>" using assms by (simp add: moves_def)
  show "running t = running s" "processes_ok P t = processes_ok P s"
    by (subst t, simp add: processes_ok_def apc_lock_process_alive_def)+
  show e: "pc t = (pc s)(p := pc t p)" by (subst t) simp
  show "pc t q = pc s q" if "q \<noteq> p" by (subst e) (simp add: that)
qed

text \<open>The writer's side of a step: nothing, taking the flag, storing the id, giving up the id, the flag, or
  clearing the id of a dead process.\<close>

inductive writer_move :: "nat \<Rightarrow> rwlock \<times> lock_pc \<Rightarrow> rwlock \<times> lock_pc \<Rightarrow> bool" where
  quiet: "writer l' = writer l \<Longrightarrow> writer_pid l' = writer_pid l \<Longrightarrow> owns c' = owns c \<Longrightarrow> between c' = between c \<Longrightarrow>
    writer_move p (l, c) (l', c')"
| acquire: "writer l = 0 \<Longrightarrow> writer l' = 1 \<Longrightarrow> writer_pid l' = writer_pid l \<Longrightarrow> \<not> owns c' \<Longrightarrow> between c' \<Longrightarrow>
    writer_move p (l, c) (l', c')"
| store: "between c \<Longrightarrow> writer l' = writer l \<Longrightarrow> writer_pid l' = p \<Longrightarrow> owns c' \<Longrightarrow> \<not> between c' \<Longrightarrow>
    writer_move p (l, c) (l', c')"
| drop: "owns c \<Longrightarrow> writer l' = writer l \<Longrightarrow> writer_pid l' = 0 \<Longrightarrow> \<not> owns c' \<Longrightarrow> between c' \<Longrightarrow>
    writer_move p (l, c) (l', c')"
| free: "between c \<Longrightarrow> writer l' = 0 \<Longrightarrow> writer_pid l' = writer_pid l \<Longrightarrow> \<not> owns c' \<Longrightarrow> \<not> between c' \<Longrightarrow>
    writer_move p (l, c) (l', c')"
| revoke: "victim c = Some (writer_pid l) \<Longrightarrow> writer l' = writer l \<Longrightarrow> writer_pid l' = 0 \<Longrightarrow> \<not> owns c' \<Longrightarrow> between c' \<Longrightarrow>
    writer_move p (l, c) (l', c')"

lemma exec_writer_move: "writer_move p (lk s, pc s p) (lk (exec p s), pc (exec p s) p)"
proof (cases "pc s p")
  case Idle
  then show ?thesis by (simp add: exec_def writer_move.quiet)
next
  case (Reader c)
  then show ?thesis
    by (cases c) (simp_all add: exec_def Let_def writer_move.quiet writer_move.free writer_move.revoke)
next
  case (Writer c)
  then show ?thesis
    by (cases c) (simp_all add: exec_def Let_def writer_move.quiet writer_move.free writer_move.revoke writer_move.acquire
        writer_move.store writer_move.drop)
qed


lemma writer_inv_move:
  assumes W: "writer_inv P s" and V: "victim_inv P s" and ok: "processes_ok P s"
    and t: "moves s t p" and p: "p \<in> P" "running s p"
    and m: "writer_move p (lk s, pc s p) (lk t, pc t p)"
  shows "writer_inv P t"
proof -
  note d = movesD [OF t]
  have p0: "p \<noteq> 0" using ok p by (cases "p = 0") (simp_all add: processes_ok_def)
  have w: "writer (lk s) = 0 \<and> writer_pid (lk s) = 0 \<or> writer (lk s) = 1 \<and> writer_pid (lk s) \<in> insert 0 P"
    and o: "\<And>q. q \<in> P \<Longrightarrow> running s q \<Longrightarrow> owns (pc s q) \<Longrightarrow> writer (lk s) = 1 \<and> writer_pid (lk s) = q"
    and b: "\<And>q. q \<in> P \<Longrightarrow> running s q \<Longrightarrow> between (pc s q) \<Longrightarrow> writer (lk s) = 1 \<and> writer_pid (lk s) = 0"
    and u: "\<And>q r. q \<in> P \<Longrightarrow> r \<in> P \<Longrightarrow> running s q \<Longrightarrow> running s r \<Longrightarrow> between (pc s q) \<Longrightarrow> between (pc s r) \<Longrightarrow> q = r"
    using W by (auto simp: writer_inv_def)
  have no: "\<not> owns (pc s q)" if "writer_pid (lk s) = 0" "q \<in> P" "running s q" for q
    using o [of q] that ok by (cases "q = 0") (auto simp: processes_ok_def)
  define c' where "c' = pc t p"
  have e: "pc t q = (if q = p then c' else pc s q)" for q using d(3) [of q] by (simp add: c'_def)
  note goal = writer_inv_def d(1) e
  from m show ?thesis
  proof cases
    case quiet
    have f: "owns (pc t q) = owns (pc s q)" "between (pc t q) = between (pc s q)" for q
      using quiet d(3) [of q] by (cases "q = p"; simp)+
    show ?thesis using W unfolding writer_inv_def d(1) f quiet .
  next
    case acquire
    then show ?thesis unfolding goal using w o b p by (auto simp: c'_def [symmetric] split: if_splits)
  next
    case store
    then show ?thesis unfolding goal using w no b u p p0 by (auto simp: c'_def [symmetric] split: if_splits)
  next
    case drop
    then show ?thesis unfolding goal using w o b p p0 by (auto simp: c'_def [symmetric] split: if_splits)
  next
    case free
    then show ?thesis unfolding goal using w no b u p p0 by (auto simp: c'_def [symmetric] split: if_splits)
  next
    case revoke
    then have v: "writer_pid (lk s) \<noteq> 0" "writer_pid (lk s) \<in> P \<longrightarrow> \<not> running s (writer_pid (lk s))"
      using V p by (auto simp: victim_inv_def)
    have n: "\<not> owns (pc s q)" "\<not> between (pc s q)" if "q \<in> P" "running s q" for q
      using o [OF that] b [OF that] v that by auto
    have "writer (lk s) = 1" using w v(1) by auto
    then show ?thesis unfolding goal using revoke n p by (auto simp: c'_def [symmetric] split: if_splits)
  qed
qed

lemma exec_victim:
  assumes "victim (pc (exec p s) p) = Some h" "victim (pc s p) \<noteq> Some h"
  shows "h \<noteq> 0 \<and> \<not> apc_lock_process_alive s h"
proof (cases "pc s p")
  case Idle
  then show ?thesis using assms by (simp add: exec_def)
next
  case (Reader c)
  then show ?thesis using assms by (cases c) (auto simp: exec_def Let_def split: if_splits)
next
  case (Writer c)
  then show ?thesis using assms by (cases c) (auto simp: exec_def Let_def split: if_splits)
qed

lemma exec_victim_inv:
  assumes "victim_inv P s" "processes_ok P s" "p \<in> P"
  shows "victim_inv P (exec p s)"
  unfolding victim_inv_def
proof (intro ballI allI impI)
  fix q h
  assume q: "q \<in> P" and v: "victim (pc (exec p s) q) = Some h"
  show "h \<noteq> 0 \<and> (h \<in> P \<longrightarrow> \<not> running (exec p s) h)"
  proof (cases "victim (pc s q) = Some h")
    case True
    then show ?thesis using assms(1) q by (simp add: victim_inv_def)
  next
    case False
    then have "q = p" using v by (cases "q = p") auto
    then show ?thesis using exec_victim [of p s h] v False assms(2) by (auto simp: processes_ok_def)
  qed
qed

lemma exec_readers:
  "readers (lk (exec p s)) =
    (if counted (pc (exec p s) p) = counted (pc s p) then readers (lk s)
     else if counted (pc s p) then int32_of (readers (lk s) - 1) else int32_of (readers (lk s) + 1))"
proof (cases "pc s p")
  case Idle
  then show ?thesis by (simp add: exec_def)
next
  case (Reader c)
  then show ?thesis by (cases c) (simp_all add: exec_def Let_def)
next
  case (Writer c)
  then show ?thesis by (cases c) (simp_all add: exec_def Let_def)
qed

lemma readers_inv_move:
  assumes R: "readers_inv P s" and ok: "processes_ok P s" and t: "moves s t p" and p: "p \<in> P"
    and r: "readers (lk t) = (if counted (pc t p) = counted (pc s p) then readers (lk s)
     else if counted (pc s p) then int32_of (readers (lk s) - 1) else int32_of (readers (lk s) + 1))"
  shows "readers_inv P t"
proof -
  note d = movesD [OF t]
  have fin: "finite P" "card P < 2147483648" using ok by (simp_all add: processes_ok_def)
  let ?C = "{q \<in> P. counted (pc s q)}" and ?D = "{q \<in> P. counted (pc t q)}"
  have D: "?D = (if counted (pc t p) then insert p (?C - {p}) else ?C - {p})"
    using p d(3) by (auto split: if_splits) metis+
  have c: "card ?C \<le> card P" "card ?D \<le> card P" using fin by (simp_all add: card_mono)
  have m: "p \<in> ?C \<longleftrightarrow> counted (pc s p)" using p by simp
  have s: "readers (lk s) = int (card ?C)" using R by (simp add: readers_inv_def)
  consider "counted (pc t p) = counted (pc s p)" | "counted (pc s p)" "\<not> counted (pc t p)" | "\<not> counted (pc s p)" "counted (pc t p)"
    by blast
  then show ?thesis
  proof cases
    case 1
    then have "?D = ?C" using D m by auto
    then show ?thesis using r 1 s by (simp add: readers_inv_def)
  next
    case 2
    then have "card ?D = card ?C - 1" "0 < card ?C" using D m fin by (auto simp: card_gt_0_iff)
    then show ?thesis using r 2 s c fin(2) by (simp add: readers_inv_def int32_of_def)
  next
    case 3
    then have "card ?D = card ?C + 1" using D m fin by simp
    then show ?thesis using r 3 s c fin(2) by (simp add: readers_inv_def int32_of_def)
  qed
qed


text \<open>A process gets to read only while the writer flag is down, and to write only when it owns the lock and
  no reader is counted.\<close>

lemma exec_may_read:
  "may_read (pc (exec p s) p) \<Longrightarrow> may_read (pc s p) \<or> counted (pc s p) \<and> writer (lk s) = 0"
  "may_read c \<Longrightarrow> counted c"
proof -
  show "may_read (pc (exec p s) p) \<Longrightarrow> may_read (pc s p) \<or> counted (pc s p) \<and> writer (lk s) = 0"
  proof (cases "pc s p")
    case (Reader c)
    then show "may_read (pc (exec p s) p) \<Longrightarrow> may_read (pc s p) \<or> counted (pc s p) \<and> writer (lk s) = 0"
      by (cases c) (auto simp: exec_def Let_def split: if_splits)
  next
    case (Writer c)
    then show "may_read (pc (exec p s) p) \<Longrightarrow> may_read (pc s p) \<or> counted (pc s p) \<and> writer (lk s) = 0"
      by (cases c) (auto simp: exec_def Let_def split: if_splits)
  qed (simp add: exec_def)
  show "may_read c \<Longrightarrow> counted c" by (cases c rule: may_read.cases) simp_all
qed

lemma exec_may_write:
  "may_write (pc (exec p s) p) \<Longrightarrow> may_write (pc s p) \<or> readers (lk s) = 0"
  "may_write (pc (exec p s) p) \<Longrightarrow> \<not> may_read (pc (exec p s) p)"
  "may_write c \<Longrightarrow> owns c \<or> between c"
proof -
  show "may_write (pc (exec p s) p) \<Longrightarrow> may_write (pc s p) \<or> readers (lk s) = 0"
  proof (cases "pc s p")
    case (Reader c)
    then show "may_write (pc (exec p s) p) \<Longrightarrow> may_write (pc s p) \<or> readers (lk s) = 0"
      by (cases c) (auto simp: exec_def Let_def split: if_splits)
  next
    case (Writer c)
    then show "may_write (pc (exec p s) p) \<Longrightarrow> may_write (pc s p) \<or> readers (lk s) = 0"
      by (cases c) (auto simp: exec_def Let_def split: if_splits)
  qed (simp add: exec_def)
  show "may_write (pc (exec p s) p) \<Longrightarrow> \<not> may_read (pc (exec p s) p)"
    by (cases "pc (exec p s) p" rule: may_write.cases) simp_all
  show "may_write c \<Longrightarrow> owns c \<or> between c" by (cases c rule: may_write.cases) simp_all
qed

lemma exec_excl_inv:
  assumes I: "lock_inv P s" and p: "p \<in> P" "running s p"
  shows "excl_inv P (exec p s)"
  unfolding excl_inv_def
proof (intro ballI impI)
  fix q r
  assume q: "q \<in> P" "running (exec p s) q" "may_write (pc (exec p s) q)" and r: "r \<in> P"
  have E: "\<And>q r. q \<in> P \<Longrightarrow> running s q \<Longrightarrow> may_write (pc s q) \<Longrightarrow> r \<in> P \<Longrightarrow> \<not> may_read (pc s r)"
    using I by (auto simp: lock_inv_def excl_inv_def)
  have W: "\<And>q. q \<in> P \<Longrightarrow> running s q \<Longrightarrow> may_write (pc s q) \<Longrightarrow> writer (lk s) = 1"
    using I exec_may_write(3) by (auto simp: lock_inv_def writer_inv_def)
  have R: "\<not> counted (pc s r)" if "readers (lk s) = 0" "r \<in> P" for r
    using that I by (auto simp: lock_inv_def readers_inv_def processes_ok_def)
  show "\<not> may_read (pc (exec p s) r)"
  proof (cases "q = p")
    case True
    then consider "may_write (pc s p)" | "readers (lk s) = 0" using exec_may_write(1) q(3) by blast
    then show ?thesis
    proof cases
      case 1
      show ?thesis
      proof (cases "r = p")
        case True
        then show ?thesis using exec_may_write(2) [of p s] q(3) \<open>q = p\<close> by simp
      next
        case False
        then show ?thesis using E [OF p 1 r] by simp
      qed
    next
      case 2
      show ?thesis
      proof (cases "r = p")
        case True
        then show ?thesis using exec_may_write(2) [of p s] q(3) \<open>q = p\<close> by simp
      next
        case False
        then show ?thesis using R [OF 2 r] exec_may_read(2) [of "pc s r"] by auto
      qed
    qed
  next
    case False
    then have m: "may_write (pc s q)" "running s q" using q by simp_all
    show ?thesis
    proof (cases "r = p")
      case True
      then show ?thesis using exec_may_read(1) [of p s] E [OF q(1) m(2,1) r] W [OF q(1) m(2,1)] by auto
    next
      case False
      then show ?thesis using E [OF q(1) m(2,1) r] by simp
    qed
  qed
qed

lemma exec_lock_inv: "lock_inv P s \<Longrightarrow> p \<in> P \<Longrightarrow> running s p \<Longrightarrow> lock_inv P (exec p s)"
  using writer_inv_move [OF _ _ _ moves_exec _ _ exec_writer_move] exec_victim_inv
    readers_inv_move [OF _ _ moves_exec _ exec_readers] exec_excl_inv [of P s p]
  by (simp add: lock_inv_def)

text \<open>The calls, which only change the place of a process.\<close>

lemma call_lock_inv:
  assumes I: "lock_inv P s" and p: "p \<in> P" "running s p"
    and c: "owns c = owns (pc s p)" "between c = between (pc s p)" "victim c = None" "counted c = counted (pc s p)"
      "may_read c = may_read (pc s p)" "may_write c = may_write (pc s p)"
  shows "lock_inv P (s\<lparr>pc := (pc s)(p := c)\<rparr>)" (is "lock_inv P ?t")
proof -
  have e: "owns (pc ?t q) = owns (pc s q)" "between (pc ?t q) = between (pc s q)"
    "counted (pc ?t q) = counted (pc s q)" "may_read (pc ?t q) = may_read (pc s q)" "may_write (pc ?t q) = may_write (pc s q)" for q
    using c by simp_all
  have "writer_inv P ?t" using I unfolding lock_inv_def writer_inv_def e by simp
  moreover have "readers_inv P ?t" using I unfolding lock_inv_def readers_inv_def e by simp
  moreover have "excl_inv P ?t" using I unfolding lock_inv_def excl_inv_def e by simp
  moreover have "victim_inv P ?t" using I c(3) by (auto simp: lock_inv_def victim_inv_def)
  moreover have "processes_ok P ?t" using I by (simp add: lock_inv_def processes_ok_def apc_lock_process_alive_def)
  ultimately show ?thesis by (simp add: lock_inv_def)
qed

lemma step_lock_inv: "lock_step P s t \<Longrightarrow> lock_inv P s \<Longrightarrow> lock_inv P t"
proof (induction rule: lock_step.induct)
  case (run p s)
  then show ?case by (simp add: exec_lock_inv)
next
  case (rlock p s)
  then show ?case by (intro call_lock_inv) simp_all
next
  case (wlock p s)
  then show ?case by (intro call_lock_inv) simp_all
next
  case (runlock p s)
  then show ?case by (intro call_lock_inv) simp_all
next
  case (wunlock p s)
  then show ?case by (intro call_lock_inv) simp_all
next
  case (die p s o' e)
  then show ?case
    by (auto simp: lock_inv_def writer_inv_def victim_inv_def readers_inv_def excl_inv_def processes_ok_def apc_lock_process_alive_def)
next
  case (time s n)
  then show ?case
    by (auto simp: lock_inv_def writer_inv_def victim_inv_def readers_inv_def excl_inv_def processes_ok_def apc_lock_process_alive_def)
qed

lemma reach_lock_inv: "lock_reach P s t \<Longrightarrow> lock_inv P s \<Longrightarrow> lock_inv P t"
  by (induction rule: lock_reach.induct) (auto intro: step_lock_inv)

lemma init_lock_inv: "lock_init s \<Longrightarrow> processes_ok P s \<Longrightarrow> lock_inv P s"
  by (simp add: lock_inv_def lock_init_def apc_lock_create_def writer_inv_def victim_inv_def readers_inv_def excl_inv_def)

end
