(* ===== verification/Rwlock_Properties.thy ===== *)
theory Rwlock_Properties imports Rwlock begin

text \<open>
  The properties of the Windows read/write lock: mutual exclusion in every reachable state, recovery from a
  writer that died holding the lock, and the crashes it does not recover from.
\<close>

subsection \<open>Running one process\<close>

lemma exec_simp: "exec p s = s\<lparr>lk := lk (exec p s), pc := (pc s)(p := pc (exec p s) p)\<rparr>"
  using moves_exec [of s p] by (simp add: moves_def)

text \<open>While the flag is up a waiting reader spins until the next check for a crash.\<close>

lemma wait_run:
  assumes "pc s p = Reader (R_wait n st tp)" "writer (lk s) \<noteq> 0" "m = 1024 - n mod 1024"
  shows "\<exists>k. (exec p ^^ k) s = s\<lparr>pc := (pc s)(p := Reader (R_holder (n + m) st tp))\<rparr>"
  using assms
proof (induction m arbitrary: n s)
  case 0
  then show ?case using mod_less_divisor [of 1024 n] by simp
next
  case (Suc m)
  have e: "exec p s = s\<lparr>pc := (pc s)(p := if crash_check (n + 1) then Reader (R_holder (n + 1) st tp) else Reader (R_wait (n + 1) st tp))\<rparr>"
    using Suc.prems by (cases s) (simp add: exec_def Let_def)
  show ?case
  proof (cases "m = 0")
    case True
    then have "Suc 0 = 1024 - n mod 1024" using Suc.prems(3) by simp
    then have "n mod 1024 = 1023" by linarith
    then have z: "(n + 1) mod 1024 = 0" by (simp add: mod_Suc)
    then have "1024 \<le> n + 1" by (metis One_nat_def add_gr_0 dvd_imp_le mod_0_imp_dvd zero_less_one)
    with z have "crash_check (n + 1)" by (simp add: crash_check_def APC_LOCK_SPIN_CRASH_CHECK_def)
    then show ?thesis using e True by (intro exI [of _ 1]) (simp add: fun_upd_def)
  next
    case False
    then have m: "m = 1024 - (n + 1) mod 1024" "(n + 1) mod 1024 \<noteq> 0"
      using Suc.prems(3) mod_less_divisor [of 1024 n] by (simp_all add: mod_Suc) linarith+
    let ?s = "s\<lparr>pc := (pc s)(p := Reader (R_wait (n + 1) st tp))\<rparr>"
    have es: "exec p s = ?s" using e m(2) by (simp add: crash_check_def)
    have "\<exists>k. (exec p ^^ k) ?s = ?s\<lparr>pc := (pc ?s)(p := Reader (R_holder (n + 1 + m) st tp))\<rparr>"
      by (rule Suc.IH [OF _ _ m(1)]) (simp_all add: Suc.prems(2))
    then obtain k where "(exec p ^^ k) ?s = ?s\<lparr>pc := (pc ?s)(p := Reader (R_holder (n + 1 + m) st tp))\<rparr>" by blast
    then have "(exec p ^^ Suc k) s = s\<lparr>pc := (pc s)(p := Reader (R_holder (n + Suc m) st tp))\<rparr>"
      using es by (simp add: funpow_swap1 fun_upd_def if_distrib cong: if_cong)
    then show ?thesis by blast
  qed
qed

subsection \<open>Properties\<close>

text \<open>
  C5: mutual exclusion. In every state that any interleaving of lock calls, releases, crashes and delays can
  reach from a fresh lock, while a running process holds the lock for writing no other running process holds
  it for writing and no process holds it for reading.
\<close>

theorem lock_mutual_exclusion:
  assumes "lock_init s" "processes_ok P s" "lock_reach P s t" "q \<in> P" "running t q" "pc t q = Writer W_held"
  shows "\<forall>p\<in>P. pc t p \<noteq> Reader R_held \<and> (running t p \<and> pc t p = Writer W_held \<longrightarrow> p = q)"
proof -
  have I: "lock_inv P t" by (rule reach_lock_inv [OF assms(3) init_lock_inv [OF assms(1,2)]])
  have "\<not> may_read (pc t p)" if "p \<in> P" for p
    using I assms(4-6) that by (auto simp: lock_inv_def excl_inv_def)
  moreover have "p = q" if "p \<in> P" "running t p" "pc t p = Writer W_held" for p
  proof -
    have w: "writer_pid (lk t) = r" if "r \<in> P" "running t r" "pc t r = Writer W_held" for r
      using I that by (simp add: lock_inv_def writer_inv_def)
    show ?thesis using w [OF that] w [OF assms(4-6)] by simp
  qed
  ultimately show ?thesis by force
qed

definition ex_sys :: "lock_sys" where
  "ex_sys = \<lparr>lk = apc_lock_create, pc = (\<lambda>_. Idle), running = (\<lambda>p. p \<in> {1, 2}), opens = (\<lambda>p. p \<in> {1, 2}),
     exit_code = (\<lambda>_. Some STILL_ACTIVE), tick = 5\<rparr>"

lemma ex_sys_ok: "lock_init ex_sys" "processes_ok {1, 2} ex_sys"
  by (auto simp: ex_sys_def lock_init_def processes_ok_def apc_lock_process_alive_def)

text \<open>Process 1 takes the lock.\<close>

definition ex_taken :: "nat \<Rightarrow> lock_sys" where
  "ex_taken k = (exec 1 ^^ k) (ex_sys\<lparr>pc := (pc ex_sys)(1 := Writer (W_try 0 0 0))\<rparr>)"

lemma ex_taken_reach: "lock_reach {1, 2} ex_sys (ex_taken k)"
proof (induction k)
  case 0
  have "lock_step {1, 2} ex_sys (ex_taken 0)"
    unfolding ex_taken_def funpow_0 by (rule lock_step.wlock) (simp_all add: ex_sys_def)
  then show ?case using lock_reach.refl lock_reach.step by blast
next
  case (Suc k)
  have r: "running (ex_taken k) 1" for k by (induction k) (simp_all add: ex_taken_def ex_sys_def)
  have "lock_step {1, 2} (ex_taken k) (ex_taken (Suc k))"
    using lock_step.run [of 1 "{1, 2}" "ex_taken k"] r by (simp add: ex_taken_def)
  with Suc show ?case by (rule lock_reach.step)
qed

lemma ex_taken_eq: "ex_taken 1 = ex_sys\<lparr>lk := \<lparr>readers = 0, writer = 1, writer_pid = 0\<rparr>, pc := (\<lambda>_. Idle)(1 := Writer W_set_pid)\<rparr>"
  "ex_taken 4 = ex_sys\<lparr>lk := \<lparr>readers = 0, writer = 1, writer_pid = 1\<rparr>, pc := (\<lambda>_. Idle)(1 := Writer W_held)\<rparr>"
  by (simp_all add: ex_taken_def exec_def ex_sys_def apc_lock_create_def numeral_eq_Suc)

theorem lock_mutual_exclusion_witness:
  "lock_reach {1, 2} ex_sys (ex_taken 4) \<and> pc (ex_taken 4) 1 = Writer W_held \<and> pc (ex_taken 4) 2 \<noteq> Reader R_held"
  using lock_mutual_exclusion [OF ex_sys_ok ex_taken_reach [of 4], of 1] ex_taken_reach [of 4]
  by (simp add: ex_taken_eq)

text \<open>
  C21: recovery. When the process whose id is stored in the lock is seen to be dead, a reader that waits for
  it gets the lock on its own: it detects the crash at the latest after 1024 more spins and clears the flag,
  wherever its spin counter and its timeout stand.
\<close>

theorem dead_writer_recovered:
  assumes "pc s p = Reader (R_wait n st tp)" "writer (lk s) = 1" "writer_pid (lk s) = d" "d \<noteq> 0"
    "\<not> apc_lock_process_alive s d"
  shows "\<exists>k. pc ((exec p ^^ k) s) p = Reader R_held \<and> writer (lk ((exec p ^^ k) s)) = 0"
proof -
  define m where "m = 1024 - n mod 1024"
  define t where "t = s\<lparr>pc := (pc s)(p := Reader (R_holder (n + m) st tp))\<rparr>"
  obtain k where k: "(exec p ^^ k) s = t" using wait_run [OF assms(1) _ m_def] assms(2) by (auto simp: t_def)
  have "\<not> apc_lock_process_alive t d" using assms(5) by (simp add: t_def apc_lock_process_alive_def)
  then have a: "\<not> apc_lock_process_alive (t\<lparr>pc := f\<rparr>) d" for f by (simp add: apc_lock_process_alive_def)
  have "exec p t = t\<lparr>pc := (pc t)(p := Reader (R_alive (n + m) st tp d))\<rparr>"
    using assms(3) by (simp add: exec_def Let_def t_def)
  then have "exec p (exec p t) = t\<lparr>pc := (pc t)(p := Reader (R_clear (n + m) st tp d))\<rparr>"
    using a assms(4) by (simp add: exec_def)
  then have "(exec p ^^ 6) t = t\<lparr>lk := \<lparr>readers = int32_of (readers (lk s) + 1), writer = 0, writer_pid = 0\<rparr>,
      pc := (pc t)(p := Reader R_held)\<rparr>"
    using assms(2,3) by (simp add: numeral_eq_Suc exec_def Let_def) (simp add: t_def)
  moreover have "(exec p ^^ (6 + k)) s = (exec p ^^ 6) t" unfolding funpow_add comp_def k ..
  ultimately show ?thesis by (intro exI [of _ "6 + k"]) simp
qed

text \<open>The state after process 1 has died with the lock and process 2 has begun to wait.\<close>

definition ex_crashed :: "nat \<Rightarrow> lock_sys" where
  "ex_crashed k = (ex_taken k)\<lparr>running := (running (ex_taken k))(1 := False), opens := (opens (ex_taken k))(1 := False),
     exit_code := (exit_code (ex_taken k))(1 := None)\<rparr>"

theorem dead_writer_recovered_witness:
  "\<exists>k. pc ((exec 2 ^^ k) ((ex_crashed 4)\<lparr>pc := (pc (ex_crashed 4))(2 := Reader (R_wait 0 0 0))\<rparr>)) 2 = Reader R_held"
proof -
  let ?s = "(ex_crashed 4)\<lparr>pc := (pc (ex_crashed 4))(2 := Reader (R_wait 0 0 0))\<rparr>"
  have "\<exists>k. pc ((exec 2 ^^ k) ?s) 2 = Reader R_held \<and> writer (lk ((exec 2 ^^ k) ?s)) = 0"
    by (rule dead_writer_recovered [of _ _ 0 0 0 1])
      (simp_all add: ex_crashed_def ex_taken_eq apc_lock_process_alive_def)
  then show ?thesis by blast
qed

subsection \<open>Crashes that are not recovered\<close>

definition orphaned :: "nat set \<Rightarrow> lock_sys \<Rightarrow> bool" where
  "orphaned P s \<longleftrightarrow> lock_inv P s \<and> writer (lk s) = 1 \<and> writer_pid (lk s) = 0 \<and> (\<forall>p\<in>P. running s p \<longrightarrow> \<not> between (pc s p))"

lemma orphaned_not_owned: "orphaned P s \<Longrightarrow> p \<in> P \<Longrightarrow> running s p \<Longrightarrow> \<not> owns (pc s p)"
  by (cases "p = 0") (auto simp: orphaned_def lock_inv_def writer_inv_def processes_ok_def)

lemma orphaned_step:
  assumes "lock_step P s t" "orphaned P s"
  shows "orphaned P t \<and> (\<forall>p\<in>P. may_read (pc t p) \<longrightarrow> may_read (pc s p))"
  using assms
proof (induction rule: lock_step.induct)
  case (run p s)
  have I: "lock_inv P s" using run by (simp add: orphaned_def)
  have n: "\<not> between (pc s p)" "\<not> owns (pc s p)" using run orphaned_not_owned by (auto simp: orphaned_def)
  have v: "victim (pc s p) \<noteq> Some 0" using I run(1) by (auto simp: lock_inv_def victim_inv_def)
  have "writer_move p (lk s, pc s p) (lk (exec p s), pc (exec p s) p)" by (rule exec_writer_move)
  then have q: "writer (lk (exec p s)) = 1" "writer_pid (lk (exec p s)) = 0" "\<not> between (pc (exec p s) p)"
    by (cases, insert run n v, auto simp: orphaned_def)+
  have "orphaned P (exec p s)" unfolding orphaned_def
  proof (intro conjI ballI impI q exec_lock_inv [OF I run(1,2)])
    fix r assume "r \<in> P" "running (exec p s) r"
    then show "\<not> between (pc (exec p s) r)" using q run(3) by (cases "r = p") (auto simp: orphaned_def)
  qed
  moreover have "may_read (pc s r)" if "may_read (pc (exec p s) r)" for r
    using that exec_may_read(1) [of p s] run(3) by (cases "r = p") (auto simp: orphaned_def)
  ultimately show ?case by blast
next
  case (die p s e o')
  have "lock_inv P (s\<lparr>running := (running s)(p := False), opens := (opens s)(p := o'), exit_code := (exit_code s)(p := e)\<rparr>)"
    using step_lock_inv [OF lock_step.die [OF die(1)]] die(2) by (simp add: orphaned_def)
  then show ?case using die by (simp add: orphaned_def)
next
  case (time s n)
  then show ?case using step_lock_inv [OF lock_step.time] by (simp add: orphaned_def)
next
  case (rlock p s)
  then show ?case using step_lock_inv [OF lock_step.rlock] by (simp add: orphaned_def)
next
  case (wlock p s)
  then show ?case using step_lock_inv [OF lock_step.wlock] by (simp add: orphaned_def)
next
  case (runlock p s)
  then show ?case using step_lock_inv [OF lock_step.runlock] by (auto simp: orphaned_def)
next
  case (wunlock p s)
  then show ?case using orphaned_not_owned [of P s p] by simp
qed

lemma orphaned_reach:
  "lock_reach P s t \<Longrightarrow> orphaned P s \<Longrightarrow> orphaned P t \<and> (\<forall>p\<in>P. may_read (pc t p) \<longrightarrow> may_read (pc s p))"
  by (induction rule: lock_reach.induct) (blast dest: orphaned_step)+

text \<open>
  C34: the recovery has a gap. A writer that dies between setting the flag and storing its process id leaves
  the lock taken for ever: whatever the other processes do, none of them ever gets it, neither for writing nor
  for reading (apart from readers that held it before).
\<close>

theorem orphaned_lock_blocks:
  assumes "lock_init i" "processes_ok P i" "lock_reach P i s" "w \<in> P" "running s w" "pc s w = Writer W_set_pid"
    "lock_reach P (s\<lparr>running := (running s)(w := False), opens := (opens s)(w := b), exit_code := (exit_code s)(w := e)\<rparr>) t"
    "p \<in> P" "running t p"
  shows "pc t p \<noteq> Writer W_held \<and> (pc t p = Reader R_held \<longrightarrow> may_read (pc s p))"
proof -
  let ?s = "s\<lparr>running := (running s)(w := False), opens := (opens s)(w := b), exit_code := (exit_code s)(w := e)\<rparr>"
  have I: "lock_inv P s" by (rule reach_lock_inv [OF assms(3) init_lock_inv [OF assms(1,2)]])
  then have W: "writer_inv P s" by (simp add: lock_inv_def)
  have b: "between (pc s w)" using assms(6) by simp
  have s: "writer (lk s) = 1" "writer_pid (lk s) = 0"
    using W assms(4,5) b unfolding writer_inv_def by blast+
  have u: "\<forall>q\<in>P. q \<noteq> w \<longrightarrow> running s q \<longrightarrow> \<not> between (pc s q)"
    using W assms(4,5) b unfolding writer_inv_def by blast
  have "lock_inv P ?s" by (rule step_lock_inv [OF lock_step.die [OF assms(4)] I])
  then have "orphaned P ?s" using s u by (simp add: orphaned_def)
  then have "orphaned P t \<and> (\<forall>p\<in>P. may_read (pc t p) \<longrightarrow> may_read (pc ?s p))" by (rule orphaned_reach [OF assms(7)])
  then show ?thesis using orphaned_not_owned [of P t p] assms(8,9) by auto
qed

theorem orphaned_lock_blocks_witness:
  "pc (ex_taken 1) 1 = Writer W_set_pid \<and>
   {t. lock_reach {1, 2} (ex_crashed 1) t \<and> running t 2 \<and> (pc t 2 = Writer W_held \<or> pc t 2 = Reader R_held)} = {}"
proof
  have r: "running (ex_taken 1) 1" "pc (ex_taken 1) 1 = Writer W_set_pid" "pc (ex_taken 1) 2 = Idle"
    unfolding ex_taken_eq by (simp_all add: ex_sys_def)
  then show "pc (ex_taken 1) 1 = Writer W_set_pid" by simp
  have "pc t 2 \<noteq> Writer W_held \<and> pc t 2 \<noteq> Reader R_held" if t: "lock_reach {1, 2} (ex_crashed 1) t" "running t 2" for t
    using orphaned_lock_blocks [OF ex_sys_ok ex_taken_reach [of 1] _ r(1,2), of None False t 2] t r(3) by (auto simp: ex_crashed_def)
  then show "{t. lock_reach {1, 2} (ex_crashed 1) t \<and> running t 2 \<and> (pc t 2 = Writer W_held \<or> pc t 2 = Reader R_held)} = {}"
    by blast
qed

lemma dead_reader_step:
  assumes "lock_step P s t" "lock_inv P s" "r \<in> P" "\<not> running s r" "counted (pc s r)"
  shows "lock_inv P t \<and> \<not> running t r \<and> counted (pc t r) \<and> (\<forall>q\<in>P. running t q \<longrightarrow> may_write (pc t q) \<longrightarrow> may_write (pc s q))"
proof -
  have n: "readers (lk s) \<noteq> 0" using assms(2-5) by (auto simp: lock_inv_def readers_inv_def processes_ok_def)
  have I: "lock_inv P t" by (rule step_lock_inv [OF assms(1,2)])
  have "\<not> running t r \<and> counted (pc t r) \<and> (\<forall>q\<in>P. running t q \<longrightarrow> may_write (pc t q) \<longrightarrow> may_write (pc s q))"
    using assms(1)
  proof cases
    case (run p)
    then have "r \<noteq> p" using assms(4) by auto
    moreover have "may_write (pc s q)" if "may_write (pc t q)" for q
      using that exec_may_write(1) [of p s] n run(1) by (cases "q = p") auto
    ultimately show ?thesis using run assms(4,5) by simp
  qed (use assms(4,5) in auto)
  with I show ?thesis by blast
qed

lemma lock_step_running: "lock_step P s t \<Longrightarrow> running t q \<Longrightarrow> running s q"
  by (cases rule: lock_step.cases) (auto split: if_splits)

lemma dead_reader_reach:
  "lock_reach P s t \<Longrightarrow> r \<in> P \<Longrightarrow> \<not> running s r \<Longrightarrow> lock_inv P s \<Longrightarrow> counted (pc s r) \<Longrightarrow>
   lock_inv P t \<and> \<not> running t r \<and> counted (pc t r) \<and> (\<forall>q\<in>P. running t q \<longrightarrow> may_write (pc t q) \<longrightarrow> may_write (pc s q))"
proof (induction rule: lock_reach.induct)
  case (step s t u)
  then have t: "lock_inv P t" "\<not> running t r" "counted (pc t r)"
    and q: "\<forall>q\<in>P. running t q \<longrightarrow> may_write (pc t q) \<longrightarrow> may_write (pc s q)" by blast+
  from dead_reader_step [OF step.hyps(2) t(1) step.prems(1) t(2,3)] q lock_step_running [OF step.hyps(2)] show ?case by blast
qed simp

text \<open>
  C35: nor does it recover from a reader that died: the reader stays counted, so no writer that is not
  already inside ever gets the lock again.
\<close>

theorem dead_reader_blocks_writers:
  assumes "lock_init i" "processes_ok P i" "lock_reach P i s" "r \<in> P" "\<not> running s r" "pc s r = Reader R_held"
    "lock_reach P s t" "q \<in> P" "running t q" "pc t q = Writer W_held"
  shows "may_write (pc s q)"
proof -
  have "lock_inv P s" by (rule reach_lock_inv [OF assms(3) init_lock_inv [OF assms(1,2)]])
  then have "\<forall>q\<in>P. running t q \<longrightarrow> may_write (pc t q) \<longrightarrow> may_write (pc s q)"
    using dead_reader_reach [OF assms(7,4,5)] assms(6) by simp
  then show ?thesis using assms(8-10) by simp
qed

text \<open>The state after a reader, process 1, has died with the lock.\<close>

definition ex_reading :: "nat \<Rightarrow> lock_sys" where
  "ex_reading k = (exec 1 ^^ k) (ex_sys\<lparr>pc := (pc ex_sys)(1 := Reader (R_wait 0 0 0))\<rparr>)"

lemma ex_reading_reach: "lock_reach {1, 2} ex_sys (ex_reading k)"
proof (induction k)
  case 0
  have "lock_step {1, 2} ex_sys (ex_reading 0)"
    unfolding ex_reading_def funpow_0 by (rule lock_step.rlock) (simp_all add: ex_sys_def)
  then show ?case using lock_reach.refl lock_reach.step by blast
next
  case (Suc k)
  have r: "running (ex_reading k) 1" for k by (induction k) (simp_all add: ex_reading_def ex_sys_def)
  have "lock_step {1, 2} (ex_reading k) (ex_reading (Suc k))"
    using lock_step.run [of 1 "{1, 2}" "ex_reading k"] r by (simp add: ex_reading_def)
  with Suc show ?case by (rule lock_reach.step)
qed

lemma ex_reading_eq: "ex_reading 3 = ex_sys\<lparr>lk := \<lparr>readers = 1, writer = 0, writer_pid = 0\<rparr>, pc := (\<lambda>_. Idle)(1 := Reader R_held)\<rparr>"
  by (simp add: ex_reading_def exec_def ex_sys_def apc_lock_create_def numeral_eq_Suc int32_of_def)

definition ex_reader_died :: "lock_sys" where
  "ex_reader_died = (ex_reading 3)\<lparr>running := (running (ex_reading 3))(1 := False), opens := (opens (ex_reading 3))(1 := False),
     exit_code := (exit_code (ex_reading 3))(1 := None)\<rparr>"

theorem dead_reader_blocks_writers_witness:
  "{t. lock_reach {1, 2} ex_reader_died t \<and> running t 2 \<and> pc t 2 = Writer W_held} = {}"
proof -
  have False if t: "lock_reach {1, 2} ex_reader_died t" "running t 2" "pc t 2 = Writer W_held" for t
  proof -
    have d: "lock_step {1, 2} (ex_reading 3) ex_reader_died" unfolding ex_reader_died_def by (rule lock_step.die) simp
    have "may_write (pc ex_reader_died 2)"
      by (rule dead_reader_blocks_writers [OF ex_sys_ok lock_reach.step [OF ex_reading_reach d], of 1])
        (use t in \<open>simp_all add: ex_reader_died_def ex_reading_eq\<close>)
    then show False by (simp add: ex_reader_died_def ex_reading_eq)
  qed
  then show ?thesis by blast
qed

end
