(* ===== verification/Stack.thy ===== *)
theory Stack imports Prelude begin

text \<open>
  The growable array of \<open>apc_stack.c\<close> in which an iterator keeps the items of a chunk. The cells of \<open>sdata\<close> up
  to \<open>capacity\<close> are the allocated ones; a failed \<open>assert\<close> is the result \<open>None\<close>. The contract of the
  operations is the locale \<open>item_stack\<close>, which the code's stack implements.
\<close>

subsection \<open>Operations\<close>

record 'a apc_stack_t =
  sdata :: "nat \<Rightarrow> 'a"
  capacity :: nat
  ssize :: nat

definition apc_stack_create :: "nat \<Rightarrow> 'a apc_stack_t" where
  "apc_stack_create size_hint =
     \<lparr>sdata = (\<lambda>_. undefined), capacity = (if 0 < size_hint then size_hint else 10), ssize = 0\<rparr>"

definition apc_stack_clear :: "'a apc_stack_t \<Rightarrow> 'a apc_stack_t" where
  "apc_stack_clear s = s\<lparr>ssize := 0\<rparr>"

definition apc_stack_push :: "'a \<Rightarrow> 'a apc_stack_t \<Rightarrow> 'a apc_stack_t" where
  "apc_stack_push item s =
     (let s = (if ssize s = capacity s then s\<lparr>capacity := umul (capacity s) 2\<rparr> else s)
      in s\<lparr>sdata := (sdata s)(ssize s := item), ssize := uadd (ssize s) 1\<rparr>)"

definition apc_stack_pop :: "'a apc_stack_t \<Rightarrow> ('a \<times> 'a apc_stack_t) option" where
  "apc_stack_pop s = (if 0 < ssize s then Some (sdata s (ssize s - 1), s\<lparr>ssize := ssize s - 1\<rparr>) else None)"

definition apc_stack_top :: "'a apc_stack_t \<Rightarrow> 'a option" where
  "apc_stack_top s = (if 0 < ssize s then Some (sdata s (ssize s - 1)) else None)"

definition apc_stack_get :: "'a apc_stack_t \<Rightarrow> nat \<Rightarrow> 'a option" where
  "apc_stack_get s n = (if n < ssize s then Some (sdata s n) else None)"

text \<open>The size is returned as an \<open>int\<close>.\<close>

definition apc_stack_size :: "'a apc_stack_t \<Rightarrow> int" where
  "apc_stack_size s = int32_of (int (ssize s))"

subsection \<open>The contract\<close>

text \<open>A stack that holds at most \<open>cap\<close> items, seen as the list of its items from the bottom.\<close>

locale item_stack =
  fixes ok :: "'s \<Rightarrow> bool" and items :: "'s \<Rightarrow> 'a list" and cap :: nat
    and push :: "'a \<Rightarrow> 's \<Rightarrow> 's" and pop :: "'s \<Rightarrow> ('a \<times> 's) option" and get :: "'s \<Rightarrow> nat \<Rightarrow> 'a option"
  assumes push_ok: "ok s \<Longrightarrow> length (items s) < cap \<Longrightarrow> ok (push x s) \<and> items (push x s) = items s @ [x]"
    and pop_none: "ok s \<Longrightarrow> items s = [] \<Longrightarrow> pop s = None"
    and pop_some: "ok s \<Longrightarrow> items s = xs @ [x] \<Longrightarrow> \<exists>s'. pop s = Some (x, s') \<and> ok s' \<and> items s' = xs"
    and get_ok: "ok s \<Longrightarrow> get s n = (if n < length (items s) then Some (items s ! n) else None)"
begin

lemma push_all:
  "ok s \<Longrightarrow> length (items s) + length xs \<le> cap \<Longrightarrow> ok (fold push xs s) \<and> items (fold push xs s) = items s @ xs"
proof (induction xs arbitrary: s)
  case (Cons x xs)
  then show ?case using push_ok [of s x] Cons.IH [of "push x s"] by simp
qed simp

lemma pop_push: "ok s \<Longrightarrow> length (items s) < cap \<Longrightarrow> \<exists>s'. pop (push x s) = Some (x, s') \<and> items s' = items s"
  using push_ok [of s x] pop_some [of "push x s" "items s" x] by blast

lemma get_pushed: "ok s \<Longrightarrow> items s = [] \<Longrightarrow> length xs \<le> cap \<Longrightarrow> n < length xs \<Longrightarrow> get (fold push xs s) n = Some (xs ! n)"
  using push_all [of s xs] get_ok by simp

end

subsection \<open>The code's stack implements it\<close>

definition stack_ok :: "'a apc_stack_t \<Rightarrow> bool" where
  "stack_ok s \<longleftrightarrow> ssize s \<le> capacity s \<and> 0 < capacity s \<and> capacity s < U64"

definition stack_items :: "'a apc_stack_t \<Rightarrow> 'a list" where
  "stack_items s = map (sdata s) [0..<ssize s]"

abbreviation STACK_MAX :: nat where
  "STACK_MAX \<equiv> 2147483647"

lemma stack_items_length [simp]: "length (stack_items s) = ssize s"
  by (simp add: stack_items_def)

lemma stack_create_ok [simp]: "n < U64 \<Longrightarrow> stack_ok (apc_stack_create n)" "stack_items (apc_stack_create n) = []"
  by (simp_all add: stack_ok_def stack_items_def apc_stack_create_def)

lemma stack_clear_ok [simp]: "stack_ok s \<Longrightarrow> stack_ok (apc_stack_clear s)" "stack_items (apc_stack_clear s) = []"
  by (simp_all add: stack_ok_def stack_items_def apc_stack_clear_def)

interpretation stk: item_stack stack_ok stack_items STACK_MAX apc_stack_push apc_stack_pop apc_stack_get
proof (unfold_locales, goal_cases)
  case (1 s x)
  then have "uadd (ssize s) 1 = Suc (ssize s)" "ssize s = capacity s \<Longrightarrow> umul (capacity s) 2 = capacity s * 2"
    by (simp_all add: uadd_small umul_small)
  with 1 show ?case by (auto simp: stack_ok_def apc_stack_push_def Let_def stack_items_def)
next
  case (2 s)
  then show ?case by (simp add: apc_stack_pop_def stack_items_def)
next
  case (3 s xs x)
  then have n: "0 < ssize s" using stack_items_length [of s] by (cases "ssize s") (auto simp: stack_items_def)
  then have "[0..<ssize s] = [0..<ssize s - 1] @ [ssize s - 1]" by (cases "ssize s") simp_all
  with 3 have "map (sdata s) [0..<ssize s - 1] = xs" "sdata s (ssize s - 1) = x" by (simp_all add: stack_items_def)
  with 3 n show ?case by (auto simp: apc_stack_pop_def stack_ok_def stack_items_def)
next
  case (4 s n)
  then show ?case by (simp add: apc_stack_get_def stack_items_def)
qed

lemma stack_size_small: "ssize s \<le> STACK_MAX \<Longrightarrow> apc_stack_size s = int (ssize s)"
  by (simp add: apc_stack_size_def int32_of_id)

end
