(* ===== verification/Iterator.thy ===== *)
theory Iterator imports Stack Cache_Api begin

unbundle bit_operations_syntax

text \<open>
  \<open>APCUIterator\<close> of \<open>apc_iterator.c\<close>: an iterator pulls chunks of entries out of the cache, under its read
  lock, into a stack of items, and the methods of the PHP interface step through the stack. \<open>unp\<close> is what
  \<open>apc_unpersist\<close> makes of a stored value, \<open>rx\<close> says whether a regular expression matches a key and \<open>compiles\<close>
  whether it is valid (the PCRE library).
\<close>

subsection \<open>Data\<close>

definition APC_LIST_ACTIVE :: int where "APC_LIST_ACTIVE = 1"
definition APC_LIST_DELETED :: int where "APC_LIST_DELETED = 2"

definition APC_ITER_TYPE :: int where "APC_ITER_TYPE = 1"
definition APC_ITER_KEY :: int where "APC_ITER_KEY = 2"
definition APC_ITER_VALUE :: int where "APC_ITER_VALUE = 4"
definition APC_ITER_NUM_HITS :: int where "APC_ITER_NUM_HITS = 8"
definition APC_ITER_MTIME :: int where "APC_ITER_MTIME = 16"
definition APC_ITER_CTIME :: int where "APC_ITER_CTIME = 32"
definition APC_ITER_DTIME :: int where "APC_ITER_DTIME = 64"
definition APC_ITER_ATIME :: int where "APC_ITER_ATIME = 128"
definition APC_ITER_REFCOUNT :: int where "APC_ITER_REFCOUNT = 256"
definition APC_ITER_MEM_SIZE :: int where "APC_ITER_MEM_SIZE = 512"
definition APC_ITER_TTL :: int where "APC_ITER_TTL = 1024"
definition APC_ITER_NONE :: int where "APC_ITER_NONE = 0"
definition APC_ITER_ALL :: int where "APC_ITER_ALL = 4294967295"

definition APC_DEFAULT_CHUNK_SIZE :: nat where "APC_DEFAULT_CHUNK_SIZE = 100"

text \<open>A field of the value of an item; \<open>F_value None\<close> is a value that could not be restored.\<close>

datatype 'a field = F_string string | F_long int | F_value "'a option"

text \<open>\<open>apc_iterator_item_t\<close>: the key and the array in the order in which the fields are added to it.\<close>

record 'a item =
  it_key :: string
  it_value :: "(string \<times> 'a field) list"

datatype fetcher = apc_iterator_fetch_active_fn | apc_iterator_fetch_deleted_fn

text \<open>
  The search hash made by \<open>apc_flip_hash\<close> has string and integer keys; \<open>NULL\<close> pointers are \<open>None\<close>. The regular
  expression stands for the compiled one too.
\<close>

record 'a iterator =
  initialized :: bool
  it_format :: int
  it_fetch :: fetcher
  slot_idx :: nat
  chunk_size :: nat
  it_stack :: "'a item apc_stack_t"
  stack_idx :: int
  regex :: "string option"
  search_hash :: "(string + int) list option"
  key_idx :: int
  totals_flag :: bool
  it_hits :: int
  it_size :: nat
  it_count :: int

subsection \<open>Items\<close>

definition has_flag :: "int \<Rightarrow> int \<Rightarrow> bool" where
  "has_flag flag format \<longleftrightarrow> flag AND format \<noteq> 0"

definition apc_iterator_item_ctor :: "(zval \<Rightarrow> 'v \<Rightarrow> 'a option) \<Rightarrow> int \<Rightarrow> 'v entry \<Rightarrow> 'a item" where
  "apc_iterator_item_ctor unp format e =
     (let add = (\<lambda>flag name v. if has_flag flag format then [(name, v)] else [])
      in \<lparr>it_key = e_key e,
          it_value =
            add APC_ITER_TYPE ''type'' (F_string ''user'') @
            add APC_ITER_KEY ''key'' (F_string (e_key e)) @
            add APC_ITER_VALUE ''value'' (F_value (unp (e_val e) (e_data e))) @
            add APC_ITER_NUM_HITS ''num_hits'' (F_long (e_nhits e)) @
            add APC_ITER_MTIME ''mtime'' (F_long (e_mtime e)) @
            add APC_ITER_CTIME ''creation_time'' (F_long (e_ctime e)) @
            add APC_ITER_DTIME ''deletion_time'' (F_long (e_dtime e)) @
            add APC_ITER_ATIME ''access_time'' (F_long (e_atime e)) @
            add APC_ITER_REFCOUNT ''ref_count'' (F_long (e_ref_count e)) @
            add APC_ITER_MEM_SIZE ''mem_size'' (F_long (e_mem_size e)) @
            add APC_ITER_TTL ''ttl'' (F_long (e_ttl e))\<rparr>)"

definition apc_iterator_search_match :: "(string \<Rightarrow> string \<Rightarrow> bool) \<Rightarrow> 'a iterator \<Rightarrow> 'v entry \<Rightarrow> bool" where
  "apc_iterator_search_match rx it e =
     (let rval = True;
          rval = (case regex it of None \<Rightarrow> rval | Some r \<Rightarrow> rx r (e_key e))
      in case search_hash it of None \<Rightarrow> rval | Some h \<Rightarrow> Inl (e_key e) \<in> set h)"

definition apc_iterator_check_expiry :: "'v entry \<Rightarrow> int \<Rightarrow> bool" where
  "apc_iterator_check_expiry e t = (if e_ttl e \<noteq> 0 then \<not> int64_of (e_ctime e + e_ttl e) < t else True)"

text \<open>\<open>while (apc_stack_size(stack) > 0) dtor(apc_stack_pop(stack))\<close>\<close>

function drop_items :: "'a apc_stack_t \<Rightarrow> 'a apc_stack_t" where
  "drop_items s = (if 0 < apc_stack_size s
     then case apc_stack_pop s of None \<Rightarrow> s | Some (_, s') \<Rightarrow> drop_items s' else s)"
  by pat_completeness auto
termination
  by (relation "measure ssize") (auto simp: apc_stack_pop_def split: if_splits)

declare drop_items.simps [simp del]

subsection \<open>Fetching a chunk\<close>

text \<open>
  The loops over a list of entries: \<open>f\<close> is the body, \<open>P\<close> the condition beside \<open>entry_offset\<close>. The result is
  the offset at which the loop stops and the value it has computed.
\<close>

partial_function (option) walk_entries ::
  "('s \<Rightarrow> bool) \<Rightarrow> ('v entry \<Rightarrow> 's \<Rightarrow> 's) \<Rightarrow> nat \<Rightarrow> ('v, 'x) cstate \<Rightarrow> 's \<Rightarrow> (nat \<times> 's) option" where
  "walk_entries P f off c s =
     (if off = 0 \<or> \<not> P s then Some (off, s)
      else let e = dat c (entryat c off) in walk_entries P f (e_next e) c (f e s))"

text \<open>\<open>count++\<close> and the push of the item, for an entry that is to be listed.\<close>

definition push_item ::
  "(zval \<Rightarrow> 'v \<Rightarrow> 'a option) \<Rightarrow> int \<Rightarrow> ('v entry \<Rightarrow> bool) \<Rightarrow> 'v entry \<Rightarrow> nat \<times> 'a item apc_stack_t \<Rightarrow>
   nat \<times> 'a item apc_stack_t" where
  "push_item unp format keep e r =
     (if keep e then (uadd (fst r) 1, apc_stack_push (apc_iterator_item_ctor unp format e) (snd r)) else r)"

partial_function (option) active_slots ::
  "(zval \<Rightarrow> 'v \<Rightarrow> 'a option) \<Rightarrow> ('v entry \<Rightarrow> bool) \<Rightarrow> int \<Rightarrow> nat \<Rightarrow> nat \<Rightarrow> nat \<times> 'a item apc_stack_t \<Rightarrow>
   ('v, 'x) cstate \<Rightarrow> (nat \<times> nat \<times> 'a item apc_stack_t) option" where
  "active_slots unp keep format chunk i r c =
     (if fst r < chunk \<and> i < nslots c
      then do {
        w \<leftarrow> walk_entries (\<lambda>_. True) (push_item unp format keep) (e_next (dat c (slot_addr c i))) c r;
        active_slots unp keep format chunk (i + 1) (snd w) c
      }
      else Some (i, r))"

definition apc_iterator_fetch_active ::
  "(string \<Rightarrow> string \<Rightarrow> bool) \<Rightarrow> (zval \<Rightarrow> 'v \<Rightarrow> 'a option) \<Rightarrow> 'a iterator \<Rightarrow> ('v, 'x) cstate \<Rightarrow>
   (nat \<times> 'a iterator \<times> ('v, 'x) cstate) option" where
  "apc_iterator_fetch_active rx unp it c =
     (let tc = apc_time c; t = fst tc;
          it = it\<lparr>it_stack := drop_items (it_stack it)\<rparr>
      in do {
        l \<leftarrow> apc_cache_rlock (snd tc);
        if \<not> fst l then Some (0, it, snd l)
        else do {
          r \<leftarrow> active_slots unp (\<lambda>e. apc_iterator_check_expiry e t \<and> apc_iterator_search_match rx it e)
                 (it_format it) (chunk_size it) (slot_idx it) (0, it_stack it) (snd l);
          Some (fst (snd r), it\<lparr>slot_idx := fst r, it_stack := snd (snd r), stack_idx := 0\<rparr>, apc_cache_runlock (snd l))
        }
      })"

definition apc_iterator_fetch_deleted ::
  "(string \<Rightarrow> string \<Rightarrow> bool) \<Rightarrow> (zval \<Rightarrow> 'v \<Rightarrow> 'a option) \<Rightarrow> 'a iterator \<Rightarrow> ('v, 'x) cstate \<Rightarrow>
   (nat \<times> 'a iterator \<times> ('v, 'x) cstate) option" where
  "apc_iterator_fetch_deleted rx unp it c =
     do {
       l \<leftarrow> apc_cache_rlock c;
       if \<not> fst l then Some (0, it, snd l)
       else
         let c = snd l
         in do {
           s \<leftarrow> walk_entries (\<lambda>count. count \<le> slot_idx it) (\<lambda>_ count. uadd count 1) (e_next (dat c (gc_addr c))) c 0;
           r \<leftarrow> walk_entries (\<lambda>r. fst r < chunk_size it)
                  (push_item unp (it_format it) (apc_iterator_search_match rx it)) (fst s) c (0, it_stack it);
           let count = fst (snd r);
           Some (count, it\<lparr>slot_idx := uadd (slot_idx it) count, it_stack := snd (snd r), stack_idx := 0\<rparr>,
             apc_cache_runlock c)
         }
     }"

definition run_fetch ::
  "(string \<Rightarrow> string \<Rightarrow> bool) \<Rightarrow> (zval \<Rightarrow> 'v \<Rightarrow> 'a option) \<Rightarrow> 'a iterator \<Rightarrow> ('v, 'x) cstate \<Rightarrow>
   (nat \<times> 'a iterator \<times> ('v, 'x) cstate) option" where
  "run_fetch rx unp it c = (case it_fetch it of
       apc_iterator_fetch_active_fn \<Rightarrow> apc_iterator_fetch_active rx unp it c
     | apc_iterator_fetch_deleted_fn \<Rightarrow> apc_iterator_fetch_deleted rx unp it c)"

subsection \<open>Totals\<close>

definition add_totals :: "('v entry \<Rightarrow> bool) \<Rightarrow> 'v entry \<Rightarrow> 'a iterator \<Rightarrow> 'a iterator" where
  "add_totals keep e it =
     (if keep e
      then it\<lparr>it_size := nat ((int (it_size it) + e_mem_size e) mod int U64), it_hits := int64_of (it_hits it + e_nhits e),
             it_count := int64_of (it_count it + 1)\<rparr>
      else it)"

definition apc_iterator_totals ::
  "(string \<Rightarrow> string \<Rightarrow> bool) \<Rightarrow> 'a iterator \<Rightarrow> ('v, 'x) cstate \<Rightarrow> ('a iterator \<times> ('v, 'x) cstate) option" where
  "apc_iterator_totals rx it c =
     (let tc = apc_time c; t = fst tc
      in do {
        l \<leftarrow> apc_cache_rlock (snd tc);
        if \<not> fst l then Some (it, snd l)
        else
          let c = snd l
          in do {
            it' \<leftarrow> for_slots [0..<nslots c]
              (\<lambda>i it'. do {
                 w \<leftarrow> walk_entries (\<lambda>_. True)
                   (add_totals (\<lambda>e. apc_iterator_check_expiry e t \<and> apc_iterator_search_match rx it e))
                   (e_next (dat c (slot_addr c i))) c it';
                 Some (snd w) }) it;
            Some (it'\<lparr>totals_flag := True\<rparr>, apc_cache_runlock c)
          }
      })"

subsection \<open>Construction\<close>

text \<open>How a call ends: with a value, with a PHP exception, with a fatal error (\<open>apc_error\<close>), or in a failed \<open>assert\<close>.\<close>

datatype 'r outcome = Returned 'r | Thrown | Fatal | Violated

datatype search = No_search | Search_string string | Search_array "(string + int) list" | Search_other

text \<open>The keys of the hash: the values of the array, without duplicates.\<close>

definition apc_flip_hash :: "(string + int) list \<Rightarrow> (string + int) list" where
  "apc_flip_hash vs = rev (fold List.insert vs [])"

definition apc_iterator_create :: "'a iterator" where
  "apc_iterator_create = \<lparr>initialized = False, it_format = 0, it_fetch = apc_iterator_fetch_active_fn, slot_idx = 0,
     chunk_size = 0, it_stack = \<lparr>sdata = (\<lambda>_. undefined), capacity = 0, ssize = 0\<rparr>, stack_idx = 0, regex = None,
     search_hash = None, key_idx = 0, totals_flag = False, it_hits = 0, it_size = 0, it_count = 0\<rparr>"

text \<open>An invalid expression is a fatal error: \<open>apc_error\<close> does not return.\<close>

definition apc_iterator_obj_init ::
  "(string \<Rightarrow> bool) \<Rightarrow> bool \<Rightarrow> search \<Rightarrow> int \<Rightarrow> nat \<Rightarrow> int \<Rightarrow> 'a iterator \<Rightarrow> unit outcome \<times> 'a iterator" where
  "apc_iterator_obj_init compiles enabled search format chunk list it =
     (if \<not> enabled then (Thrown, it)
      else if APC_ITER_ALL < format then (Fatal, it)
      else if list \<noteq> APC_LIST_ACTIVE \<and> list \<noteq> APC_LIST_DELETED then (Returned (), it)
      else
        let it = it\<lparr>
              it_fetch := (if list = APC_LIST_ACTIVE then apc_iterator_fetch_active_fn else apc_iterator_fetch_deleted_fn),
              slot_idx := 0, stack_idx := 0, key_idx := 0,
              chunk_size := (if chunk = 0 then APC_DEFAULT_CHUNK_SIZE else chunk),
              it_stack := apc_stack_create chunk, it_format := format, totals_flag := False, it_count := 0,
              it_size := 0, it_hits := 0, regex := None, search_hash := None\<rparr>
        in case search of
             Search_string r \<Rightarrow>
               if r \<noteq> [] then if compiles r then (Returned (), it\<lparr>regex := Some r, initialized := True\<rparr>)
                              else (Fatal, it\<lparr>regex := Some r\<rparr>)
               else (Returned (), it\<lparr>initialized := True\<rparr>)
           | Search_array vs \<Rightarrow> (Returned (), it\<lparr>search_hash := Some (apc_flip_hash vs), initialized := True\<rparr>)
           | _ \<Rightarrow> (Returned (), it\<lparr>initialized := True\<rparr>))"

definition APCUIterator_construct ::
  "(string \<Rightarrow> bool) \<Rightarrow> bool \<Rightarrow> search \<Rightarrow> int \<Rightarrow> int \<Rightarrow> int \<Rightarrow> 'a iterator \<Rightarrow> unit outcome \<times> 'a iterator" where
  "APCUIterator_construct compiles enabled search format chunk list it =
     (if chunk < 0 then (Fatal, it) else apc_iterator_obj_init compiles enabled search format (nat chunk) list it)"

text \<open>\<open>apc_iterator_free\<close>: the object is not initialized afterwards.\<close>

definition apc_iterator_free :: "'a iterator \<Rightarrow> 'a iterator" where
  "apc_iterator_free it =
     (if \<not> initialized it then it
      else it\<lparr>it_stack := drop_items (it_stack it), initialized := False\<rparr>)"

subsection \<open>The methods\<close>

definition APCUIterator_rewind ::
  "(string \<Rightarrow> string \<Rightarrow> bool) \<Rightarrow> (zval \<Rightarrow> 'v \<Rightarrow> 'a option) \<Rightarrow> 'a iterator \<Rightarrow> ('v, 'x) cstate \<Rightarrow>
   (unit outcome \<times> 'a iterator \<times> ('v, 'x) cstate) option" where
  "APCUIterator_rewind rx unp it c =
     (if \<not> initialized it then Some (Thrown, it, c)
      else do {
        r \<leftarrow> run_fetch rx unp (it\<lparr>slot_idx := 0, stack_idx := 0, key_idx := 0\<rparr>) c;
        Some (Returned (), snd r)
      })"

text \<open>The test \<open>apc_stack_size(stack) == stack_idx\<close> with which a method asks for the next chunk.\<close>

definition exhausted :: "'a iterator \<Rightarrow> bool" where
  "exhausted it \<longleftrightarrow> apc_stack_size (it_stack it) = stack_idx it"

definition APCUIterator_valid ::
  "(string \<Rightarrow> string \<Rightarrow> bool) \<Rightarrow> (zval \<Rightarrow> 'v \<Rightarrow> 'a option) \<Rightarrow> 'a iterator \<Rightarrow> ('v, 'x) cstate \<Rightarrow>
   (bool outcome \<times> 'a iterator \<times> ('v, 'x) cstate) option" where
  "APCUIterator_valid rx unp it c =
     (if \<not> initialized it then Some (Thrown, it, c)
      else do {
        r \<leftarrow> (if exhausted it then run_fetch rx unp it c else Some (0, it, c));
        Some (Returned (apc_stack_size (it_stack (fst (snd r))) \<noteq> 0), snd r)
      })"

text \<open>\<open>current\<close> and \<open>key\<close> fetch when the stack is used up, and read the item at \<open>stack_idx\<close>.\<close>

definition current_item ::
  "(string \<Rightarrow> string \<Rightarrow> bool) \<Rightarrow> (zval \<Rightarrow> 'v \<Rightarrow> 'a option) \<Rightarrow> 'a iterator \<Rightarrow> ('v, 'x) cstate \<Rightarrow>
   ('a item outcome \<times> 'a iterator \<times> ('v, 'x) cstate) option" where
  "current_item rx unp it c =
     (if \<not> initialized it then Some (Thrown, it, c)
      else do {
        r \<leftarrow> (if exhausted it then run_fetch rx unp it c else Some (1, it, c));
        if fst r = 0 then Some (Thrown, snd r)
        else Some (case apc_stack_get (it_stack (fst (snd r))) (nat (stack_idx (fst (snd r)) mod int U64)) of
            None \<Rightarrow> Violated | Some item \<Rightarrow> Returned item, snd r)
      })"

definition APCUIterator_current ::
  "(string \<Rightarrow> string \<Rightarrow> bool) \<Rightarrow> (zval \<Rightarrow> 'v \<Rightarrow> 'a option) \<Rightarrow> 'a iterator \<Rightarrow> ('v, 'x) cstate \<Rightarrow>
   ((string \<times> 'a field) list outcome \<times> 'a iterator \<times> ('v, 'x) cstate) option" where
  "APCUIterator_current rx unp it c =
     map_option (map_prod (map_outcome it_value) id) (current_item rx unp it c)"

text \<open>The key of an item is never \<open>NULL\<close>, so \<open>key_idx\<close> is never returned.\<close>

definition APCUIterator_key ::
  "(string \<Rightarrow> string \<Rightarrow> bool) \<Rightarrow> (zval \<Rightarrow> 'v \<Rightarrow> 'a option) \<Rightarrow> 'a iterator \<Rightarrow> ('v, 'x) cstate \<Rightarrow>
   (string outcome \<times> 'a iterator \<times> ('v, 'x) cstate) option" where
  "APCUIterator_key rx unp it c =
     map_option (map_prod (map_outcome it_key) id) (current_item rx unp it c)"

definition APCUIterator_next :: "'a iterator \<Rightarrow> unit outcome \<times> 'a iterator" where
  "APCUIterator_next it =
     (if \<not> initialized it then (Thrown, it)
      else if apc_stack_size (it_stack it) = 0 then (Returned (), it)
      else (Returned (), it\<lparr>stack_idx := int32_of (stack_idx it + 1), key_idx := int64_of (key_idx it + 1)\<rparr>))"

definition with_totals ::
  "('a iterator \<Rightarrow> int) \<Rightarrow> (string \<Rightarrow> string \<Rightarrow> bool) \<Rightarrow> 'a iterator \<Rightarrow> ('v, 'x) cstate \<Rightarrow>
   (int outcome \<times> 'a iterator \<times> ('v, 'x) cstate) option" where
  "with_totals get rx it c =
     (if \<not> initialized it then Some (Thrown, it, c)
      else do {
        r \<leftarrow> (if \<not> totals_flag it then apc_iterator_totals rx it c else Some (it, c));
        Some (Returned (get (fst r)), r)
      })"

definition APCUIterator_getTotalHits ::
  "(string \<Rightarrow> string \<Rightarrow> bool) \<Rightarrow> 'a iterator \<Rightarrow> ('v, 'x) cstate \<Rightarrow> (int outcome \<times> 'a iterator \<times> ('v, 'x) cstate) option" where
  "APCUIterator_getTotalHits = with_totals it_hits"

definition APCUIterator_getTotalSize ::
  "(string \<Rightarrow> string \<Rightarrow> bool) \<Rightarrow> 'a iterator \<Rightarrow> ('v, 'x) cstate \<Rightarrow> (int outcome \<times> 'a iterator \<times> ('v, 'x) cstate) option" where
  "APCUIterator_getTotalSize = with_totals (\<lambda>it. int64_of (int (it_size it)))"

definition APCUIterator_getTotalCount ::
  "(string \<Rightarrow> string \<Rightarrow> bool) \<Rightarrow> 'a iterator \<Rightarrow> ('v, 'x) cstate \<Rightarrow> (int outcome \<times> 'a iterator \<times> ('v, 'x) cstate) option" where
  "APCUIterator_getTotalCount = with_totals it_count"

subsection \<open>Deleting what an iterator lists\<close>

text \<open>The inner loop of \<open>apc_iterator_delete\<close>; a failed \<open>assert\<close> is the result \<open>None\<close> of the item.\<close>

partial_function (option) delete_items ::
  "'a iterator \<Rightarrow> ('v, 'x) cstate \<Rightarrow> ('a iterator \<times> ('v, 'x) cstate) option" where
  "delete_items it c =
     (if stack_idx it < apc_stack_size (it_stack it)
      then case apc_stack_get (it_stack it) (nat (stack_idx it mod int U64)) of
             None \<Rightarrow> None
           | Some item \<Rightarrow> do {
               r \<leftarrow> apc_cache_delete (it_key item) c;
               delete_items (it\<lparr>stack_idx := int32_of (stack_idx it + 1)\<rparr>) (snd r)
             }
      else Some (it, c))"

partial_function (option) delete_chunks ::
  "(string \<Rightarrow> string \<Rightarrow> bool) \<Rightarrow> (zval \<Rightarrow> 'v \<Rightarrow> 'a option) \<Rightarrow> 'a iterator \<Rightarrow> ('v, 'x) cstate \<Rightarrow>
   ('a iterator \<times> ('v, 'x) cstate) option" where
  "delete_chunks rx unp it c =
     do {
       r \<leftarrow> run_fetch rx unp it c;
       if fst r = 0 then Some (snd r)
       else do {
         d \<leftarrow> delete_items (fst (snd r)) (snd (snd r));
         delete_chunks rx unp (fst d) (snd d)
       }
     }"

text \<open>\<open>is_iterator\<close> is the class check of the argument.\<close>

definition apc_iterator_delete ::
  "(string \<Rightarrow> string \<Rightarrow> bool) \<Rightarrow> (zval \<Rightarrow> 'v \<Rightarrow> 'a option) \<Rightarrow> bool \<Rightarrow> 'a iterator \<Rightarrow> ('v, 'x) cstate \<Rightarrow>
   (bool outcome \<times> 'a iterator \<times> ('v, 'x) cstate) option" where
  "apc_iterator_delete rx unp is_iterator it c =
     (if \<not> is_iterator then Some (Fatal, it, c)
      else if \<not> initialized it then Some (Thrown, it, c)
      else do { r \<leftarrow> delete_chunks rx unp it c; Some (Returned True, r) })"

end
