(* ===== verification/Iterator_Correct.thy ===== *)
theory Iterator_Correct imports Iterator Cache_Reads Cache_Create begin

text \<open>
  The iterator of \<open>apc_iterator.c\<close> on a cache that satisfies its invariant: what a chunk holds, and that the
  \<open>foreach\<close> protocol over an active iterator lists every matching live entry once.
\<close>

subsection \<open>The stack of items\<close>

lemma drop_items_eq: "stack_ok s \<Longrightarrow> ssize s \<le> STACK_MAX \<Longrightarrow> drop_items s = s\<lparr>ssize := 0\<rparr>"
proof (induction "ssize s" arbitrary: s)
  case 0
  then show ?case by (subst drop_items.simps) (simp add: stack_size_small)
next
  case (Suc n)
  then have "drop_items s = drop_items (s\<lparr>ssize := n\<rparr>)"
    by (subst drop_items.simps) (simp add: stack_size_small apc_stack_pop_def Suc.hyps(2) [symmetric])
  also have "\<dots> = s\<lparr>ssize := 0\<rparr>" using Suc.hyps(1) [of "s\<lparr>ssize := n\<rparr>"] Suc.hyps(2) Suc.prems by (simp add: stack_ok_def)
  finally show ?case .
qed

lemma drop_items_ok:
  assumes "stack_ok s" "ssize s \<le> STACK_MAX"
  shows "stack_ok (drop_items s)" "stack_items (drop_items s) = []"
  using assms by (simp_all add: drop_items_eq stack_ok_def stack_items_def)

subsection \<open>Walking a list\<close>

text \<open>The loop over the entries of a list, as seen from outside.\<close>

fun scan :: "('s \<Rightarrow> bool) \<Rightarrow> ('e \<Rightarrow> 's \<Rightarrow> 's) \<Rightarrow> 'e list \<Rightarrow> 's \<Rightarrow> 's \<times> 'e list" where
  "scan P f [] s = (s, [])"
| "scan P f (e # es) s = (if P s then scan P f es (f e s) else (s, e # es))"

lemma scan_True [simp]: "scan (\<lambda>_. True) f es s = (fold f es s, [])"
  by (induction es arbitrary: s) auto

lemma scan_count: "scan (\<lambda>n. n \<le> k) (\<lambda>_ n. uadd n 1) es m = (m + min (length es) (Suc k - m), drop (Suc k - m) es)"
  if "m + length es < U64"
  using that
proof (induction es arbitrary: m)
  case (Cons e es)
  then have "uadd m 1 = Suc m" by (simp add: uadd_small)
  with Cons show ?case by (cases "m \<le> k") (auto simp: Suc_diff_le)
qed simp

lemma walk_entries_ok:
  assumes I: "cache_inv c L" and a: "a \<in> heads c" "L a = xs @ ys" and f: "\<And>e. f (strip e) = f e"
  shows "\<exists>ys1 ys2. ys = ys1 @ ys2 \<and> walk_entries P f (e_next (dat c (last (a # xs)))) c s =
      Some (e_next (dat c (last (a # xs @ ys1))), fst (scan P f (contents c ys) s)) \<and>
    snd (scan P f (contents c ys) s) = contents c ys2"
  using a(2)
proof (induction ys arbitrary: xs s)
  case Nil
  have z: "e_next (dat c (last (a # xs))) = 0" by (rule head_step(1) [OF I a(1) Nil refl])
  have "walk_entries P f 0 c s = Some (0, s)" by (subst walk_entries.simps) simp
  then show ?case using z by (intro exI [of _ "[]"]) (simp del: last.simps)
next
  case (Cons y ys)
  note h = head_step(2) [OF I a(1) Cons.prems refl]
  have fy: "f (strip (dat c y)) = f (dat c y)" by (rule f)
  show ?case
  proof (cases "P s")
    case False
    then show ?thesis by (intro exI [of _ "[]"] exI [of _ "y # ys"]) (subst walk_entries.simps, simp)
  next
    case True
    have "L a = (xs @ [y]) @ ys" using Cons.prems by simp
    from Cons.IH [OF this, of "f (dat c y) s"] obtain ys1 ys2 where r: "ys = ys1 @ ys2"
      "walk_entries P f (e_next (dat c y)) c (f (dat c y) s) =
        Some (e_next (dat c (last (a # (xs @ [y]) @ ys1))), fst (scan P f (contents c ys) (f (dat c y) s)))"
      "snd (scan P f (contents c ys) (f (dat c y) s)) = contents c ys2" by auto
    have "walk_entries P f (e_next (dat c (last (a # xs)))) c s = walk_entries P f (e_next (dat c y)) c (f (dat c y) s)"
      using h True by (subst walk_entries.simps) (simp add: Let_def)
    with r True fy show ?thesis by (intro exI [of _ "y # ys1"] exI [of _ ys2]) simp
  qed
qed

lemma walk_slot:
  assumes I: "cache_inv c L" and i: "i < nslots c" and f: "\<And>e. f (strip e) = f e"
  shows "\<exists>off. walk_entries (\<lambda>_. True) f (e_next (dat c (slot_addr c i))) c s = Some (off, fold f (contents c (L (slot_at c i))) s)"
proof -
  note h = header_addrs(2,8) [OF cache_invD(6) [OF I] i]
  show ?thesis using walk_entries_ok [where xs = "[]" and P = "\<lambda>_. True" and f = f and s = s, OF I h(2) _ f] h(1) by auto
qed

subsection \<open>A chunk of active entries\<close>

definition slot_entries :: "('v, 'x) cstate \<Rightarrow> (nat \<Rightarrow> nat list) \<Rightarrow> nat list \<Rightarrow> 'v entry list" where
  "slot_entries c L is = concat (map (\<lambda>i. contents c (L (slot_at c i))) is)"

lemma slot_entries_simps [simp]:
  "slot_entries c L [] = []" "slot_entries c L (i # is) = contents c (L (slot_at c i)) @ slot_entries c L is"
  "slot_entries c L (is @ js) = slot_entries c L is @ slot_entries c L js"
  by (simp_all add: slot_entries_def)

lemma item_ctor_key [simp]: "it_key (apc_iterator_item_ctor unp fmt e) = e_key e"
  by (simp add: apc_iterator_item_ctor_def Let_def)

lemma push_item_strip: "keep (strip e) = keep e \<Longrightarrow> push_item unp fmt keep (strip e) = push_item unp fmt keep e"
  by (simp add: push_item_def fun_eq_iff apc_iterator_item_ctor_def)

lemma push_items:
  assumes "n + length es < U64"
  shows "fold (push_item unp fmt keep) es (n, s) =
    (n + length (filter keep es), fold apc_stack_push (map (apc_iterator_item_ctor unp fmt) (filter keep es)) s)"
  using assms
proof (induction es arbitrary: n s)
  case (Cons e es)
  show ?case
  proof (cases "keep e")
    case True
    then have "push_item unp fmt keep e (n, s) = (Suc n, apc_stack_push (apc_iterator_item_ctor unp fmt e) s)"
      using Cons.prems by (simp add: push_item_def uadd_small)
    then show ?thesis using Cons.IH [of "Suc n"] Cons.prems True by simp
  next
    case False
    then show ?thesis using Cons by (simp add: push_item_def)
  qed
qed simp

lemma slot_entries_length:
  "cache_inv c L \<Longrightarrow> int (length (slot_entries c L [i..<nslots c])) \<le> h_nentries c"
proof -
  assume I: "cache_inv c L"
  have "length (slot_entries c L [i..<nslots c]) \<le> length (slot_entries c L [0..<nslots c])"
  proof (cases "i \<le> nslots c")
    case True
    then have "[0..<nslots c] = [0..<i] @ [i..<nslots c]" using upt_add_eq_append [of 0 i "nslots c - i"] by simp
    then show ?thesis by simp
  qed simp
  moreover have "length (slot_entries c L [0..<nslots c]) = length (entry_infos c L [0..<nslots c])"
    by (simp add: slot_entries_def entry_infos_def length_concat comp_def)
  ultimately show ?thesis using entry_infos_length [OF I] by simp
qed

lemma active_slots_ok:
  assumes I: "cache_inv c L" and k: "\<And>e. keep (strip e) = keep e" and "i \<le> nslots c"
    and "n + length (slot_entries c L [i..<nslots c]) < U64"
  shows "\<exists>j es. active_slots unp keep fmt chunk i (n, s) c =
      Some (j, n + length es, fold apc_stack_push (map (apc_iterator_item_ctor unp fmt) es) s) \<and>
    es = filter keep (slot_entries c L [i..<j]) \<and> i \<le> j \<and> j \<le> nslots c \<and> (chunk \<le> n + length es \<or> j = nslots c)"
  using assms(3,4)
proof (induction "nslots c - i" arbitrary: i n s)
  case 0
  then show ?case by (subst active_slots.simps) (intro exI [of _ i] exI [of _ "[]"], simp)
next
  case (Suc m)
  then have i: "i < nslots c" by simp
  let ?es = "contents c (L (slot_at c i))"
  have up: "[i..<nslots c] = i # [Suc i..<nslots c]" using i by (simp add: upt_conv_Cons)
  show ?case
  proof (cases "n < chunk")
    case False
    then show ?thesis using i by (subst active_slots.simps) (intro exI [of _ i] exI [of _ "[]"], simp)
  next
    case True
    let ?n = "n + length (filter keep ?es)"
      and ?s = "fold apc_stack_push (map (apc_iterator_item_ctor unp fmt) (filter keep ?es)) s"
    have len: "length (filter keep ?es) \<le> length ?es" by (rule length_filter_le)
    have p: "fold (push_item unp fmt keep) ?es (n, s) = (?n, ?s)"
      by (rule push_items) (use Suc.prems up in simp)
    obtain off where w: "walk_entries (\<lambda>_. True) (push_item unp fmt keep) (e_next (dat c (slot_addr c i))) c (n, s) = Some (off, ?n, ?s)"
      using walk_slot [where f = "push_item unp fmt keep" and s = "(n, s)", OF I i push_item_strip [where keep = keep, OF k]] unfolding p by blast
    have st: "active_slots unp keep fmt chunk i (n, s) c = active_slots unp keep fmt chunk (Suc i) (?n, ?s) c"
      by (subst active_slots.simps) (simp add: True i w)
    have "?n + length (slot_entries c L [Suc i..<nslots c]) < U64"
      using Suc.prems len unfolding up by simp
    moreover have "m = nslots c - Suc i" using Suc.hyps(2) by simp
    moreover have "Suc i \<le> nslots c" using i by simp
    ultimately obtain j es where r:
      "active_slots unp keep fmt chunk (Suc i) (?n, ?s) c =
        Some (j, ?n + length es, fold apc_stack_push (map (apc_iterator_item_ctor unp fmt) es) ?s)"
      "es = filter keep (slot_entries c L [Suc i..<j])" "Suc i \<le> j" "j \<le> nslots c" "chunk \<le> ?n + length es \<or> j = nslots c"
      using Suc.hyps(1) [of "Suc i" ?n ?s] by blast
    have upj: "[i..<j] = i # [Suc i..<j]" using r(3) by (simp add: upt_conv_Cons)
    show ?thesis
      by (rule exI [of _ j], rule exI [of _ "filter keep ?es @ es"]) (use st r upj in \<open>simp add: add.assoc\<close>)
  qed
qed

subsection \<open>Fetching\<close>

text \<open>A cache on which every attempt to take the lock succeeds.\<close>

definition quiet :: "('v, 'x) cstate \<Rightarrow> bool" where
  "quiet c \<longleftrightarrow> cache_ok c \<and> lockable c \<and> cache_lock_results c = []"

lemma quiet_lock:
  assumes "quiet c"
  shows "apc_cache_rlock c = Some (True, locked Rlocked c)" "apc_cache_runlock (locked Rlocked c) = c"
proof -
  have "lock_gets c" using assms by (simp add: quiet_def lock_gets_def)
  then show "apc_cache_rlock c = Some (True, locked Rlocked c)"
    using lock_as_ok [of c Rlocked] assms by (simp add: quiet_def apc_cache_rlock_def)
  show "apc_cache_runlock (locked Rlocked c) = c"
    using assms by (cases c) (auto simp: quiet_def locked_def apc_cache_runlock_def lockable_def)
qed

lemma quiet_time [simp]: "quiet (snd (apc_time c)) = quiet c"
proof -
  obtain r where r: "snd (apc_time c) = c\<lparr>request_time := r\<rparr>" using apc_time_ok by blast
  have "cache_inv (c\<lparr>request_time := r\<rparr>) L = cache_inv c L" for L using apc_time_inv(1) [of c L] r by simp
  moreover have "cache_lists (c\<lparr>request_time := r\<rparr>) = cache_lists c" by (simp add: cache_lists_def sma_blocks_def fun_eq_iff)
  ultimately show ?thesis unfolding r by (simp add: quiet_def cache_ok_def lockable_def)
qed

text \<open>The state of an iterator between the calls of its methods.\<close>

definition iter_ok :: "'a iterator \<Rightarrow> bool" where
  "iter_ok it \<longleftrightarrow> initialized it \<and> stack_ok (it_stack it) \<and> ssize (it_stack it) \<le> STACK_MAX \<and>
     0 \<le> stack_idx it \<and> stack_idx it \<le> int (ssize (it_stack it)) \<and> 0 < chunk_size it"

text \<open>The entries an active iterator has not fetched yet, at time \<open>t\<close>; the items it has not stepped over.\<close>

definition listed :: "(string \<Rightarrow> string \<Rightarrow> bool) \<Rightarrow> 'a iterator \<Rightarrow> int \<Rightarrow> 'v entry \<Rightarrow> bool" where
  "listed rx it t e \<longleftrightarrow> apc_iterator_check_expiry e t \<and> apc_iterator_search_match rx it e"

definition unread :: "'a iterator \<Rightarrow> 'a item list" where
  "unread it = drop (nat (stack_idx it)) (stack_items (it_stack it))"

definition unfetched ::
  "(string \<Rightarrow> string \<Rightarrow> bool) \<Rightarrow> (zval \<Rightarrow> 'v \<Rightarrow> 'a option) \<Rightarrow> 'a iterator \<Rightarrow> ('v, 'x) cstate \<Rightarrow> 'a item list" where
  "unfetched rx unp it c = map (apc_iterator_item_ctor unp (it_format it))
     (filter (listed rx it (fst (apc_time c))) (concat (map (bucket c) [slot_idx it..<nslots c])))"

lemma listed_strip: "listed rx it t (strip e) = listed rx it t e"
  by (simp add: listed_def apc_iterator_check_expiry_def apc_iterator_search_match_def Let_def split: option.splits)

lemma listed_cong:
  "regex it' = regex it \<Longrightarrow> search_hash it' = search_hash it \<Longrightarrow> listed rx it' t e = listed rx it t e"
  by (simp add: listed_def apc_iterator_search_match_def Let_def split: option.splits)

lemma listed_fields [simp]:
  "listed rx (it\<lparr>stack_idx := i, key_idx := k\<rparr>) = listed rx it"
  "listed rx (it\<lparr>slot_idx := j, stack_idx := i, key_idx := k\<rparr>) = listed rx it"
  "listed rx (it\<lparr>stack_idx := i\<rparr>) = listed rx it" "listed rx (it\<lparr>slot_idx := j\<rparr>) = listed rx it"
  by (intro ext, rule listed_cong; simp)+

lemma slot_entries_bucket: "slot_entries c (cache_lists c) js = concat (map (bucket c) js)"
  by (simp add: slot_entries_def bucket_def [abs_def])

lemma concat_split: "i \<le> j \<Longrightarrow> j \<le> n \<Longrightarrow> concat (map f [i..<n]) = concat (map f [i..<j]) @ concat (map f [j..<n])"
  using upt_add_eq_append [of i j "n - j"] by simp

lemma time_state: "bucket (snd (apc_time c)) = bucket c" "nslots (snd (apc_time c)) = nslots c" "garbage (snd (apc_time c)) = garbage c"
  "h_nentries (snd (apc_time c)) = h_nentries c" "apc_time (snd (apc_time c)) = apc_time c"
proof -
  obtain r where r: "snd (apc_time c) = c\<lparr>request_time := r\<rparr>" using apc_time_ok by blast
  have l: "cache_lists (c\<lparr>request_time := r\<rparr>) = cache_lists c" by (simp add: cache_lists_def sma_blocks_def fun_eq_iff)
  show "bucket (snd (apc_time c)) = bucket c" "garbage (snd (apc_time c)) = garbage c"
    "nslots (snd (apc_time c)) = nslots c" "h_nentries (snd (apc_time c)) = h_nentries c"
    unfolding r by (simp_all add: bucket_def garbage_def l contents_def slot_at_def gc_at_def fun_eq_iff)
  show "apc_time (snd (apc_time c)) = apc_time c" by (auto simp: apc_time_def Let_def)
qed

text \<open>Fetching replaces the stack by the next items; what is still to come stays the same.\<close>

lemma fetch_active_ok:
  fixes c :: "('v, 'x) cstate"
  assumes q: "quiet c" and it: "iter_ok it" "slot_idx it \<le> nslots c" and n: "h_nentries c \<le> int STACK_MAX"
  shows "\<exists>m it'. apc_iterator_fetch_active rx unp it c = Some (m, it', snd (apc_time c)) \<and> iter_ok it' \<and>
    slot_idx it' \<le> nslots c \<and> stack_idx it' = 0 \<and> m = ssize (it_stack it') \<and> it_fetch it' = it_fetch it \<and>
    stack_items (it_stack it') @ unfetched rx unp it' c = unfetched rx unp it c \<and>
    (m = 0 \<longrightarrow> unfetched rx unp it c = []) \<and> listed rx it' = (listed rx it :: int \<Rightarrow> 'v entry \<Rightarrow> bool) \<and>
    slot_idx it \<le> slot_idx it' \<and> stack_items (it_stack it') = map (apc_iterator_item_ctor unp (it_format it))
      (filter (listed rx it (fst (apc_time c))) (concat (map (bucket c) [slot_idx it..<slot_idx it'])))"
proof -
  let ?c = "snd (apc_time c)" and ?t = "fst (apc_time c)"
  let ?l = "locked Rlocked ?c" and ?L = "cache_lists ?c"
  define it0 where "it0 = it\<lparr>it_stack := drop_items (it_stack it)\<rparr>"
  have qc: "quiet ?c" using q by simp
  then have I: "cache_inv ?c ?L" by (simp add: quiet_def cache_ok_def)
  then have Il: "cache_inv ?l ?L" by simp
  have st: "stack_ok (it_stack it0)" "stack_items (it_stack it0) = []"
    using drop_items_ok [of "it_stack it"] it(1) by (simp_all add: iter_ok_def it0_def)
  have f: "nslots ?l = nslots c" "slot_entries ?l ?L = slot_entries ?c ?L" "h_nentries ?c = h_nentries c"
    by (simp_all add: locked_def time_state slot_entries_def slot_at_def fun_eq_iff contents_def)
  have bk: "slot_entries ?l ?L js = concat (map (bucket c) js)" for js
    unfolding f slot_entries_bucket time_state ..
  have le: "int (length (slot_entries ?l ?L [slot_idx it..<nslots ?l])) \<le> h_nentries c"
    using slot_entries_length [OF Il, of "slot_idx it"] f(3) by (simp add: locked_def split: if_splits)
  have sl: "slot_idx it \<le> nslots ?l" "0 + length (slot_entries ?l ?L [slot_idx it..<nslots ?l]) < U64"
    using it(2) le n f(1) by simp_all
  obtain j es where r: "active_slots unp (listed rx it0 ?t) (it_format it) (chunk_size it) (slot_idx it) (0, it_stack it0) ?l =
      Some (j, length es, fold apc_stack_push (map (apc_iterator_item_ctor unp (it_format it)) es) (it_stack it0))"
    "es = filter (listed rx it0 ?t) (concat (map (bucket c) [slot_idx it..<j]))" "slot_idx it \<le> j" "j \<le> nslots c"
    "chunk_size it \<le> length es \<or> j = nslots c"
    using active_slots_ok [where keep = "listed rx it0 ?t" and n = 0 and unp = unp and fmt = "it_format it" and chunk = "chunk_size it"
        and s = "it_stack it0", OF Il listed_strip sl] unfolding bk f(1) by auto
  define s' where "s' = fold apc_stack_push (map (apc_iterator_item_ctor unp (it_format it)) es) (it_stack it0)"
  define it' where "it' = it0\<lparr>slot_idx := j, it_stack := s', stack_idx := 0\<rparr>"
  have all: "concat (map (bucket c) [slot_idx it..<nslots c]) =
      concat (map (bucket c) [slot_idx it..<j]) @ concat (map (bucket c) [j..<nslots c])"
    by (rule concat_split [OF r(3,4)])
  have "length es \<le> length (concat (map (bucket c) [slot_idx it..<nslots c]))"
    unfolding all r(2) by (simp add: le_add1 order_trans [OF length_filter_le])
  then have "int (length es) \<le> h_nentries c" using le unfolding bk f(1) by simp
  then have els: "length es \<le> STACK_MAX" using n by simp
  then have s': "stack_ok s'" "stack_items s' = map (apc_iterator_item_ctor unp (it_format it)) es"
    using stk.push_all [OF st(1), of "map (apc_iterator_item_ctor unp (it_format it)) es"] st(2) by (simp_all add: s'_def)
  have sz: "ssize s' = length es" using arg_cong [OF s'(2), of length] by simp
  have keep: "listed rx it' t = (listed rx it t :: 'v entry \<Rightarrow> bool)" "listed rx it0 t = (listed rx it t :: 'v entry \<Rightarrow> bool)" for t
    by (rule ext, rule listed_cong, simp_all add: it'_def it0_def)+
  have it': "slot_idx it' = j" "it_stack it' = s'" "it_format it' = it_format it" "stack_idx it' = 0" "it_fetch it' = it_fetch it"
    "regex it' = regex it" "search_hash it' = search_hash it" by (simp_all add: it'_def it0_def)
  have run: "apc_iterator_fetch_active rx unp it c = Some (length es, it', ?c)"
    using r(1) quiet_lock [OF qc]
    by (simp add: apc_iterator_fetch_active_def Let_def it0_def [symmetric] listed_def [abs_def] it'_def s'_def)
      (simp add: it0_def)
  have un: "stack_items (it_stack it') @ unfetched rx unp it' c = unfetched rx unp it c"
    unfolding unfetched_def all it' s'(2) r(2) keep by simp
  have "unfetched rx unp it c = []" if "length es = 0"
  proof -
    have "j = nslots c" using r(5) that it(1) by (simp add: iter_ok_def)
    then show ?thesis using un that s'(2) by (simp add: it' unfetched_def)
  qed
  moreover have "iter_ok it'" using it(1) s' sz els by (simp add: iter_ok_def it'_def it0_def)
  moreover have "listed rx it' = (listed rx it :: int \<Rightarrow> 'v entry \<Rightarrow> bool)" using keep(1) by (simp add: fun_eq_iff)
  ultimately show ?thesis using run un sz r(3,4) s'(2) r(2) keep(2)
    by (intro exI [of _ "length es"] exI [of _ it']) (simp add: it')
qed

subsection \<open>The foreach protocol\<close>

text \<open>
  What PHP's \<open>foreach\<close> does with an iterator: \<open>valid\<close>, \<open>current\<close>, \<open>key\<close>, the loop body (which does nothing
  here), \<open>next\<close>. The first argument bounds the number of rounds; \<open>None\<close> means that they are not enough or that
  a method failed.
\<close>

fun foreach_loop ::
  "nat \<Rightarrow> (string \<Rightarrow> string \<Rightarrow> bool) \<Rightarrow> (zval \<Rightarrow> 'v \<Rightarrow> 'a option) \<Rightarrow> 'a iterator \<Rightarrow> ('v, 'x) cstate \<Rightarrow>
   ((string \<times> (string \<times> 'a field) list) list \<times> 'a iterator \<times> ('v, 'x) cstate) option" where
  "foreach_loop 0 rx unp it c = None"
| "foreach_loop (Suc n) rx unp it c = do {
     v \<leftarrow> APCUIterator_valid rx unp it c;
     case fst v of
       Returned True \<Rightarrow> do {
         x \<leftarrow> APCUIterator_current rx unp (fst (snd v)) (snd (snd v));
         k \<leftarrow> APCUIterator_key rx unp (fst (snd x)) (snd (snd x));
         case (fst k, fst x) of
           (Returned key, Returned val) \<Rightarrow> do {
             r \<leftarrow> foreach_loop n rx unp (snd (APCUIterator_next (fst (snd k)))) (snd (snd k));
             Some ((key, val) # fst r, snd r)
           }
         | _ \<Rightarrow> None
       }
     | Returned False \<Rightarrow> Some ([], snd v)
     | _ \<Rightarrow> None
   }"

definition foreach ::
  "nat \<Rightarrow> (string \<Rightarrow> string \<Rightarrow> bool) \<Rightarrow> (zval \<Rightarrow> 'v \<Rightarrow> 'a option) \<Rightarrow> 'a iterator \<Rightarrow> ('v, 'x) cstate \<Rightarrow>
   ((string \<times> (string \<times> 'a field) list) list \<times> 'a iterator \<times> ('v, 'x) cstate) option" where
  "foreach n rx unp it c = do {
     r \<leftarrow> APCUIterator_rewind rx unp it c;
     foreach_loop n rx unp (fst (snd r)) (snd (snd r))
   }"

text \<open>The cache after some calls of an iterator: at most the request time has been read.\<close>

definition time_only :: "('v, 'x) cstate \<Rightarrow> ('v, 'x) cstate \<Rightarrow> bool" where
  "time_only c c' \<longleftrightarrow> c' = c \<or> c' = snd (apc_time c)"

lemma time_only_simps:
  assumes "time_only c c'"
  shows "quiet c' = quiet c" "nslots c' = nslots c" "h_nentries c' = h_nentries c" "unfetched rx unp it c' = unfetched rx unp it c"
    "time_only c (snd (apc_time c'))" "cache_map c' = cache_map c"
  using assms by (auto simp: time_only_def time_state unfetched_def)

definition to_come ::
  "(string \<Rightarrow> string \<Rightarrow> bool) \<Rightarrow> (zval \<Rightarrow> 'v \<Rightarrow> 'a option) \<Rightarrow> 'a iterator \<Rightarrow> ('v, 'x) cstate \<Rightarrow> 'a item list" where
  "to_come rx unp it c = unread it @ unfetched rx unp it c"

definition ready :: "'a iterator \<Rightarrow> ('v, 'x) cstate \<Rightarrow> bool" where
  "ready it c \<longleftrightarrow> quiet c \<and> iter_ok it \<and> it_fetch it = apc_iterator_fetch_active_fn \<and> slot_idx it \<le> nslots c \<and>
     h_nentries c \<le> int STACK_MAX"

lemma exhausted_unread: "iter_ok it \<Longrightarrow> exhausted it \<longleftrightarrow> unread it = []"
  using stack_size_small [of "it_stack it"] by (auto simp: iter_ok_def exhausted_def unread_def)

lemma valid_ok:
  assumes r: "ready it c"
  shows "\<exists>it' c'. APCUIterator_valid rx unp it c = Some (Returned (to_come rx unp it c \<noteq> []), it', c') \<and> ready it' c' \<and>
    time_only c c' \<and> to_come rx unp it' c' = to_come rx unp it c \<and> (to_come rx unp it c \<noteq> [] \<longrightarrow> \<not> exhausted it')"
proof (cases "exhausted it")
  case False
  have "unread it \<noteq> []" "ssize (it_stack it) \<le> STACK_MAX" "initialized it"
    using False r exhausted_unread [of it] by (auto simp: ready_def iter_ok_def)
  moreover from this have "ssize (it_stack it) \<noteq> 0" using stack_items_length [of "it_stack it"] by (auto simp: unread_def)
  ultimately show ?thesis using False r
    by (intro exI [of _ it] exI [of _ c]) (auto simp: APCUIterator_valid_def time_only_def to_come_def stack_size_small)
next
  case True
  then have e: "to_come rx unp it c = unfetched rx unp it c" using r exhausted_unread [of it] by (simp add: to_come_def ready_def)
  obtain m it' where f: "apc_iterator_fetch_active rx unp it c = Some (m, it', snd (apc_time c))" "iter_ok it'"
    "slot_idx it' \<le> nslots c" "stack_idx it' = 0" "m = ssize (it_stack it')" "it_fetch it' = it_fetch it"
    "stack_items (it_stack it') @ unfetched rx unp it' c = unfetched rx unp it c" "m = 0 \<longrightarrow> unfetched rx unp it c = []"
    using fetch_active_ok [of c it rx unp] r by (auto simp: ready_def)
  have tm: "time_only c (snd (apc_time c))" by (simp add: time_only_def)
  note t = time_only_simps [OF tm]
  have rd: "ready it' (snd (apc_time c))" using r f t by (simp add: ready_def)
  have z: "m = 0 \<longleftrightarrow> to_come rx unp it c = []" using f(5,7,8) e stack_items_length [of "it_stack it'"]
    by (metis append_is_Nil_conv length_0_conv)
  have v: "APCUIterator_valid rx unp it c = Some (Returned (m \<noteq> 0), it', snd (apc_time c))"
    using True r f(1,2,5) by (simp add: APCUIterator_valid_def run_fetch_def ready_def iter_ok_def stack_size_small)
  have "to_come rx unp it' (snd (apc_time c)) = to_come rx unp it c"
    using f(4,7) e by (simp add: to_come_def unread_def t(4))
  moreover have "m \<noteq> 0 \<Longrightarrow> \<not> exhausted it'" using f(2,4,5) by (simp add: exhausted_def iter_ok_def stack_size_small)
  ultimately show ?thesis using v rd tm z by auto
qed

lemma current_item_ok:
  assumes "iter_ok it" "\<not> exhausted it"
  shows "current_item rx unp it c = Some (Returned (hd (unread it)), it, c)"
proof -
  have i: "0 \<le> stack_idx it" "nat (stack_idx it) < ssize (it_stack it)" "stack_ok (it_stack it)" "initialized it"
    "ssize (it_stack it) \<le> STACK_MAX"
    using assms stack_size_small [of "it_stack it"] by (auto simp: iter_ok_def exhausted_def)
  have "hd (unread it) = stack_items (it_stack it) ! nat (stack_idx it)"
    using i by (simp add: unread_def hd_drop_conv_nth)
  moreover have "nat (stack_idx it mod int U64) = nat (stack_idx it)" using i by simp
  ultimately show ?thesis using assms i stk.get_ok [OF i(3), of "nat (stack_idx it)"]
    by (simp add: current_item_def)
qed

lemma next_ok:
  assumes "ready it c" "\<not> exhausted it"
  shows "ready (snd (APCUIterator_next it)) c" "to_come rx unp (snd (APCUIterator_next it)) c = tl (to_come rx unp it c)"
proof -
  have i: "0 \<le> stack_idx it" "stack_idx it < int (ssize (it_stack it))" "ssize (it_stack it) \<le> STACK_MAX" "initialized it"
    using assms stack_size_small [of "it_stack it"] by (auto simp: ready_def iter_ok_def exhausted_def)
  then have n: "APCUIterator_next it = (Returned (), it\<lparr>stack_idx := stack_idx it + 1, key_idx := int64_of (key_idx it + 1)\<rparr>)"
    by (simp add: APCUIterator_next_def stack_size_small int32_of_id)
  show "ready (snd (APCUIterator_next it)) c" using assms(1) i by (simp add: n ready_def iter_ok_def)
  let ?it = "it\<lparr>stack_idx := stack_idx it + 1, key_idx := int64_of (key_idx it + 1)\<rparr>"
  have "unfetched rx unp ?it c = unfetched rx unp it c" by (simp add: unfetched_def)
  moreover have "unread ?it = tl (unread it)" using i by (simp add: unread_def tl_drop nat_add_distrib drop_Suc)
  moreover have "unread it \<noteq> []" using assms exhausted_unread [of it] by (simp add: ready_def)
  ultimately show "to_come rx unp (snd (APCUIterator_next it)) c = tl (to_come rx unp it c)" by (simp add: n to_come_def)
qed

lemma foreach_loop_ok:
  assumes "ready it c" "length (to_come rx unp it c) < n"
  shows "\<exists>it' c'. foreach_loop n rx unp it c = Some (map (\<lambda>i. (it_key i, it_value i)) (to_come rx unp it c), it', c') \<and>
    quiet c' \<and> cache_map c' = cache_map c"
  using assms
proof (induction n arbitrary: it c)
  case (Suc n)
  obtain it1 c1 where v: "APCUIterator_valid rx unp it c = Some (Returned (to_come rx unp it c \<noteq> []), it1, c1)" "ready it1 c1"
    "time_only c c1" "to_come rx unp it1 c1 = to_come rx unp it c" "to_come rx unp it c \<noteq> [] \<longrightarrow> \<not> exhausted it1"
    using valid_ok [OF Suc.prems(1)] by blast
  note t = time_only_simps [OF v(3)]
  show ?case
  proof (cases "to_come rx unp it c")
    case Nil
    then show ?thesis using v t by (simp add: ready_def)
  next
    case (Cons x xs)
    then have e: "\<not> exhausted it1" "iter_ok it1" using v by (simp_all add: ready_def)
    note ci = current_item_ok [OF e(2,1), of rx unp c1]
    have h: "hd (unread it1) = x" using v(4) Cons exhausted_unread [OF e(2)] e(1) by (cases "unread it1") (auto simp: to_come_def)
    note nx = next_ok [OF v(2) e(1)]
    have l: "to_come rx unp (snd (APCUIterator_next it1)) c1 = xs" using nx(2) [of rx unp] v(4) Cons by simp
    then obtain it' c' where
      "foreach_loop n rx unp (snd (APCUIterator_next it1)) c1 = Some (map (\<lambda>i. (it_key i, it_value i)) xs, it', c')"
      "quiet c'" "cache_map c' = cache_map c1"
      using Suc.IH [OF nx(1)] Suc.prems(2) Cons by auto
    then show ?thesis using v(1) Cons ci h t by (simp add: APCUIterator_current_def APCUIterator_key_def)
  qed
qed simp

lemma rewind_ok:
  assumes "ready it c"
  shows "\<exists>it' c'. APCUIterator_rewind rx unp it c = Some (Returned (), it', c') \<and> ready it' c' \<and> time_only c c' \<and>
    to_come rx unp it' c' = map (apc_iterator_item_ctor unp (it_format it))
      (filter (listed rx it (fst (apc_time c))) (concat (map (bucket c) [0..<nslots c])))"
proof -
  let ?it = "it\<lparr>slot_idx := 0, stack_idx := 0, key_idx := 0\<rparr>"
  have r: "ready ?it c" using assms by (simp add: ready_def iter_ok_def)
  obtain m it' where f: "apc_iterator_fetch_active rx unp ?it c = Some (m, it', snd (apc_time c))" "iter_ok it'"
    "slot_idx it' \<le> nslots c" "stack_idx it' = 0" "it_fetch it' = it_fetch ?it"
    "stack_items (it_stack it') @ unfetched rx unp it' c = unfetched rx unp ?it c"
    using fetch_active_ok [of c ?it rx unp] r unfolding ready_def by blast
  have tm: "time_only c (snd (apc_time c))" by (simp add: time_only_def)
  note t = time_only_simps [OF tm]
  have u: "unfetched rx unp ?it c = map (apc_iterator_item_ctor unp (it_format it))
      (filter (listed rx it (fst (apc_time c))) (concat (map (bucket c) [0..<nslots c])))"
    by (simp add: unfetched_def)
  have "ready it' (snd (apc_time c))" using assms f t by (simp add: ready_def)
  moreover have "to_come rx unp it' (snd (apc_time c)) = unfetched rx unp ?it c"
    using f(4,6) by (simp add: to_come_def unread_def t(4))
  moreover have "APCUIterator_rewind rx unp it c = Some (Returned (), it', snd (apc_time c))"
    using f(1) assms by (simp add: APCUIterator_rewind_def run_fetch_def ready_def iter_ok_def)
  ultimately show ?thesis using tm u by auto
qed

lemma foreach_ok:
  assumes "ready it c"
  shows "\<exists>n it' c'. foreach n rx unp it c = Some (map (\<lambda>e. (e_key e, it_value (apc_iterator_item_ctor unp (it_format it) e)))
      (filter (listed rx it (fst (apc_time c))) (concat (map (bucket c) [0..<nslots c]))), it', c') \<and>
    quiet c' \<and> cache_map c' = cache_map c"
proof -
  obtain it1 c1 where w: "APCUIterator_rewind rx unp it c = Some (Returned (), it1, c1)" "ready it1 c1" "time_only c c1"
    "to_come rx unp it1 c1 = map (apc_iterator_item_ctor unp (it_format it))
      (filter (listed rx it (fst (apc_time c))) (concat (map (bucket c) [0..<nslots c])))"
    using rewind_ok [OF assms, of rx unp] by blast
  obtain it' c' where "foreach_loop (Suc (length (to_come rx unp it1 c1))) rx unp it1 c1 =
      Some (map (\<lambda>i. (it_key i, it_value i)) (to_come rx unp it1 c1), it', c')" "quiet c'" "cache_map c' = cache_map c1"
    using foreach_loop_ok [OF w(2), of rx unp "Suc (length (to_come rx unp it1 c1))"] by auto
  then show ?thesis using w time_only_simps(6) [OF w(3)]
    by (intro exI [of _ "Suc (length (to_come rx unp it1 c1))"] exI [of _ it'] exI [of _ c'])
      (simp add: foreach_def comp_def apc_iterator_item_ctor_def Let_def)
qed

subsection \<open>The entries of the slots and the map\<close>

lemma bucket_slot:
  assumes I: "cache_ok c" and en: "en \<in> set (bucket c j)" "j < nslots c"
  shows "cache_map c (e_key en) = Some en \<and> slot_of c (e_key en) = j"
proof -
  have inv: "cache_inv c (cache_lists c)" using I by (simp add: cache_ok_def)
  have s: "slot_of c (e_key en) = j"
    using en contentD(1) [OF cache_invD(5) [OF inv]] by (auto simp: bucket_def contents_def slot_entry_def slot_of_def)
  then show ?thesis
    using find_distinct_iff [OF slot_keys_distinct [OF inv slot_of_less [OF inv]], of "e_key en" "e_key en" en] en(1)
    unfolding cache_map_def by (simp add: bucket_def)
qed

lemma bucket_iff:
  assumes "cache_ok c" "j < nslots c"
  shows "en \<in> set (bucket c j) \<longleftrightarrow> cache_map c (e_key en) = Some en \<and> slot_of c (e_key en) = j"
proof -
  have "en \<in> set (bucket c j)" if "cache_map c (e_key en) = Some en" "slot_of c (e_key en) = j"
    using that nth_mem unfolding cache_map_def find_Some_iff by metis
  then show ?thesis using bucket_slot [OF assms(1) _ assms(2)] by blast
qed

lemma bucket_map:
  assumes I: "cache_ok c"
  shows "en \<in> set (concat (map (bucket c) [i..<nslots c])) \<longleftrightarrow> cache_map c (e_key en) = Some en \<and> i \<le> slot_of c (e_key en)"
proof -
  have inv: "cache_inv c (cache_lists c)" using I by (simp add: cache_ok_def)
  have s: "slot_of c (e_key en) = j" if "en \<in> set (bucket c j)" "j < nslots c" for j
    using bucket_slot [OF I that] by simp
  have "cache_map c (e_key en) = Some en \<longleftrightarrow> en \<in> set (bucket c (slot_of c (e_key en)))"
    unfolding cache_map_def using find_distinct_iff [OF slot_keys_distinct [OF inv slot_of_less [OF inv]], of "e_key en" "e_key en" en]
    by (simp add: bucket_def)
  moreover have "en \<in> set (concat (map (bucket c) [i..<nslots c])) \<longleftrightarrow> (\<exists>j\<in>{i..<nslots c}. en \<in> set (bucket c j))" by simp
  moreover have "(\<exists>j\<in>{i..<nslots c}. en \<in> set (bucket c j)) \<longleftrightarrow>
      en \<in> set (bucket c (slot_of c (e_key en))) \<and> i \<le> slot_of c (e_key en)"
    using s slot_of_less [OF inv, of "e_key en"] by (metis atLeastLessThan_iff)
  ultimately show ?thesis by blast
qed

text \<open>Listed keys are distinct.\<close>

lemma slot_keys:
  assumes I: "cache_ok c"
  shows "distinct (map e_key (concat (map (bucket c) [0..<nslots c])))"
proof -
  have inv: "cache_inv c (cache_lists c)" using I by (simp add: cache_ok_def)
  have b: "distinct (map e_key (bucket c j))" if "j < nslots c" for j
    using slot_keys_distinct [OF inv that] by (simp add: bucket_def)
  have "distinct (map e_key (concat (map (bucket c) [0..<n])))" if "n \<le> nslots c" for n
    using that
  proof (induction n)
    case (Suc n)
    have "e_key x \<noteq> e_key y" if x: "x \<in> set (bucket c n)" and y: "y \<in> set (concat (map (bucket c) [0..<n]))" for x y
    proof -
      obtain j where j: "y \<in> set (bucket c j)" "j < n" using y by auto
      have "slot_of c (e_key x) = n" using bucket_slot [OF I x] Suc.prems by simp
      moreover have "slot_of c (e_key y) = j" using bucket_slot [OF I j(1)] j(2) Suc.prems by simp
      ultimately show ?thesis using j(2) by auto
    qed
    then have "set (map e_key (concat (map (bucket c) [0..<n]))) \<inter> set (map e_key (bucket c n)) = {}" by fastforce
    then show ?case using Suc b [of n] by simp
  qed simp
  then show ?thesis by simp
qed

end
