(* ===== verification/Iterator_Delete.thy ===== *)
theory Iterator_Delete imports Iterator_Correct Cache_Updates begin

text \<open>
  Deleting what an active iterator lists (\<open>apc_iterator_delete\<close>), and the iterator over the garbage list
  (\<open>apc_iterator_fetch_deleted\<close>).
\<close>

subsection \<open>Deleting one key\<close>

lemma quiet_delete:
  assumes q: "quiet c" and x: "cache_exists c"
  shows "\<exists>b c'. apc_cache_delete key c = Some (b, c') \<and> quiet c' \<and> cache_exists c' \<and> same_env c c' \<and>
    request_time c' = request_time c \<and> cache_map c' = (cache_map c)(key := None)"
proof -
  have l: "lockable c" "lock_gets c" "cache_inv c (cache_lists c)" "cache_lock_results c = []"
    using q by (simp_all add: quiet_def lock_gets_def cache_ok_def)
  let ?c = "locked Wlocked c"
  have lk: "apc_cache_wlock c = Some (True, ?c)" using l lock_as_ok [OF l(1), of Wlocked] by (simp add: apc_cache_wlock_def)
  have Ic: "cache_inv ?c (cache_lists c)" using l by simp
  obtain c1 L1 where d: "delete_scan key (fst (apc_cache_hash_slot c key)) (slot_addr c (snd (apc_cache_hash_slot c key))) ?c =
      Some (cache_map c key \<noteq> None, c1)" "cache_inv c1 L1" "same_config ?c c1" "cache_map c1 = (cache_map c)(key := None)"
    "request_time c1 = request_time ?c"
    using delete_map [OF Ic, of key] by auto
  have run: "apc_cache_delete key c = Some (cache_map c key \<noteq> None, apc_cache_wunlock c1)"
    using x lk d(1) by (simp add: apc_cache_delete_def Let_def)
  have e: "same_env c (apc_cache_wunlock c1)" by (rule same_env_unlock(1) [OF l(1) d(3)])
  have "cache_lock_results c1 = []" using same_config_sel(11) [OF d(3)] l(4) by (simp add: locked_def)
  then have "quiet (apc_cache_wunlock c1)"
    using cache_inv_ok [of "apc_cache_wunlock c1" L1] d(2) same_env_fun(7) [OF e] l(1)
    by (simp add: quiet_def) (simp add: apc_cache_wunlock_def)
  moreover have "request_time (apc_cache_wunlock c1) = request_time c"
    using d(5) by (simp add: apc_cache_wunlock_def locked_def)
  ultimately show ?thesis using run e d(4) same_env_sel(1) [OF e] x by auto
qed

text \<open>What a sequence of deletions keeps.\<close>

definition only_deleted :: "('v, 'x) cstate \<Rightarrow> (string \<Rightarrow> bool) \<Rightarrow> ('v, 'x) cstate \<Rightarrow> bool" where
  "only_deleted c D c' \<longleftrightarrow> quiet c' \<and> cache_exists c' \<and> slot_of c' = slot_of c \<and> nslots c' = nslots c \<and>
     fst (apc_time c') = fst (apc_time c) \<and> (\<forall>k. cache_map c' k = (if D k then None else cache_map c k))"

lemma only_deleted_refl: "quiet c \<Longrightarrow> cache_exists c \<Longrightarrow> (\<And>k. D k \<Longrightarrow> cache_map c k = None) \<Longrightarrow> only_deleted c D c"
  by (auto simp: only_deleted_def)

lemma only_deleted_trans:
  "only_deleted c D c1 \<Longrightarrow> only_deleted c1 D' c2 \<Longrightarrow> (\<And>k. E k \<longleftrightarrow> D k \<or> D' k) \<Longrightarrow> only_deleted c E c2"
  by (simp add: only_deleted_def)

lemma only_deleted_delete:
  assumes "quiet c" "cache_exists c"
  shows "\<exists>b c'. apc_cache_delete key c = Some (b, c') \<and> only_deleted c (\<lambda>k. k = key) c'"
proof -
  obtain b c' where d: "apc_cache_delete key c = Some (b, c')" "quiet c'" "cache_exists c'" "same_env c c'"
    "request_time c' = request_time c" "cache_map c' = (cache_map c)(key := None)"
    using quiet_delete [OF assms] by blast
  have "fst (apc_time c') = fst (apc_time c)"
    using d(5) same_env_sel(13,14,15) [OF d(4)] by (auto simp: apc_time_def Let_def)
  then show ?thesis using d same_env_fun(6) [OF d(4)] same_env_sel(5) [OF d(4)] by (auto simp: only_deleted_def)
qed

lemma only_deleted_time: "quiet c \<Longrightarrow> cache_exists c \<Longrightarrow> only_deleted c (\<lambda>_. False) (snd (apc_time c))"
proof -
  assume a: "quiet c" "cache_exists c"
  obtain r where r: "snd (apc_time c) = c\<lparr>request_time := r\<rparr>" using apc_time_ok by blast
  show ?thesis using a time_state(5) [of c]
    by (simp add: only_deleted_def time_state) (simp add: r slot_of_def fun_eq_iff)
qed

subsection \<open>Counting entries\<close>

lemma nentries_map:
  assumes "cache_ok c"
  shows "finite {en. cache_map c (e_key en) = Some en}" "h_nentries c = int (card {en. cache_map c (e_key en) = Some en})"
proof -
  have inv: "cache_inv c (cache_lists c)" using assms by (simp add: cache_ok_def)
  let ?es = "concat (map (bucket c) [0..<nslots c])"
  have s: "set ?es = {en. cache_map c (e_key en) = Some en}" using bucket_map [OF assms, of _ 0] by auto
  have "distinct ?es" using slot_keys [OF assms] by (simp only: distinct_map)
  then have "card (set ?es) = length ?es" by (rule distinct_card)
  moreover have "length ?es = length (entry_infos c (cache_lists c) [0..<nslots c])"
    by (simp add: entry_infos_def bucket_def [abs_def] length_concat comp_def)
  ultimately show "h_nentries c = int (card {en. cache_map c (e_key en) = Some en})"
    using entry_infos_length [OF inv] unfolding s by simp
  show "finite {en. cache_map c (e_key en) = Some en}" unfolding s [symmetric] by simp
qed

lemma only_deleted_nentries:
  assumes "cache_ok c" "only_deleted c D c'"
  shows "h_nentries c' \<le> h_nentries c"
proof -
  have s: "{en. cache_map c' (e_key en) = Some en} \<subseteq> {en. cache_map c (e_key en) = Some en}"
    using assms(2) by (auto simp: only_deleted_def split: if_splits)
  have "cache_ok c'" using assms(2) by (simp add: only_deleted_def quiet_def)
  then show ?thesis using card_mono [OF nentries_map(1) [OF assms(1)] s] nentries_map(2) [OF assms(1)] nentries_map(2) [of c'] by simp
qed

subsection \<open>Deleting the items of a chunk\<close>

lemma delete_items_ok:
  assumes "iter_ok it" "quiet c" "cache_exists c"
  shows "\<exists>c'. delete_items it c = Some (it\<lparr>stack_idx := int (ssize (it_stack it))\<rparr>, c') \<and>
    only_deleted c (\<lambda>k. k \<in> it_key ` set (unread it)) c'"
  using assms
proof (induction "ssize (it_stack it) - nat (stack_idx it)" arbitrary: it c)
  case 0
  then have i: "stack_idx it = int (ssize (it_stack it))" "ssize (it_stack it) \<le> STACK_MAX" by (auto simp: iter_ok_def)
  then have "delete_items it c = Some (it, c)" by (subst delete_items.simps) (simp add: stack_size_small)
  moreover have "unread it = []" using i(1) by (simp add: unread_def)
  moreover have "it\<lparr>stack_idx := int (ssize (it_stack it))\<rparr> = it" using i(1) by (cases it) simp
  ultimately show ?case using only_deleted_refl [OF 0(3,4)] by simp
next
  case (Suc n)
  then have i: "0 \<le> stack_idx it" "nat (stack_idx it) < ssize (it_stack it)" "ssize (it_stack it) \<le> STACK_MAX"
    "stack_ok (it_stack it)" "stack_idx it < apc_stack_size (it_stack it)"
    by (auto simp: iter_ok_def stack_size_small)
  let ?item = "stack_items (it_stack it) ! nat (stack_idx it)" and ?it = "it\<lparr>stack_idx := stack_idx it + 1\<rparr>"
  have g: "apc_stack_get (it_stack it) (nat (stack_idx it mod int U64)) = Some ?item"
    using stk.get_ok [OF i(4), of "nat (stack_idx it)"] i(1-3) by simp
  have u: "unread it = ?item # unread ?it" using i(1,2) by (simp add: unread_def Cons_nth_drop_Suc nat_add_distrib)
  obtain b c1 where d: "apc_cache_delete (it_key ?item) c = Some (b, c1)" "only_deleted c (\<lambda>k. k = it_key ?item) c1"
    using only_deleted_delete [OF Suc.prems(2,3)] by blast
  have st: "delete_items it c = delete_items ?it c1"
    using i g d(1) by (subst delete_items.simps) (simp add: int32_of_id)
  have n: "n = ssize (it_stack ?it) - nat (stack_idx ?it)" using Suc.hyps(2) i by (simp add: nat_add_distrib)
  have k: "iter_ok ?it" using Suc.prems(1) i by (simp add: iter_ok_def)
  have c1: "quiet c1" "cache_exists c1" using d(2) by (simp_all add: only_deleted_def)
  obtain c' where r: "delete_items ?it c1 = Some (?it\<lparr>stack_idx := int (ssize (it_stack ?it))\<rparr>, c')"
    "only_deleted c1 (\<lambda>k. k \<in> it_key ` set (unread ?it)) c'"
    using Suc.hyps(1) [OF n k c1] by blast
  have "only_deleted c (\<lambda>k. k \<in> it_key ` set (unread it)) c'"
    by (rule only_deleted_trans [OF d(2) r(2)]) (simp add: u)
  then show ?case using st r(1) by simp
qed

text \<open>The keys an active iterator still lists.\<close>

definition to_delete :: "(string \<Rightarrow> string \<Rightarrow> bool) \<Rightarrow> 'a iterator \<Rightarrow> ('v, 'x) cstate \<Rightarrow> nat \<Rightarrow> string \<Rightarrow> bool" where
  "to_delete rx it c i k \<longleftrightarrow> i \<le> slot_of c k \<and> (\<exists>en. cache_map c k = Some en \<and> listed rx it (fst (apc_time c)) en)"

lemma key_of_map: "cache_ok c \<Longrightarrow> cache_map c k = Some en \<Longrightarrow> e_key en = k"
  by (auto simp: cache_map_def find_Some_iff)

lemma delete_chunks_ok:
  fixes c :: "('v, 'x) cstate"
  assumes "ready it c" "cache_exists c"
  shows "\<exists>it' c'. delete_chunks rx unp it c = Some (it', c') \<and> only_deleted c (to_delete rx it c (slot_idx it)) c'"
  using assms
proof (induction "nslots c - slot_idx it" arbitrary: it c rule: less_induct)
  case less
  have q: "quiet c" "iter_ok it" "it_fetch it = apc_iterator_fetch_active_fn" "slot_idx it \<le> nslots c"
    "h_nentries c \<le> int STACK_MAX" using less.prems(1) by (simp_all add: ready_def)
  let ?t = "fst (apc_time c)" and ?c = "snd (apc_time c)"
  obtain m it1 where f: "apc_iterator_fetch_active rx unp it c = Some (m, it1, ?c)" "iter_ok it1"
    "slot_idx it1 \<le> nslots c" "stack_idx it1 = 0" "m = ssize (it_stack it1)" "it_fetch it1 = it_fetch it"
    "m = 0 \<longrightarrow> unfetched rx unp it c = []" "listed rx it1 = (listed rx it :: int \<Rightarrow> 'v entry \<Rightarrow> bool)" "slot_idx it \<le> slot_idx it1"
    "stack_items (it_stack it1) = map (apc_iterator_item_ctor unp (it_format it))
      (filter (listed rx it ?t) (concat (map (bucket c) [slot_idx it..<slot_idx it1])))"
    using fetch_active_ok [OF q(1,2,4,5), of rx unp] by (elim exE conjE) (rule that)
  have ok: "cache_ok c" "quiet ?c" "cache_exists ?c" "quiet c"
    using q less.prems(2) only_deleted_time [of c] by (simp_all add: quiet_def only_deleted_def)
  have run: "run_fetch rx unp it c = Some (m, it1, ?c)" using f(1) q by (simp add: run_fetch_def)
  note t0 = only_deleted_time [OF ok(4) less.prems(2)]
  have sp: "concat (map (bucket c) [slot_idx it..<nslots c]) =
      concat (map (bucket c) [slot_idx it..<slot_idx it1]) @ concat (map (bucket c) [slot_idx it1..<nslots c])"
    by (rule concat_split [OF f(9,3)])
  show ?case
  proof (cases "m = 0")
    case True
    have none: "\<not> to_delete rx it c (slot_idx it) k" for k
    proof
      assume "to_delete rx it c (slot_idx it) k"
      then obtain en where en: "slot_idx it \<le> slot_of c k" "cache_map c k = Some en" "listed rx it ?t en"
        by (auto simp: to_delete_def)
      then have "en \<in> set (concat (map (bucket c) [slot_idx it..<nslots c]))"
        using bucket_map [OF ok(1)] key_of_map [OF ok(1) en(2)] by simp
      then show False using f(7) True en(3) by (auto simp: unfetched_def filter_empty_conv)
    qed
    have "delete_chunks rx unp it c = Some (it1, ?c)" using run True by (subst delete_chunks.simps) simp
    moreover have "only_deleted c (to_delete rx it c (slot_idx it)) ?c"
      using t0 none by (simp add: only_deleted_def)
    ultimately show ?thesis by blast
  next
    case False
    obtain c2 where d: "delete_items it1 ?c = Some (it1\<lparr>stack_idx := int (ssize (it_stack it1))\<rparr>, c2)"
      "only_deleted ?c (\<lambda>k. k \<in> it_key ` set (unread it1)) c2"
      using delete_items_ok [OF f(2) ok(2,3)] by blast
    let ?it2 = "it1\<lparr>stack_idx := int (ssize (it_stack it1))\<rparr>"
    have chunk: "k \<in> it_key ` set (unread it1) \<longleftrightarrow>
        slot_of c k < slot_idx it1 \<and> to_delete rx it c (slot_idx it) k" for k
    proof -
      have un: "unread it1 = map (apc_iterator_item_ctor unp (it_format it))
          (filter (listed rx it ?t) (concat (map (bucket c) [slot_idx it..<slot_idx it1])))"
        using f(4,10) by (simp add: unread_def)
      have "it_key ` set (unread it1) = e_key ` {en \<in> set (concat (map (bucket c) [slot_idx it..<slot_idx it1])). listed rx it ?t en}"
        unfolding un by (simp add: image_image)
      moreover have "en \<in> set (concat (map (bucket c) [slot_idx it..<slot_idx it1])) \<longleftrightarrow>
          cache_map c (e_key en) = Some en \<and> slot_idx it \<le> slot_of c (e_key en) \<and> slot_of c (e_key en) < slot_idx it1" for en
      proof -
        have "en \<in> set (concat (map (bucket c) [slot_idx it..<slot_idx it1])) \<longleftrightarrow> (\<exists>j\<in>{slot_idx it..<slot_idx it1}. en \<in> set (bucket c j))"
          by simp
        also have "\<dots> \<longleftrightarrow> (\<exists>j\<in>{slot_idx it..<slot_idx it1}. cache_map c (e_key en) = Some en \<and> slot_of c (e_key en) = j)"
          by (rule bex_cong [OF refl]) (use bucket_iff [OF ok(1)] f(3) in simp)
        also have "\<dots> \<longleftrightarrow> cache_map c (e_key en) = Some en \<and> slot_idx it \<le> slot_of c (e_key en) \<and> slot_of c (e_key en) < slot_idx it1"
          by auto
        finally show ?thesis .
      qed
      ultimately show ?thesis using key_of_map [OF ok(1), of k] by (auto simp: to_delete_def image_iff)
    qed
    have od: "only_deleted c (\<lambda>k. k \<in> it_key ` set (unread it1)) c2" by (rule only_deleted_trans [OF t0 d(2)]) simp
    then have c2: "quiet c2" "cache_exists c2" "slot_of c2 = slot_of c" "nslots c2 = nslots c" "fst (apc_time c2) = ?t"
      "\<And>k. cache_map c2 k = (if k \<in> it_key ` set (unread it1) then None else cache_map c k)"
      by (simp_all add: only_deleted_def)
    have rd: "ready ?it2 c2"
      using f(2,3,6) q c2(1,4) only_deleted_nentries [OF ok(1) od] by (simp add: ready_def iter_ok_def)
    have "slot_idx it < slot_idx it1"
      using False f(5,9,10) stack_items_length [of "it_stack it1"] by (cases "slot_idx it = slot_idx it1") auto
    then have dec: "nslots c2 - slot_idx ?it2 < nslots c - slot_idx it" using f(3) c2(4) by simp
    obtain it' c' where r: "delete_chunks rx unp ?it2 c2 = Some (it', c')"
      "only_deleted c2 (to_delete rx ?it2 c2 (slot_idx ?it2)) c'"
      using less.hyps [OF dec rd c2(2)] by blast
    have "to_delete rx ?it2 c2 (slot_idx ?it2) k \<longleftrightarrow> slot_idx it1 \<le> slot_of c k \<and> to_delete rx it c (slot_idx it1) k" for k
      unfolding to_delete_def c2 using chunk [of k] f(8) by auto
    then have "only_deleted c (to_delete rx it c (slot_idx it)) c'"
      by (intro only_deleted_trans [OF od r(2)]) (use chunk f(9) in \<open>auto simp: to_delete_def\<close>)
    moreover have "delete_chunks rx unp it c = Some (it', c')"
      using run False d(1) r(1) by (subst delete_chunks.simps) simp
    ultimately show ?thesis by blast
  qed
qed

subsection \<open>The iterator over the garbage list\<close>

lemma scan_push:
  assumes "n + length es < U64" "n \<le> k"
  shows "fst (scan (\<lambda>r. fst r < k) (push_item unp fmt keep) es (n, s)) =
    (n + length (take (k - n) (filter keep es)),
     fold apc_stack_push (map (apc_iterator_item_ctor unp fmt) (take (k - n) (filter keep es))) s)"
  using assms
proof (induction es arbitrary: n s)
  case (Cons e es)
  show ?case
  proof (cases "n < k \<and> keep e")
    case True
    then have "push_item unp fmt keep e (n, s) = (Suc n, apc_stack_push (apc_iterator_item_ctor unp fmt e) s)"
      using Cons.prems by (simp add: push_item_def uadd_small)
    moreover have "k - n = Suc (k - Suc n)" using True by linarith
    ultimately show ?thesis using Cons.IH [of "Suc n"] Cons.prems True by simp
  next
    case False
    then show ?thesis using Cons by (auto simp: push_item_def)
  qed
qed simp

text \<open>What a chunk of the garbage list holds: the list without its first \<open>slot_idx + 1\<close> entries is searched.\<close>

definition deleted_chunk :: "(string \<Rightarrow> string \<Rightarrow> bool) \<Rightarrow> 'a iterator \<Rightarrow> ('v, 'x) cstate \<Rightarrow> 'v entry list" where
  "deleted_chunk rx it c = take (chunk_size it) (filter (apc_iterator_search_match rx it) (drop (Suc (slot_idx it)) (garbage c)))"

definition garbage_iter :: "'a iterator \<Rightarrow> ('v, 'x) cstate \<Rightarrow> bool" where
  "garbage_iter it c \<longleftrightarrow> quiet c \<and> iter_ok it \<and> it_fetch it = apc_iterator_fetch_deleted_fn \<and>
     ssize (it_stack it) = slot_idx it \<and> slot_idx it \<le> length (garbage c) \<and> 2 * length (garbage c) \<le> STACK_MAX"

lemma search_match_strip [simp]: "apc_iterator_search_match rx it (strip e) = apc_iterator_search_match rx it e"
  by (simp add: apc_iterator_search_match_def Let_def split: option.splits)

lemma search_match_fields [simp]:
  "apc_iterator_search_match rx (it\<lparr>slot_idx := n\<rparr>) = apc_iterator_search_match rx it"
  "apc_iterator_search_match rx (it\<lparr>stack_idx := i\<rparr>) = apc_iterator_search_match rx it"
  "apc_iterator_search_match rx (it\<lparr>key_idx := i\<rparr>) = apc_iterator_search_match rx it"
  "apc_iterator_search_match rx (it\<lparr>it_stack := s\<rparr>) = apc_iterator_search_match rx it"
  by (simp_all add: fun_eq_iff apc_iterator_search_match_def)

lemma fetch_deleted_ok:
  fixes c :: "('v, 'x) cstate"
  assumes q: "quiet c" and st: "stack_ok (it_stack it)" and g: "length (garbage c) + ssize (it_stack it) \<le> STACK_MAX"
    "slot_idx it \<le> STACK_MAX"
  shows "\<exists>s'. apc_iterator_fetch_deleted rx unp it c = Some (length (deleted_chunk rx it c),
      it\<lparr>slot_idx := slot_idx it + length (deleted_chunk rx it c), it_stack := s', stack_idx := 0\<rparr>, c) \<and>
    stack_ok s' \<and> stack_items s' = stack_items (it_stack it) @ map (apc_iterator_item_ctor unp (it_format it)) (deleted_chunk rx it c)"
proof -
  let ?L = "cache_lists c" and ?l = "locked Rlocked c" and ?keep = "apc_iterator_search_match rx it"
  have I: "cache_inv ?l ?L" using q by (simp add: quiet_def cache_ok_def)
  note ad = header_addrs [OF cache_invD(6) [OF I]]
  have f: "contents ?l = contents c" "gc_at ?l = gc_at c" "contents c (?L (gc_at c)) = garbage c"
    by (simp_all add: locked_def gc_at_def garbage_def)
  have len: "length (deleted_chunk rx it c) \<le> length (garbage c)"
    unfolding deleted_chunk_def by (metis (no_types, lifting) diff_le_self le_trans length_drop length_filter_le length_take min.cobounded1)
  obtain ys1 ys2 where w1: "?L (gc_at ?l) = ys1 @ ys2"
    "walk_entries (\<lambda>n. n \<le> slot_idx it) (\<lambda>_ n. uadd n 1) (e_next (dat ?l (last (gc_at ?l # [])))) ?l 0 =
      Some (e_next (dat ?l (last (gc_at ?l # [] @ ys1))), fst (scan (\<lambda>n. n \<le> slot_idx it) (\<lambda>_ n. uadd n 1) (contents ?l (?L (gc_at ?l))) 0))"
    "snd (scan (\<lambda>n. n \<le> slot_idx it) (\<lambda>_ n. uadd n 1) (contents ?l (?L (gc_at ?l))) 0) = contents ?l ys2"
    using walk_entries_ok [where xs = "[]" and P = "\<lambda>n. n \<le> slot_idx it" and f = "\<lambda>_ n. uadd n 1" and s = 0, OF I ad(6) _ refl] by auto
  have ys2: "contents c ys2 = drop (Suc (slot_idx it)) (garbage c)"
    using w1(3) scan_count [of 0 "garbage c" "slot_idx it"] g unfolding f by simp
  have "length (contents c ys2) \<le> length (garbage c)" unfolding ys2 by simp
  then have l2: "0 + length (contents c ys2) < U64" using g by simp
  obtain zs1 zs2 where w2:
    "walk_entries (\<lambda>r. fst r < chunk_size it) (push_item unp (it_format it) ?keep) (e_next (dat ?l (last (gc_at ?l # ys1)))) ?l (0, it_stack it) =
      Some (e_next (dat ?l (last (gc_at ?l # ys1 @ zs1))), fst (scan (\<lambda>r. fst r < chunk_size it) (push_item unp (it_format it) ?keep)
        (contents ?l ys2) (0, it_stack it)))"
    using walk_entries_ok [where xs = ys1 and ys = ys2 and P = "\<lambda>r. fst r < chunk_size it" and f = "push_item unp (it_format it) ?keep"
        and s = "(0, it_stack it)", OF I ad(6) w1(1) push_item_strip] by auto
  define s' where "s' = fold apc_stack_push (map (apc_iterator_item_ctor unp (it_format it)) (deleted_chunk rx it c)) (it_stack it)"
  have sc: "fst (scan (\<lambda>r. fst r < chunk_size it) (push_item unp (it_format it) ?keep) (contents ?l ys2) (0, it_stack it)) =
      (length (deleted_chunk rx it c), s')"
    using scan_push [OF l2, of "chunk_size it" unp "it_format it" ?keep "it_stack it"] unfolding f ys2
    by (simp add: deleted_chunk_def s'_def)
  have "apc_iterator_fetch_deleted rx unp it c = Some (length (deleted_chunk rx it c),
      it\<lparr>slot_idx := slot_idx it + length (deleted_chunk rx it c), it_stack := s', stack_idx := 0\<rparr>, c)"
    using w1(2) w2 quiet_lock [OF q] len g unfolding sc by (simp add: apc_iterator_fetch_deleted_def Let_def ad(1) uadd_small)
  then show ?thesis using stk.push_all [OF st, of "map (apc_iterator_item_ctor unp (it_format it)) (deleted_chunk rx it c)"] len g
    by (intro exI [of _ s']) (simp add: s'_def)
qed

lemma garbage_valid:
  fixes c :: "('v, 'x) cstate"
  assumes r: "garbage_iter it c" and "ssize (it_stack it) \<noteq> 0"
  shows "\<exists>it'. APCUIterator_valid rx unp it c = Some (Returned True, it', c) \<and> garbage_iter it' c \<and>
    ssize (it_stack it') \<noteq> 0 \<and> \<not> exhausted it'"
proof (cases "exhausted it")
  case False
  then show ?thesis using assms
    by (intro exI [of _ it]) (simp add: APCUIterator_valid_def garbage_iter_def iter_ok_def stack_size_small)
next
  case True
  have q: "quiet c" "iter_ok it" "it_fetch it = apc_iterator_fetch_deleted_fn" "ssize (it_stack it) = slot_idx it"
    "slot_idx it \<le> length (garbage c)" "2 * length (garbage c) \<le> STACK_MAX" using r by (simp_all add: garbage_iter_def)
  have st: "stack_ok (it_stack it)" using q(2) by (simp add: iter_ok_def)
  let ?d = "deleted_chunk rx it c"
  have d: "slot_idx it + length ?d \<le> length (garbage c)"
  proof -
    have "length ?d \<le> length (drop (Suc (slot_idx it)) (garbage c))"
      using length_filter_le [of "apc_iterator_search_match rx it" "drop (Suc (slot_idx it)) (garbage c)"]
      by (simp add: deleted_chunk_def min.coboundedI1 del: length_drop)
    then show ?thesis using q(5) by simp
  qed
  obtain s' where f: "apc_iterator_fetch_deleted rx unp it c = Some (length ?d,
      it\<lparr>slot_idx := slot_idx it + length ?d, it_stack := s', stack_idx := 0\<rparr>, c)" "stack_ok s'"
    "stack_items s' = stack_items (it_stack it) @ map (apc_iterator_item_ctor unp (it_format it)) ?d"
    using fetch_deleted_ok [where it = it and rx = rx and unp = unp, OF q(1) st] q(4,5,6) by auto
  let ?it = "it\<lparr>slot_idx := slot_idx it + length ?d, it_stack := s', stack_idx := 0\<rparr>"
  have n: "ssize s' = ssize (it_stack it) + length ?d" using arg_cong [OF f(3), of length] by simp
  then have sz: "ssize s' \<le> STACK_MAX" "ssize s' \<noteq> 0" using d q(4,6) assms(2) by simp_all
  have "garbage_iter ?it c" using q d n f(2) sz by (simp add: garbage_iter_def iter_ok_def)
  moreover have "APCUIterator_valid rx unp it c = Some (Returned True, ?it, c)"
    using True q(2,3) f(1) sz by (simp add: APCUIterator_valid_def run_fetch_def iter_ok_def stack_size_small)
  moreover have "\<not> exhausted ?it" using sz by (simp add: exhausted_def stack_size_small)
  ultimately show ?thesis using sz by auto
qed

lemma garbage_loop:
  assumes "garbage_iter it c" "ssize (it_stack it) \<noteq> 0"
  shows "foreach_loop n rx unp it c = None"
  using assms
proof (induction n arbitrary: it)
  case (Suc n)
  obtain it1 where v: "APCUIterator_valid rx unp it c = Some (Returned True, it1, c)" "garbage_iter it1 c"
    "ssize (it_stack it1) \<noteq> 0" "\<not> exhausted it1"
    using garbage_valid [OF Suc.prems] by blast
  have i: "iter_ok it1" using v(2) by (simp add: garbage_iter_def)
  then have b: "0 \<le> stack_idx it1" "stack_idx it1 < int (ssize (it_stack it1))" "ssize (it_stack it1) \<le> STACK_MAX" "initialized it1"
    using v(4) stack_size_small [of "it_stack it1"] by (auto simp: iter_ok_def exhausted_def)
  have nx: "APCUIterator_next it1 = (Returned (), it1\<lparr>stack_idx := stack_idx it1 + 1, key_idx := int64_of (key_idx it1 + 1)\<rparr>)"
    using b v(3) by (simp add: APCUIterator_next_def stack_size_small int32_of_id)
  have "foreach_loop n rx unp (snd (APCUIterator_next it1)) c = None"
    by (rule Suc.IH) (use v(2,3) b in \<open>simp_all add: nx garbage_iter_def iter_ok_def\<close>)
  then show ?case using v(1) current_item_ok [OF i v(4), of rx unp c]
    by (simp add: APCUIterator_current_def APCUIterator_key_def)
qed simp

subsection \<open>A new iterator\<close>

lemma construct_ok:
  assumes "APCUIterator_construct compiles enabled search format chunk list apc_iterator_create = (Returned (), it)"
    "initialized it" "chunk < 2147483648"
  shows "iter_ok it" "slot_idx it = 0" "stack_idx it = 0" "ssize (it_stack it) = 0" "it_format it = format"
    "it_fetch it = (if list = APC_LIST_ACTIVE then apc_iterator_fetch_active_fn else apc_iterator_fetch_deleted_fn)"
    "0 < chunk_size it"
proof -
  have u: "\<not> initialized apc_iterator_create" by (simp add: apc_iterator_create_def)
  have "nat chunk < U64" using assms(3) by simp
  then have "stack_ok (apc_stack_create (nat chunk))" "ssize (apc_stack_create (nat chunk)) = 0"
    by (simp, simp add: apc_stack_create_def)
  then have "iter_ok it \<and> slot_idx it = 0 \<and> stack_idx it = 0 \<and> ssize (it_stack it) = 0 \<and> it_format it = format \<and>
    it_fetch it = (if list = APC_LIST_ACTIVE then apc_iterator_fetch_active_fn else apc_iterator_fetch_deleted_fn) \<and> 0 < chunk_size it"
    using assms(1,2) u unfolding APCUIterator_construct_def apc_iterator_obj_init_def
    by (auto simp: Let_def iter_ok_def APC_DEFAULT_CHUNK_SIZE_def split: if_splits search.splits)
  then show "iter_ok it" "slot_idx it = 0" "stack_idx it = 0" "ssize (it_stack it) = 0" "it_format it = format"
    "it_fetch it = (if list = APC_LIST_ACTIVE then apc_iterator_fetch_active_fn else apc_iterator_fetch_deleted_fn)"
    "0 < chunk_size it" by blast+
qed

end
