(* ===== verification/Iterator_Properties.thy ===== *)
theory Iterator_Properties imports Iterator_Delete Cache_Example begin

text \<open>
  The properties of \<open>APCUIterator\<close>: what \<open>foreach\<close> lists, what deleting with an iterator deletes, and the
  iterator over deleted entries.
\<close>

lemma quiet_ex1: "quiet ex1" "h_nentries ex1 \<le> 2147483647"
  by (simp_all add: quiet_def ex1_ok ex1_fields) (simp add: ex_cache_def)

definition ex_iter :: "int \<Rightarrow> int \<Rightarrow> int iterator" where
  "ex_iter chunk list = snd (APCUIterator_construct (\<lambda>_. True) True No_search APC_ITER_KEY chunk list apc_iterator_create)"

lemma ex_iter: "APCUIterator_construct (\<lambda>_. True) True No_search APC_ITER_KEY 1 list apc_iterator_create = (Returned (), ex_iter 1 list)"
  "initialized (ex_iter 1 list)" "regex (ex_iter 1 list) = None" "search_hash (ex_iter 1 list) = None"
  if "list = APC_LIST_ACTIVE \<or> list = APC_LIST_DELETED"
  using that by (auto simp: ex_iter_def APCUIterator_construct_def apc_iterator_obj_init_def APC_ITER_KEY_def APC_ITER_ALL_def
      APC_LIST_ACTIVE_def APC_LIST_DELETED_def)

text \<open>
  C11: \<open>foreach\<close> over a new iterator on the active list ends, and it lists exactly the keys that a lookup finds at
  the time of the request and that match the search, each once, with the requested fields of its entry, whatever
  the chunk size; the cache is not changed.
\<close>

theorem iterator_lists_live_entries:
  assumes "quiet c" "h_nentries c \<le> 2147483647"
    "APCUIterator_construct compiles enabled search format chunk APC_LIST_ACTIVE apc_iterator_create = (Returned (), it)"
    "initialized it" "chunk < 2147483648"
  shows "\<exists>n l it' c'. foreach n rx unp it c = Some (l, it', c') \<and> cache_ok c' \<and> cache_map c' = cache_map c \<and>
    distinct (map fst l) \<and>
    (\<forall>k v. (k, v) \<in> set l \<longleftrightarrow> (\<exists>en. lookup c k (fst (apc_time c)) = Some en \<and> apc_iterator_search_match rx it en \<and>
      v = it_value (apc_iterator_item_ctor unp format en)))"
proof -
  let ?t = "fst (apc_time c)"
  let ?es = "filter (listed rx it ?t) (concat (map (bucket c) [0..<nslots c]))"
  note it = construct_ok [OF assms(3-5)]
  have ok: "cache_ok c" using assms(1) by (simp add: quiet_def)
  have "ready it c" using assms(1,2) it by (simp add: ready_def)
  then obtain n it' c' where f: "foreach n rx unp it c =
      Some (map (\<lambda>e. (e_key e, it_value (apc_iterator_item_ctor unp (it_format it) e))) ?es, it', c')"
    "quiet c'" "cache_map c' = cache_map c" using foreach_ok [of it c rx unp] by blast
  let ?l = "map (\<lambda>e. (e_key e, it_value (apc_iterator_item_ctor unp (it_format it) e))) ?es"
  have "distinct (map e_key ?es)" by (rule distinct_map_filter [OF slot_keys [OF ok]])
  then have "distinct (map fst ?l)" by (simp add: comp_def)
  moreover have "(k, v) \<in> set ?l \<longleftrightarrow> (\<exists>en. lookup c k ?t = Some en \<and> apc_iterator_search_match rx it en \<and>
      v = it_value (apc_iterator_item_ctor unp format en))" for k v
  proof -
    have e: "en \<in> set ?es \<and> e_key en = k \<longleftrightarrow> lookup c k ?t = Some en \<and> apc_iterator_search_match rx it en" for en
    proof -
      have "en \<in> set ?es \<longleftrightarrow> cache_map c (e_key en) = Some en \<and> listed rx it ?t en"
        using bucket_map [OF ok, of en 0] by simp
      moreover have "cache_map c k = Some en \<Longrightarrow> e_key en = k" using key_of_map [OF ok] .
      ultimately show ?thesis
        by (auto simp: lookup_def listed_def apc_iterator_check_expiry_def apc_cache_entry_hard_expired_def
            split: option.splits if_splits)
    qed
    have "(k, v) \<in> set ?l \<longleftrightarrow> (\<exists>en. (en \<in> set ?es \<and> e_key en = k) \<and> v = it_value (apc_iterator_item_ctor unp format en))"
      using it(5) by auto
    then show ?thesis unfolding e by simp
  qed
  ultimately show ?thesis using f ok by (intro exI [of _ n] exI [of _ ?l] exI [of _ it'] exI [of _ c']) (simp add: quiet_def)
qed

theorem iterator_lists_live_entries_witness:
  "\<exists>n l it' c'. foreach n (\<lambda>_ _. True) (\<lambda>zv _. Some (z_lval zv)) (ex_iter 1 APC_LIST_ACTIVE) ex1 = Some (l, it', c') \<and>
    set l = {(''a'', [(''key'', F_string ''a'')])}"
proof -
  have s: "apc_iterator_search_match (\<lambda>_ _. True) (ex_iter 1 APC_LIST_ACTIVE) e" for e :: "nat entry"
    using ex_iter(3,4) [of APC_LIST_ACTIVE] by (simp add: apc_iterator_search_match_def)
  have v: "it_value (apc_iterator_item_ctor (\<lambda>zv _. Some (z_lval zv)) APC_ITER_KEY (ex_entry ''a'' 0)) = [(''key'', F_string ''a'')]"
    by (simp add: apc_iterator_item_ctor_def has_flag_def ex_data_def APC_ITER_TYPE_def APC_ITER_KEY_def APC_ITER_VALUE_def
        APC_ITER_NUM_HITS_def APC_ITER_MTIME_def APC_ITER_CTIME_def APC_ITER_DTIME_def APC_ITER_ATIME_def
        APC_ITER_REFCOUNT_def APC_ITER_MEM_SIZE_def APC_ITER_TTL_def)
  have l: "lookup ex1 k 20 = Some en \<longleftrightarrow> k = ''a'' \<and> en = ex_entry ''a'' 0" for k en
    by (auto simp: lookup_def ex1_map apc_cache_entry_hard_expired_def) (simp_all add: ex_data_def)
  obtain n l it' c' where f: "foreach n (\<lambda>_ _. True) (\<lambda>zv _. Some (z_lval zv)) (ex_iter 1 APC_LIST_ACTIVE) ex1 = Some (l, it', c')"
    "\<forall>k v. (k, v) \<in> set l \<longleftrightarrow> (\<exists>en. lookup ex1 k (fst (apc_time ex1)) = Some en \<and>
      apc_iterator_search_match (\<lambda>_ _. True) (ex_iter 1 APC_LIST_ACTIVE) en \<and>
      v = it_value (apc_iterator_item_ctor (\<lambda>zv _. Some (z_lval zv)) APC_ITER_KEY en))"
    using iterator_lists_live_entries [OF quiet_ex1 ex_iter(1) ex_iter(2), where rx = "\<lambda>_ _. True" and unp = "\<lambda>zv _. Some (z_lval zv)"]
    by auto
  have "set l = {(''a'', [(''key'', F_string ''a'')])}"
  proof (rule set_eqI)
    fix x show "x \<in> set l \<longleftrightarrow> x \<in> {(''a'', [(''key'', F_string ''a'')])}"
      using f(2) by (cases x) (auto simp: ex1_fields(17) l s v)
  qed
  with f(1) show ?thesis by blast
qed

text \<open>
  C12: \<open>apcu_delete\<close> with a new iterator on the active list ends and deletes exactly the live keys that match the
  search; every other key keeps its entry.
\<close>

theorem apc_iterator_delete_correct:
  assumes "quiet c" "cache_exists c" "h_nentries c \<le> 2147483647"
    "APCUIterator_construct compiles enabled search format chunk APC_LIST_ACTIVE apc_iterator_create = (Returned (), it)"
    "initialized it" "chunk < 2147483648"
  shows "\<exists>it' c'. apc_iterator_delete rx unp True it c = Some (Returned True, it', c') \<and> cache_ok c' \<and>
    (\<forall>k. cache_map c' k =
      (if \<exists>en. lookup c k (fst (apc_time c)) = Some en \<and> apc_iterator_search_match rx it en then None else cache_map c k))"
proof -
  let ?t = "fst (apc_time c)"
  note it = construct_ok [OF assms(4-6)]
  have "ready it c" using assms(1,3) it by (simp add: ready_def)
  then obtain it' c' where d: "delete_chunks rx unp it c = Some (it', c')" "only_deleted c (to_delete rx it c (slot_idx it)) c'"
    using delete_chunks_ok [OF _ assms(2)] by blast
  have "to_delete rx it c (slot_idx it) k \<longleftrightarrow> (\<exists>en. lookup c k ?t = Some en \<and> apc_iterator_search_match rx it en)" for k
    by (auto simp: it(2) to_delete_def lookup_def listed_def apc_iterator_check_expiry_def apc_cache_entry_hard_expired_def
        split: option.splits if_splits)
  then show ?thesis using d assms(5)
    by (intro exI [of _ it'] exI [of _ c']) (simp add: apc_iterator_delete_def only_deleted_def quiet_def)
qed

theorem apc_iterator_delete_correct_witness:
  "\<exists>it' c'. apc_iterator_delete (\<lambda>_ _. True) (\<lambda>zv _. Some (z_lval zv)) True (ex_iter 1 APC_LIST_ACTIVE) ex1 = Some (Returned True, it', c') \<and>
    cache_ok c' \<and> cache_map c' = Map.empty"
proof -
  have s: "apc_iterator_search_match (\<lambda>_ _. True) (ex_iter 1 APC_LIST_ACTIVE) e" for e :: "nat entry"
    using ex_iter(3,4) [of APC_LIST_ACTIVE] by (simp add: apc_iterator_search_match_def)
  have l: "lookup ex1 k 20 = cache_map ex1 k" for k
    by (auto simp: lookup_def ex1_map apc_cache_entry_hard_expired_def) (simp_all add: ex_data_def)
  show ?thesis
    using apc_iterator_delete_correct [OF quiet_ex1(1) ex1_fields(12) quiet_ex1(2) ex_iter(1) ex_iter(2),
        where rx = "\<lambda>_ _. True" and unp = "\<lambda>zv _. Some (z_lval zv)"] by (auto simp: ex1_fields(17) l s fun_eq_iff)
qed








end
