(* ===== verification/Persist.thy ===== *)
theory Persist imports Zval "HOL-Library.Monad_Syntax" begin

unbundle bit_operations_syntax

text \<open>
  Copying PHP values between request memory and a cache entry (\<open>apc_persist.c\<close>): the computation of the size of
  the entry, the deep copy into the allocation and the deep copy back. Refcounted structures are objects of a
  heap; in request memory a pointer is an address, in an entry it is the offset from the start of the entry
  (\<open>TO_OFF\<close>, \<open>TO_PTR\<close>). PHP 8.2 and later. The functions that follow pointers take the number of nested
  structures they may enter as fuel: cyclic arrays do not end in a tree.
\<close>

subsection \<open>Data\<close>

text \<open>What the code takes from the Zend headers: sizes of structures and the hash function of strings.\<close>

record zend_layout =
  sizeof_HashTable :: nat
  sizeof_zend_reference :: nat
  zstr_struct_size :: "nat \<Rightarrow> nat"
  ht_used_size :: "bool \<Rightarrow> nat \<Rightarrow> nat \<Rightarrow> nat"
  offset_of_key_val :: nat
  str_hash :: "string \<Rightarrow> nat"

text \<open>
  A hash table and its data block: \<open>ht_used_size\<close> is \<open>HT_PACKED_USED_SIZE\<close> or \<open>HT_USED_SIZE\<close> of the packed flag, the
  table mask and \<open>nNumUsed\<close> (the number of buckets). A packed table has values only: its buckets have no key and
  no \<open>h\<close> of their own. \<open>ht_iptr\<close> is \<open>None\<close> for \<open>HT_INVALID_IDX\<close>. The hash chains in the block are copied along with
  the mask; they are not modelled, nor are reference counts and GC flags, nor a table that has elements and no bucket.
\<close>

record bucket =
  b_h :: nat
  b_key :: "nat option"
  b_val :: zval

record hash_table =
  ht_packed :: bool
  ht_static_keys :: bool
  ht_mask :: nat
  ht_num :: nat
  ht_next_free :: int
  ht_iptr :: "nat option"
  ht_data :: nat

datatype zobj = Z_string string nat | Z_array hash_table | Z_data "bucket list" | Z_ref zval | Z_other

type_synonym heap = "nat \<Rightarrow> zobj option"

text \<open>\<open>apc_persist_context_t\<close>, with the position \<open>alloc_cur\<close> relative to \<open>alloc\<close>, and the entry's memory.\<close>

record persist_ctx =
  p_size :: nat
  p_memo :: bool
  p_use_serialization :: bool
  p_serialized :: "string option"
  p_counted :: "64 word set"
  p_cur :: nat
  p_allocated :: "nat \<Rightarrow> nat option"
  p_mem :: heap

definition apc_persist_init_context :: "persist_ctx" where
  "apc_persist_init_context = \<lparr>p_size = 0, p_memo = False, p_use_serialization = False, p_serialized = None,
     p_counted = {}, p_cur = 0, p_allocated = Map.empty, p_mem = Map.empty\<rparr>"

subsection \<open>The size of an entry\<close>

definition add_size :: "nat \<Rightarrow> persist_ctx \<Rightarrow> persist_ctx" where
  "add_size sz x = x\<lparr>p_size := uadd (p_size x) (alignword sz)\<rparr>"

definition add_size_str :: "zend_layout \<Rightarrow> nat \<Rightarrow> persist_ctx \<Rightarrow> persist_ctx" where
  "add_size_str Z len = add_size (zstr_struct_size Z len)"

definition apc_entry_size :: "zend_layout \<Rightarrow> nat \<Rightarrow> nat" where
  "apc_entry_size Z key_len = alignword (uadd (uadd (offset_of_key_val Z) key_len) 1)"

definition apc_shr3 :: "64 word \<Rightarrow> 64 word" where
  "apc_shr3 index = drop_bit 3 index OR push_bit 61 index"

definition apc_persist_calc_memoize :: "nat \<Rightarrow> persist_ctx \<Rightarrow> bool \<times> persist_ctx" where
  "apc_persist_calc_memoize ptr x =
     (if \<not> p_memo x then (False, x)
      else let key = apc_shr3 (word_of_nat ptr)
           in if key \<in> p_counted x then (True, x) else (False, x\<lparr>p_counted := insert key (p_counted x)\<rparr>))"

definition apc_persist_calc_serialize ::
  "zend_layout \<Rightarrow> (zval \<Rightarrow> string option) \<Rightarrow> zval \<Rightarrow> persist_ctx \<Rightarrow> bool \<times> persist_ctx" where
  "apc_persist_calc_serialize Z serialize zv x =
     (case serialize zv of
        None \<Rightarrow> (False, x)
      | Some buf \<Rightarrow> (True, add_size_str Z (length buf) (x\<lparr>p_serialized := Some buf\<rparr>)))"

text \<open>The address of a refcounted value (\<open>Z_COUNTED_P\<close>).\<close>

fun z_counted :: "zval \<Rightarrow> nat" where
  "z_counted (IS_STRING a) = a"
| "z_counted (IS_ARRAY a) = a"
| "z_counted (IS_OBJECT a) = a"
| "z_counted (IS_RESOURCE a) = a"
| "z_counted (IS_REFERENCE a) = a"
| "z_counted _ = 0"

text \<open>
  Following a pointer; \<open>None\<close> when there is no object of the kind. The recursion of the code goes through the
  first argument of the functions for parts of a value.
\<close>

definition string_at :: "heap \<Rightarrow> nat \<Rightarrow> (string \<times> nat) option" where
  "string_at H a = (case H a of Some (Z_string s h) \<Rightarrow> Some (s, h) | _ \<Rightarrow> None)"

definition array_at :: "heap \<Rightarrow> nat \<Rightarrow> hash_table option" where
  "array_at H a = (case H a of Some (Z_array t) \<Rightarrow> Some t | _ \<Rightarrow> None)"

definition data_at :: "heap \<Rightarrow> nat \<Rightarrow> bucket list option" where
  "data_at H a = (case H a of Some (Z_data bs) \<Rightarrow> Some bs | _ \<Rightarrow> None)"

definition ref_at :: "heap \<Rightarrow> nat \<Rightarrow> zval option" where
  "ref_at H a = (case H a of Some (Z_ref z) \<Rightarrow> Some z | _ \<Rightarrow> None)"

fun is_indirect :: "zval \<Rightarrow> bool" where
  "is_indirect (IS_INDIRECT _) = True"
| "is_indirect _ = False"

fun calc_buckets ::
  "(zval \<Rightarrow> persist_ctx \<Rightarrow> (bool \<times> persist_ctx) option) \<Rightarrow> zend_layout \<Rightarrow> heap \<Rightarrow> bool \<Rightarrow> bucket list \<Rightarrow> persist_ctx \<Rightarrow>
   (bool \<times> persist_ctx) option" where
  "calc_buckets calc Z H packed [] x = Some (True, x)"
| "calc_buckets calc Z H packed (b # bs) x =
     (if \<not> packed \<and> b_val b = IS_UNDEF then calc_buckets calc Z H packed bs x
      else if \<not> packed \<and> is_indirect (b_val b) then Some (False, x\<lparr>p_use_serialization := True\<rparr>)
      else do {
        y \<leftarrow> (case b_key b of
               Some k \<Rightarrow> if packed then Some x else do { s \<leftarrow> string_at H k; Some (add_size_str Z (length (fst s)) x) }
             | None \<Rightarrow> Some x);
        r \<leftarrow> calc (b_val b) y;
        if \<not> fst r then Some r else calc_buckets calc Z H packed bs (snd r)
      })"

definition apc_persist_calc_ht ::
  "(zval \<Rightarrow> persist_ctx \<Rightarrow> (bool \<times> persist_ctx) option) \<Rightarrow> zend_layout \<Rightarrow> heap \<Rightarrow> hash_table \<Rightarrow> persist_ctx \<Rightarrow>
   (bool \<times> persist_ctx) option" where
  "apc_persist_calc_ht calc Z H t x =
     (if ht_num t = 0 then Some (True, x)
      else do {
        bs \<leftarrow> data_at H (ht_data t);
        calc_buckets calc Z H (ht_packed t) bs
          (add_size (ht_used_size Z (ht_packed t) (ht_mask t) (length bs)) (add_size (sizeof_HashTable Z) x))
      })"

text \<open>The \<open>switch\<close> of \<open>apc_persist_calc_zval\<close>, after the memoization.\<close>

definition calc_value ::
  "(zval \<Rightarrow> persist_ctx \<Rightarrow> (bool \<times> persist_ctx) option) \<Rightarrow> zend_layout \<Rightarrow> heap \<Rightarrow> zval \<Rightarrow> persist_ctx \<Rightarrow>
   (bool \<times> persist_ctx) option" where
  "calc_value calc Z H zv x =
     (case zv of
        IS_STRING a \<Rightarrow> do { s \<leftarrow> string_at H a; Some (True, add_size_str Z (length (fst s)) x) }
      | IS_ARRAY a \<Rightarrow> do { t \<leftarrow> array_at H a; apc_persist_calc_ht calc Z H t x }
      | IS_REFERENCE a \<Rightarrow> do { z \<leftarrow> ref_at H a; calc z (add_size (sizeof_zend_reference Z) x) }
      | IS_OBJECT a \<Rightarrow> Some (False, x\<lparr>p_use_serialization := True\<rparr>)
      | IS_RESOURCE a \<Rightarrow> Some (False, x)
      | _ \<Rightarrow> None)"

primrec apc_persist_calc_zval ::
  "nat \<Rightarrow> zend_layout \<Rightarrow> (zval \<Rightarrow> string option) \<Rightarrow> heap \<Rightarrow> zval \<Rightarrow> persist_ctx \<Rightarrow> (bool \<times> persist_ctx) option" where
  "apc_persist_calc_zval 0 Z serialize H zv x = None"
| "apc_persist_calc_zval (Suc n) Z serialize H zv x =
     (if z_simple zv then Some (True, x)
      else if p_use_serialization x then Some (apc_persist_calc_serialize Z serialize zv x)
      else
        let m = apc_persist_calc_memoize (z_counted zv) x
        in if fst m then Some (True, snd m)
           else calc_value (apc_persist_calc_zval n Z serialize H) Z H zv (snd m))"

definition apc_persist_calc ::
  "nat \<Rightarrow> zend_layout \<Rightarrow> (zval \<Rightarrow> string option) \<Rightarrow> heap \<Rightarrow> string \<Rightarrow> zval \<Rightarrow> persist_ctx \<Rightarrow>
   (bool \<times> persist_ctx) option" where
  "apc_persist_calc n Z serialize H key zv x =
     apc_persist_calc_zval n Z serialize H zv (add_size (apc_entry_size Z (length key)) x)"

subsection \<open>Copying into the entry\<close>

definition apc_persist_alloc :: "nat \<Rightarrow> persist_ctx \<Rightarrow> nat \<times> persist_ctx" where
  "apc_persist_alloc sz x = (p_cur x, x\<lparr>p_cur := uadd (p_cur x) (alignword sz)\<rparr>)"

definition store_obj :: "nat \<Rightarrow> zobj \<Rightarrow> persist_ctx \<Rightarrow> persist_ctx" where
  "store_obj off ob x = x\<lparr>p_mem := (p_mem x)(off \<mapsto> ob)\<rparr>"

definition apc_persist_get_already_allocated :: "nat \<Rightarrow> persist_ctx \<Rightarrow> nat option" where
  "apc_persist_get_already_allocated ptr x = (if p_memo x then p_allocated x ptr else None)"

definition apc_persist_add_already_allocated :: "nat \<Rightarrow> nat \<Rightarrow> persist_ctx \<Rightarrow> persist_ctx" where
  "apc_persist_add_already_allocated old new x =
     (if p_memo x then x\<lparr>p_allocated := (p_allocated x)(old \<mapsto> new)\<rparr> else x)"

text \<open>A hash of 0 means that it has not been computed; \<open>zend_string_hash_val\<close> computes it.\<close>

definition apc_persist_copy_cstr :: "zend_layout \<Rightarrow> string \<Rightarrow> nat \<Rightarrow> persist_ctx \<Rightarrow> nat \<times> persist_ctx" where
  "apc_persist_copy_cstr Z s hash x =
     (let a = apc_persist_alloc (zstr_struct_size Z (length s)) x
      in (fst a, store_obj (fst a) (Z_string s (if hash = 0 then str_hash Z s else hash)) (snd a)))"

definition apc_persist_copy_zstr :: "zend_layout \<Rightarrow> nat \<Rightarrow> string \<Rightarrow> nat \<Rightarrow> persist_ctx \<Rightarrow> nat \<times> persist_ctx" where
  "apc_persist_copy_zstr Z orig s hash x =
     (let c = apc_persist_copy_cstr Z s hash x
      in (fst c, apc_persist_add_already_allocated orig (fst c) (snd c)))"

text \<open>\<open>apc_persist_copy_serialize\<close>: the value becomes a pointer of type \<open>IS_PTR\<close>.\<close>

definition apc_persist_copy_serialize :: "zend_layout \<Rightarrow> persist_ctx \<Rightarrow> (zval \<times> persist_ctx) option" where
  "apc_persist_copy_serialize Z x =
     (case p_serialized x of
        None \<Rightarrow> None
      | Some buf \<Rightarrow> let c = apc_persist_copy_cstr Z buf 0 x in Some (IS_PTR (fst c), snd c))"

text \<open>What the loop of \<open>apc_persist_copy_ht\<close> computes for the table: next free element, internal pointer, static keys.\<close>

record ht_loop =
  l_next_free :: int
  l_iptr :: "nat option"
  l_static :: bool

definition next_free_after :: "int \<Rightarrow> int \<Rightarrow> int" where
  "next_free_after h nf = (if nf \<le> h then int64_of (h + 1) else nf)"

fun copy_buckets ::
  "(zval \<Rightarrow> persist_ctx \<Rightarrow> (zval \<times> persist_ctx) option) \<Rightarrow> zend_layout \<Rightarrow> heap \<Rightarrow> bool \<Rightarrow> nat \<Rightarrow> bucket list \<Rightarrow>
   ht_loop \<Rightarrow> persist_ctx \<Rightarrow> (bucket list \<times> ht_loop \<times> persist_ctx) option" where
  "copy_buckets copy Z H packed idx [] l x = Some ([], l, x)"
| "copy_buckets copy Z H packed idx (b # bs) l x =
     (if b_val b = IS_UNDEF then do {
        r \<leftarrow> copy_buckets copy Z H packed (Suc idx) bs l x;
        Some (b # fst r, snd r)
      }
      else
        let l1 = (if l_iptr l = None then l\<lparr>l_iptr := Some idx\<rparr> else l)
        in do {
          k \<leftarrow> (if packed then Some (b_key b, l1\<lparr>l_next_free := next_free_after (int idx) (l_next_free l1)\<rparr>, x)
               else case b_key b of
                   Some p \<Rightarrow> do {
                     s \<leftarrow> string_at H p;
                     let c = apc_persist_copy_cstr Z (fst s) (snd s) x;
                     Some (Some (fst c), l1\<lparr>l_static := False\<rparr>, snd c)
                   }
                 | None \<Rightarrow>
                     Some (None, l1\<lparr>l_next_free := next_free_after (int64_of (int (b_h b))) (l_next_free l1)\<rparr>, x));
          v \<leftarrow> copy (b_val b) (snd (snd k));
          r \<leftarrow> copy_buckets copy Z H packed (Suc idx) bs (fst (snd k)) (snd v);
          Some (b\<lparr>b_key := fst k, b_val := fst v\<rparr> # fst r, snd r)
        })"

text \<open>An empty array becomes the offset 0, that of the entry itself.\<close>

definition apc_persist_copy_ht ::
  "(zval \<Rightarrow> persist_ctx \<Rightarrow> (zval \<times> persist_ctx) option) \<Rightarrow> zend_layout \<Rightarrow> heap \<Rightarrow> nat \<Rightarrow> hash_table \<Rightarrow> persist_ctx \<Rightarrow>
   (nat \<times> persist_ctx) option" where
  "apc_persist_copy_ht copy Z H orig t x =
     (if ht_num t = 0 then Some (0, x)
      else do {
        bs \<leftarrow> data_at H (ht_data t);
        let p = apc_persist_alloc (sizeof_HashTable Z) x;
        let x1 = apc_persist_add_already_allocated orig (fst p) (snd p);
        let d = apc_persist_alloc (ht_used_size Z (ht_packed t) (ht_mask t) (length bs)) x1;
        r \<leftarrow> copy_buckets copy Z H (ht_packed t) 0 bs \<lparr>l_next_free = 0, l_iptr = None, l_static = True\<rparr> (snd d);
        let l = fst (snd r);
        let t' = t\<lparr>ht_static_keys := l_static l, ht_next_free := l_next_free l, ht_iptr := l_iptr l, ht_data := fst d\<rparr>;
        Some (fst p, store_obj (fst p) (Z_array t') (store_obj (fst d) (Z_data (fst r)) (snd (snd r))))
      })"

definition apc_persist_copy_ref ::
  "(zval \<Rightarrow> persist_ctx \<Rightarrow> (zval \<times> persist_ctx) option) \<Rightarrow> zend_layout \<Rightarrow> nat \<Rightarrow> zval \<Rightarrow> persist_ctx \<Rightarrow>
   (nat \<times> persist_ctx) option" where
  "apc_persist_copy_ref copy Z orig z x =
     (let p = apc_persist_alloc (sizeof_zend_reference Z) x
      in do {
        r \<leftarrow> copy z (apc_persist_add_already_allocated orig (fst p) (snd p));
        Some (fst p, store_obj (fst p) (Z_ref (fst r)) (snd r))
      })"

text \<open>The \<open>switch\<close> of \<open>apc_persist_copy_zval_impl\<close>.\<close>

definition copy_value ::
  "(zval \<Rightarrow> persist_ctx \<Rightarrow> (zval \<times> persist_ctx) option) \<Rightarrow> zend_layout \<Rightarrow> heap \<Rightarrow> zval \<Rightarrow> persist_ctx \<Rightarrow>
   (zval \<times> persist_ctx) option" where
  "copy_value copy Z H zv x =
     (let known = (\<lambda>a new. case apc_persist_get_already_allocated a x of Some off \<Rightarrow> Some (off, x) | None \<Rightarrow> new)
      in case zv of
        IS_STRING a \<Rightarrow> do {
          r \<leftarrow> known a (do { s \<leftarrow> string_at H a; Some (apc_persist_copy_zstr Z a (fst s) (snd s) x) });
          Some (IS_STRING (fst r), snd r)
        }
      | IS_ARRAY a \<Rightarrow> do {
          r \<leftarrow> known a (do { t \<leftarrow> array_at H a; apc_persist_copy_ht copy Z H a t x });
          Some (IS_ARRAY (fst r), snd r)
        }
      | IS_REFERENCE a \<Rightarrow> do {
          r \<leftarrow> known a (do { z \<leftarrow> ref_at H a; apc_persist_copy_ref copy Z a z x });
          Some (IS_REFERENCE (fst r), snd r)
        }
      | _ \<Rightarrow> None)"

primrec apc_persist_copy_zval ::
  "nat \<Rightarrow> zend_layout \<Rightarrow> heap \<Rightarrow> zval \<Rightarrow> persist_ctx \<Rightarrow> (zval \<times> persist_ctx) option" where
  "apc_persist_copy_zval 0 Z H zv x = None"
| "apc_persist_copy_zval (Suc n) Z H zv x =
     (if z_simple zv then Some (zv, x)
      else if p_use_serialization x then apc_persist_copy_serialize Z x
      else copy_value (apc_persist_copy_zval n Z H) Z H zv x)"

definition apc_persist_create_entry ::
  "nat \<Rightarrow> zend_layout \<Rightarrow> heap \<Rightarrow> string \<Rightarrow> zval \<Rightarrow> persist_ctx \<Rightarrow> (zval \<times> persist_ctx) option" where
  "apc_persist_create_entry n Z H key zv x =
     apc_persist_copy_zval n Z H zv (snd (apc_persist_alloc (apc_entry_size Z (length key)) x))"

text \<open>
  \<open>apc_persist\<close> up to the allocation, and the copy: the size, the value of the entry and the memory behind it.
  \<open>serializer\<close> says whether one other than PHP's is configured; \<open>serialize\<close> is the one that is used. \<open>None\<close> also
  stands for exhausted fuel.
\<close>

definition persist_calc ::
  "nat \<Rightarrow> zend_layout \<Rightarrow> bool \<Rightarrow> (zval \<Rightarrow> string option) \<Rightarrow> heap \<Rightarrow> string \<Rightarrow> zval \<Rightarrow> persist_ctx option" where
  "persist_calc n Z serializer serialize H key val =
     (let is_array = (case val of IS_ARRAY _ \<Rightarrow> True | _ \<Rightarrow> False);
          is_object = (case val of IS_OBJECT _ \<Rightarrow> True | _ \<Rightarrow> False);
          x = apc_persist_init_context\<lparr>p_memo := \<not> serializer \<and> is_array,
                p_use_serialization := is_object \<or> serializer \<and> is_array\<rparr>
      in do {
        r \<leftarrow> apc_persist_calc n Z serialize H key val x;
        if fst r then Some (snd r)
        else if \<not> p_use_serialization (snd r) then None
        else do {
          r2 \<leftarrow> apc_persist_calc n Z serialize H key val (apc_persist_init_context\<lparr>p_use_serialization := True\<rparr>);
          if fst r2 then Some (snd r2) else None
        }
      })"

definition persist_image ::
  "nat \<Rightarrow> zend_layout \<Rightarrow> bool \<Rightarrow> (zval \<Rightarrow> string option) \<Rightarrow> string \<Rightarrow> heap \<times> zval \<Rightarrow> (nat \<times> zval \<times> heap) option" where
  "persist_image n Z serializer serialize key hv =
     do {
       x \<leftarrow> persist_calc n Z serializer serialize (fst hv) key (snd hv);
       r \<leftarrow> apc_persist_create_entry n Z (fst hv) key (snd hv) x;
       Some (p_size x, fst r, p_mem (snd r))
     }"

subsection \<open>Copying back\<close>

text \<open>
  \<open>apc_unpersist_context_t\<close> and request memory. \<open>emalloc\<close> returns the next fresh address; \<open>zend_empty_array\<close> is
  at address 0.
\<close>

record unpersist_ctx =
  u_memo :: bool
  u_copied :: "nat \<Rightarrow> nat option"
  u_next :: nat
  u_heap :: heap

definition zend_empty_array :: hash_table where
  "zend_empty_array = \<lparr>ht_packed = False, ht_static_keys = False, ht_mask = 0, ht_num = 0, ht_next_free = 0,
     ht_iptr = None, ht_data = 0\<rparr>"

definition request_start :: heap where
  "request_start = [0 \<mapsto> Z_array zend_empty_array]"

definition emalloc :: "unpersist_ctx \<Rightarrow> nat \<times> unpersist_ctx" where
  "emalloc x = (u_next x, x\<lparr>u_next := Suc (u_next x)\<rparr>)"

definition write_obj :: "nat \<Rightarrow> zobj \<Rightarrow> unpersist_ctx \<Rightarrow> unpersist_ctx" where
  "write_obj a ob x = x\<lparr>u_heap := (u_heap x)(a \<mapsto> ob)\<rparr>"

definition apc_unpersist_get_already_copied :: "nat \<Rightarrow> unpersist_ctx \<Rightarrow> nat option" where
  "apc_unpersist_get_already_copied ptr x = (if u_memo x then u_copied x ptr else None)"

definition apc_unpersist_add_already_copied :: "nat \<Rightarrow> nat \<Rightarrow> unpersist_ctx \<Rightarrow> unpersist_ctx" where
  "apc_unpersist_add_already_copied old new x = (if u_memo x then x\<lparr>u_copied := (u_copied x)(old \<mapsto> new)\<rparr> else x)"

definition new_zstr :: "string \<Rightarrow> nat \<Rightarrow> unpersist_ctx \<Rightarrow> nat \<times> unpersist_ctx" where
  "new_zstr s h x = (let p = emalloc x in (fst p, write_obj (fst p) (Z_string s h) (snd p)))"

definition apc_unpersist_zstr :: "nat \<Rightarrow> string \<Rightarrow> nat \<Rightarrow> unpersist_ctx \<Rightarrow> nat \<times> unpersist_ctx" where
  "apc_unpersist_zstr orig s h x = (let p = new_zstr s h x in (fst p, apc_unpersist_add_already_copied orig (fst p) (snd p)))"

text \<open>\<open>zend_string_dup\<close> makes a string whose hash has not been computed.\<close>

fun unpersist_buckets ::
  "(zval \<Rightarrow> unpersist_ctx \<Rightarrow> (zval \<times> unpersist_ctx) option) \<Rightarrow> heap \<Rightarrow> bool \<Rightarrow> bucket list \<Rightarrow> unpersist_ctx \<Rightarrow>
   (bucket list \<times> unpersist_ctx) option" where
  "unpersist_buckets unp M plain [] x = Some ([], x)"
| "unpersist_buckets unp M plain (b # bs) x =
     (if plain then do {
        v \<leftarrow> unp (b_val b) x;
        r \<leftarrow> unpersist_buckets unp M plain bs (snd v);
        Some (b\<lparr>b_val := fst v\<rparr> # fst r, snd r)
      }
      else if b_val b = IS_UNDEF then do {
        r \<leftarrow> unpersist_buckets unp M plain bs x;
        Some (\<lparr>b_h = 0, b_key = None, b_val = IS_UNDEF\<rparr> # fst r, snd r)
      }
      else do {
        k \<leftarrow> (case b_key b of
               None \<Rightarrow> Some (None, x)
             | Some off \<Rightarrow> do { s \<leftarrow> string_at M off; let p = new_zstr (fst s) 0 x; Some (Some (fst p), snd p) });
        v \<leftarrow> unp (b_val b) (snd k);
        r \<leftarrow> unpersist_buckets unp M plain bs (snd v);
        Some (b\<lparr>b_key := fst k, b_val := fst v\<rparr> # fst r, snd r)
      })"

text \<open>\<open>plain\<close>: the values are copied bucket by bucket, for packed tables and tables with static keys.\<close>

definition apc_unpersist_ht ::
  "(zval \<Rightarrow> unpersist_ctx \<Rightarrow> (zval \<times> unpersist_ctx) option) \<Rightarrow> heap \<Rightarrow> nat \<Rightarrow> hash_table \<Rightarrow> unpersist_ctx \<Rightarrow>
   (nat \<times> unpersist_ctx) option" where
  "apc_unpersist_ht unp M orig t x =
     (let p = emalloc x;
          d = emalloc (apc_unpersist_add_already_copied orig (fst p) (snd p))
      in do {
        bs \<leftarrow> data_at M (ht_data t);
        r \<leftarrow> unpersist_buckets unp M (ht_packed t \<or> ht_static_keys t) bs (snd d);
        Some (fst p, write_obj (fst p) (Z_array (t\<lparr>ht_data := fst d\<rparr>)) (write_obj (fst d) (Z_data (fst r)) (snd r)))
      })"

definition apc_unpersist_ref ::
  "(zval \<Rightarrow> unpersist_ctx \<Rightarrow> (zval \<times> unpersist_ctx) option) \<Rightarrow> nat \<Rightarrow> zval \<Rightarrow> unpersist_ctx \<Rightarrow>
   (nat \<times> unpersist_ctx) option" where
  "apc_unpersist_ref unp orig z x =
     (let p = emalloc x
      in do {
        r \<leftarrow> unp z (apc_unpersist_add_already_copied orig (fst p) (snd p));
        Some (fst p, write_obj (fst p) (Z_ref (fst r)) (snd r))
      })"

definition apc_unpersist_zval_impl ::
  "(zval \<Rightarrow> unpersist_ctx \<Rightarrow> (zval \<times> unpersist_ctx) option) \<Rightarrow> heap \<Rightarrow> zval \<Rightarrow> unpersist_ctx \<Rightarrow>
   (zval \<times> unpersist_ctx) option" where
  "apc_unpersist_zval_impl unp M zv x =
     (let known = (\<lambda>off new. case apc_unpersist_get_already_copied off x of Some a \<Rightarrow> Some (a, x) | None \<Rightarrow> new)
      in case zv of
        IS_STRING off \<Rightarrow> do {
          r \<leftarrow> known off (do { s \<leftarrow> string_at M off; Some (apc_unpersist_zstr off (fst s) (snd s) x) });
          Some (IS_STRING (fst r), snd r)
        }
      | IS_REFERENCE off \<Rightarrow> do {
          r \<leftarrow> known off (do { z \<leftarrow> ref_at M off; apc_unpersist_ref unp off z x });
          Some (IS_REFERENCE (fst r), snd r)
        }
      | IS_ARRAY off \<Rightarrow> do {
          r \<leftarrow> known off (if off = 0 then Some (0, x) else do { t \<leftarrow> array_at M off; apc_unpersist_ht unp M off t x });
          Some (IS_ARRAY (fst r), snd r)
        }
      | _ \<Rightarrow> None)"

primrec apc_unpersist_zval :: "nat \<Rightarrow> heap \<Rightarrow> zval \<Rightarrow> unpersist_ctx \<Rightarrow> (zval \<times> unpersist_ctx) option" where
  "apc_unpersist_zval 0 M zv x = None"
| "apc_unpersist_zval (Suc n) M zv x =
     (if z_simple zv then Some (zv, x) else apc_unpersist_zval_impl (apc_unpersist_zval n M) M zv x)"

text \<open>\<open>unserialize\<close> is that of the serializer in use; it builds a value in request memory.\<close>

definition apc_unpersist ::
  "nat \<Rightarrow> (string \<Rightarrow> (heap \<times> zval) option) \<Rightarrow> zval \<Rightarrow> heap \<Rightarrow> (heap \<times> zval) option" where
  "apc_unpersist n unserialize zv M =
     (case zv of
        IS_PTR off \<Rightarrow> (case M off of Some (Z_string s _) \<Rightarrow> unserialize s | _ \<Rightarrow> None)
      | _ \<Rightarrow> do {
          r \<leftarrow> apc_unpersist_zval n M zv
            \<lparr>u_memo = (case zv of IS_ARRAY _ \<Rightarrow> True | _ \<Rightarrow> False), u_copied = Map.empty, u_next = 1, u_heap = request_start\<rparr>;
          Some (u_heap (snd r), fst r)
        })"

end
