(* ===== verification/Persist_Tree.thy ===== *)
theory Persist_Tree imports Persist begin

text \<open>
  PHP values as trees, the relation between a value in a heap and its tree (\<open>rep\<close>), and facts on heaps that the
  proofs about copying share.
\<close>

subsection \<open>Trees\<close>

text \<open>
  The tree of a value: arrays with their packed flag, table mask, number of elements and buckets (\<open>PB_hole\<close> is a
  deleted bucket; a table with elements has buckets); in a packed array keys and hashes do not count. Sharing is unfolded.
\<close>

datatype pval =
    P_simple zval
  | P_string string
  | P_empty
  | P_array bool nat nat pbuckets
  | P_ref pval
and pbuckets = PB_nil | PB_hole pbuckets | PB_cons nat "string option" pval pbuckets

fun plen :: "pbuckets \<Rightarrow> nat" where
  "plen PB_nil = 0" | "plen (PB_hole vs) = Suc (plen vs)" | "plen (PB_cons h k v vs) = Suc (plen vs)"

text \<open>How deep the structures are nested.\<close>

fun pdepth :: "pval \<Rightarrow> nat" and bdepth :: "pbuckets \<Rightarrow> nat" where
  "pdepth (P_simple z) = 0" | "pdepth (P_string s) = 0" | "pdepth P_empty = 0"
| "pdepth (P_array pk mk nm vs) = Suc (bdepth vs)" | "pdepth (P_ref v) = Suc (pdepth v)"
| "bdepth PB_nil = 0" | "bdepth (PB_hole vs) = bdepth vs" | "bdepth (PB_cons h k v vs) = max (pdepth v) (bdepth vs)"

fun simple_tree :: "pval \<Rightarrow> bool" where
  "simple_tree (P_simple _) = True" | "simple_tree _ = False"

text \<open>The value that points to an object of the kind of a tree.\<close>

fun zv_of :: "pval \<Rightarrow> nat \<Rightarrow> zval" where
  "zv_of (P_simple z) a = z" | "zv_of (P_string s) a = IS_STRING a" | "zv_of P_empty a = IS_ARRAY a"
| "zv_of (P_array pk mk nm vs) a = IS_ARRAY a" | "zv_of (P_ref v) a = IS_REFERENCE a"

definition key_rep :: "heap \<Rightarrow> bool \<Rightarrow> bucket \<Rightarrow> nat \<Rightarrow> string option \<Rightarrow> bool" where
  "key_rep H packed b h k \<longleftrightarrow>
     (if packed then h = 0 \<and> k = None
      else h = b_h b \<and> (case b_key b of None \<Rightarrow> k = None | Some p \<Rightarrow> \<exists>s hh. string_at H p = Some (s, hh) \<and> k = Some s))"

text \<open>When the static-keys flag is set in an entry, the live buckets of the table have no string keys.\<close>

definition static_ok :: "bool \<Rightarrow> bucket list \<Rightarrow> bool" where
  "static_ok static bs \<longleftrightarrow> (static \<longrightarrow> (\<forall>b\<in>set bs. b_val b \<noteq> IS_UNDEF \<longrightarrow> b_key b = None))"

text \<open>\<open>rep st H zv v\<close>: the value \<open>zv\<close> of heap \<open>H\<close> has the tree \<open>v\<close>; \<open>st\<close> asks for what holds in an
  entry: \<open>static_ok\<close> of the tables that are not packed, empty arrays at offset 0.\<close>

fun rep :: "bool \<Rightarrow> heap \<Rightarrow> zval \<Rightarrow> pval \<Rightarrow> bool" and reps :: "bool \<Rightarrow> heap \<Rightarrow> bool \<Rightarrow> bucket list \<Rightarrow> pbuckets \<Rightarrow> bool" where
  "rep st H zv (P_simple z) \<longleftrightarrow> zv = z \<and> z_simple z"
| "rep st H zv (P_string s) \<longleftrightarrow> (\<exists>a h. zv = IS_STRING a \<and> string_at H a = Some (s, h))"
| "rep st H zv P_empty \<longleftrightarrow> (\<exists>a t. zv = IS_ARRAY a \<and> array_at H a = Some t \<and> ht_num t = 0 \<and> (st \<longrightarrow> a = 0))"
| "rep st H zv (P_array pk mk nm vs) \<longleftrightarrow> vs \<noteq> PB_nil \<and> (\<exists>a t bs. zv = IS_ARRAY a \<and> array_at H a = Some t \<and> ht_num t = nm \<and> nm \<noteq> 0 \<and>
     ht_packed t = pk \<and> ht_mask t = mk \<and> data_at H (ht_data t) = Some bs \<and> (st \<and> \<not> pk \<longrightarrow> static_ok (ht_static_keys t) bs) \<and>
     reps st H pk bs vs)"
| "rep st H zv (P_ref v) \<longleftrightarrow> (\<exists>a z. zv = IS_REFERENCE a \<and> ref_at H a = Some z \<and> rep st H z v)"
| "reps st H pk bs PB_nil \<longleftrightarrow> bs = []"
| "reps st H pk bs (PB_hole vs) \<longleftrightarrow> (\<exists>b bs'. bs = b # bs' \<and> b_val b = IS_UNDEF \<and> reps st H pk bs' vs)"
| "reps st H pk bs (PB_cons h k v vs) \<longleftrightarrow> (\<exists>b bs'. bs = b # bs' \<and> b_val b \<noteq> IS_UNDEF \<and> key_rep H pk b h k \<and>
     rep st H (b_val b) v \<and> reps st H pk bs' vs)"

lemma reps_length: "reps st H pk bs vs \<Longrightarrow> length bs = plen vs"
  by (induction vs arbitrary: bs rule: plen.induct) auto

lemma rep_simple: "simple_tree v \<Longrightarrow> rep st H zv v \<Longrightarrow> z_simple zv"
  by (cases v) auto

lemma rep_mk: "rep st H zv v \<Longrightarrow> \<not> simple_tree v \<Longrightarrow> zv = zv_of v (z_counted zv) \<and> \<not> z_simple zv"
  by (cases v) auto

text \<open>A heap may be extended.\<close>

lemma at_mono:
  assumes "H \<subseteq>\<^sub>m H'"
  shows "string_at H a = Some s \<Longrightarrow> string_at H' a = Some s" "array_at H a = Some t \<Longrightarrow> array_at H' a = Some t"
    "data_at H a = Some bs \<Longrightarrow> data_at H' a = Some bs" "ref_at H a = Some z \<Longrightarrow> ref_at H' a = Some z"
proof -
  have "H a = Some ob \<Longrightarrow> H' a = Some ob" for ob using assms by (auto simp: map_le_def dom_def)
  then show "string_at H a = Some s \<Longrightarrow> string_at H' a = Some s" "array_at H a = Some t \<Longrightarrow> array_at H' a = Some t"
    "data_at H a = Some bs \<Longrightarrow> data_at H' a = Some bs" "ref_at H a = Some z \<Longrightarrow> ref_at H' a = Some z"
    by (auto simp: string_at_def array_at_def data_at_def ref_at_def split: option.splits zobj.splits)
qed

lemma key_rep_mono: "H \<subseteq>\<^sub>m H' \<Longrightarrow> key_rep H pk b h k \<Longrightarrow> key_rep H' pk b h k"
  by (auto simp: key_rep_def at_mono split: option.splits if_splits)

lemma rep_mono:
  assumes "H \<subseteq>\<^sub>m H'"
  shows "rep st H zv v \<Longrightarrow> rep st H' zv v" "reps st H pk bs vs \<Longrightarrow> reps st H' pk bs vs"
proof (induction v and vs arbitrary: zv and pk bs)
  case (P_array pk mk nm vs)
  then show ?case using at_mono(2,3) [OF assms] by fastforce
next
  case (PB_cons h k v vs)
  then show ?case using key_rep_mono [OF assms] by fastforce
qed (use at_mono [OF assms] in \<open>fastforce+\<close>)

text \<open>An address has at most one tree.\<close>

lemma at_kind:
  "string_at H a = Some s \<Longrightarrow> array_at H a = None \<and> ref_at H a = None"
  "array_at H a = Some t \<Longrightarrow> string_at H a = None \<and> ref_at H a = None"
  "ref_at H a = Some z \<Longrightarrow> string_at H a = None \<and> array_at H a = None"
  by (auto simp: string_at_def array_at_def ref_at_def split: option.splits zobj.splits)

lemma key_rep_det: "key_rep H pk b h k \<Longrightarrow> key_rep H pk b h' k' \<Longrightarrow> h = h' \<and> k = k'"
  by (auto simp: key_rep_def split: if_splits option.splits)

lemma rep_det: "rep st H zv v \<Longrightarrow> rep st H zv w \<Longrightarrow> v = w" "reps st H pk bs vs \<Longrightarrow> reps st H pk bs ws \<Longrightarrow> vs = ws"
proof (induction v and vs arbitrary: zv w and pk bs ws)
  case (P_simple z)
  then show ?case by (cases w) auto
next
  case (P_string s)
  then show ?case by (cases w) auto
next
  case P_empty
  then show ?case by (cases w) auto
next
  case (P_array pk mk nm vs)
  then show ?case by (cases w) auto
next
  case (P_ref v)
  then show ?case by (cases w) auto
next
  case PB_nil
  then show ?case by (cases ws) auto
next
  case (PB_hole vs)
  then show ?case by (cases ws) auto
next
  case (PB_cons h k v vs)
  then obtain b bs' where b: "bs = b # bs'" "b_val b \<noteq> IS_UNDEF" "key_rep H pk b h k" "rep st H (b_val b) v" "reps st H pk bs' vs"
    by auto
  show ?case
  proof (cases ws)
    case (PB_cons h' k' v' vs')
    with PB_cons.prems(2) b(1) have w: "key_rep H pk b h' k'" "rep st H (b_val b) v'" "reps st H pk bs' vs'" by simp_all
    show ?thesis using key_rep_det [OF b(3) w(1)] PB_cons.IH(1) [OF b(4) w(2)] PB_cons.IH(2) [OF b(5) w(3)] PB_cons by simp
  qed (use PB_cons.prems(2) b in simp_all)
qed

lemma zv_of_kind:
  assumes "rep st H (zv_of v a) v" "\<not> simple_tree v"
  shows "zv_of v a = (if string_at H a \<noteq> None then IS_STRING a else if array_at H a \<noteq> None then IS_ARRAY a else IS_REFERENCE a)"
proof (cases v)
  case P_empty
  then obtain t where "array_at H a = Some t" using assms(1) by auto
  then show ?thesis using at_kind(2) [of H a t] P_empty by simp
next
  case (P_array pk mk nm vs)
  then obtain t where "array_at H a = Some t" using assms(1) by auto
  then show ?thesis using at_kind(2) [of H a t] P_array by simp
next
  case (P_ref u)
  then obtain z where "ref_at H a = Some z" using assms(1) by auto
  then show ?thesis using at_kind(3) [of H a z] P_ref by simp
qed (use assms in auto)

lemma mk_det:
  assumes "rep st H (zv_of v a) v" "rep st H (zv_of w a) w" "\<not> simple_tree v" "\<not> simple_tree w"
  shows "v = w"
proof -
  have "zv_of v a = zv_of w a" unfolding zv_of_kind [OF assms(1,3)] zv_of_kind [OF assms(2,4)] ..
  then show ?thesis using rep_det(1) [OF assms(1)] assms(2) by simp
qed

subsection \<open>Sizes\<close>

definition al :: "nat \<Rightarrow> nat" where
  "al n = (n + 7) div 8 * 8"

lemma alignword_al: "al n < U64 \<Longrightarrow> alignword n = al n"
proof -
  assume a: "al n < U64"
  have "8 dvd al n" by (simp add: al_def)
  then have "al n + 8 \<le> U64" using a dvd8_less [of "al n" U64] by simp
  moreover have "n \<le> al n" by (simp add: al_def)
  ultimately show ?thesis by (simp add: alignword_def uadd_small al_def)
qed

lemma al_pos: "0 < n \<Longrightarrow> 0 < al n"
  by (simp add: al_def)

text \<open>The bytes of a tree when nothing is shared: an upper bound.\<close>

fun vbytes :: "zend_layout \<Rightarrow> pval \<Rightarrow> nat" and bbytes :: "zend_layout \<Rightarrow> bool \<Rightarrow> pbuckets \<Rightarrow> nat" where
  "vbytes Z (P_simple z) = 0" | "vbytes Z (P_string s) = al (zstr_struct_size Z (length s))" | "vbytes Z P_empty = 0"
| "vbytes Z (P_array pk mk nm vs) = al (sizeof_HashTable Z) + al (ht_used_size Z pk mk (plen vs)) + bbytes Z pk vs"
| "vbytes Z (P_ref v) = al (sizeof_zend_reference Z) + vbytes Z v"
| "bbytes Z pk PB_nil = 0" | "bbytes Z pk (PB_hole vs) = bbytes Z pk vs"
| "bbytes Z pk (PB_cons h k v vs) =
     (case k of None \<Rightarrow> 0 | Some s \<Rightarrow> al (zstr_struct_size Z (length s))) + vbytes Z v + bbytes Z pk vs"

text \<open>No structure is empty.\<close>

definition layout_pos :: "zend_layout \<Rightarrow> bool" where
  "layout_pos Z \<longleftrightarrow> 0 < sizeof_HashTable Z \<and> 0 < sizeof_zend_reference Z \<and> (\<forall>n. 0 < zstr_struct_size Z n) \<and>
     (\<forall>pk mk n. 0 < n \<longrightarrow> 0 < ht_used_size Z pk mk n) \<and> 0 < offset_of_key_val Z"

subsection \<open>Memoization keys\<close>

lemma apc_shr3_inj: "apc_shr3 v = apc_shr3 w \<Longrightarrow> v = w"
proof (rule bit_word_eqI)
  fix n assume e: "apc_shr3 v = apc_shr3 w" and n: "n < LENGTH(64)"
  have b: "bit (apc_shr3 u) i \<longleftrightarrow> (if i < 61 then bit u (i + 3) else i < 64 \<and> bit u (i - 61))" for u :: "64 word" and i
  proof -
    have "bit u (i + 3) \<Longrightarrow> i < 61" using bit_imp_le_length [of u "i + 3"] by simp
    then show ?thesis by (auto simp: apc_shr3_def bit_or_iff bit_drop_bit_eq bit_push_bit_iff add.commute)
  qed
  show "bit v n = bit w n"
  proof (cases "n < 3")
    case True
    then show ?thesis using b [of v "n + 61"] b [of w "n + 61"] e by simp
  next
    case False
    then have "n - 3 < 61" "n - 3 + 3 = n" using n by simp_all
    then show ?thesis using b [of v "n - 3"] b [of w "n - 3"] e by metis
  qed
qed

lemma memo_key_inj: "a < U64 \<Longrightarrow> b < U64 \<Longrightarrow> apc_shr3 (word_of_nat a) = apc_shr3 (word_of_nat b) \<longleftrightarrow> a = b"
proof -
  assume ab: "a < U64" "b < U64"
  then have "unat (word_of_nat a :: 64 word) = a" "unat (word_of_nat b :: 64 word) = b" by (simp_all add: unat_of_nat)
  then show ?thesis using apc_shr3_inj by metis
qed

end
