(* ===== verification/Persist_Copy.thy ===== *)
theory Persist_Copy imports Persist_Tree begin

text \<open>
  The size computed by \<open>apc_persist_calc\<close> is the number of bytes the copy takes, and the copy has the tree of the
  original: one induction over the tree, for both traversals in step.
\<close>

subsection \<open>The two traversals in step\<close>

definition heap_small :: "heap \<Rightarrow> bool" where
  "heap_small H \<longleftrightarrow> (\<forall>a. H a \<noteq> None \<longrightarrow> a < U64)"

definition empty_at :: "heap \<Rightarrow> nat \<Rightarrow> bool" where
  "empty_at H a \<longleftrightarrow> (\<exists>t. array_at H a = Some t \<and> ht_num t = 0)"

text \<open>Same number of bytes so far, same structures seen (empty arrays apart, which take no space).\<close>

definition sync :: "heap \<Rightarrow> persist_ctx \<Rightarrow> persist_ctx \<Rightarrow> bool" where
  "sync H c x \<longleftrightarrow> p_size c = p_cur x \<and> p_memo c = p_memo x \<and> \<not> p_use_serialization c \<and> \<not> p_use_serialization x \<and>
     (p_memo x \<longrightarrow> (\<forall>a<U64. \<not> empty_at H a \<longrightarrow> (apc_shr3 (word_of_nat a) \<in> p_counted c \<longleftrightarrow> p_allocated x a \<noteq> None))) \<and>
     (\<forall>a. empty_at H a \<longrightarrow> p_allocated x a = None)"

text \<open>The memory of the entry with the empty array at its start.\<close>

definition view :: "heap \<Rightarrow> heap" where
  "view M = M(0 \<mapsto> Z_array zend_empty_array)"

text \<open>What has been copied, as far as it is smaller than \<open>m\<close>; larger structures may still be in progress.\<close>

definition memo_ok :: "bool \<Rightarrow> bool \<Rightarrow> heap \<Rightarrow> nat \<Rightarrow> persist_ctx \<Rightarrow> bool" where
  "memo_ok st st' H m x \<longleftrightarrow> (\<forall>a off v. p_memo x \<longrightarrow> p_allocated x a = Some off \<longrightarrow> rep st H (zv_of v a) v \<longrightarrow>
     \<not> simple_tree v \<longrightarrow> size v < m \<longrightarrow> rep st' (view (p_mem x)) (zv_of v off) v)"

definition mem_ok :: "persist_ctx \<Rightarrow> bool" where
  "mem_ok x \<longleftrightarrow> 0 < p_cur x \<and> dom (p_mem x) \<subseteq> {0<..<p_cur x}"

definition grown :: "bool \<Rightarrow> heap \<Rightarrow> nat \<Rightarrow> persist_ctx \<Rightarrow> persist_ctx \<Rightarrow> bool" where
  "grown st H s x x' \<longleftrightarrow> p_mem x \<subseteq>\<^sub>m p_mem x' \<and> (\<forall>o'\<in>dom (p_mem x') - dom (p_mem x). p_cur x \<le> o') \<and> p_cur x \<le> p_cur x' \<and>
     p_memo x' = p_memo x \<and> p_allocated x \<subseteq>\<^sub>m p_allocated x' \<and>
     (\<forall>b. p_allocated x b = None \<longrightarrow> p_allocated x' b \<noteq> None \<longrightarrow>
       (\<exists>w. rep st H (zv_of w b) w \<and> \<not> simple_tree w \<and> size w \<le> s))"

lemma grown_refl [simp]: "grown st H s x x"
  by (simp add: grown_def)

lemma grown_trans: "grown st H s x y \<Longrightarrow> grown st H s' y z \<Longrightarrow> s \<le> u \<Longrightarrow> s' \<le> u \<Longrightarrow> grown st H u x z"
proof -
  assume a: "grown st H s x y" "grown st H s' y z" "s \<le> u" "s' \<le> u"
  have "p_cur x \<le> o'" if "o' \<in> dom (p_mem z) - dom (p_mem x)" for o'
    using a(1,2) that by (cases "o' \<in> dom (p_mem y)") (auto simp: grown_def intro: order_trans)
  moreover have "\<exists>w. rep st H (zv_of w b) w \<and> \<not> simple_tree w \<and> size w \<le> u"
    if "p_allocated x b = None" "p_allocated z b \<noteq> None" for b
  proof (cases "p_allocated y b = None")
    case True
    then show ?thesis using a(2,4) that unfolding grown_def by (meson order_trans)
  next
    case False
    then show ?thesis using a(1,3) that unfolding grown_def by (meson order_trans)
  qed
  moreover have "p_mem x \<subseteq>\<^sub>m p_mem z" "p_allocated x \<subseteq>\<^sub>m p_allocated z"
    using a(1,2) by (auto simp: grown_def intro: map_le_trans)
  ultimately show ?thesis using a(1,2) by (simp add: grown_def)
qed

lemma view_mono: "M \<subseteq>\<^sub>m M' \<Longrightarrow> view M \<subseteq>\<^sub>m view M'"
  by (auto simp: view_def map_le_def)

lemma view_at:
  "off \<noteq> 0 \<Longrightarrow> string_at (view M) off = string_at M off" "off \<noteq> 0 \<Longrightarrow> array_at (view M) off = array_at M off"
  "off \<noteq> 0 \<Longrightarrow> data_at (view M) off = data_at M off" "off \<noteq> 0 \<Longrightarrow> ref_at (view M) off = ref_at M off"
  "array_at (view M) 0 = Some zend_empty_array"
  by (simp_all add: view_def string_at_def array_at_def data_at_def ref_at_def)

lemma memo_ok_grown:
  assumes "memo_ok st st' H m x" "p_mem x \<subseteq>\<^sub>m p_mem x'" "p_memo x' = p_memo x" "p_allocated x' = p_allocated x"
  shows "memo_ok st st' H m x'"
  using assms rep_mono(1) [OF view_mono [OF assms(2)]] by (auto simp: memo_ok_def)

subsection \<open>Allocating\<close>

lemma alloc_in_step:
  assumes "sync H c x" "mem_ok x" "p_cur x + al sz < U64"
  defines "x' \<equiv> x\<lparr>p_cur := p_cur x + al sz\<rparr>"
  shows "apc_persist_alloc sz x = (p_cur x, x')" "sync H (add_size sz c) x'" "mem_ok x'" "grown False H s x x'"
    "memo_ok False True H m x \<Longrightarrow> memo_ok False True H m x'" "0 < sz \<Longrightarrow> p_cur x < p_cur x'"
proof -
  have "al sz < U64" using assms(3) by simp
  then have a: "uadd (p_cur x) (alignword sz) = p_cur x + al sz" using assms(3) by (simp add: alignword_al uadd_small)
  then show "apc_persist_alloc sz x = (p_cur x, x')" by (simp add: apc_persist_alloc_def x'_def)
  show "sync H (add_size sz c) x'" using assms(1) a by (simp add: sync_def x'_def add_size_def)
  show "mem_ok x'" using assms(2) by (auto simp: mem_ok_def x'_def)
  show "grown False H s x x'" by (simp add: grown_def x'_def)
  show "memo_ok False True H m x'" if "memo_ok False True H m x" by (rule memo_ok_grown [OF that]) (simp_all add: x'_def)
  show "p_cur x < p_cur x'" if "0 < sz" using al_pos [OF that] by (simp add: x'_def)
qed

text \<open>Storing an object at a reserved offset.\<close>

lemma store_step:
  fixes ob :: zobj
  assumes "mem_ok x" "off < p_cur x" "0 < off" "off \<notin> dom (p_mem x)"
  defines "x' \<equiv> store_obj off ob x"
  shows "mem_ok x'" "p_mem x \<subseteq>\<^sub>m p_mem x'" "memo_ok st st' H m x \<Longrightarrow> memo_ok st st' H m x'" "p_mem x' off = Some ob"
    "p_cur x' = p_cur x" "p_allocated x' = p_allocated x" "p_memo x' = p_memo x"
proof -
  show le: "p_mem x \<subseteq>\<^sub>m p_mem x'" using assms(4) by (auto simp: x'_def store_obj_def map_le_def)
  show "mem_ok x'" using assms(1,2,3) by (auto simp: mem_ok_def x'_def store_obj_def)
  show "memo_ok st st' H m x'" if "memo_ok st st' H m x" by (rule memo_ok_grown [OF that le]) (simp_all add: x'_def store_obj_def)
qed (simp_all add: x'_def store_obj_def)

lemma store_in_step:
  fixes ob :: zobj
  assumes "sync H c x" "mem_ok x" "off < p_cur x" "0 < off" "off \<notin> dom (p_mem x)"
  defines "x' \<equiv> store_obj off ob x"
  shows "sync H c x'" "mem_ok x'" "p_mem x \<subseteq>\<^sub>m p_mem x'" "memo_ok False True H m x \<Longrightarrow> memo_ok False True H m x'"
    "p_mem x' off = Some ob" "p_cur x' = p_cur x" "p_allocated x' = p_allocated x" "p_memo x' = p_memo x"
proof -
  show "sync H c x'" using assms(1) by (simp add: sync_def x'_def store_obj_def)
qed (use store_step [OF assms(2-5), where ob = ob] in \<open>simp_all add: x'_def\<close>)

lemma copy_cstr_in_step:
  assumes "sync H c x" "mem_ok x" "p_cur x + al (zstr_struct_size Z (length s)) < U64" "layout_pos Z"
  shows "\<exists>h' x'. apc_persist_copy_cstr Z s h x = (p_cur x, x') \<and> sync H (add_size_str Z (length s) c) x' \<and> mem_ok x' \<and>
    grown False H k x x' \<and> p_allocated x' = p_allocated x \<and> string_at (view (p_mem x')) (p_cur x) = Some (s, h') \<and>
    (\<forall>m. memo_ok False True H m x \<longrightarrow> memo_ok False True H m x') \<and> p_cur x' = p_cur x + al (zstr_struct_size Z (length s))"
proof -
  let ?sz = "zstr_struct_size Z (length s)"
  define y where "y = x\<lparr>p_cur := p_cur x + al ?sz\<rparr>"
  note a = alloc_in_step [OF assms(1-3), folded y_def]
  have lt: "p_cur x < p_cur y" using a(6) assms(4) by (simp add: layout_pos_def)
  have y: "p_mem y = p_mem x" "p_allocated y = p_allocated x" "p_memo y = p_memo x" by (simp_all add: y_def)
  have nd: "0 < p_cur x" "p_cur x \<notin> dom (p_mem y)" using assms(2) y by (auto simp: mem_ok_def)
  define h' where "h' = (if h = 0 then str_hash Z s else h)"
  define x' where "x' = store_obj (p_cur x) (Z_string s h') y"
  note st = store_in_step [OF a(2,3) lt nd, where ob = "Z_string s h'", folded x'_def]
  have "grown False H k x x'" using st(3,6,7,8) lt y by (auto simp: grown_def x'_def store_obj_def split: if_splits)
  moreover have "string_at (view (p_mem x')) (p_cur x) = Some (s, h')" using st(5) unfolding view_at(1) [OF nd(1) [THEN gr_implies_not0]] by (simp add: string_at_def)
  ultimately show ?thesis using a(1,5) st(1,2,4,6,7) y
    by (intro exI [of _ h'] exI [of _ x']) (simp add: apc_persist_copy_cstr_def Let_def x'_def h'_def add_size_str_def y_def)
qed

subsection \<open>Memoizing\<close>

lemma memo_hit:
  assumes "sync H c x" "a < U64" "\<not> empty_at H a"
  shows "fst (apc_persist_calc_memoize a c) \<longleftrightarrow> apc_persist_get_already_allocated a x \<noteq> None"
    "fst (apc_persist_calc_memoize a c) \<Longrightarrow> snd (apc_persist_calc_memoize a c) = c"
  using assms by (auto simp: sync_def apc_persist_calc_memoize_def apc_persist_get_already_allocated_def Let_def)

lemma memoize_fields [simp]:
  "p_size (snd (apc_persist_calc_memoize a c)) = p_size c" "p_memo (snd (apc_persist_calc_memoize a c)) = p_memo c"
  "p_use_serialization (snd (apc_persist_calc_memoize a c)) = p_use_serialization c"
  by (simp_all add: apc_persist_calc_memoize_def Let_def)

lemma memo_miss:
  assumes "sync H c x" "a < U64" "\<not> empty_at H a" "p_size c' = p_cur x'" "p_memo c' = p_memo c" "p_memo x' = p_memo x"
    "\<not> p_use_serialization c'" "\<not> p_use_serialization x'"
    "p_counted c' = p_counted (snd (apc_persist_calc_memoize a c))"
    "p_allocated x' = p_allocated (apc_persist_add_already_allocated a off x)"
  shows "sync H c' x'"
proof -
  have "apc_shr3 (word_of_nat b) \<in> p_counted c' \<longleftrightarrow> p_allocated x' b \<noteq> None"
    if "p_memo x" "b < U64" "\<not> empty_at H b" for b
    using assms(1,2,9,10) that memo_key_inj [of b a]
    by (auto simp: sync_def apc_persist_calc_memoize_def apc_persist_add_already_allocated_def Let_def split: if_splits)
  moreover have "empty_at H b \<Longrightarrow> p_allocated x' b = None" for b
    using assms(1,3,10) by (auto simp: sync_def apc_persist_add_already_allocated_def)
  ultimately show ?thesis using assms by (simp add: sync_def)
qed

lemma memo_empty:
  assumes "sync H c x" "a < U64" "empty_at H a"
  shows "sync H (snd (apc_persist_calc_memoize a c)) x" "apc_persist_get_already_allocated a x = None"
proof -
  have "apc_shr3 (word_of_nat b) \<in> p_counted (snd (apc_persist_calc_memoize a c)) \<longleftrightarrow> p_allocated x b \<noteq> None"
    if "p_memo x" "b < U64" "\<not> empty_at H b" for b
    using assms that memo_key_inj [of b a] by (auto simp: sync_def apc_persist_calc_memoize_def Let_def split: if_splits)
  then show "sync H (snd (apc_persist_calc_memoize a c)) x" using assms(1) by (simp add: sync_def)
  show "apc_persist_get_already_allocated a x = None"
    using assms(1,3) by (simp add: sync_def apc_persist_get_already_allocated_def)
qed

text \<open>An entry of the table for a structure that has just been started or finished.\<close>

lemma memo_ok_start:
  assumes "memo_ok st st' H m x" "rep st H (zv_of v a) v" "\<not> simple_tree v" "size v \<le> m"
    "p_mem x' = p_mem x" "p_memo x' = p_memo x" "p_allocated x' = p_allocated (apc_persist_add_already_allocated a off x)"
  shows "memo_ok st st' H (size v) x'"
proof -
  have "rep st' (view (p_mem x')) (zv_of w o') w"
    if w: "p_memo x'" "p_allocated x' b = Some o'" "rep st H (zv_of w b) w" "\<not> simple_tree w" "size w < size v" for b o' w
  proof (cases "b = a")
    case True
    then have "w = v" using mk_det [OF _ assms(2) w(4) assms(3)] w(3) by simp
    with w(5) show ?thesis by simp
  next
    case False
    then have "p_allocated x b = Some o'" using w(1,2) assms(6,7) by (simp add: apc_persist_add_already_allocated_def)
    then show ?thesis using assms w by (simp add: memo_ok_def)
  qed
  then show ?thesis by (auto simp: memo_ok_def)
qed

lemma memo_ok_finish:
  assumes "memo_ok st st' H m x" "memo_ok st st' H (size v) y" "p_mem x \<subseteq>\<^sub>m p_mem y" "p_memo y = p_memo x"
    and v: "rep st H (zv_of v a) v" "\<not> simple_tree v" "rep st' (view (p_mem y)) (zv_of v off) v"
    and a: "p_memo y \<Longrightarrow> p_allocated y a = Some off" and x: "\<And>b o'. p_allocated x b = Some o' \<Longrightarrow> p_allocated y b = Some o'"
    and new: "\<And>b. p_allocated x b = None \<Longrightarrow> b \<noteq> a \<Longrightarrow> p_allocated y b \<noteq> None \<Longrightarrow>
      \<exists>w. rep st H (zv_of w b) w \<and> \<not> simple_tree w \<and> size w < size v"
  shows "memo_ok st st' H m y"
proof -
  have "rep st' (view (p_mem y)) (zv_of w o') w"
    if w: "p_memo y" "p_allocated y b = Some o'" "rep st H (zv_of w b) w" "\<not> simple_tree w" "size w < m" for b o' w
  proof (cases "b = a")
    case True
    then have "w = v" "o' = off" using mk_det [OF _ v(1) w(4) v(2)] w a by simp_all
    then show ?thesis using v(3) by simp
  next
    case False
    show ?thesis
    proof (cases "p_allocated x b")
      case (Some o2)
      then have "o2 = o'" using x w(2) by fastforce
      then have "rep st' (view (p_mem x)) (zv_of w o') w" using assms(1,4) w Some by (simp add: memo_ok_def)
      then show ?thesis by (rule rep_mono(1) [OF view_mono [OF assms(3)]])
    next
      case None
      then obtain u where u: "rep st H (zv_of u b) u" "\<not> simple_tree u" "size u < size v"
        using new False w(2) by blast
      then have "w = u" using mk_det [OF w(3) u(1) w(4) u(2)] by simp
      then show ?thesis using assms(2) w u(3) by (simp add: memo_ok_def)
    qed
  qed
  then show ?thesis by (auto simp: memo_ok_def)
qed

subsection \<open>Copying values\<close>

text \<open>Both traversals of a value end in step, and the copy has its tree.\<close>

definition val_ok :: "nat \<Rightarrow> zend_layout \<Rightarrow> (zval \<Rightarrow> string option) \<Rightarrow> heap \<Rightarrow> nat \<Rightarrow> zval \<Rightarrow> pval \<Rightarrow> bool" where
  "val_ok n Z ser H m zv v \<longleftrightarrow> (\<forall>c x. sync H c x \<longrightarrow> memo_ok False True H m x \<longrightarrow> mem_ok x \<longrightarrow> p_cur x + vbytes Z v < U64 \<longrightarrow>
     (\<exists>zv' x' c'. apc_persist_calc_zval n Z ser H zv c = Some (True, c') \<and> apc_persist_copy_zval n Z H zv x = Some (zv', x') \<and>
        sync H c' x' \<and> memo_ok False True H m x' \<and> mem_ok x' \<and> rep True (view (p_mem x')) zv' v \<and> grown False H (size v) x x' \<and>
        p_cur x' \<le> p_cur x + vbytes Z v))"

definition bks_ok :: "nat \<Rightarrow> zend_layout \<Rightarrow> (zval \<Rightarrow> string option) \<Rightarrow> heap \<Rightarrow> nat \<Rightarrow> bool \<Rightarrow> bucket list \<Rightarrow> pbuckets \<Rightarrow> bool" where
  "bks_ok n Z ser H m pk bs vs \<longleftrightarrow> (\<forall>idx l c x. sync H c x \<longrightarrow> memo_ok False True H m x \<longrightarrow> mem_ok x \<longrightarrow> p_cur x + bbytes Z pk vs < U64 \<longrightarrow>
     (\<exists>bs' l' x' c'. calc_buckets (apc_persist_calc_zval n Z ser H) Z H pk bs c = Some (True, c') \<and>
        copy_buckets (apc_persist_copy_zval n Z H) Z H pk idx bs l x = Some (bs', l', x') \<and>
        sync H c' x' \<and> memo_ok False True H m x' \<and> mem_ok x' \<and> reps True (view (p_mem x')) pk bs' vs \<and> grown False H (size vs) x x' \<and>
        p_cur x' \<le> p_cur x + bbytes Z pk vs \<and> (l_static l' \<longrightarrow> l_static l) \<and> (\<not> pk \<longrightarrow> static_ok (l_static l') bs')))"

lemma rep_less: "heap_small H \<Longrightarrow> rep st H zv v \<Longrightarrow> \<not> simple_tree v \<Longrightarrow> z_counted zv < U64"
  by (cases v) (auto simp: heap_small_def string_at_def array_at_def ref_at_def split: option.splits)

lemma val_simple: "rep False H zv (P_simple z) \<Longrightarrow> 0 < n \<Longrightarrow> val_ok n Z ser H m zv (P_simple z)"
  by (cases n) (auto simp: val_ok_def)

text \<open>A structure that has been copied before.\<close>

lemma val_known:
  assumes hs: "heap_small H" and r: "rep False H zv v" "\<not> simple_tree v" "\<not> empty_at H (z_counted zv)" "size v < m"
    and s: "sync H c x" "memo_ok False True H m x" "apc_persist_get_already_allocated (z_counted zv) x = Some off"
  shows "apc_persist_calc_zval (Suc n) Z ser H zv c = Some (True, c)"
    "apc_persist_copy_zval (Suc n) Z H zv x = Some (zv_of v off, x)" "rep True (view (p_mem x)) (zv_of v off) v"
proof -
  note z = rep_mk [OF r(1,2)]
  note h = memo_hit [OF s(1) rep_less [OF hs r(1,2)] r(3)]
  show "apc_persist_calc_zval (Suc n) Z ser H zv c = Some (True, c)" using z h s(1,3) by (simp add: sync_def Let_def)
  show "apc_persist_copy_zval (Suc n) Z H zv x = Some (zv_of v off, x)"
    using z s(1,3) r(1,2) by (cases v) (auto simp: sync_def copy_value_def)
  have "p_memo x" "p_allocated x (z_counted zv) = Some off"
    using s(3) by (simp_all add: apc_persist_get_already_allocated_def split: if_splits)
  moreover have "rep False H (zv_of v (z_counted zv)) v" using r(1) z by simp
  ultimately show "rep True (view (p_mem x)) (zv_of v off) v" using s(2) r(2,4) by (simp add: memo_ok_def)
qed

lemma val_empty:
  assumes hs: "heap_small H" and r: "rep False H zv P_empty" and n: "0 < n"
  shows "val_ok n Z ser H m zv P_empty"
proof -
  obtain a t where a: "zv = IS_ARRAY a" "array_at H a = Some t" "ht_num t = 0" using r by auto
  have e: "empty_at H a" "a < U64" using a rep_less [OF hs r] by (auto simp: empty_at_def)
  obtain k where k: "n = Suc k" using n by (cases n) auto
  show ?thesis unfolding val_ok_def
  proof (intro allI impI)
    fix c x assume s: "sync H c x" "memo_ok False True H m x" "mem_ok x" "p_cur x + vbytes Z P_empty < U64"
    note me = memo_empty [OF s(1) e(2,1)]
    have "apc_persist_calc_zval n Z ser H zv c = Some (True, snd (apc_persist_calc_memoize a c))"
      using s(1) a by (simp add: k sync_def Let_def calc_value_def apc_persist_calc_ht_def)
    moreover have "apc_persist_copy_zval n Z H zv x = Some (IS_ARRAY 0, x)"
      using s(1) a me(2) by (simp add: k sync_def copy_value_def apc_persist_copy_ht_def)
    moreover have "rep True (view (p_mem x)) (IS_ARRAY 0) P_empty" by (simp add: view_at zend_empty_array_def)
    ultimately show "\<exists>zv' x' c'. apc_persist_calc_zval n Z ser H zv c = Some (True, c') \<and>
        apc_persist_copy_zval n Z H zv x = Some (zv', x') \<and> sync H c' x' \<and> memo_ok False True H m x' \<and> mem_ok x' \<and>
        rep True (view (p_mem x')) zv' P_empty \<and> grown False H (size P_empty) x x' \<and> p_cur x' \<le> p_cur x + vbytes Z P_empty"
      using s me(1) by (intro exI [of _ "IS_ARRAY 0"] exI [of _ x] exI [of _ "snd (apc_persist_calc_memoize a c)"]) simp
  qed
qed

text \<open>Adding a structure to the table does nothing else.\<close>

lemma add_allocated_fields [simp]:
  "p_size (apc_persist_add_already_allocated a off x) = p_size x" "p_cur (apc_persist_add_already_allocated a off x) = p_cur x"
  "p_mem (apc_persist_add_already_allocated a off x) = p_mem x" "p_memo (apc_persist_add_already_allocated a off x) = p_memo x"
  "p_use_serialization (apc_persist_add_already_allocated a off x) = p_use_serialization x"
  by (simp_all add: apc_persist_add_already_allocated_def)

lemma add_allocated_at:
  "apc_persist_get_already_allocated a x = None \<Longrightarrow> p_memo x \<Longrightarrow> p_allocated x \<subseteq>\<^sub>m p_allocated (apc_persist_add_already_allocated a off x)"
  "p_memo x \<Longrightarrow> p_allocated (apc_persist_add_already_allocated a off x) a = Some off"
  "b \<noteq> a \<Longrightarrow> p_allocated (apc_persist_add_already_allocated a off x) b = p_allocated x b"
  "\<not> p_memo x \<Longrightarrow> p_allocated (apc_persist_add_already_allocated a off x) = p_allocated x"
  by (auto simp: apc_persist_get_already_allocated_def apc_persist_add_already_allocated_def map_le_def)

lemma add_size_fields [simp]:
  "p_memo (add_size sz x) = p_memo x" "p_use_serialization (add_size sz x) = p_use_serialization x"
  "p_counted (add_size sz x) = p_counted x" "p_size (add_size sz x) = uadd (p_size x) (alignword sz)"
  by (simp_all add: add_size_def)

end
