(* ===== verification/Persist_Run.thy ===== *)
theory Persist_Run imports Persist_Copy begin

text \<open>
  Every value with a tree: its size is computed, the copy takes as many bytes and has the tree.
\<close>

subsection \<open>Strings\<close>

lemma not_empty:
  "rep st H zv v \<Longrightarrow> \<not> simple_tree v \<Longrightarrow> v \<noteq> P_empty \<Longrightarrow> \<not> empty_at H (z_counted zv)"
  by (cases v) (auto simp: empty_at_def dest: at_kind)

text \<open>The first visit of a structure, in both traversals.\<close>

lemma first_visit:
  assumes hs: "heap_small H" and r: "rep False H zv v" "\<not> simple_tree v" "v \<noteq> P_empty"
    and s: "sync H c x" "apc_persist_get_already_allocated (z_counted zv) x = None"
  defines "c1 \<equiv> snd (apc_persist_calc_memoize (z_counted zv) c)"
  shows "apc_persist_calc_zval (Suc n) Z ser H zv c = calc_value (apc_persist_calc_zval n Z ser H) Z H zv c1"
    "apc_persist_copy_zval (Suc n) Z H zv x = copy_value (apc_persist_copy_zval n Z H) Z H zv x"
proof -
  have "\<not> fst (apc_persist_calc_memoize (z_counted zv) c)"
    using memo_hit(1) [OF s(1) rep_less [OF hs r(1,2)] not_empty [OF r]] s(2) by simp
  then show "apc_persist_calc_zval (Suc n) Z ser H zv c = calc_value (apc_persist_calc_zval n Z ser H) Z H zv c1"
    "apc_persist_copy_zval (Suc n) Z H zv x = copy_value (apc_persist_copy_zval n Z H) Z H zv x"
    using rep_mk [OF r(1,2)] s(1) by (simp_all add: sync_def c1_def Let_def)
qed

text \<open>To show \<open>val_ok\<close>, it is enough to consider first visits.\<close>

lemma val_first:
  assumes hs: "heap_small H" and r: "rep False H zv v" "\<not> simple_tree v" "v \<noteq> P_empty" "size v < m"
    and new: "\<And>c x. sync H c x \<Longrightarrow> memo_ok False True H m x \<Longrightarrow> mem_ok x \<Longrightarrow> p_cur x + vbytes Z v < U64 \<Longrightarrow>
      apc_persist_get_already_allocated (z_counted zv) x = None \<Longrightarrow>
      \<exists>off x' c'. calc_value (apc_persist_calc_zval n Z ser H) Z H zv (snd (apc_persist_calc_memoize (z_counted zv) c)) = Some (True, c') \<and>
        copy_value (apc_persist_copy_zval n Z H) Z H zv x = Some (zv_of v off, x') \<and>
        sync H c' x' \<and> memo_ok False True H m x' \<and> mem_ok x' \<and> rep True (view (p_mem x')) (zv_of v off) v \<and> grown False H (size v) x x' \<and>
        p_cur x' \<le> p_cur x + vbytes Z v"
  shows "val_ok (Suc n) Z ser H m zv v"
  unfolding val_ok_def
proof (intro allI impI)
  fix c x assume s: "sync H c x" "memo_ok False True H m x" "mem_ok x" "p_cur x + vbytes Z v < U64"
  show "\<exists>zv' x' c'. apc_persist_calc_zval (Suc n) Z ser H zv c = Some (True, c') \<and>
      apc_persist_copy_zval (Suc n) Z H zv x = Some (zv', x') \<and> sync H c' x' \<and> memo_ok False True H m x' \<and> mem_ok x' \<and>
      rep True (view (p_mem x')) zv' v \<and> grown False H (size v) x x' \<and> p_cur x' \<le> p_cur x + vbytes Z v"
  proof (cases "apc_persist_get_already_allocated (z_counted zv) x")
    case None
    obtain off x' c' where a: "calc_value (apc_persist_calc_zval n Z ser H) Z H zv (snd (apc_persist_calc_memoize (z_counted zv) c)) = Some (True, c')"
      "copy_value (apc_persist_copy_zval n Z H) Z H zv x = Some (zv_of v off, x')" "sync H c' x'" "memo_ok False True H m x'" "mem_ok x'"
      "rep True (view (p_mem x')) (zv_of v off) v" "grown False H (size v) x x'" "p_cur x' \<le> p_cur x + vbytes Z v"
      using new [OF s None] by (elim exE conjE) (rule that)
    note f = first_visit [OF hs r(1-3) s(1) None]
    show ?thesis unfolding f using a by (intro exI [of _ "zv_of v off"] exI [of _ x'] exI [of _ c']) simp
  next
    case (Some off)
    note k = val_known [OF hs r(1,2) not_empty [OF r(1-3)] r(4) s(1,2) Some]
    show ?thesis using k(1,2,3) s by (intro exI [of _ "zv_of v off"] exI [of _ x] exI [of _ c]) simp
  qed
qed

lemma grown_add:
  assumes "grown st H s x y" "p_mem y \<subseteq>\<^sub>m p_mem z" "\<forall>o'\<in>dom (p_mem z) - dom (p_mem y). p_cur x \<le> o'" "p_cur y \<le> p_cur z" "p_memo z = p_memo y"
    "rep st H (zv_of v a) v" "\<not> simple_tree v" "s \<le> size v"
    "p_allocated y \<subseteq>\<^sub>m p_allocated z" "\<And>b. b \<noteq> a \<Longrightarrow> p_allocated z b = p_allocated y b"
  shows "grown st H (size v) x z"
proof -
  have "\<exists>w. rep st H (zv_of w b) w \<and> \<not> simple_tree w \<and> size w \<le> size v"
    if b: "p_allocated x b = None" "p_allocated z b \<noteq> None" for b
  proof (cases "b = a")
    case True
    then show ?thesis using assms(6,7) by blast
  next
    case False
    then have "p_allocated y b \<noteq> None" using assms(10) b(2) by simp
    then show ?thesis using assms(1,8) b(1) unfolding grown_def by (meson order_trans)
  qed
  moreover have "p_cur x \<le> o'" if "o' \<in> dom (p_mem z) - dom (p_mem x)" for o'
    using assms(1,3) that by (cases "o' \<in> dom (p_mem y)") (simp_all add: grown_def)
  ultimately show ?thesis using assms(1,2,4,5,9) by (auto simp: grown_def intro: map_le_trans)
qed

lemma val_string:
  assumes hs: "heap_small H" and Z: "layout_pos Z" and r: "rep False H zv (P_string s)" and m: "size (P_string s) < m"
  shows "val_ok (Suc n) Z ser H m zv (P_string s)"
proof (rule val_first [OF hs r _ _ m])
  fix c x
  assume x: "sync H c x" "memo_ok False True H m x" "mem_ok x" "p_cur x + vbytes Z (P_string s) < U64"
    and none: "apc_persist_get_already_allocated (z_counted zv) x = None"
  obtain a h where a: "zv = IS_STRING a" "string_at H a = Some (s, h)" using r by auto
  let ?v = "P_string s"
  have ra: "rep False H (zv_of ?v a) ?v" using r a(1) by simp
  have lt: "p_cur x + al (zstr_struct_size Z (length s)) < U64" using x(4) by simp
  obtain h' y where y: "apc_persist_copy_cstr Z s h x = (p_cur x, y)" "sync H (add_size_str Z (length s) c) y" "mem_ok y"
    "grown False H 0 x y" "p_allocated y = p_allocated x" "string_at (view (p_mem y)) (p_cur x) = Some (s, h')"
    "\<forall>m. memo_ok False True H m x \<longrightarrow> memo_ok False True H m y" "p_cur y = p_cur x + al (zstr_struct_size Z (length s))"
    using copy_cstr_in_step [OF x(1,3) lt Z, of h 0] by (elim exE conjE) (rule that)
  define x' where "x' = apc_persist_add_already_allocated a (p_cur x) y"
  define c' where "c' = add_size_str Z (length s) (snd (apc_persist_calc_memoize a c))"
  have memo: "p_memo y = p_memo x" using y(4) by (simp add: grown_def)
  have al: "p_allocated x' = p_allocated (apc_persist_add_already_allocated a (p_cur x) x)"
    using y(5) memo by (simp add: x'_def apc_persist_add_already_allocated_def)
  have e: "a < U64" "\<not> empty_at H a" using rep_less [OF hs r] not_empty [OF r] a(1) by simp_all
  have sy: "sync H c' x'"
    using y(2) x(1) memo by (intro memo_miss [OF x(1) e, of c' x' "p_cur x"]) (simp_all add: c'_def x'_def add_size_str_def al [unfolded x'_def] sync_def)
  have nn: "apc_persist_get_already_allocated a x = None" using none a(1) by simp
  have alm: "p_allocated x \<subseteq>\<^sub>m p_allocated x'" using al add_allocated_at(1) [OF nn] add_allocated_at(4) [of x] by (cases "p_memo x") simp_all
  have rp: "rep True (view (p_mem x')) (zv_of ?v (p_cur x)) ?v" using y(6) by (simp add: x'_def)
  have mo: "memo_ok False True H (size ?v) x'"
    by (rule memo_ok_start [OF y(7) [rule_format, OF x(2)] ra _ less_imp_le [OF m]]) (simp_all add: x'_def)
  have "memo_ok False True H m x'"
  proof (rule memo_ok_finish [OF x(2) mo _ _ ra _ rp])
    show "p_mem x \<subseteq>\<^sub>m p_mem x'" "p_memo x' = p_memo x" using y(4) by (simp_all add: x'_def grown_def)
    show "p_memo x' \<Longrightarrow> p_allocated x' a = Some (p_cur x)" by (simp add: x'_def add_allocated_at)
    show "p_allocated x b = Some o' \<Longrightarrow> p_allocated x' b = Some o'" for b o' using alm by (auto simp: map_le_def dom_def)
    show "p_allocated x b = None \<Longrightarrow> b \<noteq> a \<Longrightarrow> p_allocated x' b \<noteq> None \<Longrightarrow>
      \<exists>w. rep False H (zv_of w b) w \<and> \<not> simple_tree w \<and> size w < size ?v" for b using al add_allocated_at(3) by simp
  qed simp
  moreover have "grown False H (size ?v) x x'"
    using grown_add [OF y(4), of x' ?v a] ra alm y(5) add_allocated_at(3) by (simp add: x'_def)
  moreover have "mem_ok x'" using y(3) by (simp add: mem_ok_def x'_def)
  ultimately show "\<exists>off x' c'. calc_value (apc_persist_calc_zval n Z ser H) Z H zv (snd (apc_persist_calc_memoize (z_counted zv) c)) = Some (True, c') \<and>
        copy_value (apc_persist_copy_zval n Z H) Z H zv x = Some (zv_of ?v off, x') \<and>
        sync H c' x' \<and> memo_ok False True H m x' \<and> mem_ok x' \<and> rep True (view (p_mem x')) (zv_of ?v off) ?v \<and> grown False H (size ?v) x x' \<and>
        p_cur x' \<le> p_cur x + vbytes Z ?v"
    using a sy rp y(1,8) nn
    by (intro exI [of _ "p_cur x"] exI [of _ x'] exI [of _ c'])
      (simp add: calc_value_def copy_value_def c'_def x'_def apc_persist_copy_zstr_def)
qed simp_all

subsection \<open>Structures with parts\<close>

text \<open>\<open>y\<close> is the state in which the structure at \<open>a\<close> gets its offset, \<open>z0\<close> that after its parts, \<open>z\<close> the final one.\<close>

lemma finish_in_step:
  assumes x: "memo_ok st st' H m x" and nn: "apc_persist_get_already_allocated a x = None"
    and v: "rep st H (zv_of v a) v" "\<not> simple_tree v"
    and y: "p_mem y = p_mem x" "p_memo y = p_memo x" "p_cur x \<le> p_cur y"
      "p_allocated y = p_allocated (apc_persist_add_already_allocated a off x)"
    and g: "grown st H s y z0" "s < size v \<or> p_allocated z0 = p_allocated y"
    and z: "p_mem z0 \<subseteq>\<^sub>m p_mem z" "\<forall>o'\<in>dom (p_mem z) - dom (p_mem z0). p_cur x \<le> o'" "p_cur z = p_cur z0"
      "p_memo z = p_memo z0" "p_allocated z = p_allocated z0"
    and mo: "memo_ok st st' H (size v) z" and rp: "rep st' (view (p_mem z)) (zv_of v off) v"
  shows "memo_ok st st' H m z" "grown st H (size v) x z"
proof -
  have ax: "p_allocated x \<subseteq>\<^sub>m p_allocated y"
    using y(4) add_allocated_at(1) [OF nn] add_allocated_at(4) [of x] by (cases "p_memo x") simp_all
  have yz: "p_allocated y \<subseteq>\<^sub>m p_allocated z" "p_mem y \<subseteq>\<^sub>m p_mem z" "p_memo z = p_memo x" "p_cur y \<le> p_cur z"
    using g(1) z y(2) by (auto simp: grown_def intro: map_le_trans)
  have fresh: "\<exists>w. rep st H (zv_of w b) w \<and> \<not> simple_tree w \<and> size w < size v"
    if "p_allocated x b = None" "b \<noteq> a" "p_allocated z b \<noteq> None" for b
  proof -
    have "p_allocated y b = None" using y(4) that add_allocated_at(3) by simp
    moreover have zb: "p_allocated z0 b \<noteq> None" using z(5) that(3) by simp
    ultimately obtain w where w: "rep st H (zv_of w b) w" "\<not> simple_tree w" "size w \<le> s"
      using g(1) unfolding grown_def by metis
    have "s < size v" using g(2) zb \<open>p_allocated y b = None\<close> by auto
    then show ?thesis using w by (intro exI [of _ w]) simp
  qed
  show "memo_ok st st' H m z"
  proof (rule memo_ok_finish [OF x mo _ yz(3) v rp])
    show "p_mem x \<subseteq>\<^sub>m p_mem z" using yz(2) y(1) by simp
    show "p_allocated z a = Some off" if "p_memo z"
    proof -
      have "p_allocated y a = Some off" using that yz(3) y(4) by (simp add: add_allocated_at)
      then show ?thesis using yz(1) by (auto simp: map_le_def dom_def)
    qed
    show "p_allocated x b = Some o' \<Longrightarrow> p_allocated z b = Some o'" for b o'
      using map_le_trans [OF ax yz(1)] by (auto simp: map_le_def dom_def)
    show "\<exists>w. rep st H (zv_of w b) w \<and> \<not> simple_tree w \<and> size w < size v"
      if "p_allocated x b = None" "b \<noteq> a" "p_allocated z b \<noteq> None" for b
      by (rule fresh [OF that])
  qed
  have "p_cur x \<le> o'" if "o' \<in> dom (p_mem z) - dom (p_mem x)" for o'
  proof (cases "o' \<in> dom (p_mem z0)")
    case True
    then have "p_cur y \<le> o'" using g(1) y(1) that by (simp add: grown_def)
    then show ?thesis using y(3) by simp
  qed (use z(2) that in simp)
  moreover have "\<exists>w. rep st H (zv_of w b) w \<and> \<not> simple_tree w \<and> size w \<le> size v"
    if "p_allocated x b = None" "p_allocated z b \<noteq> None" for b
  proof (cases "b = a")
    case False
    then show ?thesis using fresh [OF that(1) _ that(2)] by (meson less_imp_le)
  qed (use v in blast)
  ultimately show "grown st H (size v) x z"
    using yz y(1,3) map_le_trans [OF ax yz(1)] by (simp add: grown_def)
qed

text \<open>The start of a structure: its offset is reserved and put into the table.\<close>

lemma start_in_step:
  assumes hs: "heap_small H" and r: "rep False H zv v" "\<not> simple_tree v" "v \<noteq> P_empty" "size v < m"
    and x: "sync H c x" "memo_ok False True H m x" "mem_ok x" "p_cur x + al sz < U64"
    and nn: "apc_persist_get_already_allocated (z_counted zv) x = None"
  defines "y \<equiv> apc_persist_add_already_allocated (z_counted zv) (p_cur x) (snd (apc_persist_alloc sz x))"
  shows "sync H (add_size sz (snd (apc_persist_calc_memoize (z_counted zv) c))) y" "memo_ok False True H (size v) y" "mem_ok y"
    "p_mem y = p_mem x" "p_memo y = p_memo x" "p_cur y = p_cur x + al sz"
    "p_allocated y = p_allocated (apc_persist_add_already_allocated (z_counted zv) (p_cur x) x)"
proof -
  define x1 where "x1 = x\<lparr>p_cur := p_cur x + al sz\<rparr>"
  note a = alloc_in_step [OF x(1,3,4), folded x1_def]
  have yx1: "y = apc_persist_add_already_allocated (z_counted zv) (p_cur x) x1" using a(1) by (simp add: y_def)
  show f: "p_mem y = p_mem x" "p_memo y = p_memo x" "p_cur y = p_cur x + al sz" by (simp_all add: yx1 x1_def)
  show al: "p_allocated y = p_allocated (apc_persist_add_already_allocated (z_counted zv) (p_cur x) x)"
    by (simp add: yx1 x1_def apc_persist_add_already_allocated_def)
  have "p_size (add_size sz c) = p_cur x1" using a(2) by (simp add: sync_def)
  then show "sync H (add_size sz (snd (apc_persist_calc_memoize (z_counted zv) c))) y"
    using x(1) by (intro memo_miss [OF x(1) rep_less [OF hs r(1,2)] not_empty [OF r(1-3)], of _ y "p_cur x"])
      (simp_all add: sync_def al f x1_def, simp add: yx1 x1_def)
  have rz: "rep False H (zv_of v (z_counted zv)) v" using r(1) rep_mk [OF r(1,2)] by simp
  show "memo_ok False True H (size v) y"
    by (rule memo_ok_start [OF a(5) [OF x(2)] rz r(2) less_imp_le [OF r(4)]]) (simp_all add: yx1)
  show "mem_ok y" using a(3) by (simp add: mem_ok_def yx1)
qed

lemma mem_ok_cur: "mem_ok x \<Longrightarrow> p_cur x \<noteq> 0" "mem_ok x \<Longrightarrow> p_cur x \<notin> dom (p_mem x)"
  by (auto simp: mem_ok_def)

lemma view_obj: "off \<noteq> 0 \<Longrightarrow> view M off = M off"
  by (simp add: view_def)

text \<open>Nothing is written to an offset that was reserved before.\<close>

lemma reserved_free: "grown st H s y z \<Longrightarrow> off \<notin> dom (p_mem y) \<Longrightarrow> off < p_cur y \<Longrightarrow> off \<notin> dom (p_mem z)"
  unfolding grown_def by (meson DiffI not_le)

lemma val_ref:
  assumes hs: "heap_small H" and Z: "layout_pos Z" and r: "rep False H zv (P_ref v)" and m: "size (P_ref v) < m"
    and IH: "\<And>z m. rep False H z v \<Longrightarrow> size v < m \<Longrightarrow> val_ok n Z ser H m z v"
  shows "val_ok (Suc n) Z ser H m zv (P_ref v)"
proof (rule val_first [OF hs r _ _ m])
  fix c x
  assume x: "sync H c x" "memo_ok False True H m x" "mem_ok x" "p_cur x + vbytes Z (P_ref v) < U64"
    and nn: "apc_persist_get_already_allocated (z_counted zv) x = None"
  let ?v = "P_ref v" and ?sz = "sizeof_zend_reference Z"
  obtain a z where a: "zv = IS_REFERENCE a" "ref_at H a = Some z" "rep False H z v" using r by auto
  define y where "y = apc_persist_add_already_allocated (z_counted zv) (p_cur x) (snd (apc_persist_alloc ?sz x))"
  have sz: "p_cur x + al ?sz < U64" using x(4) by simp
  have tr: "\<not> simple_tree ?v" "?v \<noteq> P_empty" by simp_all
  note y = start_in_step [OF hs r tr m x(1-3) sz nn, folded y_def]
  have "p_cur y + vbytes Z v < U64" using x(4) y(6) by simp
  moreover have "val_ok n Z ser H (size ?v) z v" by (rule IH [OF a(3)]) simp
  ultimately obtain zv' z0 c' where k:
    "apc_persist_calc_zval n Z ser H z (add_size ?sz (snd (apc_persist_calc_memoize (z_counted zv) c))) = Some (True, c')"
    "apc_persist_copy_zval n Z H z y = Some (zv', z0)" "sync H c' z0" "memo_ok False True H (size ?v) z0" "mem_ok z0"
    "rep True (view (p_mem z0)) zv' v" "grown False H (size v) y z0" "p_cur z0 \<le> p_cur y + vbytes Z v"
    using y(1-3) unfolding val_ok_def by (elim allE impE) (assumption+, elim exE conjE, rule that)
  have lt: "p_cur x < p_cur y" using al_pos Z y(6) by (simp add: layout_pos_def)
  have nz: "p_cur x \<noteq> 0" and nd: "p_cur x \<notin> dom (p_mem z0)"
    using mem_ok_cur [OF x(3)] reserved_free [OF k(7) _ lt] y(4) by simp_all
  have lt0: "p_cur x < p_cur z0" using lt k(7) by (simp add: grown_def)
  define x' where "x' = store_obj (p_cur x) (Z_ref zv') z0"
  note st = store_in_step [OF k(3,5) lt0 nz [unfolded neq0_conv] nd, where ob = "Z_ref zv'", folded x'_def]
  have rp: "rep True (view (p_mem x')) (zv_of ?v (p_cur x)) ?v"
    using st(5) rep_mono(1) [OF view_mono [OF st(3)] k(6)] view_obj [of "p_cur x"] nz by (simp add: ref_at_def)
  have rz: "rep False H (zv_of ?v a) ?v" using r a(1) by simp
  have dm: "\<forall>o'\<in>dom (p_mem x') - dom (p_mem z0). p_cur x \<le> o'" by (auto simp: x'_def store_obj_def split: if_splits)
  have nn': "apc_persist_get_already_allocated a x = None" using nn a(1) by simp
  have le: "p_cur x \<le> p_cur y" using lt by simp
  have al: "p_allocated y = p_allocated (apc_persist_add_already_allocated a (p_cur x) x)" using y(7) a(1) by simp
  have sv: "size v < size ?v \<or> p_allocated z0 = p_allocated y" by simp
  note f = finish_in_step [OF x(2) nn' rz tr(1) y(4,5) le al k(7) sv st(3) dm st(6,8,7) st(4) [OF k(4)] rp]
  have "copy_value (apc_persist_copy_zval n Z H) Z H zv x = Some (IS_REFERENCE (p_cur x), x')"
  proof -
    have "apc_persist_copy_ref (apc_persist_copy_zval n Z H) Z a z x = Some (p_cur x, x')"
      using k(2) a(1) by (simp add: apc_persist_copy_ref_def y_def [symmetric] Let_def x'_def, simp add: y_def apc_persist_alloc_def)
    then show ?thesis using nn' a(1,2) by (simp add: copy_value_def)
  qed
  then show "\<exists>off x' c'. calc_value (apc_persist_calc_zval n Z ser H) Z H zv (snd (apc_persist_calc_memoize (z_counted zv) c)) = Some (True, c') \<and>
        copy_value (apc_persist_copy_zval n Z H) Z H zv x = Some (zv_of ?v off, x') \<and>
        sync H c' x' \<and> memo_ok False True H m x' \<and> mem_ok x' \<and> rep True (view (p_mem x')) (zv_of ?v off) ?v \<and> grown False H (size ?v) x x' \<and>
        p_cur x' \<le> p_cur x + vbytes Z ?v"
    using a(1,2) k(1,8) st f rp nz y(6)
    by (intro exI [of _ "p_cur x"] exI [of _ x'] exI [of _ c']) (simp add: calc_value_def k(4))
qed simp_all

subsection \<open>Buckets\<close>

text \<open>The key of a bucket, in both traversals.\<close>

definition calc_key :: "zend_layout \<Rightarrow> heap \<Rightarrow> bool \<Rightarrow> bucket \<Rightarrow> persist_ctx \<Rightarrow> persist_ctx option" where
  "calc_key Z H packed b x = (case b_key b of
     Some k \<Rightarrow> if packed then Some x else do { s \<leftarrow> string_at H k; Some (add_size_str Z (length (fst s)) x) }
   | None \<Rightarrow> Some x)"

definition copy_key ::
  "zend_layout \<Rightarrow> heap \<Rightarrow> bool \<Rightarrow> nat \<Rightarrow> bucket \<Rightarrow> ht_loop \<Rightarrow> persist_ctx \<Rightarrow> (nat option \<times> ht_loop \<times> persist_ctx) option" where
  "copy_key Z H packed idx b l1 x =
     (if packed then Some (b_key b, l1\<lparr>l_next_free := next_free_after (int idx) (l_next_free l1)\<rparr>, x)
      else case b_key b of
          Some p \<Rightarrow> do {
            s \<leftarrow> string_at H p;
            let c = apc_persist_copy_cstr Z (fst s) (snd s) x;
            Some (Some (fst c), l1\<lparr>l_static := False\<rparr>, snd c)
          }
        | None \<Rightarrow> Some (None, l1\<lparr>l_next_free := next_free_after (int64_of (int (b_h b))) (l_next_free l1)\<rparr>, x))"

definition key_bytes :: "zend_layout \<Rightarrow> string option \<Rightarrow> nat" where
  "key_bytes Z k = (case k of None \<Rightarrow> 0 | Some s \<Rightarrow> al (zstr_struct_size Z (length s)))"

lemma key_in_step:
  assumes k: "key_rep H pk b h k" and Z: "layout_pos Z"
    and x: "sync H c x" "memo_ok False True H m x" "mem_ok x" "p_cur x + key_bytes Z k < U64"
  shows "\<exists>kk l2 y cy. calc_key Z H pk b c = Some cy \<and> copy_key Z H pk idx b l1 x = Some (kk, l2, y) \<and> sync H cy y \<and>
    memo_ok False True H m y \<and> mem_ok y \<and> grown False H 0 x y \<and> p_cur y = p_cur x + key_bytes Z k \<and> (l_static l2 \<longrightarrow> l_static l1) \<and>
    (\<forall>v'. key_rep (view (p_mem y)) pk (b\<lparr>b_key := kk, b_val := v'\<rparr>) h k) \<and> (\<not> pk \<longrightarrow> l_static l2 \<longrightarrow> kk = None)"
proof (cases "pk \<or> b_key b = None")
  case True
  then have "calc_key Z H pk b c = Some c" by (cases "b_key b") (auto simp: calc_key_def)
  moreover have "k = None" "key_bytes Z k = 0" using k True by (auto simp: key_rep_def key_bytes_def split: if_splits)
  moreover obtain l2 where "copy_key Z H pk idx b l1 x = Some (b_key b, l2, x)" "l_static l2 = l_static l1"
    using True by (cases pk) (simp_all add: copy_key_def)
  ultimately show ?thesis using x k True
    by (intro exI [of _ "b_key b"] exI [of _ l2] exI [of _ x] exI [of _ c]) (auto simp: key_rep_def split: if_splits)
next
  case False
  then obtain p s hh where p: "b_key b = Some p" "string_at H p = Some (s, hh)" "k = Some s" "h = b_h b" "\<not> pk"
    using k by (auto simp: key_rep_def)
  have sz: "p_cur x + al (zstr_struct_size Z (length s)) < U64" using x(4) p(3) by (simp add: key_bytes_def)
  obtain h' y where y: "apc_persist_copy_cstr Z s hh x = (p_cur x, y)" "sync H (add_size_str Z (length s) c) y" "mem_ok y"
    "grown False H 0 x y" "p_allocated y = p_allocated x" "string_at (view (p_mem y)) (p_cur x) = Some (s, h')"
    "\<forall>m. memo_ok False True H m x \<longrightarrow> memo_ok False True H m y" "p_cur y = p_cur x + al (zstr_struct_size Z (length s))"
    using copy_cstr_in_step [OF x(1,3) sz Z, of hh 0] by (elim exE conjE) (rule that)
  have "calc_key Z H pk b c = Some (add_size_str Z (length s) c)" using p by (simp add: calc_key_def)
  moreover have "copy_key Z H pk idx b l1 x = Some (Some (p_cur x), l1\<lparr>l_static := False\<rparr>, y)"
    using p y(1) by (simp add: copy_key_def)
  moreover have "key_rep (view (p_mem y)) pk (b\<lparr>b_key := Some (p_cur x), b_val := v'\<rparr>) h k" for v'
    using p y(6) by (simp add: key_rep_def)
  ultimately show ?thesis using y x(2) p(3)
    by (intro exI [of _ "Some (p_cur x)"] exI [of _ "l1\<lparr>l_static := False\<rparr>"] exI [of _ y] exI [of _ "add_size_str Z (length s) c"])
      (simp add: key_bytes_def)
qed

lemma bks_nil: "bks_ok n Z ser H m pk [] PB_nil"
  by (simp add: bks_ok_def static_ok_def)

lemma calc_undef: "0 < n \<Longrightarrow> apc_persist_calc_zval n Z ser H IS_UNDEF c = Some (True, c)"
  by (cases n) simp_all

lemma bks_hole:
  assumes b: "b_val b = IS_UNDEF" "0 < n" and IH: "bks_ok n Z ser H m pk bs vs"
  shows "bks_ok n Z ser H m pk (b # bs) (PB_hole vs)"
  unfolding bks_ok_def
proof (intro allI impI)
  fix idx l c x
  assume x: "sync H c x" "memo_ok False True H m x" "mem_ok x" "p_cur x + bbytes Z pk (PB_hole vs) < U64"
  then have "p_cur x + bbytes Z pk vs < U64" by simp
  then obtain bs' l' x' c' where k: "calc_buckets (apc_persist_calc_zval n Z ser H) Z H pk bs c = Some (True, c')"
    "copy_buckets (apc_persist_copy_zval n Z H) Z H pk (Suc idx) bs l x = Some (bs', l', x')" "sync H c' x'" "memo_ok False True H m x'"
    "mem_ok x'" "reps True (view (p_mem x')) pk bs' vs" "grown False H (size vs) x x'" "p_cur x' \<le> p_cur x + bbytes Z pk vs"
    "l_static l' \<longrightarrow> l_static l" "\<not> pk \<longrightarrow> static_ok (l_static l') bs'"
    using IH x(1-3) unfolding bks_ok_def by (elim allE impE) (assumption+, elim exE conjE, rule that)
  have "calc_buckets (apc_persist_calc_zval n Z ser H) Z H pk (b # bs) c = Some (True, c')"
    using k(1) b(1) calc_undef [OF b(2)] by (cases "b_key b"; cases pk) simp_all
  moreover have "copy_buckets (apc_persist_copy_zval n Z H) Z H pk idx (b # bs) l x = Some (b # bs', l', x')"
    using k(2) b by simp
  moreover have "grown False H (size (PB_hole vs)) x x'" by (rule grown_trans [OF k(7) grown_refl [of False H 0]]) simp_all
  moreover have "\<not> pk \<longrightarrow> static_ok (l_static l') (b # bs')" using k(10) b by (simp add: static_ok_def)
  ultimately show "\<exists>bs' l' x' c'. calc_buckets (apc_persist_calc_zval n Z ser H) Z H pk (b # bs) c = Some (True, c') \<and>
        copy_buckets (apc_persist_copy_zval n Z H) Z H pk idx (b # bs) l x = Some (bs', l', x') \<and>
        sync H c' x' \<and> memo_ok False True H m x' \<and> mem_ok x' \<and> reps True (view (p_mem x')) pk bs' (PB_hole vs) \<and>
        grown False H (size (PB_hole vs)) x x' \<and> p_cur x' \<le> p_cur x + bbytes Z pk (PB_hole vs) \<and> (l_static l' \<longrightarrow> l_static l) \<and>
        (\<not> pk \<longrightarrow> static_ok (l_static l') bs')"
    using k b(1) by (intro exI [of _ "b # bs'"] exI [of _ l'] exI [of _ x'] exI [of _ c'] conjI) simp_all
qed

lemma live_bucket:
  assumes "b_val b \<noteq> IS_UNDEF" "\<not> is_indirect (b_val b)"
  shows "calc_buckets calc Z H pk (b # bs) x =
      do { y \<leftarrow> calc_key Z H pk b x; r \<leftarrow> calc (b_val b) y; if \<not> fst r then Some r else calc_buckets calc Z H pk bs (snd r) }"
    "copy_buckets copy Z H pk idx (b # bs) l x =
      do { k \<leftarrow> copy_key Z H pk idx b (if l_iptr l = None then l\<lparr>l_iptr := Some idx\<rparr> else l) x;
           v \<leftarrow> copy (b_val b) (snd (snd k));
           r \<leftarrow> copy_buckets copy Z H pk (Suc idx) bs (fst (snd k)) (snd v);
           Some (b\<lparr>b_key := fst k, b_val := fst v\<rparr> # fst r, snd r) }"
  using assms by (simp_all add: calc_key_def copy_key_def Let_def)

lemma rep_not_indirect: "rep st H zv v \<Longrightarrow> \<not> is_indirect zv"
  by (cases v; cases zv) auto

lemma rep_not_undef: "rep st H zv v \<Longrightarrow> rep st' H' zv' v \<Longrightarrow> zv \<noteq> IS_UNDEF \<Longrightarrow> zv' \<noteq> IS_UNDEF"
  by (cases v) auto

lemma bks_cons:
  assumes b: "b_val b \<noteq> IS_UNDEF" "key_rep H pk b h k" "rep False H (b_val b) v" and Z: "layout_pos Z"
    and IH: "val_ok n Z ser H m (b_val b) v" "bks_ok n Z ser H m pk bs vs"
  shows "bks_ok n Z ser H m pk (b # bs) (PB_cons h k v vs)"
  unfolding bks_ok_def
proof (intro allI impI)
  fix idx c x and l :: ht_loop
  assume x: "sync H c x" "memo_ok False True H m x" "mem_ok x" "p_cur x + bbytes Z pk (PB_cons h k v vs) < U64"
  define l1 :: ht_loop where "l1 = (if l_iptr l = None then l\<lparr>l_iptr := Some idx\<rparr> else l)"
  have l1: "l_static l1 = l_static l" by (simp add: l1_def)
  have bb: "bbytes Z pk (PB_cons h k v vs) = key_bytes Z k + vbytes Z v + bbytes Z pk vs" by (simp add: key_bytes_def)
  have kb: "p_cur x + key_bytes Z k < U64" using x(4) unfolding bb by simp
  obtain kk l2 y cy where k: "calc_key Z H pk b c = Some cy" "copy_key Z H pk idx b l1 x = Some (kk, l2, y)" "sync H cy y"
    "memo_ok False True H m y" "mem_ok y" "grown False H 0 x y" "p_cur y = p_cur x + key_bytes Z k" "l_static l2 \<longrightarrow> l_static l1"
    "\<forall>v'. key_rep (view (p_mem y)) pk (b\<lparr>b_key := kk, b_val := v'\<rparr>) h k" "\<not> pk \<longrightarrow> l_static l2 \<longrightarrow> kk = None"
    using key_in_step [OF b(2) Z x(1-3) kb, of idx l1] by (elim exE conjE) (rule that)
  have "p_cur y + vbytes Z v < U64" using x(4) k(7) unfolding bb by simp
  then obtain zv' y2 c2 where v: "apc_persist_calc_zval n Z ser H (b_val b) cy = Some (True, c2)"
    "apc_persist_copy_zval n Z H (b_val b) y = Some (zv', y2)" "sync H c2 y2" "memo_ok False True H m y2" "mem_ok y2"
    "rep True (view (p_mem y2)) zv' v" "grown False H (size v) y y2" "p_cur y2 \<le> p_cur y + vbytes Z v"
    using IH(1) k(3-5) unfolding val_ok_def by (elim allE impE) (assumption+, elim exE conjE, rule that)
  have "p_cur y2 + bbytes Z pk vs < U64" using x(4) k(7) v(8) unfolding bb by simp
  then obtain bs' l' x' c' where r: "calc_buckets (apc_persist_calc_zval n Z ser H) Z H pk bs c2 = Some (True, c')"
    "copy_buckets (apc_persist_copy_zval n Z H) Z H pk (Suc idx) bs l2 y2 = Some (bs', l', x')" "sync H c' x'" "memo_ok False True H m x'"
    "mem_ok x'" "reps True (view (p_mem x')) pk bs' vs" "grown False H (size vs) y2 x'" "p_cur x' \<le> p_cur y2 + bbytes Z pk vs"
    "l_static l' \<longrightarrow> l_static l2" "\<not> pk \<longrightarrow> static_ok (l_static l') bs'"
    using IH(2) v(3-5) unfolding bks_ok_def by (elim allE impE) (assumption+, elim exE conjE, rule that)
  let ?b = "b\<lparr>b_key := kk, b_val := zv'\<rparr>"
  note live = live_bucket [OF b(1) rep_not_indirect [OF b(3)]]
  have calc: "calc_buckets (apc_persist_calc_zval n Z ser H) Z H pk (b # bs) c = Some (True, c')"
    unfolding live using k(1) v(1) r(1) by simp
  have copy: "copy_buckets (apc_persist_copy_zval n Z H) Z H pk idx (b # bs) l x = Some (?b # bs', l', x')"
    unfolding live l1_def [symmetric] using k(2) v(2) r(2) by simp
  have yx': "p_mem y \<subseteq>\<^sub>m p_mem x'" "p_mem y2 \<subseteq>\<^sub>m p_mem x'"
    using v(7) r(7) by (auto simp: grown_def intro: map_le_trans)
  have u: "b_val ?b \<noteq> IS_UNDEF" using rep_not_undef [OF b(3) v(6) b(1)] by simp
  have "key_rep (view (p_mem x')) pk ?b h k" using key_rep_mono [OF view_mono [OF yx'(1)]] k(9) by blast
  then have reps: "reps True (view (p_mem x')) pk (?b # bs') (PB_cons h k v vs)"
    using u r(6) rep_mono(1) [OF view_mono [OF yx'(2)] v(6)] by simp
  have grown: "grown False H (size (PB_cons h k v vs)) x x'"
    by (rule grown_trans [OF grown_trans [OF k(6) v(7), of "size v"] r(7)]) simp_all
  have "\<not> pk \<longrightarrow> static_ok (l_static l') (?b # bs')" using r(9,10) k(10) by (simp add: static_ok_def)
  moreover have "p_cur x' \<le> p_cur x + bbytes Z pk (PB_cons h k v vs)" using r(8) v(8) k(7) unfolding bb by simp
  moreover have "l_static l' \<longrightarrow> l_static l" using r(9) k(8) l1 by simp
  ultimately show "\<exists>bs' l' x' c'. calc_buckets (apc_persist_calc_zval n Z ser H) Z H pk (b # bs) c = Some (True, c') \<and>
        copy_buckets (apc_persist_copy_zval n Z H) Z H pk idx (b # bs) l x = Some (bs', l', x') \<and>
        sync H c' x' \<and> memo_ok False True H m x' \<and> mem_ok x' \<and> reps True (view (p_mem x')) pk bs' (PB_cons h k v vs) \<and>
        grown False H (size (PB_cons h k v vs)) x x' \<and> p_cur x' \<le> p_cur x + bbytes Z pk (PB_cons h k v vs) \<and> (l_static l' \<longrightarrow> l_static l) \<and>
        (\<not> pk \<longrightarrow> static_ok (l_static l') bs')"
    using calc copy r(3-5) reps grown by (intro exI [of _ "?b # bs'"] exI [of _ l'] exI [of _ x'] exI [of _ c'] conjI)
qed

subsection \<open>Arrays\<close>

lemma val_array:
  assumes hs: "heap_small H" and Z: "layout_pos Z" and r: "rep False H zv (P_array pk mk nm vs)"
    and m: "size (P_array pk mk nm vs) < m"
    and IH: "\<And>bs m. reps False H pk bs vs \<Longrightarrow> size vs < m \<Longrightarrow> bks_ok n Z ser H m pk bs vs"
  shows "val_ok (Suc n) Z ser H m zv (P_array pk mk nm vs)"
proof (rule val_first [OF hs r _ _ m])
  fix c x
  assume x: "sync H c x" "memo_ok False True H m x" "mem_ok x" "p_cur x + vbytes Z (P_array pk mk nm vs) < U64"
    and nn: "apc_persist_get_already_allocated (z_counted zv) x = None"
  let ?v = "P_array pk mk nm vs" and ?sz = "sizeof_HashTable Z" and ?dz = "ht_used_size Z pk mk (plen vs)"
  obtain a t bs where a: "zv = IS_ARRAY a" "array_at H a = Some t" "ht_num t = nm" "nm \<noteq> 0" "ht_packed t = pk" "ht_mask t = mk"
    "data_at H (ht_data t) = Some bs" "reps False H pk bs vs" "vs \<noteq> PB_nil" using r by auto
  define y where "y = apc_persist_add_already_allocated (z_counted zv) (p_cur x) (snd (apc_persist_alloc ?sz x))"
  have sz: "p_cur x + al ?sz < U64" using x(4) by simp
  have tr: "\<not> simple_tree ?v" "?v \<noteq> P_empty" by simp_all
  note y = start_in_step [OF hs r tr m x(1-3) sz nn, folded y_def]
  define d where "d = y\<lparr>p_cur := p_cur y + al ?dz\<rparr>"
  have dz: "p_cur y + al ?dz < U64" using x(4) y(6) by simp
  note dd = alloc_in_step [OF y(1,3) dz, folded d_def]
  have len: "length bs = plen vs" by (rule reps_length [OF a(8)])
  have d_lt: "p_cur y < p_cur d" and y_lt: "p_cur x < p_cur y"
  proof -
    have "0 < plen vs" using a(9) by (cases vs) simp_all
    then have "0 < ?dz" using Z by (simp add: layout_pos_def)
    then show "p_cur y < p_cur d" by (rule dd(6))
    show "p_cur x < p_cur y" using y(6) al_pos Z by (simp add: layout_pos_def)
  qed
  define c1 where "c1 = add_size ?dz (add_size ?sz (snd (apc_persist_calc_memoize (z_counted zv) c)))"
  have "p_cur d + bbytes Z pk vs < U64" using x(4) y(6) by (simp add: d_def)
  moreover have "bks_ok n Z ser H (size ?v) pk bs vs" by (rule IH [OF a(8)]) simp
  ultimately obtain bs' l' z0 c' where k: "calc_buckets (apc_persist_calc_zval n Z ser H) Z H pk bs c1 = Some (True, c')"
    "copy_buckets (apc_persist_copy_zval n Z H) Z H pk 0 bs \<lparr>l_next_free = 0, l_iptr = None, l_static = True\<rparr> d = Some (bs', l', z0)"
    "sync H c' z0" "memo_ok False True H (size ?v) z0" "mem_ok z0" "reps True (view (p_mem z0)) pk bs' vs" "grown False H (size vs) d z0"
    "p_cur z0 \<le> p_cur d + bbytes Z pk vs" "\<not> pk \<longrightarrow> static_ok (l_static l') bs'"
    using dd(2) [folded c1_def] dd(3) dd(5) [OF y(2)] unfolding bks_ok_def by (elim allE impE) (assumption+, elim exE conjE, rule that)
  have nz: "p_cur x \<noteq> 0" "p_cur y \<noteq> 0" using mem_ok_cur [OF x(3)] y_lt by simp_all
  have nd: "p_cur x \<notin> dom (p_mem z0)" "p_cur y \<notin> dom (p_mem z0)"
    using reserved_free [OF k(7)] mem_ok_cur(2) [OF x(3)] mem_ok_cur(2) [OF y(3)] y_lt d_lt y(4) by (simp_all add: d_def)
  have z_lt: "p_cur y < p_cur z0" using d_lt k(7) by (simp add: grown_def)
  define t' where "t' = t\<lparr>ht_static_keys := l_static l', ht_next_free := l_next_free l', ht_iptr := l_iptr l', ht_data := p_cur y\<rparr>"
  define z1 where "z1 = store_obj (p_cur y) (Z_data bs') z0"
  note s1 = store_in_step [OF k(3,5) z_lt nz(2) [unfolded neq0_conv] nd(2), where ob = "Z_data bs'", folded z1_def]
  have x_lt: "p_cur x < p_cur z1" using z_lt y_lt s1(6) by simp
  have nd1: "p_cur x \<notin> dom (p_mem z1)" using nd(1) y_lt by (simp add: z1_def store_obj_def)
  define x' where "x' = store_obj (p_cur x) (Z_array t') z1"
  note s2 = store_in_step [OF s1(1,2) x_lt nz(1) [unfolded neq0_conv] nd1, where ob = "Z_array t'", folded x'_def]
  have zx': "p_mem z0 \<subseteq>\<^sub>m p_mem x'" using map_le_trans [OF s1(3) s2(3)] .
  have "p_mem x' (p_cur y) = Some (Z_data bs')" using s1(5) s2(3) by (auto simp: map_le_def dom_def)
  then have "data_at (view (p_mem x')) (ht_data t') = Some bs'" using view_obj [OF nz(2)] by (simp add: data_at_def t'_def)
  moreover have "array_at (view (p_mem x')) (p_cur x) = Some t'" using s2(5) view_obj [OF nz(1)] by (simp add: array_at_def)
  ultimately have rp: "rep True (view (p_mem x')) (zv_of ?v (p_cur x)) ?v"
    using a(3-6,9) k(9) rep_mono(2) [OF view_mono [OF zx'] k(6)] by (simp add: t'_def)
  have rz: "rep False H (zv_of ?v a) ?v" using r a(1) by simp
  have dm: "\<forall>o'\<in>dom (p_mem x') - dom (p_mem z0). p_cur x \<le> o'"
    using y_lt by (auto simp: x'_def z1_def store_obj_def split: if_splits)
  have nn': "apc_persist_get_already_allocated a x = None" using nn a(1) by simp
  have df: "p_mem d = p_mem x" "p_memo d = p_memo x" "p_cur x \<le> p_cur d"
    "p_allocated d = p_allocated (apc_persist_add_already_allocated a (p_cur x) x)"
    using y(4,5,7) y_lt d_lt a(1) by (simp_all add: d_def)
  have sv: "size vs < size ?v \<or> p_allocated z0 = p_allocated d" by simp
  have zf: "p_cur x' = p_cur z0" "p_memo x' = p_memo z0" "p_allocated x' = p_allocated z0" using s1(6-8) s2(6-8) by simp_all
  note f = finish_in_step [OF x(2) nn' rz tr(1) df k(7) sv zx' dm zf s2(4) [OF s1(4) [OF k(4)]] rp]
  have copy: "copy_value (apc_persist_copy_zval n Z H) Z H zv x = Some (zv_of ?v (p_cur x), x')"
  proof -
    have "apc_persist_copy_ht (apc_persist_copy_zval n Z H) Z H a t x = Some (p_cur x, x')"
    proof -
      have p: "fst (apc_persist_alloc ?sz x) = p_cur x" by (simp add: apc_persist_alloc_def)
      show ?thesis
        using a(1,3-7) len dd(1) k(2) p y_def
        by (simp add: apc_persist_copy_ht_def Let_def y_def [symmetric] t'_def x'_def z1_def)
    qed
    then show ?thesis using nn' a(1,2) by (simp add: copy_value_def)
  qed
  have calc: "calc_value (apc_persist_calc_zval n Z ser H) Z H zv (snd (apc_persist_calc_memoize (z_counted zv) c)) = Some (True, c')"
    using a k(1) len by (simp add: calc_value_def apc_persist_calc_ht_def c1_def)
  have "p_cur x' \<le> p_cur x + vbytes Z ?v" using k(8) y(6) zf(1) by (simp add: d_def)
  then show "\<exists>off x' c'. calc_value (apc_persist_calc_zval n Z ser H) Z H zv (snd (apc_persist_calc_memoize (z_counted zv) c)) = Some (True, c') \<and>
        copy_value (apc_persist_copy_zval n Z H) Z H zv x = Some (zv_of ?v off, x') \<and>
        sync H c' x' \<and> memo_ok False True H m x' \<and> mem_ok x' \<and> rep True (view (p_mem x')) (zv_of ?v off) ?v \<and> grown False H (size ?v) x x' \<and>
        p_cur x' \<le> p_cur x + vbytes Z ?v"
    using calc copy s2(1,2) f rp by (intro exI [of _ "p_cur x"] exI [of _ x'] exI [of _ c'] conjI)
qed simp_all

text \<open>Every value with a tree.\<close>

lemma copy_ok:
  assumes hs: "heap_small H" and Z: "layout_pos Z"
  shows "rep False H zv v \<Longrightarrow> pdepth v < n \<Longrightarrow> size v < m \<Longrightarrow> val_ok n Z ser H m zv v"
    "reps False H pk bs vs \<Longrightarrow> bdepth vs < n \<Longrightarrow> size vs < m \<Longrightarrow> bks_ok n Z ser H m pk bs vs"
proof (induction v and vs arbitrary: zv n m and pk bs n m)
  case (P_simple z)
  then show ?case using val_simple by simp
next
  case (P_string s)
  then show ?case using val_string [OF hs Z P_string(1,3)] by (cases n) simp_all
next
  case P_empty
  then show ?case using val_empty [OF hs P_empty(1)] by simp
next
  case (P_array pk mk nm vs)
  obtain k where k: "n = Suc k" "bdepth vs < k" using P_array.prems(2) by (cases n) simp_all
  show ?case unfolding k(1)
    by (rule val_array [OF hs Z P_array.prems(1,3)], rule P_array.IH) (use k in simp_all)
next
  case (P_ref v)
  obtain k where k: "n = Suc k" "pdepth v < k" using P_ref.prems(2) by (cases n) simp_all
  show ?case unfolding k(1) by (rule val_ref [OF hs Z P_ref.prems(1,3)], rule P_ref.IH) (use k in simp_all)
next
  case PB_nil
  then show ?case using bks_nil by simp
next
  case (PB_hole vs)
  then obtain b bs' where b: "bs = b # bs'" "b_val b = IS_UNDEF" "reps False H pk bs' vs" by auto
  show ?case unfolding b(1) by (rule bks_hole [OF b(2)]) (use PB_hole b in auto)
next
  case (PB_cons h k v vs)
  then obtain b bs' where b: "bs = b # bs'" "b_val b \<noteq> IS_UNDEF" "key_rep H pk b h k" "rep False H (b_val b) v"
    "reps False H pk bs' vs" by auto
  show ?case unfolding b(1) by (rule bks_cons [OF b(2-4) Z]) (use PB_cons b in simp_all)
qed

subsection \<open>The whole entry\<close>

text \<open>The size computation does not touch what the copy uses.\<close>

definition same_copy :: "persist_ctx \<Rightarrow> persist_ctx \<Rightarrow> bool" where
  "same_copy c c' \<longleftrightarrow> p_cur c' = p_cur c \<and> p_allocated c' = p_allocated c \<and> p_mem c' = p_mem c"

lemma same_copy_simps [simp]:
  "same_copy c c" "same_copy c (add_size sz c') = same_copy c c'" "same_copy c (add_size_str Z l c') = same_copy c c'"
  "same_copy c (snd (apc_persist_calc_memoize a c')) = same_copy c c'"
  "same_copy c (c'\<lparr>p_use_serialization := u\<rparr>) = same_copy c c'"
  by (simp_all add: same_copy_def add_size_str_def add_size_def apc_persist_calc_memoize_def Let_def)

lemma calc_buckets_frame:
  assumes calc: "\<And>zv c r. calc zv c = Some r \<Longrightarrow> same_copy c0 c \<Longrightarrow> same_copy c0 (snd r)"
  shows "calc_buckets calc Z H pk bs c = Some r \<Longrightarrow> same_copy c0 c \<Longrightarrow> same_copy c0 (snd r)"
proof (induction bs arbitrary: c)
  case (Cons b bs)
  show ?case
  proof (cases "\<not> pk \<and> (b_val b = IS_UNDEF \<or> is_indirect (b_val b))")
    case True
    then show ?thesis using Cons by (cases "b_val b = IS_UNDEF") auto
  next
    case False
    then have e: "do { y \<leftarrow> calc_key Z H pk b c; r \<leftarrow> calc (b_val b) y;
        if \<not> fst r then Some r else calc_buckets calc Z H pk bs (snd r) } = Some r"
      using Cons.prems(1) by (auto simp: calc_key_def)
    obtain y where y: "calc_key Z H pk b c = Some y" using e by (cases "calc_key Z H pk b c") simp_all
    have sy: "same_copy c0 y" using y Cons.prems(2)
      by (auto simp: calc_key_def split: option.splits if_splits Option.bind_splits)
    obtain v where v: "calc (b_val b) y = Some v" using e y by (cases "calc (b_val b) y") simp_all
    show ?thesis using e y v calc [OF v sy] Cons.IH by (auto split: if_splits)
  qed
qed auto

lemma calc_frame: "apc_persist_calc_zval n Z ser H zv c = Some r \<Longrightarrow> same_copy c0 c \<Longrightarrow> same_copy c0 (snd r)"
proof (induction n arbitrary: zv c r)
  case (Suc n)
  have ht: "apc_persist_calc_ht (apc_persist_calc_zval n Z ser H) Z H t d = Some r \<Longrightarrow> same_copy c0 d \<Longrightarrow> same_copy c0 (snd r)"
    for t d r
    using calc_buckets_frame [of "apc_persist_calc_zval n Z ser H" c0, OF Suc.IH]
    by (auto simp: apc_persist_calc_ht_def split: if_splits Option.bind_splits)
  have val: "calc_value (apc_persist_calc_zval n Z ser H) Z H zv d = Some r \<Longrightarrow> same_copy c0 d \<Longrightarrow> same_copy c0 (snd r)" for d
    using ht Suc.IH by (cases zv) (auto simp: calc_value_def split: Option.bind_splits)
  have "same_copy c0 (snd (apc_persist_calc_serialize Z ser zv c))"
    using Suc.prems(2) by (simp add: apc_persist_calc_serialize_def same_copy_def add_size_str_def add_size_def split: option.splits)
  then show ?case using Suc.prems val by (auto simp: Let_def split: if_splits)
qed simp

definition entry_bytes :: "zend_layout \<Rightarrow> string \<Rightarrow> nat" where
  "entry_bytes Z key = al (offset_of_key_val Z + length key + 1)"

lemma al_al: "al (al n) = al n"
  by (simp add: al_def)

lemma alignword_entry: "entry_bytes Z key < U64 \<Longrightarrow> alignword (apc_entry_size Z (length key)) = entry_bytes Z key"
proof -
  assume e: "entry_bytes Z key < U64"
  have "offset_of_key_val Z + length key + 1 \<le> entry_bytes Z key" by (simp add: entry_bytes_def al_def)
  then have "apc_entry_size Z (length key) = entry_bytes Z key"
    using e by (simp add: apc_entry_size_def uadd_small entry_bytes_def alignword_al)
  then show ?thesis using e alignword_al [of "entry_bytes Z key"] by (simp add: entry_bytes_def al_al)
qed

lemma persist_image_ok:
  assumes hs: "heap_small H" and Z: "layout_pos Z" and r: "rep False H zv v" and n: "pdepth v < n"
    and sz: "entry_bytes Z key + vbytes Z v < U64" and ser: "\<not> serializer \<or> (\<forall>a. zv \<noteq> IS_ARRAY a)"
  shows "\<exists>x zv' x'. persist_calc n Z serializer serialize H key zv = Some x \<and>
    apc_persist_create_entry n Z H key zv x = Some (zv', x') \<and> p_cur x' = p_size x \<and> p_size x \<le> entry_bytes Z key + vbytes Z v \<and>
    rep True (view (p_mem x')) zv' v \<and> dom (p_mem x') \<subseteq> {0<..<p_size x} \<and> p_size x < U64 \<and> 0 < p_size x"
proof -
  define memo where "memo = (\<not> serializer \<and> (\<exists>a. zv = IS_ARRAY a))"
  define c0 where "c0 = apc_persist_init_context\<lparr>p_memo := memo, p_use_serialization := False\<rparr>"
  define c1 where "c1 = add_size (apc_entry_size Z (length key)) c0"
  have obj: "zv \<noteq> IS_OBJECT a" for a using r by (cases v) auto
  have e: "alignword (apc_entry_size Z (length key)) = entry_bytes Z key" by (rule alignword_entry) (use sz in simp)
  have ep: "0 < entry_bytes Z key" by (simp add: entry_bytes_def al_pos)
  have c1: "p_size c1 = entry_bytes Z key" "p_memo c1 = memo" "\<not> p_use_serialization c1" "p_counted c1 = {}" "p_cur c1 = 0"
    "p_allocated c1 = Map.empty" "p_mem c1 = Map.empty"
    using e sz by (simp_all add: c1_def c0_def add_size_def apc_persist_init_context_def uadd_small)
  have init: "persist_calc n Z serializer serialize H key zv =
      do { r \<leftarrow> apc_persist_calc_zval n Z serialize H zv c1; if fst r then Some (snd r)
           else if \<not> p_use_serialization (snd r) then None
           else do { r2 \<leftarrow> apc_persist_calc n Z serialize H key zv (apc_persist_init_context\<lparr>p_use_serialization := True\<rparr>);
                     if fst r2 then Some (snd r2) else None } }"
  proof -
    have m: "(case zv of IS_ARRAY x \<Rightarrow> True | _ \<Rightarrow> False) = (\<exists>a. zv = IS_ARRAY a)"
      "(case zv of IS_OBJECT x \<Rightarrow> True | _ \<Rightarrow> False) = False" using obj by (cases zv; simp)+
    have f: "(False \<or> serializer \<and> (\<exists>a. zv = IS_ARRAY a)) = False" using ser by blast
    show ?thesis unfolding persist_calc_def Let_def m f by (simp add: c1_def c0_def memo_def apc_persist_calc_def)
  qed
  have ok: "val_ok n Z serialize H (Suc (size v)) zv v" by (rule copy_ok(1) [OF hs Z r n]) simp
  have run: "\<exists>zv' x' c'. apc_persist_calc_zval n Z serialize H zv c1 = Some (True, c') \<and>
      apc_persist_copy_zval n Z H zv x = Some (zv', x') \<and> sync H c' x' \<and> mem_ok x' \<and> rep True (view (p_mem x')) zv' v \<and>
      p_cur x' \<le> p_cur x + vbytes Z v"
    if x: "p_cur x = entry_bytes Z key" "p_memo x = memo" "\<not> p_use_serialization x" "p_allocated x = Map.empty" "p_mem x = Map.empty" for x
  proof -
    have "sync H c1 x" using x c1 by (simp add: sync_def)
    moreover have "memo_ok False True H (Suc (size v)) x" using x by (simp add: memo_ok_def)
    moreover have "mem_ok x" using x ep by (simp add: mem_ok_def)
    moreover have "p_cur x + vbytes Z v < U64" using x(1) sz by simp
    ultimately show ?thesis using ok unfolding val_ok_def by (elim allE impE) (assumption+, blast)
  qed
  obtain zv0 x0 c' where c': "apc_persist_calc_zval n Z serialize H zv c1 = Some (True, c')" "sync H c' x0"
    using run [of "c1\<lparr>p_cur := entry_bytes Z key\<rparr>"] c1 by auto
  have fr: "same_copy c1 c'" using calc_frame [OF c'(1), of c1] by simp
  have memo': "p_memo c' = memo"
  proof -
    obtain zv0 x1 c2 where k: "apc_persist_calc_zval n Z serialize H zv c1 = Some (True, c2)" "sync H c2 x1" "p_memo x1 = memo"
      using ok c1 ep sz unfolding val_ok_def
      by (elim allE [of _ c1] allE [of _ "c1\<lparr>p_cur := entry_bytes Z key\<rparr>"] impE)
        (auto simp: sync_def memo_ok_def mem_ok_def grown_def)
    then show ?thesis using c'(1) by (simp add: sync_def)
  qed
  define x where "x = c'\<lparr>p_cur := entry_bytes Z key\<rparr>"
  have xf: "p_cur x = entry_bytes Z key" "p_memo x = memo" "\<not> p_use_serialization x" "p_allocated x = Map.empty" "p_mem x = Map.empty"
    using fr c1 memo' c'(2) by (simp_all add: x_def same_copy_def sync_def)
  obtain zv' x' where k: "apc_persist_copy_zval n Z H zv x = Some (zv', x')" "sync H c' x'" "mem_ok x'"
    "rep True (view (p_mem x')) zv' v" "p_cur x' \<le> p_cur x + vbytes Z v"
    using run [OF xf] c'(1) by auto
  have "persist_calc n Z serializer serialize H key zv = Some c'" using init c'(1) by simp
  moreover have "snd (apc_persist_alloc (apc_entry_size Z (length key)) c') = x"
    using fr c1 e sz by (simp add: apc_persist_alloc_def x_def same_copy_def uadd_small)
  then have "apc_persist_create_entry n Z H key zv c' = Some (zv', x')" using k(1) by (simp add: apc_persist_create_entry_def)
  ultimately show ?thesis using k xf(1) sz
    by (intro exI [of _ c'] exI [of _ zv'] exI [of _ x']) (simp add: sync_def mem_ok_def)
qed

end
