(* ===== verification/Persist_Back.thy ===== *)
theory Persist_Back imports Persist_Run begin

text \<open>
  Copying back: \<open>apc_unpersist\<close> builds in request memory a value with the tree of the entry. Its context keeps the
  same books as that of the copy into the entry (\<open>as_ctx\<close>), so the lemmas on those apply.
\<close>

subsection \<open>The context\<close>

definition as_ctx :: "unpersist_ctx \<Rightarrow> persist_ctx" where
  "as_ctx x = \<lparr>p_size = 0, p_memo = u_memo x, p_use_serialization = False, p_serialized = None, p_counted = {},
     p_cur = u_next x, p_allocated = u_copied x, p_mem = (u_heap x)(0 := None)\<rparr>"

definition u_ok :: "unpersist_ctx \<Rightarrow> bool" where
  "u_ok x \<longleftrightarrow> u_heap x 0 = Some (Z_array zend_empty_array) \<and> mem_ok (as_ctx x)"

lemma as_ctx_fields [simp]:
  "p_memo (as_ctx x) = u_memo x" "p_cur (as_ctx x) = u_next x" "p_allocated (as_ctx x) = u_copied x"
  by (simp_all add: as_ctx_def)

lemma view_as_ctx: "u_ok x \<Longrightarrow> view (p_mem (as_ctx x)) = u_heap x"
  by (auto simp: u_ok_def as_ctx_def view_def)

lemma as_ctx_get: "apc_unpersist_get_already_copied off x = apc_persist_get_already_allocated off (as_ctx x)"
  by (simp add: apc_unpersist_get_already_copied_def apc_persist_get_already_allocated_def)

lemma as_ctx_add: "as_ctx (apc_unpersist_add_already_copied old new x) = apc_persist_add_already_allocated old new (as_ctx x)"
  by (simp add: apc_unpersist_add_already_copied_def apc_persist_add_already_allocated_def as_ctx_def)

lemma as_ctx_write: "a \<noteq> 0 \<Longrightarrow> as_ctx (write_obj a ob x) = store_obj a ob (as_ctx x)"
  by (auto simp: write_obj_def store_obj_def as_ctx_def)

lemma as_ctx_emalloc: "as_ctx (snd (emalloc x)) = (as_ctx x)\<lparr>p_cur := Suc (u_next x)\<rparr>"
  by (simp add: emalloc_def as_ctx_def)

lemma u_heap_simps [simp]:
  "u_heap (apc_unpersist_add_already_copied old new x) = u_heap x" "u_heap (snd (emalloc x)) = u_heap x"
  "fst (emalloc x) = u_next x" "u_heap (write_obj a ob x) = (u_heap x)(a \<mapsto> ob)"
  by (simp_all add: apc_unpersist_add_already_copied_def emalloc_def write_obj_def)

text \<open>Reading the entry: offset 0 is only asked for in the case of an array.\<close>

lemma view_read:
  "string_at (view M) off = Some s \<Longrightarrow> string_at M off = Some s" "data_at (view M) off = Some bs \<Longrightarrow> data_at M off = Some bs"
  "ref_at (view M) off = Some z \<Longrightarrow> ref_at M off = Some z"
  "array_at (view M) off = Some t \<Longrightarrow> ht_num t \<noteq> 0 \<Longrightarrow> off \<noteq> 0 \<and> array_at M off = Some t"
  by (cases "off = 0";
      auto simp: view_def string_at_def data_at_def ref_at_def array_at_def zend_empty_array_def split: option.splits zobj.splits)+

subsection \<open>Values\<close>

definition back_ok :: "nat \<Rightarrow> heap \<Rightarrow> nat \<Rightarrow> zval \<Rightarrow> pval \<Rightarrow> bool" where
  "back_ok n M m zv v \<longleftrightarrow> (\<forall>x. u_ok x \<longrightarrow> memo_ok True False (view M) m (as_ctx x) \<longrightarrow>
     (\<exists>zv' x'. apc_unpersist_zval n M zv x = Some (zv', x') \<and> u_ok x' \<and> memo_ok True False (view M) m (as_ctx x') \<and>
        rep False (u_heap x') zv' v \<and> grown True (view M) (size v) (as_ctx x) (as_ctx x')))"

definition back_buckets_ok :: "nat \<Rightarrow> heap \<Rightarrow> nat \<Rightarrow> bool \<Rightarrow> bool \<Rightarrow> bucket list \<Rightarrow> pbuckets \<Rightarrow> bool" where
  "back_buckets_ok n M m pk plain bs vs \<longleftrightarrow> (\<forall>x. u_ok x \<longrightarrow> memo_ok True False (view M) m (as_ctx x) \<longrightarrow>
     (\<exists>bs' x'. unpersist_buckets (apc_unpersist_zval n M) M plain bs x = Some (bs', x') \<and> u_ok x' \<and>
        memo_ok True False (view M) m (as_ctx x') \<and> reps False (u_heap x') pk bs' vs \<and>
        grown True (view M) (size vs) (as_ctx x) (as_ctx x')))"

lemma grown_heap: "grown st H s (as_ctx x) (as_ctx x') \<Longrightarrow> u_ok x \<Longrightarrow> u_ok x' \<Longrightarrow> u_heap x \<subseteq>\<^sub>m u_heap x'"
  using view_mono [of "p_mem (as_ctx x)" "p_mem (as_ctx x')"] view_as_ctx by (simp add: grown_def)

lemma back_simple: "rep True (view M) zv (P_simple z) \<Longrightarrow> 0 < n \<Longrightarrow> back_ok n M m zv (P_simple z)"
  by (cases n) (auto simp: back_ok_def)

lemma back_empty:
  assumes r: "rep True (view M) zv P_empty" and n: "0 < n" and m: "size P_empty < m"
  shows "back_ok n M m zv P_empty"
proof -
  obtain k where k: "n = Suc k" using n by (cases n) auto
  have z: "zv = IS_ARRAY 0" using r by auto
  show ?thesis unfolding back_ok_def
  proof (intro allI impI)
    fix x assume x: "u_ok x" "memo_ok True False (view M) m (as_ctx x)"
    show "\<exists>zv' x'. apc_unpersist_zval n M zv x = Some (zv', x') \<and> u_ok x' \<and> memo_ok True False (view M) m (as_ctx x') \<and>
        rep False (u_heap x') zv' P_empty \<and> grown True (view M) (size P_empty) (as_ctx x) (as_ctx x')"
    proof (cases "apc_unpersist_get_already_copied 0 x")
      case None
      have "array_at (u_heap x) 0 = Some zend_empty_array" using x(1) by (simp add: u_ok_def array_at_def)
      then show ?thesis using None z x k
        by (intro exI [of _ "IS_ARRAY 0"] exI [of _ x]) (simp add: apc_unpersist_zval_impl_def zend_empty_array_def)
    next
      case (Some a)
      then have "u_memo x" "u_copied x 0 = Some a" by (simp_all add: apc_unpersist_get_already_copied_def split: if_splits)
      moreover have "rep True (view M) (zv_of P_empty 0) P_empty" using r z by simp
      ultimately have "rep False (view (p_mem (as_ctx x))) (zv_of P_empty a) P_empty"
        using x(2) m unfolding memo_ok_def by (metis as_ctx_fields(1,3) simple_tree.simps(3))
      then show ?thesis using Some z x k view_as_ctx [OF x(1)]
        by (intro exI [of _ "IS_ARRAY a"] exI [of _ x]) (simp add: apc_unpersist_zval_impl_def)
    qed
  qed
qed

text \<open>Structures: a second visit, and what there is to show for the first.\<close>

lemma back_first:
  assumes r: "rep True (view M) zv v" "\<not> simple_tree v" "size v < m"
    and new: "\<And>x. u_ok x \<Longrightarrow> memo_ok True False (view M) m (as_ctx x) \<Longrightarrow>
      apc_unpersist_get_already_copied (z_counted zv) x = None \<Longrightarrow>
      \<exists>a x'. apc_unpersist_zval_impl (apc_unpersist_zval n M) M zv x = Some (zv_of v a, x') \<and> u_ok x' \<and>
        memo_ok True False (view M) m (as_ctx x') \<and> rep False (u_heap x') (zv_of v a) v \<and>
        grown True (view M) (size v) (as_ctx x) (as_ctx x')"
  shows "back_ok (Suc n) M m zv v"
  unfolding back_ok_def
proof (intro allI impI)
  fix x assume x: "u_ok x" "memo_ok True False (view M) m (as_ctx x)"
  note z = rep_mk [OF r(1,2)]
  show "\<exists>zv' x'. apc_unpersist_zval (Suc n) M zv x = Some (zv', x') \<and> u_ok x' \<and> memo_ok True False (view M) m (as_ctx x') \<and>
      rep False (u_heap x') zv' v \<and> grown True (view M) (size v) (as_ctx x) (as_ctx x')"
  proof (cases "apc_unpersist_get_already_copied (z_counted zv) x")
    case None
    obtain a x' where a: "apc_unpersist_zval_impl (apc_unpersist_zval n M) M zv x = Some (zv_of v a, x')" "u_ok x'"
      "memo_ok True False (view M) m (as_ctx x')" "rep False (u_heap x') (zv_of v a) v"
      "grown True (view M) (size v) (as_ctx x) (as_ctx x')" using new [OF x None] by (elim exE conjE) (rule that)
    then show ?thesis using z by (intro exI [of _ "zv_of v a"] exI [of _ x']) simp
  next
    case (Some a)
    then have c: "u_memo x" "u_copied x (z_counted zv) = Some a"
      by (simp_all add: apc_unpersist_get_already_copied_def split: if_splits)
    have "rep True (view M) (zv_of v (z_counted zv)) v" using r(1) z by simp
    then have "rep False (view (p_mem (as_ctx x))) (zv_of v a) v"
      using x(2) c r(2,3) unfolding memo_ok_def by (metis as_ctx_fields(1,3))
    moreover have "apc_unpersist_zval_impl (apc_unpersist_zval n M) M zv x = Some (zv_of v a, x)"
      using Some r(1,2) by (cases v) (auto simp: apc_unpersist_zval_impl_def)
    ultimately show ?thesis using z x view_as_ctx [OF x(1)] by (intro exI [of _ "zv_of v a"] exI [of _ x]) simp
  qed
qed

text \<open>A fresh object: it is allocated at \<open>u_next x\<close>.\<close>

lemma fresh:
  assumes "u_ok x"
  shows "u_next x \<noteq> 0" "u_next x \<notin> dom (p_mem (as_ctx x))"
  using assms mem_ok_cur [of "as_ctx x"] by (simp_all add: u_ok_def)

lemma write_step:
  fixes ob :: zobj
  assumes x: "u_ok x" and a: "a < u_next x" "a \<noteq> 0" "a \<notin> dom (p_mem (as_ctx x))"
  defines "x' \<equiv> write_obj a ob x"
  shows "u_ok x'" "p_mem (as_ctx x) \<subseteq>\<^sub>m p_mem (as_ctx x')" "memo_ok st st' H m (as_ctx x) \<Longrightarrow> memo_ok st st' H m (as_ctx x')"
    "u_heap x' a = Some ob" "u_next x' = u_next x" "u_copied x' = u_copied x" "u_memo x' = u_memo x" "u_heap x \<subseteq>\<^sub>m u_heap x'"
    "dom (p_mem (as_ctx x')) - dom (p_mem (as_ctx x)) \<subseteq> {a}"
proof -
  have e: "as_ctx x' = store_obj a ob (as_ctx x)" unfolding x'_def by (rule as_ctx_write [OF a(2)])
  have mx: "mem_ok (as_ctx x)" using x by (simp add: u_ok_def)
  have lt: "a < p_cur (as_ctx x)" using a(1) by simp
  note st = store_step [OF mx lt a(2) [unfolded neq0_conv] a(3), where ob = ob, folded e]
  show "u_ok x'" using x st(1) a(2) by (simp add: u_ok_def x'_def)
  show "p_mem (as_ctx x) \<subseteq>\<^sub>m p_mem (as_ctx x')" by (rule st(2))
  show "memo_ok st st' H m (as_ctx x) \<Longrightarrow> memo_ok st st' H m (as_ctx x')" by (rule st(3))
  show "u_heap x' a = Some ob" "u_next x' = u_next x" "u_copied x' = u_copied x" "u_memo x' = u_memo x"
    by (simp_all add: x'_def write_obj_def)
  show "u_heap x \<subseteq>\<^sub>m u_heap x'"
    using view_mono [OF st(2)] view_as_ctx [OF x] view_as_ctx [OF \<open>u_ok x'\<close>] by simp
  show "dom (p_mem (as_ctx x')) - dom (p_mem (as_ctx x)) \<subseteq> {a}" by (auto simp: e store_obj_def split: if_splits)
qed

text \<open>The start of a structure.\<close>

lemma back_start:
  assumes x: "u_ok x" "memo_ok True False (view M) m (as_ctx x)"
    and v: "rep True (view M) (zv_of v off) v" "\<not> simple_tree v" "size v < m"
  defines "y \<equiv> apc_unpersist_add_already_copied off (u_next x) (snd (emalloc x))"
  shows "u_ok y" "memo_ok True False (view M) (size v) (as_ctx y)" "p_mem (as_ctx y) = p_mem (as_ctx x)" "u_memo y = u_memo x"
    "u_next y = Suc (u_next x)" "p_allocated (as_ctx y) = p_allocated (apc_persist_add_already_allocated off (u_next x) (as_ctx x))"
    "u_heap y = u_heap x"
proof -
  have e: "as_ctx y = apc_persist_add_already_allocated off (u_next x) ((as_ctx x)\<lparr>p_cur := Suc (u_next x)\<rparr>)"
    unfolding y_def as_ctx_add as_ctx_emalloc ..
  show "memo_ok True False (view M) (size v) (as_ctx y)"
    by (rule memo_ok_start [OF x(2) v(1,2) less_imp_le [OF v(3)], where off = "u_next x"]) (simp_all add: e apc_persist_add_already_allocated_def)
  show m: "p_mem (as_ctx y) = p_mem (as_ctx x)" by (simp add: e)
  show n: "u_next y = Suc (u_next x)" "u_memo y = u_memo x"
    by (simp_all add: y_def apc_unpersist_add_already_copied_def emalloc_def)
  show h: "u_heap y = u_heap x" by (simp add: y_def)
  show "p_allocated (as_ctx y) = p_allocated (apc_persist_add_already_allocated off (u_next x) (as_ctx x))"
    unfolding e by (simp add: apc_persist_add_already_allocated_def)
  show "u_ok y" using x(1) n m h by (auto simp: u_ok_def mem_ok_def)
qed

lemma back_string:
  assumes r: "rep True (view M) zv (P_string s)" and m: "size (P_string s) < m"
  shows "back_ok (Suc n) M m zv (P_string s)"
proof (rule back_first [OF r _ m])
  fix x assume x: "u_ok x" "memo_ok True False (view M) m (as_ctx x)"
    and nn: "apc_unpersist_get_already_copied (z_counted zv) x = None"
  let ?v = "P_string s"
  obtain off h where a: "zv = IS_STRING off" "string_at (view M) off = Some (s, h)" using r by auto
  have rz: "rep True (view M) (zv_of ?v off) ?v" using r a by simp
  have tr: "\<not> simple_tree ?v" by simp
  define y where "y = apc_unpersist_add_already_copied off (u_next x) (snd (emalloc x))"
  note y = back_start [OF x rz tr m, folded y_def]
  have lt: "u_next x < u_next y" using y(5) by simp
  have nd: "u_next x \<notin> dom (p_mem (as_ctx y))" using fresh(2) [OF x(1)] y(3) by simp
  define x' where "x' = write_obj (u_next x) (Z_string s h) y"
  note w = write_step [OF y(1) lt fresh(1) [OF x(1)] nd, where ob = "Z_string s h", folded x'_def]
  have rp: "rep False (u_heap x') (zv_of ?v (u_next x)) ?v" using w(4) by (simp add: string_at_def)
  have g: "grown True (view M) 0 (as_ctx y) (as_ctx y)" by simp
  have sv: "0 < size ?v \<or> p_allocated (as_ctx y) = p_allocated (as_ctx y)" by simp
  have nn': "apc_persist_get_already_allocated off (as_ctx x) = None" using nn a(1) by (simp add: as_ctx_get)
  have yf: "p_memo (as_ctx y) = p_memo (as_ctx x)" "p_cur (as_ctx x) \<le> p_cur (as_ctx y)" using y(4,5) by simp_all
  have wf: "\<forall>o'\<in>dom (p_mem (as_ctx x')) - dom (p_mem (as_ctx y)). p_cur (as_ctx x) \<le> o'" "p_cur (as_ctx x') = p_cur (as_ctx y)"
    "p_memo (as_ctx x') = p_memo (as_ctx y)" "p_allocated (as_ctx x') = p_allocated (as_ctx y)"
    using w(5-7,9) by auto
  note f = finish_in_step [OF x(2) nn' rz tr y(3) yf y(6) g sv w(2) wf w(3) [OF y(2)] rp [folded view_as_ctx [OF w(1)]]]
  have c: "apc_unpersist_zstr off s h x = (u_next x, x')"
    by (simp add: apc_unpersist_zstr_def new_zstr_def Let_def x'_def y_def, simp add: apc_unpersist_add_already_copied_def write_obj_def emalloc_def)
  show "\<exists>a x'. apc_unpersist_zval_impl (apc_unpersist_zval n M) M zv x = Some (zv_of ?v a, x') \<and> u_ok x' \<and>
        memo_ok True False (view M) m (as_ctx x') \<and> rep False (u_heap x') (zv_of ?v a) ?v \<and>
        grown True (view M) (size ?v) (as_ctx x) (as_ctx x')"
    using nn a view_read(1) [OF a(2)] c w(1) f rp
    by (intro exI [of _ "u_next x"] exI [of _ x'] conjI) (simp_all add: apc_unpersist_zval_impl_def)
qed simp_all

lemma back_ref:
  assumes r: "rep True (view M) zv (P_ref v)" and m: "size (P_ref v) < m"
    and IH: "\<And>z m. rep True (view M) z v \<Longrightarrow> size v < m \<Longrightarrow> back_ok n M m z v"
  shows "back_ok (Suc n) M m zv (P_ref v)"
proof (rule back_first [OF r _ m])
  fix x assume x: "u_ok x" "memo_ok True False (view M) m (as_ctx x)"
    and nn: "apc_unpersist_get_already_copied (z_counted zv) x = None"
  let ?v = "P_ref v"
  obtain off z where a: "zv = IS_REFERENCE off" "ref_at (view M) off = Some z" "rep True (view M) z v" using r by auto
  have rz: "rep True (view M) (zv_of ?v off) ?v" using r a by simp
  have tr: "\<not> simple_tree ?v" by simp
  define y where "y = apc_unpersist_add_already_copied off (u_next x) (snd (emalloc x))"
  note y = back_start [OF x rz tr m, folded y_def]
  have "back_ok n M (size ?v) z v" by (rule IH [OF a(3)]) simp
  then obtain zv' z0 where k: "apc_unpersist_zval n M z y = Some (zv', z0)" "u_ok z0" "memo_ok True False (view M) (size ?v) (as_ctx z0)"
    "rep False (u_heap z0) zv' v" "grown True (view M) (size v) (as_ctx y) (as_ctx z0)"
    using y(1,2) unfolding back_ok_def by (elim allE impE) (assumption+, elim exE conjE, rule that)
  have lt: "u_next x < u_next z0" using y(5) k(5) by (simp add: grown_def)
  have nd: "u_next x \<notin> dom (p_mem (as_ctx z0))"
    using reserved_free [OF k(5)] fresh(2) [OF x(1)] y(3,5) by simp
  define x' where "x' = write_obj (u_next x) (Z_ref zv') z0"
  note w = write_step [OF k(2) lt fresh(1) [OF x(1)] nd, where ob = "Z_ref zv'", folded x'_def]
  have rp: "rep False (u_heap x') (zv_of ?v (u_next x)) ?v" using w(4) rep_mono(1) [OF w(8) k(4)] by (simp add: ref_at_def)
  have sv: "size v < size ?v \<or> p_allocated (as_ctx z0) = p_allocated (as_ctx y)" by simp
  have nn': "apc_persist_get_already_allocated off (as_ctx x) = None" using nn a(1) by (simp add: as_ctx_get)
  have yf: "p_memo (as_ctx y) = p_memo (as_ctx x)" "p_cur (as_ctx x) \<le> p_cur (as_ctx y)" using y(4,5) by simp_all
  have wf: "\<forall>o'\<in>dom (p_mem (as_ctx x')) - dom (p_mem (as_ctx z0)). p_cur (as_ctx x) \<le> o'" "p_cur (as_ctx x') = p_cur (as_ctx z0)"
    "p_memo (as_ctx x') = p_memo (as_ctx z0)" "p_allocated (as_ctx x') = p_allocated (as_ctx z0)"
    using w(5-7,9) by auto
  note f = finish_in_step [OF x(2) nn' rz tr y(3) yf y(6) k(5) sv w(2) wf w(3) [OF k(3)] rp [folded view_as_ctx [OF w(1)]]]
  have c: "apc_unpersist_ref (apc_unpersist_zval n M) off z x = Some (u_next x, x')"
    using k(1) by (simp add: apc_unpersist_ref_def Let_def x'_def y_def)
  show "\<exists>a x'. apc_unpersist_zval_impl (apc_unpersist_zval n M) M zv x = Some (zv_of ?v a, x') \<and> u_ok x' \<and>
        memo_ok True False (view M) m (as_ctx x') \<and> rep False (u_heap x') (zv_of ?v a) ?v \<and>
        grown True (view M) (size ?v) (as_ctx x) (as_ctx x')"
    using nn a(1) view_read(3) [OF a(2)] c w(1) f rp
    by (intro exI [of _ "u_next x"] exI [of _ x'] conjI) (simp_all add: apc_unpersist_zval_impl_def)
qed simp_all

subsection \<open>Arrays\<close>

lemma emalloc_step:
  assumes "u_ok x"
  defines "y \<equiv> snd (emalloc x)"
  shows "u_ok y" "memo_ok st st' H m (as_ctx x) \<Longrightarrow> memo_ok st st' H m (as_ctx y)" "p_mem (as_ctx y) = p_mem (as_ctx x)"
    "u_next y = Suc (u_next x)" "u_copied y = u_copied x" "u_memo y = u_memo x" "u_heap y = u_heap x"
proof -
  have e: "as_ctx y = (as_ctx x)\<lparr>p_cur := Suc (u_next x)\<rparr>" unfolding y_def by (rule as_ctx_emalloc)
  show "memo_ok st st' H m (as_ctx x) \<Longrightarrow> memo_ok st st' H m (as_ctx y)" by (erule memo_ok_grown) (simp_all add: e)
  show f: "p_mem (as_ctx y) = p_mem (as_ctx x)" "u_next y = Suc (u_next x)" "u_copied y = u_copied x" "u_memo y = u_memo x"
    "u_heap y = u_heap x" by (simp_all add: e, simp_all add: y_def emalloc_def)
  show "u_ok y" using assms(1) f by (auto simp: u_ok_def mem_ok_def)
qed

lemma new_zstr_step:
  assumes x: "u_ok x" "memo_ok st st' H m (as_ctx x)"
  shows "\<exists>x1. new_zstr s h x = (u_next x, x1) \<and> u_ok x1 \<and> memo_ok st st' H m (as_ctx x1) \<and> grown True H 0 (as_ctx x) (as_ctx x1) \<and>
    string_at (u_heap x1) (u_next x) = Some (s, h)"
proof -
  define y where "y = snd (emalloc x)"
  note y = emalloc_step [OF x(1), folded y_def]
  have lt: "u_next x < u_next y" using y(4) by simp
  have nd: "u_next x \<notin> dom (p_mem (as_ctx y))" using fresh(2) [OF x(1)] y(3) by simp
  define x1 where "x1 = write_obj (u_next x) (Z_string s h) y"
  note w = write_step [OF y(1) lt fresh(1) [OF x(1)] nd, where ob = "Z_string s h", folded x1_def]
  have "grown True H 0 (as_ctx x) (as_ctx x1)" using w(2,5-7,9) y(3-6) by (auto simp: grown_def)
  moreover have "new_zstr s h x = (u_next x, x1)" by (simp add: new_zstr_def Let_def x1_def y_def)
  ultimately show ?thesis using w(1,4) w(3) [OF y(2) [OF x(2)]] by (intro exI [of _ x1]) (simp add: string_at_def)
qed

lemma back_nil: "back_buckets_ok n M m pk plain [] PB_nil"
  by (simp add: back_buckets_ok_def)

lemma back_undef: "0 < n \<Longrightarrow> apc_unpersist_zval n M IS_UNDEF x = Some (IS_UNDEF, x)"
  by (cases n) simp_all

lemma back_hole:
  assumes b: "b_val b = IS_UNDEF" "0 < n" and IH: "back_buckets_ok n M m pk plain bs vs"
  shows "back_buckets_ok n M m pk plain (b # bs) (PB_hole vs)"
  unfolding back_buckets_ok_def
proof (intro allI impI)
  fix x assume x: "u_ok x" "memo_ok True False (view M) m (as_ctx x)"
  obtain bs' x' where k: "unpersist_buckets (apc_unpersist_zval n M) M plain bs x = Some (bs', x')" "u_ok x'"
    "memo_ok True False (view M) m (as_ctx x')" "reps False (u_heap x') pk bs' vs" "grown True (view M) (size vs) (as_ctx x) (as_ctx x')"
    using IH x unfolding back_buckets_ok_def by (elim allE impE) (assumption+, elim exE conjE, rule that)
  have "\<exists>b'. unpersist_buckets (apc_unpersist_zval n M) M plain (b # bs) x = Some (b' # bs', x') \<and> b_val b' = IS_UNDEF"
    using k(1) b back_undef [OF b(2)] by (cases plain) auto
  then obtain b' where b': "unpersist_buckets (apc_unpersist_zval n M) M plain (b # bs) x = Some (b' # bs', x')" "b_val b' = IS_UNDEF"
    by blast
  moreover have "grown True (view M) (size (PB_hole vs)) (as_ctx x) (as_ctx x')"
    by (rule grown_trans [OF k(5) grown_refl [of True _ 0]]) simp_all
  ultimately show "\<exists>bs' x'. unpersist_buckets (apc_unpersist_zval n M) M plain (b # bs) x = Some (bs', x') \<and> u_ok x' \<and>
      memo_ok True False (view M) m (as_ctx x') \<and> reps False (u_heap x') pk bs' (PB_hole vs) \<and>
      grown True (view M) (size (PB_hole vs)) (as_ctx x) (as_ctx x')"
    using k by (intro exI [of _ "b' # bs'"] exI [of _ x'] conjI) simp_all
qed

text \<open>The key of a bucket.\<close>

definition back_key :: "heap \<Rightarrow> bool \<Rightarrow> bucket \<Rightarrow> unpersist_ctx \<Rightarrow> (nat option \<times> unpersist_ctx) option" where
  "back_key M plain b x =
     (if plain then Some (b_key b, x)
      else case b_key b of
          None \<Rightarrow> Some (None, x)
        | Some off \<Rightarrow> do { s \<leftarrow> string_at M off; let p = new_zstr (fst s) 0 x; Some (Some (fst p), snd p) })"

lemma live_back:
  assumes "b_val b \<noteq> IS_UNDEF"
  shows "unpersist_buckets unp M plain (b # bs) x =
    do { k \<leftarrow> back_key M plain b x; v \<leftarrow> unp (b_val b) (snd k); r \<leftarrow> unpersist_buckets unp M plain bs (snd v);
         Some (b\<lparr>b_key := fst k, b_val := fst v\<rparr> # fst r, snd r) }"
proof -
  have "b\<lparr>b_key := b_key b, b_val := v\<rparr> = b\<lparr>b_val := v\<rparr>" for v by (cases b) simp
  then show ?thesis using assms by (simp add: back_key_def)
qed

lemma back_key_step:
  assumes k: "key_rep (view M) pk b h k" and pl: "pk \<longrightarrow> plain" "plain \<longrightarrow> \<not> pk \<longrightarrow> b_key b = None"
    and x: "u_ok x" "memo_ok True False (view M) m (as_ctx x)"
  shows "\<exists>kk y. back_key M plain b x = Some (kk, y) \<and> u_ok y \<and> memo_ok True False (view M) m (as_ctx y) \<and>
    grown True (view M) 0 (as_ctx x) (as_ctx y) \<and> (\<forall>v'. key_rep (u_heap y) pk (b\<lparr>b_key := kk, b_val := v'\<rparr>) h k)"
proof (cases "plain \<or> b_key b = None")
  case True
  then have "back_key M plain b x = Some (b_key b, x)" by (auto simp: back_key_def)
  moreover have "key_rep (u_heap x) pk (b\<lparr>b_key := b_key b, b_val := v'\<rparr>) h k" for v'
    using k True pl by (auto simp: key_rep_def split: if_splits)
  ultimately show ?thesis using x by (intro exI [of _ "b_key b"] exI [of _ x]) simp
next
  case False
  then obtain off s hh where p: "b_key b = Some off" "string_at (view M) off = Some (s, hh)" "k = Some s" "h = b_h b" "\<not> pk"
    using k pl(1) by (auto simp: key_rep_def split: if_splits)
  obtain y where y: "new_zstr s 0 x = (u_next x, y)" "u_ok y" "memo_ok True False (view M) m (as_ctx y)"
    "grown True (view M) 0 (as_ctx x) (as_ctx y)" "string_at (u_heap y) (u_next x) = Some (s, 0)"
    using new_zstr_step [OF x, of s 0] by (elim exE conjE) (rule that)
  have "back_key M plain b x = Some (Some (u_next x), y)" using False p view_read(1) [OF p(2)] y(1) by (simp add: back_key_def)
  moreover have "key_rep (u_heap y) pk (b\<lparr>b_key := Some (u_next x), b_val := v'\<rparr>) h k" for v'
    using p y(5) by (simp add: key_rep_def)
  ultimately show ?thesis using y by (intro exI [of _ "Some (u_next x)"] exI [of _ y]) simp
qed

lemma back_cons:
  assumes b: "b_val b \<noteq> IS_UNDEF" "key_rep (view M) pk b h k" "rep True (view M) (b_val b) v"
    and pl: "pk \<longrightarrow> plain" "plain \<longrightarrow> \<not> pk \<longrightarrow> b_key b = None"
    and IH: "back_ok n M m (b_val b) v" "back_buckets_ok n M m pk plain bs vs"
  shows "back_buckets_ok n M m pk plain (b # bs) (PB_cons h k v vs)"
  unfolding back_buckets_ok_def
proof (intro allI impI)
  fix x assume x: "u_ok x" "memo_ok True False (view M) m (as_ctx x)"
  obtain kk y where k: "back_key M plain b x = Some (kk, y)" "u_ok y" "memo_ok True False (view M) m (as_ctx y)"
    "grown True (view M) 0 (as_ctx x) (as_ctx y)" "\<forall>v'. key_rep (u_heap y) pk (b\<lparr>b_key := kk, b_val := v'\<rparr>) h k"
    using back_key_step [OF b(2) pl x] by (elim exE conjE) (rule that)
  obtain zv' y2 where v: "apc_unpersist_zval n M (b_val b) y = Some (zv', y2)" "u_ok y2" "memo_ok True False (view M) m (as_ctx y2)"
    "rep False (u_heap y2) zv' v" "grown True (view M) (size v) (as_ctx y) (as_ctx y2)"
    using IH(1) k(2,3) unfolding back_ok_def by (elim allE impE) (assumption+, elim exE conjE, rule that)
  obtain bs' x' where r: "unpersist_buckets (apc_unpersist_zval n M) M plain bs y2 = Some (bs', x')" "u_ok x'"
    "memo_ok True False (view M) m (as_ctx x')" "reps False (u_heap x') pk bs' vs" "grown True (view M) (size vs) (as_ctx y2) (as_ctx x')"
    using IH(2) v(2,3) unfolding back_buckets_ok_def by (elim allE impE) (assumption+, elim exE conjE, rule that)
  let ?b = "b\<lparr>b_key := kk, b_val := zv'\<rparr>"
  have run: "unpersist_buckets (apc_unpersist_zval n M) M plain (b # bs) x = Some (?b # bs', x')"
    unfolding live_back [OF b(1)] using k(1) v(1) r(1) by simp
  note h2 = grown_heap [OF r(5) v(2) r(2)]
  note h1 = map_le_trans [OF grown_heap [OF v(5) k(2) v(2)] h2]
  have "b_val ?b \<noteq> IS_UNDEF" using rep_not_undef [OF b(3) v(4) b(1)] by simp
  moreover have "key_rep (u_heap x') pk ?b h k" using key_rep_mono [OF h1] k(5) by blast
  ultimately have "reps False (u_heap x') pk (?b # bs') (PB_cons h k v vs)" using r(4) rep_mono(1) [OF h2 v(4)] by simp
  moreover have "grown True (view M) (size (PB_cons h k v vs)) (as_ctx x) (as_ctx x')"
    by (rule grown_trans [OF grown_trans [OF k(4) v(5), of "size v"] r(5)]) simp_all
  ultimately show "\<exists>bs' x'. unpersist_buckets (apc_unpersist_zval n M) M plain (b # bs) x = Some (bs', x') \<and> u_ok x' \<and>
      memo_ok True False (view M) m (as_ctx x') \<and> reps False (u_heap x') pk bs' (PB_cons h k v vs) \<and>
      grown True (view M) (size (PB_cons h k v vs)) (as_ctx x) (as_ctx x')"
    using run r(2,3) by (intro exI [of _ "?b # bs'"] exI [of _ x'] conjI)
qed

lemma back_array:
  assumes r: "rep True (view M) zv (P_array pk mk nm vs)" and m: "size (P_array pk mk nm vs) < m"
    and IH: "\<And>bs m plain. reps True (view M) pk bs vs \<Longrightarrow> pk \<longrightarrow> plain \<Longrightarrow> plain \<longrightarrow> \<not> pk \<longrightarrow> static_ok True bs \<Longrightarrow> size vs < m \<Longrightarrow>
      back_buckets_ok n M m pk plain bs vs"
  shows "back_ok (Suc n) M m zv (P_array pk mk nm vs)"
proof (rule back_first [OF r _ m])
  fix x assume x: "u_ok x" "memo_ok True False (view M) m (as_ctx x)"
    and nn: "apc_unpersist_get_already_copied (z_counted zv) x = None"
  let ?v = "P_array pk mk nm vs"
  obtain off t bs where a: "zv = IS_ARRAY off" "array_at (view M) off = Some t" "ht_num t = nm" "nm \<noteq> 0" "ht_packed t = pk"
    "ht_mask t = mk" "data_at (view M) (ht_data t) = Some bs" "\<not> pk \<longrightarrow> static_ok (ht_static_keys t) bs" "reps True (view M) pk bs vs"
    "vs \<noteq> PB_nil" using r by auto
  have off: "off \<noteq> 0" "array_at M off = Some t" using view_read(4) [OF a(2)] a(3,4) by simp_all
  define plain where "plain = (ht_packed t \<or> ht_static_keys t)"
  have pl: "pk \<longrightarrow> plain" "plain \<longrightarrow> \<not> pk \<longrightarrow> static_ok True bs" using a(5,8) by (auto simp: plain_def)
  have rz: "rep True (view M) (zv_of ?v off) ?v" using r a(1) by simp
  have tr: "\<not> simple_tree ?v" by simp
  define y where "y = apc_unpersist_add_already_copied off (u_next x) (snd (emalloc x))"
  note y = back_start [OF x rz tr m, folded y_def]
  define d where "d = snd (emalloc y)"
  note dd = emalloc_step [OF y(1), folded d_def]
  have "back_buckets_ok n M (size ?v) pk plain bs vs" by (rule IH [OF a(9) pl]) simp
  then obtain bs' z0 where k: "unpersist_buckets (apc_unpersist_zval n M) M plain bs d = Some (bs', z0)" "u_ok z0"
    "memo_ok True False (view M) (size ?v) (as_ctx z0)" "reps False (u_heap z0) pk bs' vs"
    "grown True (view M) (size vs) (as_ctx d) (as_ctx z0)"
    using dd(1) dd(2) [OF y(2)] unfolding back_buckets_ok_def by (elim allE impE) (assumption+, elim exE conjE, rule that)
  have lt: "u_next y < u_next z0" "u_next x < u_next z0" using y(5) dd(4) k(5) by (simp_all add: grown_def)
  have nd: "u_next y \<notin> dom (p_mem (as_ctx z0))" "u_next x \<notin> dom (p_mem (as_ctx z0))"
    using reserved_free [OF k(5)] fresh(2) [OF x(1)] fresh(2) [OF y(1)] y(3,5) dd(3,4) by simp_all
  define z1 where "z1 = write_obj (u_next y) (Z_data bs') z0"
  note w1 = write_step [OF k(2) lt(1) fresh(1) [OF y(1)] nd(1), where ob = "Z_data bs'", folded z1_def]
  define t' where "t' = t\<lparr>ht_data := u_next y\<rparr>"
  have lt1: "u_next x < u_next z1" using lt(2) w1(5) by simp
  have nd1: "u_next x \<notin> dom (p_mem (as_ctx z1))" using nd(2) w1(9) y(5) by auto
  define x' where "x' = write_obj (u_next x) (Z_array t') z1"
  note w2 = write_step [OF w1(1) lt1 fresh(1) [OF x(1)] nd1, where ob = "Z_array t'", folded x'_def]
  have "u_heap x' (u_next y) = Some (Z_data bs')" using w1(4) w2(8) by (auto simp: map_le_def dom_def)
  then have "data_at (u_heap x') (ht_data t') = Some bs'" by (simp add: data_at_def t'_def)
  moreover have "array_at (u_heap x') (u_next x) = Some t'" using w2(4) by (simp add: array_at_def)
  moreover have "reps False (u_heap x') pk bs' vs" by (rule rep_mono(2) [OF map_le_trans [OF w1(8) w2(8)] k(4)])
  ultimately have rp: "rep False (u_heap x') (zv_of ?v (u_next x)) ?v" using a(3-6,10) by (simp add: t'_def)
  have sv: "size vs < size ?v \<or> p_allocated (as_ctx z0) = p_allocated (as_ctx d)" by simp
  have nn': "apc_persist_get_already_allocated off (as_ctx x) = None" using nn a(1) by (simp add: as_ctx_get)
  have df: "p_mem (as_ctx d) = p_mem (as_ctx x)" "p_memo (as_ctx d) = p_memo (as_ctx x)" "p_cur (as_ctx x) \<le> p_cur (as_ctx d)"
    "p_allocated (as_ctx d) = p_allocated (apc_persist_add_already_allocated off (u_next x) (as_ctx x))"
    using y(3-6) dd(3-6) by simp_all
  have wf: "p_mem (as_ctx z0) \<subseteq>\<^sub>m p_mem (as_ctx x')" "\<forall>o'\<in>dom (p_mem (as_ctx x')) - dom (p_mem (as_ctx z0)). p_cur (as_ctx x) \<le> o'"
    "p_cur (as_ctx x') = p_cur (as_ctx z0)" "p_memo (as_ctx x') = p_memo (as_ctx z0)" "p_allocated (as_ctx x') = p_allocated (as_ctx z0)"
    using map_le_trans [OF w1(2) w2(2)] w1(5-7,9) w2(5-7,9) y(5) by (simp_all, force)
  note f = finish_in_step [OF x(2) nn' rz tr df k(5) sv wf w2(3) [OF w1(3) [OF k(3)]] rp [folded view_as_ctx [OF w2(1)]]]
  have c: "apc_unpersist_ht (apc_unpersist_zval n M) M off t x = Some (u_next x, x')"
    using k(1) view_read(2) [OF a(7)]
    by (simp add: apc_unpersist_ht_def Let_def plain_def [symmetric] y_def [symmetric] d_def [symmetric] x'_def z1_def t'_def)
  show "\<exists>a x'. apc_unpersist_zval_impl (apc_unpersist_zval n M) M zv x = Some (zv_of ?v a, x') \<and> u_ok x' \<and>
        memo_ok True False (view M) m (as_ctx x') \<and> rep False (u_heap x') (zv_of ?v a) ?v \<and>
        grown True (view M) (size ?v) (as_ctx x) (as_ctx x')"
    using nn a(1) off c w2(1) f rp
    by (intro exI [of _ "u_next x"] exI [of _ x'] conjI) (simp_all add: apc_unpersist_zval_impl_def)
qed simp_all

lemma back_all:
  shows "rep True (view M) zv v \<Longrightarrow> pdepth v < n \<Longrightarrow> size v < m \<Longrightarrow> back_ok n M m zv v"
    "reps True (view M) pk bs vs \<Longrightarrow> pk \<longrightarrow> plain \<Longrightarrow> plain \<longrightarrow> \<not> pk \<longrightarrow> static_ok True bs \<Longrightarrow> bdepth vs < n \<Longrightarrow> size vs < m \<Longrightarrow>
      back_buckets_ok n M m pk plain bs vs"
proof (induction v and vs arbitrary: zv n m and pk bs n m plain)
  case (P_simple z)
  then show ?case using back_simple by simp
next
  case (P_string s)
  then show ?case using back_string [OF P_string(1,3)] by (cases n) simp_all
next
  case P_empty
  then show ?case using back_empty [OF P_empty(1)] by simp
next
  case (P_array pk mk nm vs)
  obtain k where k: "n = Suc k" "bdepth vs < k" using P_array.prems(2) by (cases n) simp_all
  show ?case unfolding k(1)
    by (rule back_array [OF P_array.prems(1,3)], rule P_array.IH) (use k in simp_all)
next
  case (P_ref v)
  obtain k where k: "n = Suc k" "pdepth v < k" using P_ref.prems(2) by (cases n) simp_all
  show ?case unfolding k(1) by (rule back_ref [OF P_ref.prems(1,3)], rule P_ref.IH) (use k in simp_all)
next
  case PB_nil
  then show ?case using back_nil by simp
next
  case (PB_hole vs)
  then obtain b bs' where b: "bs = b # bs'" "b_val b = IS_UNDEF" "reps True (view M) pk bs' vs" by auto
  have "plain \<longrightarrow> \<not> pk \<longrightarrow> static_ok True bs'" using PB_hole.prems(3) b(1) by (simp add: static_ok_def)
  then show ?case unfolding b(1) by (intro back_hole [OF b(2)] PB_hole.IH [OF b(3)]) (use PB_hole.prems in simp_all)
next
  case (PB_cons h k v vs)
  then obtain b bs' where b: "bs = b # bs'" "b_val b \<noteq> IS_UNDEF" "key_rep (view M) pk b h k" "rep True (view M) (b_val b) v"
    "reps True (view M) pk bs' vs" by auto
  have s: "plain \<longrightarrow> \<not> pk \<longrightarrow> static_ok True bs'" "plain \<longrightarrow> \<not> pk \<longrightarrow> b_key b = None"
    using PB_cons.prems(3) b(1,2) by (simp_all add: static_ok_def)
  show ?case unfolding b(1)
    by (rule back_cons [OF b(2-4) PB_cons.prems(2) s(2) PB_cons.IH(1) [OF b(4)] PB_cons.IH(2) [OF b(5) PB_cons.prems(2) s(1)]])
      (use PB_cons.prems in simp_all)
qed

text \<open>The whole value.\<close>

lemma unpersist_ok:
  assumes r: "rep True (view M) zv v" and n: "pdepth v < n"
  shows "\<exists>H' zv'. apc_unpersist n unserialize zv M = Some (H', zv') \<and> rep False H' zv' v"
proof -
  define x where "x = \<lparr>u_memo = (case zv of IS_ARRAY _ \<Rightarrow> True | _ \<Rightarrow> False), u_copied = Map.empty, u_next = 1, u_heap = request_start\<rparr>"
  have x: "u_ok x" "memo_ok True False (view M) (Suc (size v)) (as_ctx x)"
    by (auto simp: u_ok_def mem_ok_def as_ctx_def x_def request_start_def memo_ok_def split: if_splits)
  have "back_ok n M (Suc (size v)) zv v" by (rule back_all(1) [OF r n]) simp
  then obtain zv' x' where k: "apc_unpersist_zval n M zv x = Some (zv', x')" "rep False (u_heap x') zv' v"
    using x unfolding back_ok_def by (elim allE impE) (assumption+, elim exE conjE, rule that)
  have "\<forall>off. zv \<noteq> IS_PTR off" using r by (cases v) auto
  then have "apc_unpersist n unserialize zv M = do { r \<leftarrow> apc_unpersist_zval n M zv x; Some (u_heap (snd r), fst r) }"
    unfolding apc_unpersist_def x_def by (cases zv) simp_all
  then show ?thesis using k by simp
qed

end
