(* ===== verification/Persist_Properties.thy ===== *)
theory Persist_Properties imports Persist_Back Cache_Behaviour begin

text \<open>
  The properties of persisting values: the size of an entry, the round trip, and the round trip through the cache;
  with an example.
\<close>

subsection \<open>An example\<close>







subsection \<open>Size and round trip\<close>





text \<open>
  The next free element of a copied array: the code counts from 0 over the live buckets, with the arithmetic of
  \<open>zend_long\<close>. A largest key \<open>PHP_INT_MAX\<close> makes it negative.
\<close>

lemma next_free_wraps:
  "\<exists>bs' l' x'. copy_buckets (apc_persist_copy_zval 1 Z H) Z H False 0 [\<lparr>b_h = 9223372036854775807, b_key = None, b_val = IS_TRUE\<rparr>]
      \<lparr>l_next_free = 0, l_iptr = None, l_static = True\<rparr> x = Some (bs', l', x') \<and> l_next_free l' = - 9223372036854775808"
  by (simp add: next_free_after_def int64_of_def)

subsection \<open>Through the cache\<close>




end
