(* ===== verification/Php_Api.thy ===== *)
theory Php_Api imports Iterator "HOL-Library.AList" begin

text \<open>
  The functions for PHP scripts (\<open>php_apc.c\<close>): their arguments as the code distinguishes them after
  \<open>ZEND_PARSE_PARAMETERS\<close>, their return values, and the loops over arrays of keys. \<open>img\<close> and \<open>unp\<close> stand for
  \<open>apc_persist\<close> and \<open>apc_unpersist\<close> with the serializer that \<open>apc_cache_serializer\<close> looks up; \<open>long_to_str\<close> is
  \<open>zend_long_to_str\<close>. Warnings are not part of the results.
\<close>

subsection \<open>Configuration\<close>

text \<open>
  \<open>OnUpdateShmSize\<close> and \<open>OnUpdateMmapHugepageSize\<close> on the parsed quantity: the new value, or \<open>None\<close> for
  \<open>FAILURE\<close>. \<open>Z_L(1048576)\<close> is 2 to the 20; the multiplication is that of \<open>zend_long\<close>.
\<close>

definition OnUpdateShmSize :: "int \<Rightarrow> int option" where
  "OnUpdateShmSize s = (if s \<le> 0 then None else if s < 1048576 then Some (int64_of (s * 1048576)) else Some s)"

definition OnUpdateMmapHugepageSize :: "64 word \<Rightarrow> 64 word option" where
  "OnUpdateMmapHugepageSize s = (if s <s 0 then None else if and s (s - 1) \<noteq> 0 then None else Some s)"

subsection \<open>Arguments and results\<close>

text \<open>
  The elements of an array of keys are strings or not. A key argument is a string, an array, or another value,
  given by the string that \<open>convert_to_string\<close> makes of it. A returned array is a list of pairs in order.
\<close>

datatype elem = E_string string | E_other zval

datatype key_arg = K_string string | K_array "elem list" | K_other string

datatype 'a store_arg = S_string string "'a option" | S_array "((string + int) \<times> 'a) list" | S_other

datatype 'a delete_arg = D_string string | D_array "elem list" | D_object bool "'a iterator" | D_other

datatype 'a php_return =
    R_bool bool
  | R_long int
  | R_value 'a
  | R_failed "string list"
  | R_found "(string \<times> 'a) list"
  | R_exists "string list"
  | R_left "elem list"
  | R_error

subsection \<open>Storing\<close>

text \<open>
  The loop of \<open>apc_store_helper\<close>: the keys that were not stored, each of which gets the value -1 in the returned
  array. The time to live is cast to \<open>uint32_t\<close> and passed as \<open>int32_t\<close>.
\<close>

definition hash_key :: "(int \<Rightarrow> string) \<Rightarrow> string + int \<Rightarrow> string" where
  "hash_key long_to_str k = (case k of Inl s \<Rightarrow> s | Inr i \<Rightarrow> long_to_str i)"

fun store_pairs ::
  "(int \<Rightarrow> string) \<Rightarrow> (string \<Rightarrow> 'a \<Rightarrow> (nat \<times> zval \<times> 'v) option) \<Rightarrow> bool \<Rightarrow> int \<Rightarrow> ((string + int) \<times> 'a) list \<Rightarrow>
   ('v, 'x) cstate \<Rightarrow> (string list \<times> ('v, 'x) cstate) option" where
  "store_pairs lts img exclusive ttl [] c = Some ([], c)"
| "store_pairs lts img exclusive ttl (kv # kvs) c = do {
     r \<leftarrow> apc_cache_store img (hash_key lts (fst kv)) (snd kv) (int32_of (uint32_of ttl)) exclusive c;
     rest \<leftarrow> store_pairs lts img exclusive ttl kvs (snd r);
     Some (if fst r then fst rest else hash_key lts (fst kv) # fst rest, snd rest)
   }"

definition apc_store_helper ::
  "(int \<Rightarrow> string) \<Rightarrow> (string \<Rightarrow> 'a \<Rightarrow> (nat \<times> zval \<times> 'v) option) \<Rightarrow> bool \<Rightarrow> 'a store_arg \<Rightarrow> int \<Rightarrow>
   ('v, 'x) cstate \<Rightarrow> ('a php_return \<times> ('v, 'x) cstate) option" where
  "apc_store_helper lts img exclusive arg ttl c =
     (case arg of
        S_array kvs \<Rightarrow> do { r \<leftarrow> store_pairs lts img exclusive ttl kvs c; Some (R_failed (fst r), snd r) }
      | S_string key val \<Rightarrow>
          (case val of
             None \<Rightarrow> Some (R_bool False, c)
           | Some v \<Rightarrow> do {
               r \<leftarrow> apc_cache_store img key v (int32_of (uint32_of ttl)) exclusive c;
               Some (R_bool (fst r), snd r)
             })
      | S_other \<Rightarrow> Some (R_bool False, c))"

definition apcu_store ::
  "(int \<Rightarrow> string) \<Rightarrow> (string \<Rightarrow> 'a \<Rightarrow> (nat \<times> zval \<times> 'v) option) \<Rightarrow> 'a store_arg \<Rightarrow> int \<Rightarrow>
   ('v, 'x) cstate \<Rightarrow> ('a php_return \<times> ('v, 'x) cstate) option" where
  "apcu_store lts img = apc_store_helper lts img False"

definition apcu_add ::
  "(int \<Rightarrow> string) \<Rightarrow> (string \<Rightarrow> 'a \<Rightarrow> (nat \<times> zval \<times> 'v) option) \<Rightarrow> 'a store_arg \<Rightarrow> int \<Rightarrow>
   ('v, 'x) cstate \<Rightarrow> ('a php_return \<times> ('v, 'x) cstate) option" where
  "apcu_add lts img = apc_store_helper lts img True"

subsection \<open>Counting\<close>

record php_inc_updater_args =
  inc_step :: int
  inc_rval :: int

text \<open>\<open>ATOMIC_ADD\<close> and \<open>ATOMIC_CAS\<close> on a \<open>zend_long\<close>: the new value of the object with the result.\<close>

definition ATOMIC_ADD :: "int \<Rightarrow> int \<Rightarrow> int" where
  "ATOMIC_ADD a b = int64_of (a + b)"

definition ATOMIC_CAS :: "int \<Rightarrow> int \<Rightarrow> int \<Rightarrow> bool \<times> int" where
  "ATOMIC_CAS a old new = (if a = old then (True, new) else (False, a))"

definition php_inc_updater :: "php_inc_updater_args \<Rightarrow> int \<Rightarrow> bool \<times> int \<times> php_inc_updater_args" where
  "php_inc_updater args entry = (let v = ATOMIC_ADD entry (inc_step args) in (True, v, args\<lparr>inc_rval := v\<rparr>))"

definition php_apc_update ::
  "(string \<Rightarrow> zval \<Rightarrow> (nat \<times> zval \<times> 'v) option) \<Rightarrow> string \<Rightarrow> ('d \<Rightarrow> int \<Rightarrow> bool \<times> int \<times> 'd) \<Rightarrow> 'd \<Rightarrow> bool \<Rightarrow> int \<Rightarrow>
   ('v, 'x) cstate \<Rightarrow> ((bool \<times> 'd) \<times> ('v, 'x) cstate) option" where
  "php_apc_update img key updater data insert_if_not_found ttl c =
     apc_cache_atomic_update_long img key updater data insert_if_not_found ttl c"

text \<open>The result with the value assigned to \<open>success\<close>.\<close>

definition inc_by ::
  "int \<Rightarrow> (string \<Rightarrow> zval \<Rightarrow> (nat \<times> zval \<times> 'v) option) \<Rightarrow> string \<Rightarrow> int \<Rightarrow> ('v, 'x) cstate \<Rightarrow>
   (('a php_return \<times> bool) \<times> ('v, 'x) cstate) option" where
  "inc_by step img key ttl c = do {
     r \<leftarrow> php_apc_update img key php_inc_updater \<lparr>inc_step = step, inc_rval = 0\<rparr> True ttl c;
     Some (if fst (fst r) then (R_long (inc_rval (snd (fst r))), True) else (R_bool False, False), snd r)
   }"

definition apcu_inc ::
  "(string \<Rightarrow> zval \<Rightarrow> (nat \<times> zval \<times> 'v) option) \<Rightarrow> string \<Rightarrow> int \<Rightarrow> int \<Rightarrow> ('v, 'x) cstate \<Rightarrow>
   (('a php_return \<times> bool) \<times> ('v, 'x) cstate) option" where
  "apcu_inc img key step ttl c = inc_by step img key ttl c"

definition apcu_dec ::
  "(string \<Rightarrow> zval \<Rightarrow> (nat \<times> zval \<times> 'v) option) \<Rightarrow> string \<Rightarrow> int \<Rightarrow> int \<Rightarrow> ('v, 'x) cstate \<Rightarrow>
   (('a php_return \<times> bool) \<times> ('v, 'x) cstate) option" where
  "apcu_dec img key step ttl c = inc_by (int64_of (0 - step)) img key ttl c"

definition php_cas_updater :: "int \<times> int \<Rightarrow> int \<Rightarrow> bool \<times> int \<times> (int \<times> int)" where
  "php_cas_updater vals entry = (let r = ATOMIC_CAS entry (fst vals) (snd vals) in (fst r, snd r, vals))"

definition apcu_cas ::
  "(string \<Rightarrow> zval \<Rightarrow> (nat \<times> zval \<times> 'v) option) \<Rightarrow> string \<Rightarrow> int \<Rightarrow> int \<Rightarrow> ('v, 'x) cstate \<Rightarrow>
   ('a php_return \<times> ('v, 'x) cstate) option" where
  "apcu_cas img key old new c = do {
     r \<leftarrow> apc_cache_atomic_update_long img key php_cas_updater (old, new) False 0 c;
     Some (R_bool (fst (fst r)), snd r)
   }"

subsection \<open>Reading\<close>

text \<open>\<open>zend_hash_update\<close> replaces the value of a key in place or appends the pair, as \<open>AList.update\<close> does.\<close>

fun fetch_keys ::
  "(zval \<Rightarrow> 'v \<Rightarrow> 'a option) \<Rightarrow> int \<Rightarrow> elem list \<Rightarrow> (string \<times> 'a) list \<Rightarrow> ('v, 'x) cstate \<Rightarrow>
   ((string \<times> 'a) list \<times> ('v, 'x) cstate) option" where
  "fetch_keys unp t [] acc c = Some (acc, c)"
| "fetch_keys unp t (E_other _ # es) acc c = fetch_keys unp t es acc c"
| "fetch_keys unp t (E_string key # es) acc c = do {
     r \<leftarrow> apc_cache_fetch unp key t c;
     fetch_keys unp t es (case fst r of Some v \<Rightarrow> AList.update key v acc | None \<Rightarrow> acc) (snd r)
   }"

definition apcu_fetch ::
  "(zval \<Rightarrow> 'v \<Rightarrow> 'a option) \<Rightarrow> key_arg \<Rightarrow> ('v, 'x) cstate \<Rightarrow> (('a php_return \<times> bool) \<times> ('v, 'x) cstate) option" where
  "apcu_fetch unp key c =
     (let tc = apc_time c;
          one = (\<lambda>s. do {
            r \<leftarrow> apc_cache_fetch unp s (fst tc) (snd tc);
            Some (case fst r of Some v \<Rightarrow> (R_value v, True) | None \<Rightarrow> (R_bool False, False), snd r)
          })
      in case key of
           K_string s \<Rightarrow> one s
         | K_other s \<Rightarrow> one s
         | K_array es \<Rightarrow> do { r \<leftarrow> fetch_keys unp (fst tc) es [] (snd tc); Some ((R_found (fst r), True), snd r) })"

text \<open>\<open>zend_hash_add_new\<close> appends the key without looking for it; the value is always true.\<close>

fun exists_keys :: "int \<Rightarrow> elem list \<Rightarrow> ('v, 'x) cstate \<Rightarrow> (string list \<times> ('v, 'x) cstate) option" where
  "exists_keys t [] c = Some ([], c)"
| "exists_keys t (E_other _ # es) c = exists_keys t es c"
| "exists_keys t (E_string key # es) c = do {
     r \<leftarrow> apc_cache_exists key t c;
     rest \<leftarrow> exists_keys t es (snd r);
     Some (if fst r then key # fst rest else fst rest, snd rest)
   }"

definition apcu_exists :: "key_arg \<Rightarrow> ('v, 'x) cstate \<Rightarrow> ('a php_return \<times> ('v, 'x) cstate) option" where
  "apcu_exists key c =
     (let tc = apc_time c;
          one = (\<lambda>s. do { r \<leftarrow> apc_cache_exists s (fst tc) (snd tc); Some (R_bool (fst r), snd r) })
      in case key of
           K_string s \<Rightarrow> one s
         | K_other s \<Rightarrow> one s
         | K_array es \<Rightarrow> do { r \<leftarrow> exists_keys (fst tc) es (snd tc); Some (R_exists (fst r), snd r) })"

definition apcu_key_info :: "string \<Rightarrow> ('v, 'x) cstate \<Rightarrow> (key_stat option \<times> ('v, 'x) cstate) option" where
  "apcu_key_info key c = apc_cache_stat key c"

subsection \<open>Deleting\<close>

fun delete_keys :: "elem list \<Rightarrow> ('v, 'x) cstate \<Rightarrow> (elem list \<times> ('v, 'x) cstate) option" where
  "delete_keys [] c = Some ([], c)"
| "delete_keys (E_other z # es) c = do { rest \<leftarrow> delete_keys es c; Some (E_other z # fst rest, snd rest) }"
| "delete_keys (E_string key # es) c = do {
     r \<leftarrow> apc_cache_delete key c;
     rest \<leftarrow> delete_keys es (snd r);
     Some (if fst r then fst rest else E_string key # fst rest, snd rest)
   }"

text \<open>\<open>R_error\<close>: the call does not return a value (an exception or a fatal error in \<open>apc_iterator_delete\<close>).\<close>

definition apcu_delete ::
  "(string \<Rightarrow> string \<Rightarrow> bool) \<Rightarrow> (zval \<Rightarrow> 'v \<Rightarrow> 'a option) \<Rightarrow> 'a delete_arg \<Rightarrow> ('v, 'x) cstate \<Rightarrow>
   ('a php_return \<times> ('v, 'x) cstate) option" where
  "apcu_delete rx unp keys c =
     (case keys of
        D_string key \<Rightarrow> do { r \<leftarrow> apc_cache_delete key c; Some (R_bool (fst r), snd r) }
      | D_array es \<Rightarrow> do { r \<leftarrow> delete_keys es c; Some (R_left (fst r), snd r) }
      | D_object is_iterator it \<Rightarrow> do {
          r \<leftarrow> apc_iterator_delete rx unp is_iterator it c;
          Some (case fst r of Returned b \<Rightarrow> R_bool b | _ \<Rightarrow> R_error, snd (snd r))
        }
      | D_other \<Rightarrow> Some (R_bool False, c))"

definition apcu_clear_cache :: "('v, 'x) cstate \<Rightarrow> ('a php_return \<times> ('v, 'x) cstate) option" where
  "apcu_clear_cache c = do { c' \<leftarrow> apc_cache_clear c; Some (R_bool True, c') }"

subsection \<open>The rest\<close>

definition apcu_cache_info :: "bool \<Rightarrow> ('v, 'x) cstate \<Rightarrow> (cache_info option \<times> ('v, 'x) cstate) option" where
  "apcu_cache_info limited c = apc_cache_info limited c"

text \<open>\<open>to_double\<close> is the conversion of \<open>size_t\<close> to \<open>double\<close>.\<close>

record 'd sma_info_array =
  num_seg :: nat
  info_seg_size :: 'd
  avail_mem :: 'd
  block_lists :: "(nat \<times> nat) list list option"

definition apcu_sma_info ::
  "(nat \<Rightarrow> 'd) \<Rightarrow> bool \<Rightarrow> ('v, 'x) cstate \<Rightarrow> ('d sma_info_array option \<times> ('v, 'x) cstate) option" where
  "apcu_sma_info to_double limited c = do {
     r \<leftarrow> apc_sma_info limited c;
     case fst r of
       None \<Rightarrow> Some (None, snd r)
     | Some (sz, links) \<Rightarrow> Some (Some \<lparr>num_seg = 1, info_seg_size = to_double sz,
           avail_mem = to_double (apc_sma_get_avail_mem (snd r)),
           block_lists = (if limited then None else Some [links])\<rparr>, snd r)
   }"

definition apcu_entry ::
  "(string \<Rightarrow> 'a \<Rightarrow> (nat \<times> zval \<times> 'v) option) \<Rightarrow> (zval \<Rightarrow> 'v \<Rightarrow> 'a option) \<Rightarrow>
   (string \<Rightarrow> ('v, 'x) cstate \<Rightarrow> ('a option \<times> ('v, 'x) cstate) option) \<Rightarrow> string \<Rightarrow> int \<Rightarrow>
   ('v, 'x) cstate \<Rightarrow> ('a option \<times> ('v, 'x) cstate) option" where
  "apcu_entry img unp gen key ttl c = (let tc = apc_time c in apc_cache_entry img unp gen key ttl (fst tc) (snd tc))"

text \<open>\<open>apcu_inc_request_time\<close> of debug builds; nothing happens unless \<open>apc.use_request_time\<close> is set.\<close>

definition apcu_inc_request_time :: "int \<Rightarrow> ('v, 'x) cstate \<Rightarrow> ('v, 'x) cstate" where
  "apcu_inc_request_time by_secs c =
     (if \<not> use_request_time c then c
      else let c = snd (apc_time c) in c\<lparr>request_time := int64_of (request_time c + by_secs)\<rparr>)"

subsection \<open>The life of the module\<close>

text \<open>
  The global switches of a process besides its cache: whether the extension is enabled, and whether the start of the
  module has created or attached the cache.
\<close>

record apcu_globals =
  g_enabled :: bool
  g_initialized :: bool

definition apcu_enabled :: "apcu_globals \<Rightarrow> 'a php_return" where
  "apcu_enabled g = R_bool (g_enabled g)"

definition rinit_apcu :: "('v, 'x) cstate \<Rightarrow> ('v, 'x) cstate" where
  "rinit_apcu c = c\<lparr>request_time := 0\<rparr>"

definition mshutdown_apcu :: "apcu_globals \<Rightarrow> ('v, 'x) cstate \<Rightarrow> apcu_globals \<times> ('v, 'x) cstate" where
  "mshutdown_apcu g c =
     (if g_enabled g \<and> g_initialized g then (g\<lparr>g_initialized := False\<rparr>, apc_sma_detach (apc_cache_detach c)) else (g, c))"

end
