(* ===== verification/Php_Correct.thy ===== *)
theory Php_Correct imports Php_Api Iterator_Delete Cache_Behaviour "HOL-Library.Sublist" begin

text \<open>
  The functions for PHP scripts on arrays of keys, and on counters, when every attempt to lock succeeds (\<open>quiet\<close>).
\<close>

subsection \<open>Reading many keys\<close>

text \<open>An entry without the counters that reading changes.\<close>

definition unread :: "'v entry \<Rightarrow> 'v entry" where
  "unread e = e\<lparr>e_nhits := 0, e_atime := 0, e_ref_count := 0\<rparr>"

definition only_read :: "('v, 'x) cstate \<Rightarrow> ('v, 'x) cstate \<Rightarrow> bool" where
  "only_read c c' \<longleftrightarrow> quiet c' \<and> cache_exists c' \<and> same_env c c' \<and> (\<forall>k. map_option unread (cache_map c' k) = map_option unread (cache_map c k))"

lemma unread_read [simp]: "unread (fetched t e) = unread e" "unread (hit t e) = unread e"
  by (simp_all add: unread_def fetched_def hit_def)

lemma unread_eq: "unread e = unread e' \<Longrightarrow> e_val e = e_val e' \<and> e_data e = e_data e' \<and>
    apc_cache_entry_hard_expired e t = apc_cache_entry_hard_expired e' t"
proof -
  assume a: "unread e = unread e'"
  have "e_val e = e_val e'" "e_data e = e_data e'" "e_ttl e = e_ttl e'" "e_ctime e = e_ctime e'"
    using arg_cong [OF a, of e_val] arg_cong [OF a, of e_data] arg_cong [OF a, of e_ttl] arg_cong [OF a, of e_ctime]
    by (simp_all add: unread_def)
  then show ?thesis by (simp add: apc_cache_entry_hard_expired_def)
qed

lemma only_read_refl: "quiet c \<Longrightarrow> cache_exists c \<Longrightarrow> only_read c c"
  by (simp add: only_read_def)

lemma only_read_trans: "only_read c c1 \<Longrightarrow> only_read c1 c2 \<Longrightarrow> only_read c c2"
  using same_env_trans by (auto simp: only_read_def)

text \<open>Later lookups find the same values.\<close>

lemma only_read_lookup:
  assumes "only_read c c'"
  shows "lookup c' k t = None \<longleftrightarrow> lookup c k t = None" "fetch_value unp c' k t = fetch_value unp c k t"
proof -
  have m: "map_option unread (cache_map c' k) = map_option unread (cache_map c k)" using assms by (simp add: only_read_def)
  have "rel_option (\<lambda>e e'. unread e = unread e') (cache_map c' k) (cache_map c k)"
    using m by (cases "cache_map c' k"; cases "cache_map c k") simp_all
  then show "lookup c' k t = None \<longleftrightarrow> lookup c k t = None" "fetch_value unp c' k t = fetch_value unp c k t"
    by (cases "cache_map c' k"; cases "cache_map c k"; auto simp: lookup_def fetch_value_def dest: unread_eq [of _ _ t])+
qed

lemma quietD: "quiet c \<Longrightarrow> cache_inv c (cache_lists c) \<and> lockable c \<and> lock_gets c \<and> cache_lock_results c = []"
  by (simp add: quiet_def cache_ok_def lock_gets_def)

lemma quietI: "cache_inv c L \<Longrightarrow> lockable c \<Longrightarrow> cache_lock_results c = [] \<Longrightarrow> quiet c"
  using cache_inv_ok by (auto simp: quiet_def)

lemma quiet_fetch:
  assumes q: "quiet c" and x: "cache_exists c"
  shows "\<exists>c'. apc_cache_fetch unp key t c = Some (fetch_value unp c key t, c') \<and> only_read c c'"
proof -
  have d: "cache_inv c (cache_lists c)" "lockable c" "lock_gets c" "cache_lock_results c = []" using quietD [OF q] by simp_all
  obtain c' where f: "apc_cache_fetch unp key t c = Some (fetch_value unp c key t, c')" "cache_inv c' (cache_lists c)" "same_env c c'"
    "cache_map c' = fetch_map c key t" "cache_lock_results c' = []"
    using fetch_ok [OF d(1,2) x, of unp key t] d(3,4) by auto
  have "quiet c'" using quietI [OF f(2)] same_env_fun(7) [OF f(3)] d(2) f(5) by simp
  moreover have "map_option unread (cache_map c' k) = map_option unread (cache_map c k)" for k
    unfolding f(4) by (auto simp: fetch_map_def lookup_def split: option.splits if_splits)
  ultimately show ?thesis using f(1,3) same_env_sel(1) [OF f(3)] x by (auto simp: only_read_def)
qed

lemma quiet_exists:
  assumes q: "quiet c" and x: "cache_exists c"
  shows "\<exists>c'. apc_cache_exists key t c = Some (lookup c key t \<noteq> None, c') \<and> only_read c c'"
proof -
  have d: "cache_inv c (cache_lists c)" "lockable c" "lock_gets c" "cache_lock_results c = []" using quietD [OF q] by simp_all
  obtain c' where f: "apc_cache_exists key t c = Some (lookup c key t \<noteq> None, c')" "cache_inv c' (cache_lists c)" "same_env c c'"
    "cache_map c' = (case lookup c key t of None \<Rightarrow> cache_map c | Some en \<Rightarrow> (cache_map c)(key \<mapsto> hit t en))"
    "cache_lock_results c' = []"
    using exists_ok [OF d(1,2) x, of key t] d(3,4) by auto
  have "quiet c'" using quietI [OF f(2)] same_env_fun(7) [OF f(3)] d(2) f(5) by simp
  moreover have "map_option unread (cache_map c' k) = map_option unread (cache_map c k)" for k
    unfolding f(4) by (auto simp: lookup_def split: option.splits if_splits)
  ultimately show ?thesis using f(1,3) same_env_sel(1) [OF f(3)] x by (auto simp: only_read_def)
qed

lemma fetch_keys_ok:
  assumes "quiet c" "cache_exists c" "distinct (map fst acc)"
  shows "\<exists>acc' c'. fetch_keys unp t es acc c = Some (acc', c') \<and> only_read c c' \<and> distinct (map fst acc') \<and>
    (\<forall>k. map_of acc' k = (if E_string k \<in> set es \<and> fetch_value unp c k t \<noteq> None then fetch_value unp c k t else map_of acc k))"
  using assms
proof (induction es arbitrary: acc c)
  case Nil
  then show ?case using only_read_refl by auto
next
  case (Cons e es)
  show ?case
  proof (cases e)
    case (E_other z)
    then show ?thesis using Cons by auto
  next
    case (E_string key)
    obtain c1 where f: "apc_cache_fetch unp key t c = Some (fetch_value unp c key t, c1)" "only_read c c1"
      using quiet_fetch [OF Cons.prems(1,2)] by blast
    define acc1 where "acc1 = (case fetch_value unp c key t of Some v \<Rightarrow> AList.update key v acc | None \<Rightarrow> acc)"
    have "quiet c1" "cache_exists c1" using f(2) by (simp_all add: only_read_def)
    moreover have "distinct (map fst acc1)" using Cons.prems(3) by (auto simp: acc1_def distinct_update split: option.splits)
    ultimately obtain acc' c' where r: "fetch_keys unp t es acc1 c1 = Some (acc', c')" "only_read c1 c'" "distinct (map fst acc')"
      "\<forall>k. map_of acc' k = (if E_string k \<in> set es \<and> fetch_value unp c1 k t \<noteq> None then fetch_value unp c1 k t else map_of acc1 k)"
      using Cons.IH by blast
    have "fetch_keys unp t (e # es) acc c = Some (acc', c')" using E_string f(1) r(1) by (simp add: acc1_def)
    moreover have "map_of acc1 k = (if k = key \<and> fetch_value unp c k t \<noteq> None then fetch_value unp c k t else map_of acc k)" for k
      by (auto simp: acc1_def update_conv split: option.splits)
    then have "map_of acc' k = (if E_string k \<in> set (e # es) \<and> fetch_value unp c k t \<noteq> None then fetch_value unp c k t else map_of acc k)"
      for k using r(4) E_string by (auto simp: only_read_lookup(2) [OF f(2)])
    ultimately show ?thesis using r(3) only_read_trans [OF f(2) r(2)] by blast
  qed
qed

text \<open>The keys of an array of elements.\<close>

fun elem_keys :: "elem list \<Rightarrow> string list" where
  "elem_keys [] = []"
| "elem_keys (E_string k # es) = k # elem_keys es"
| "elem_keys (E_other z # es) = elem_keys es"

lemma exists_keys_ok:
  assumes "quiet c" "cache_exists c"
  shows "\<exists>c'. exists_keys t es c = Some (filter (\<lambda>k. lookup c k t \<noteq> None) (elem_keys es), c') \<and> only_read c c'"
  using assms
proof (induction es arbitrary: c rule: elem_keys.induct)
  case 1
  then show ?case using only_read_refl by auto
next
  case (2 key es)
  obtain c1 where f: "apc_cache_exists key t c = Some (lookup c key t \<noteq> None, c1)" "only_read c c1"
    using quiet_exists [OF 2(2,3)] by blast
  have "quiet c1" "cache_exists c1" using f(2) by (simp_all add: only_read_def)
  then obtain c' where r: "exists_keys t es c1 = Some (filter (\<lambda>k. lookup c1 k t \<noteq> None) (elem_keys es), c')" "only_read c1 c'"
    using 2(1) by blast
  have l: "filter (\<lambda>k. lookup c1 k t \<noteq> None) (elem_keys es) = filter (\<lambda>k. lookup c k t \<noteq> None) (elem_keys es)"
    using only_read_lookup(1) [OF f(2)] by simp
  have "exists_keys t (E_string key # es) c = Some (filter (\<lambda>k. lookup c k t \<noteq> None) (elem_keys (E_string key # es)), c')"
    using f(1) r(1) unfolding l by simp
  then show ?case using only_read_trans [OF f(2) r(2)] by blast
next
  case (3 z es)
  then show ?case by simp
qed

lemma only_read_time: "only_read (snd (apc_time c)) c' \<Longrightarrow> only_read c c'"
  using same_env_trans [OF same_config_env [OF apc_time_inv(2) [of c]]] apc_time_ok [of c] by (auto simp: only_read_def)

lemma time_lookup [simp]:
  "lookup (snd (apc_time c)) = lookup c" "fetch_value unp (snd (apc_time c)) = fetch_value unp c"
  "cache_map (snd (apc_time c)) = cache_map c" "cache_exists (snd (apc_time c)) = cache_exists c"
proof -
  obtain r where r: "snd (apc_time c) = c\<lparr>request_time := r\<rparr>" using apc_time_ok by blast
  have "slot_of (snd (apc_time c)) = slot_of c" "cache_lists (snd (apc_time c)) = cache_lists c" "slot_at (snd (apc_time c)) = slot_at c"
    "contents (snd (apc_time c)) = contents c"
    using apc_time_inv(3) [of c] by (simp_all add: r slot_of_def cache_lists_def sma_blocks_def fun_eq_iff slot_at_def)
  then show m: "cache_map (snd (apc_time c)) = cache_map c" by (simp add: cache_map_def bucket_def fun_eq_iff)
  show "cache_exists (snd (apc_time c)) = cache_exists c" by (simp add: r)
  show "lookup (snd (apc_time c)) = lookup c" by (simp add: lookup_def m fun_eq_iff)
  then show "fetch_value unp (snd (apc_time c)) = fetch_value unp c" by (simp add: fetch_value_def fun_eq_iff)
qed

subsection \<open>Deleting many keys\<close>

text \<open>
  The elements left over: those that are not strings, and the strings whose key is absent when their turn comes, which
  is also the case for the second occurrence of a key.
\<close>

fun left_over :: "(string \<Rightarrow> bool) \<Rightarrow> elem list \<Rightarrow> elem list" where
  "left_over P [] = []"
| "left_over P (E_other z # es) = E_other z # left_over P es"
| "left_over P (E_string k # es) = (if P k then left_over (P(k := False)) es else E_string k # left_over P es)"

lemma quiet_delete_result:
  assumes q: "quiet c" and x: "cache_exists c"
  shows "\<exists>c'. apc_cache_delete key c = Some (cache_map c key \<noteq> None, c') \<and> only_deleted c (\<lambda>k. k = key) c'"
proof -
  have d: "cache_inv c (cache_lists c)" "lockable c" "lock_gets c" using quietD [OF q] by simp_all
  obtain c0 where a: "apc_cache_delete key c = Some (cache_map c key \<noteq> None, c0)"
    using delete_api_ok [OF d(1,2) x, of key] d(3) by auto
  moreover obtain b c' where "apc_cache_delete key c = Some (b, c')" "only_deleted c (\<lambda>k. k = key) c'"
    using only_deleted_delete [OF q x, of key] by blast
  ultimately show ?thesis by simp
qed

lemma delete_keys_ok:
  assumes "quiet c" "cache_exists c"
  shows "\<exists>c'. delete_keys es c = Some (left_over (\<lambda>k. cache_map c k \<noteq> None) es, c') \<and> only_deleted c (\<lambda>k. k \<in> set (elem_keys es)) c'"
  using assms
proof (induction es arbitrary: c rule: elem_keys.induct)
  case 1
  have "only_deleted c (\<lambda>k. k \<in> set (elem_keys [])) c" by (rule only_deleted_refl [OF 1]) simp
  then show ?case by simp
next
  case (2 key es)
  obtain c1 where f: "apc_cache_delete key c = Some (cache_map c key \<noteq> None, c1)" "only_deleted c (\<lambda>k. k = key) c1"
    using quiet_delete_result [OF 2(2,3)] by blast
  have "quiet c1" "cache_exists c1" and m: "\<And>k. cache_map c1 k = (if k = key then None else cache_map c k)"
    using f(2) by (simp_all add: only_deleted_def)
  then obtain c' where r: "delete_keys es c1 = Some (left_over (\<lambda>k. cache_map c1 k \<noteq> None) es, c')"
    "only_deleted c1 (\<lambda>k. k \<in> set (elem_keys es)) c'"
    using 2(1) by blast
  have "(\<lambda>k. cache_map c1 k \<noteq> None) = (\<lambda>k. cache_map c k \<noteq> None)(key := False)" by (auto simp: m fun_eq_iff)
  moreover have "cache_map c key = None \<Longrightarrow> (\<lambda>k. cache_map c k \<noteq> None)(key := False) = (\<lambda>k. cache_map c k \<noteq> None)"
    by (simp add: fun_upd_idem)
  ultimately have "delete_keys (E_string key # es) c = Some (left_over (\<lambda>k. cache_map c k \<noteq> None) (E_string key # es), c')"
    using f(1) r(1) by (simp del: fun_upd_apply)
  moreover have "only_deleted c (\<lambda>k. k \<in> set (elem_keys (E_string key # es))) c'"
    by (rule only_deleted_trans [OF f(2) r(2)]) simp
  ultimately show ?case by blast
next
  case (3 z es)
  then show ?case by fastforce
qed

subsection \<open>Counting\<close>

lemma int64_of_add [simp]: "int64_of (int64_of a + b) = int64_of (a + b)" "int64_of (a + int64_of b) = int64_of (a + b)"
  by (simp_all add: int64_of_def mod_simps ac_simps)

text \<open>A live integer under the key, and nothing that could stop the next call.\<close>

definition counting :: "string \<Rightarrow> int \<Rightarrow> int \<Rightarrow> ('v, 'x) cstate \<Rightarrow> bool" where
  "counting key t v c \<longleftrightarrow> quiet c \<and> cache_exists c \<and> fst (apc_time c) = t \<and>
     (\<exists>en. lookup c key t = Some en \<and> e_val en = IS_LONG v)"

lemma inc_by_ok:
  assumes "counting key t v c"
  shows "\<exists>c'. inc_by s img key ttl c = Some ((R_long (int64_of (v + s)), True), c') \<and> counting key t (int64_of (v + s)) c' \<and>
    same_env c c' \<and> (\<forall>k. k \<noteq> key \<longrightarrow> cache_map c' k = cache_map c k)"
proof -
  let ?c = "snd (apc_time c)" and ?a = "\<lparr>inc_step = s, inc_rval = 0\<rparr>"
  have q: "quiet c" "cache_exists c" "fst (apc_time c) = t" using assms by (simp_all add: counting_def)
  obtain en where en: "lookup c key t = Some en" "e_val en = IS_LONG v" using assms by (auto simp: counting_def)
  have "quiet ?c" "cache_exists ?c" using q by simp_all
  then have d: "cache_inv ?c (cache_lists ?c)" "lockable ?c" "lock_gets ?c" "cache_lock_results ?c = []"
    using quietD by blast+
  have u: "php_inc_updater ?a (z_lval (e_val en)) = (True, int64_of (v + s), ?a\<lparr>inc_rval := int64_of (v + s)\<rparr>)"
    by (simp add: php_inc_updater_def ATOMIC_ADD_def en(2) Let_def)
  have z: "z_is_long (e_val en)" by (simp add: en(2))
  obtain c' where c': "atomic_update_once php_inc_updater ?a key t ?c = Some ((Some True, ?a\<lparr>inc_rval := int64_of (v + s)\<rparr>), c')"
    "cache_inv c' (cache_lists ?c)" "same_env ?c c'" "request_time c' = request_time ?c"
    "cache_map c' = (cache_map c)(key \<mapsto> set_long (int64_of (v + s)) t en)" "cache_lock_results c' = []"
    using atomic_update_once_ok [OF d(1,2), of php_inc_updater ?a key t] d(3,4) en(1) z u
    by (auto simp: updated_data_def)
  have e: "same_env c c'" using same_env_trans [OF same_config_env [OF apc_time_inv(2)] c'(3)] .
  have "quiet c'" by (rule quietI [OF c'(2) _ c'(6)]) (use same_env_fun(7) [OF c'(3)] d(2) in simp)
  moreover have "cache_exists c'" using same_env_sel(1) [OF e] q(2) by simp
  moreover have "fst (apc_time c') = t" using apc_time_again [OF c'(4) e] q(3) by simp
  moreover have "lookup c' key t = Some (set_long (int64_of (v + s)) t en)"
    using en(1) by (auto simp: lookup_def c'(5) set_long_def apc_cache_entry_hard_expired_def split: option.splits if_splits)
  ultimately have "counting key t (int64_of (v + s)) c'" by (simp add: counting_def set_long_def)
  moreover have "inc_by s img key ttl c = Some ((R_long (int64_of (v + s)), True), c')"
    using c'(1) q(2,3) by (simp add: inc_by_def php_apc_update_def apc_cache_atomic_update_long_def Let_def)
  ultimately show ?thesis using c'(5) e by auto
qed

text \<open>A script that only counts, and the values that it gets.\<close>

datatype count_call = Inc int | Dec int

fun amount :: "count_call \<Rightarrow> int" where
  "amount (Inc s) = s"
| "amount (Dec s) = - s"

fun count_all :: "(string \<Rightarrow> zval \<Rightarrow> (nat \<times> zval \<times> 'v) option) \<Rightarrow> string \<Rightarrow> int \<Rightarrow> count_call list \<Rightarrow> ('v, 'x) cstate \<Rightarrow>
    (('a php_return \<times> bool) list \<times> ('v, 'x) cstate) option" where
  "count_all img key ttl [] c = Some ([], c)"
| "count_all img key ttl (call # calls) c = do {
     r \<leftarrow> (case call of Inc s \<Rightarrow> apcu_inc img key s ttl c | Dec s \<Rightarrow> apcu_dec img key s ttl c);
     rest \<leftarrow> count_all img key ttl calls (snd r);
     Some (fst r # fst rest, snd rest)
   }"

fun partial_sums :: "int \<Rightarrow> int list \<Rightarrow> int list" where
  "partial_sums v [] = []"
| "partial_sums v (x # xs) = (v + x) # partial_sums (v + x) xs"

lemma partial_sums_wrap: "map int64_of (partial_sums (int64_of v) xs) = map int64_of (partial_sums v xs)"
proof (induction xs arbitrary: v)
  case (Cons x xs)
  have "map int64_of (partial_sums (int64_of v + x) xs) = map int64_of (partial_sums (int64_of (int64_of v + x)) xs)"
    using Cons.IH [of "int64_of v + x"] by simp
  also have "\<dots> = map int64_of (partial_sums (v + x) xs)" using Cons.IH [of "v + x"] by simp
  finally show ?case by simp
qed simp

lemma count_call_ok:
  assumes "counting key t v c"
  shows "\<exists>c'. (case call of Inc s \<Rightarrow> apcu_inc img key s ttl c | Dec s \<Rightarrow> apcu_dec img key s ttl c) =
      Some ((R_long (int64_of (v + amount call)), True), c') \<and> counting key t (int64_of (v + amount call)) c' \<and>
    same_env c c' \<and> (\<forall>k. k \<noteq> key \<longrightarrow> cache_map c' k = cache_map c k)"
proof (cases call)
  case (Inc s)
  then show ?thesis using inc_by_ok [OF assms, of s img ttl] by (simp add: apcu_inc_def)
next
  case (Dec s)
  then show ?thesis using inc_by_ok [OF assms, of "int64_of (- s)" img ttl] by (simp add: apcu_dec_def)
qed

lemma count_all_ok:
  assumes "counting key t v c" "int64_of v = v"
  shows "\<exists>c'. count_all img key ttl calls c =
      Some (map (\<lambda>v. (R_long (int64_of v) :: 'a php_return, True)) (partial_sums v (map amount calls)), c') \<and>
    counting key t (int64_of (v + sum_list (map amount calls))) c' \<and> same_env c c' \<and>
    (\<forall>k. k \<noteq> key \<longrightarrow> cache_map c' k = cache_map c k)"
  using assms
proof (induction calls arbitrary: v c)
  case Nil
  then show ?case by simp
next
  case (Cons call calls)
  let ?w = "int64_of (v + amount call)"
  obtain c1 where f: "(case call of Inc s \<Rightarrow> apcu_inc img key s ttl c | Dec s \<Rightarrow> apcu_dec img key s ttl c) = Some ((R_long ?w :: 'a php_return, True), c1)"
    "counting key t ?w c1" "same_env c c1" "\<forall>k. k \<noteq> key \<longrightarrow> cache_map c1 k = cache_map c k"
    using count_call_ok [OF Cons.prems(1), where call = call and img = img and ttl = ttl] by blast
  have ww: "int64_of ?w = ?w" using int64_of_add(1) [of "v + amount call" 0] by simp
  obtain c' where r: "count_all img key ttl calls c1 =
      Some (map (\<lambda>v. (R_long (int64_of v) :: 'a php_return, True)) (partial_sums ?w (map amount calls)), c')"
    "counting key t (int64_of (?w + sum_list (map amount calls))) c'" "same_env c1 c'"
    "\<forall>k. k \<noteq> key \<longrightarrow> cache_map c' k = cache_map c1 k"
    using Cons.IH [OF f(2) ww] by (elim exE conjE) (rule that)
  have w: "map (\<lambda>v. (R_long (int64_of v) :: 'a php_return, True)) (partial_sums ?w (map amount calls)) =
      map (\<lambda>v. (R_long (int64_of v) :: 'a php_return, True)) (partial_sums (v + amount call) (map amount calls))"
    using arg_cong [OF partial_sums_wrap [of "v + amount call" "map amount calls"], of "map (\<lambda>v. (R_long v :: 'a php_return, True))"] by (simp add: comp_def)
  have "count_all img key ttl (call # calls) c =
      Some (map (\<lambda>v. (R_long (int64_of v) :: 'a php_return, True)) (partial_sums v (map amount (call # calls))), c')"
    using f(1) r(1) w by simp
  moreover have "counting key t (int64_of (v + sum_list (map amount (call # calls)))) c'" using r(2) by (simp add: add.assoc)
  ultimately show ?case using f(4) r(4) same_env_trans [OF f(3) r(3)] by auto
qed

subsection \<open>Storing many keys\<close>

text \<open>What a key may hold after an array has been stored: its old entry, nothing, or one of the new values.\<close>

definition stored_from ::
  "(int \<Rightarrow> string) \<Rightarrow> (string \<Rightarrow> 'a \<Rightarrow> (nat \<times> zval \<times> 'v) option) \<Rightarrow> int \<Rightarrow> ((string + int) \<times> 'a) list \<Rightarrow>
   ('v, 'x) cstate \<Rightarrow> string \<Rightarrow> 'v entry option \<Rightarrow> bool" where
  "stored_from lts img ttl kvs c k r \<longleftrightarrow> r = None \<or> r = cache_map c k \<or>
     (\<exists>kv\<in>set kvs. \<exists>sz zv data t. hash_key lts (fst kv) = k \<and> img k (snd kv) = Some (sz, zv, data) \<and>
        r = Some (fresh_entry c k (int32_of ttl) t sz zv data))"

lemma stored_from_Cons:
  assumes "stored_from lts img ttl kvs c1 k r" "stored_from lts img ttl [kv] c k (cache_map c1 k)" "same_env c c1"
  shows "stored_from lts img ttl (kv # kvs) c k r"
proof -
  have f: "fresh_entry c1 = fresh_entry c" using same_env_sel(12) [OF assms(3)] by (simp add: fresh_entry_def fun_eq_iff)
  show ?thesis using assms(1,2) unfolding stored_from_def f by auto
qed

lemma store_pairs_ok:
  assumes "cache_inv c L" "lockable c" "cache_exists c" 
      "\<forall>kv\<in>set kvs. \<forall>sz zv data. img (hash_key lts (fst kv)) (snd kv) = Some (sz, zv, data) \<longrightarrow> 0 < sz"
  shows "\<exists>failed c' L'. store_pairs lts img exclusive ttl kvs c = Some (failed, c') \<and> cache_inv c' L' \<and> same_env c c' \<and>
    subseq failed (map (hash_key lts \<circ> fst) kvs) \<and> (\<forall>k. stored_from lts img ttl kvs c k (cache_map c' k))"
  using assms
proof (induction kvs arbitrary: c L)
  case Nil
  have "same_env c c" by (rule same_config_env [OF same_config_refl])
  then show ?case using Nil.prems(1) by (auto simp: stored_from_def)
next
  case (Cons kv kvs)
  let ?k = "hash_key lts (fst kv)"
  have p: "0 < sz" if "img ?k (snd kv) = Some (sz, zv, data)" for sz zv data using Cons.prems(4) that by simp
  obtain b c1 L1 where s: "apc_cache_store img ?k (snd kv) (int32_of (uint32_of ttl)) exclusive c = Some (b, c1)" "cache_inv c1 L1"
    "same_env c c1" "others_kept c ?k c1"
    "if b then \<exists>sz zv data. img ?k (snd kv) = Some (sz, zv, data) \<and>
       cache_map c1 ?k = Some (fresh_entry c ?k (int32_of (uint32_of ttl)) (fst (apc_time c)) sz zv data)
     else cache_map c1 ?k = cache_map c ?k \<or> cache_map c1 ?k = None"
    using store_ok [OF Cons.prems(1-3), where img = img and key = ?k and val = "snd kv" and exclusive = exclusive
        and ttl = "int32_of (uint32_of ttl)"] p by blast
  have one: "stored_from lts img ttl [kv] c k (cache_map c1 k)" for k
    using s(4,5) by (cases "k = ?k") (auto simp: stored_from_def others_kept_def int32_of_uint32_of split: if_splits)
  have e1: "lockable c1" "cache_exists c1" using same_env_fun(7) [OF s(3)] same_env_sel(1) [OF s(3)] Cons.prems(2,3) by simp_all
  have p1: "\<forall>kv\<in>set kvs. \<forall>sz zv data. img (hash_key lts (fst kv)) (snd kv) = Some (sz, zv, data) \<longrightarrow> 0 < sz"
    using Cons.prems(4) by simp
  obtain failed c' L' where r: "store_pairs lts img exclusive ttl kvs c1 = Some (failed, c')" "cache_inv c' L'" "same_env c1 c'"
    "subseq failed (map (hash_key lts \<circ> fst) kvs)" "\<forall>k. stored_from lts img ttl kvs c1 k (cache_map c' k)"
    using Cons.IH [OF s(2) e1 p1] by (elim exE conjE) (rule that)
  have "\<forall>k. stored_from lts img ttl (kv # kvs) c k (cache_map c' k)"
    using stored_from_Cons [OF _ one s(3)] r(5) by blast
  moreover have "store_pairs lts img exclusive ttl (kv # kvs) c = Some (if b then failed else ?k # failed, c')"
    using s(1) r(1) by simp
  moreover have "subseq (if b then failed else ?k # failed) (map (hash_key lts \<circ> fst) (kv # kvs))" using r(4) by (simp add: list_emb_Cons)
  ultimately show ?case using r(2) same_env_trans [OF s(3) r(3)] by blast
qed

text \<open>The same cache when no later attempt to lock fails.\<close>

lemma quiet_later: "cache_inv c L \<Longrightarrow> lockable c \<Longrightarrow> quiet (c\<lparr>cache_lock_results := []\<rparr>)"
  by (rule quietI [where L = L]) (simp_all add: lockable_def)

lemma cache_map_later [simp]: "cache_map (c\<lparr>cache_lock_results := rs\<rparr>) = cache_map c"
proof -
  have "slot_of (c\<lparr>cache_lock_results := rs\<rparr>) = slot_of c" "cache_lists (c\<lparr>cache_lock_results := rs\<rparr>) = cache_lists c"
    "slot_at (c\<lparr>cache_lock_results := rs\<rparr>) = slot_at c"
    by (simp_all add: slot_of_def cache_lists_def sma_blocks_def fun_eq_iff slot_at_def)
  then show ?thesis by (simp add: cache_map_def bucket_def fun_eq_iff)
qed

text \<open>What \<open>apcu_store\<close> leaves behind, and what \<open>apcu_fetch\<close> makes of it later.\<close>

lemma apcu_store_entry:
  assumes "cache_inv c L" "lockable c" "cache_exists c" "\<forall>sz zv data. img key val = Some (sz, zv, data) \<longrightarrow> 0 < sz"
    "apcu_store lts img (S_string key (Some val)) ttl c = Some (R_bool True, c')"
  shows "\<exists>sz zv data L'. img key val = Some (sz, zv, data) \<and> cache_inv c' L' \<and> same_env c c' \<and>
    cache_map c' key = Some (fresh_entry c key (int32_of ttl) (fst (apc_time c)) sz zv data)"
proof -
  have img: "0 < sz" if "img key val = Some (sz, zv, data)" for sz zv data using assms(4) that by blast
  have "apc_cache_store img key val (int32_of ttl) False c = Some (True, c')"
    using assms(5) by (auto simp: apcu_store_def apc_store_helper_def int32_of_uint32_of bind_Some_conv)
  moreover obtain b c1 L' where s: "apc_cache_store img key val (int32_of ttl) False c = Some (b, c1)" "cache_inv c1 L'" "same_env c c1"
    "if b then \<exists>sz zv data. img key val = Some (sz, zv, data) \<and>
       cache_map c1 key = Some (fresh_entry c key (int32_of ttl) (fst (apc_time c)) sz zv data)
     else cache_map c1 key = cache_map c key \<or> cache_map c1 key = None"
    using store_ok [OF assms(1-3), where img = img and key = key and val = val and ttl = "int32_of ttl" and exclusive = False] img
    by blast
  ultimately have "b" "c1 = c'" by simp_all
  then show ?thesis using s(2-4) by auto
qed

lemma store_then_fetch_later:
  assumes "cache_ok c" "lockable c" "cache_exists c" "\<forall>sz zv data. img key val = Some (sz, zv, data) \<longrightarrow> 0 < sz"
    "apcu_store lts img (S_string key (Some val)) ttl c = Some (R_bool True, c')"
    "quiet c2" "cache_exists c2" "cache_map c2 key = cache_map c' key"
  shows "\<exists>sz zv data c3. img key val = Some (sz, zv, data) \<and> quiet c3 \<and>
    apcu_fetch unp (K_string key) c2 = Some (
      (if int32_of ttl = 0 \<or> fst (apc_time c2) \<le> int64_of (fst (apc_time c) + int32_of ttl)
       then (case unp zv data of Some v \<Rightarrow> (R_value v, True) | None \<Rightarrow> (R_bool False, False))
       else (R_bool False, False)), c3)"
proof -
  obtain sz zv data where s: "img key val = Some (sz, zv, data)"
    "cache_map c' key = Some (fresh_entry c key (int32_of ttl) (fst (apc_time c)) sz zv data)"
    using apcu_store_entry [OF cache_okI [OF assms(1)] assms(2-5)] by blast
  have l: "lookup c2 key (fst (apc_time c2)) =
      (if int32_of ttl = 0 \<or> fst (apc_time c2) \<le> int64_of (fst (apc_time c) + int32_of ttl)
       then Some (fresh_entry c key (int32_of ttl) (fst (apc_time c)) sz zv data) else None)"
    by (auto simp: lookup_def assms(8) s(2) apc_cache_entry_hard_expired_def fresh_entry_def)
  have "quiet (snd (apc_time c2))" "cache_exists (snd (apc_time c2))" using assms(6,7) by simp_all
  then obtain c3 where f: "apc_cache_fetch unp key (fst (apc_time c2)) (snd (apc_time c2)) =
      Some (fetch_value unp c2 key (fst (apc_time c2)), c3)" "only_read (snd (apc_time c2)) c3"
    using quiet_fetch [of "snd (apc_time c2)" unp key "fst (apc_time c2)"] by auto
  have "quiet c3" using f(2) by (simp add: only_read_def)
  then show ?thesis using f(1) s(1) l
    by (auto simp: apcu_fetch_def Let_def fetch_value_def fresh_entry_def split: option.splits)
qed

end
