(* ===== verification/Php_Properties.thy ===== *)
theory Php_Properties imports Php_Correct Iterator_Properties begin

text \<open>
  The properties of the functions for PHP scripts.
\<close>

lemma ex1_lookup: "lookup ex1 k t = (if k = ''a'' then Some (ex_entry ''a'' 0) else None)"
  by (simp add: lookup_def ex1_map apc_cache_entry_hard_expired_def) (simp add: ex_data_def)

subsection \<open>Storing and lifetimes\<close>



text \<open>
  C9: the lifetime of what \<open>apcu_store\<close> has stored under a key, as long as no one changes the entry:
  \<open>apcu_fetch\<close> finds it exactly while the time has not passed the time of the store plus the ttl, where the ttl is
  the argument cut to 32 bits and read as signed; a ttl of 0 after the cut never ends. So a ttl of 3000000000 seconds
  has ended before it began.
\<close>

theorem apcu_store_lifetime:
  assumes "cache_ok c" "lockable c" "cache_exists c" "\<forall>sz zv data. img key val = Some (sz, zv, data) \<longrightarrow> 0 < sz"
    "apcu_store lts img (S_string key (Some val)) ttl c = Some (R_bool True, c')"
    "quiet c2" "cache_exists c2" "cache_map c2 key = cache_map c' key"
  shows "\<exists>sz zv data c3. img key val = Some (sz, zv, data) \<and> quiet c3 \<and>
    apcu_fetch unp (K_string key) c2 = Some (
      (if int32_of ttl = 0 \<or> fst (apc_time c2) \<le> int64_of (fst (apc_time c) + int32_of ttl)
       then (case unp zv data of Some v \<Rightarrow> (R_value v, True) | None \<Rightarrow> (R_bool False, False))
       else (R_bool False, False)), c3)"
  by (rule store_then_fetch_later [OF assms])

theorem apcu_store_lifetime_witness:
  "\<exists>c' c3. apcu_store (\<lambda>_. []) (\<lambda>key v. Some (90, IS_LONG v, 3)) (S_string ''ab'' (Some 4)) 3000000000 ex1 = Some (R_bool True, c') \<and>
    apcu_fetch (\<lambda>zv _. Some (z_lval zv)) (K_string ''ab'') (c'\<lparr>cache_lock_results := []\<rparr>) = Some ((R_bool False, False), c3)"
proof -
  let ?img = "\<lambda>key v. Some (90, IS_LONG v, 3)"
  have t: "int32_of 3000000000 = - 1294967296" "uint32_of 3000000000 = 3000000000" by (simp_all add: int32_of_def uint32_of_def)
  obtain c' L' where c': "apc_cache_store ?img ''ab'' 4 (- 1294967296) False ex1 = Some (True, c')" "cache_inv c' L'" "same_env ex1 c'"
    using store_succeeds [OF ex1_inv ex1_fields(14,12,13) ex1_defense, of ?img "''ab''" 4 90 "IS_LONG 4" 3 False "- 1294967296"]
    by (auto simp: ex1_fields ex1_fits)
  let ?c2 = "c'\<lparr>cache_lock_results := []\<rparr>"
  have st: "apcu_store (\<lambda>_. []) ?img (S_string ''ab'' (Some 4)) 3000000000 ex1 = Some (R_bool True, c')"
    using c'(1) by (simp add: apcu_store_def apc_store_helper_def t)
  have q: "quiet ?c2" "cache_exists ?c2"
    using quiet_later [OF c'(2)] same_env_fun(7) [OF c'(3)] same_env_sel(1) [OF c'(3)] ex1_fields(12,14) by simp_all
  have now: "fst (apc_time ?c2) = 20"
    using same_env_sel(13,14) [OF c'(3)] ex1_fields(16,18) by (simp add: apc_time_def)
  obtain c3 where "apcu_fetch (\<lambda>zv _. Some (z_lval zv)) (K_string ''ab'') ?c2 = Some ((R_bool False, False), c3)"
    using apcu_store_lifetime [OF ex1_ok ex1_fields(14,12) _ st q, of "\<lambda>zv _. Some (z_lval zv)"] t(1) now
    by (auto simp: ex1_fields int64_of_def)
  with st show ?thesis by blast
qed

subsection \<open>Arrays of keys\<close>

text \<open>
  C30: \<open>apcu_fetch\<close> with an array of keys returns each key that can be read at that time exactly once, with its
  value; elements that are not strings, missing and expired keys are left out. Only counters of the entries change.
\<close>

theorem apcu_fetch_array:
  assumes "quiet c" "cache_exists c"
  shows "\<exists>found c'. apcu_fetch unp (K_array es) c = Some ((R_found found, True), c') \<and> only_read c c' \<and> distinct (map fst found) \<and>
    map_of found = (\<lambda>k. if E_string k \<in> set es then fetch_value unp c k (fst (apc_time c)) else None)"
proof -
  let ?c = "snd (apc_time c)" and ?t = "fst (apc_time c)"
  have "quiet ?c" "cache_exists ?c" using assms by simp_all
  then obtain found c' where r: "fetch_keys unp ?t es [] ?c = Some (found, c')" "only_read ?c c'" "distinct (map fst found)"
    "\<forall>k. map_of found k = (if E_string k \<in> set es \<and> fetch_value unp ?c k ?t \<noteq> None then fetch_value unp ?c k ?t else map_of [] k)"
    using fetch_keys_ok [of ?c "[]" unp ?t es] by auto
  have "map_of found = (\<lambda>k. if E_string k \<in> set es then fetch_value unp c k ?t else None)"
    using r(4) by (auto simp: fun_eq_iff)
  then show ?thesis using r(1,3) only_read_time [OF r(2)] by (simp add: apcu_fetch_def Let_def)
qed

theorem apcu_fetch_array_witness:
  "\<exists>found c'. apcu_fetch (\<lambda>zv _. Some (z_lval zv)) (K_array [E_string ''a'', E_other IS_NULL, E_string ''q'', E_string ''a'']) ex1 =
    Some ((R_found found, True), c') \<and> map_of found = [''a'' \<mapsto> 5] \<and> distinct (map fst found)"
proof -
  have "fetch_value (\<lambda>zv _. Some (z_lval zv)) ex1 k 20 = (if k = ''a'' then Some 5 else None)" for k
    by (simp add: fetch_value_def ex1_lookup) (simp add: ex_data_def)
  then show ?thesis
    using apcu_fetch_array [OF quiet_ex1(1) ex1_fields(12), of "\<lambda>zv _. Some (z_lval zv)" "[E_string ''a'', E_other IS_NULL, E_string ''q'', E_string ''a'']"]
    by (auto simp: ex1_fields fun_eq_iff)
qed

text \<open>
  C32: \<open>apcu_exists\<close> with an array of keys returns the keys that are present at that time in the order of the
  array and as often as the array has them, because it adds each one without looking for it.
\<close>

theorem apcu_exists_array:
  assumes "quiet c" "cache_exists c"
  shows "\<exists>c'. apcu_exists (K_array es) c = Some (R_exists (filter (\<lambda>k. lookup c k (fst (apc_time c)) \<noteq> None) (elem_keys es)), c') \<and>
    only_read c c'"
proof -
  let ?c = "snd (apc_time c)" and ?t = "fst (apc_time c)"
  have "quiet ?c" "cache_exists ?c" using assms by simp_all
  then obtain c' where r: "exists_keys ?t es ?c = Some (filter (\<lambda>k. lookup ?c k ?t \<noteq> None) (elem_keys es), c')" "only_read ?c c'"
    using exists_keys_ok [of ?c ?t es] by auto
  then show ?thesis using only_read_time [OF r(2)] by (simp add: apcu_exists_def Let_def)
qed

theorem apcu_exists_array_witness:
  "\<exists>c'. apcu_exists (K_array [E_string ''a'', E_string ''q'', E_string ''a'']) ex1 = Some (R_exists [''a'', ''a''], c')"
  using apcu_exists_array [OF quiet_ex1(1) ex1_fields(12), of "[E_string ''a'', E_string ''q'', E_string ''a'']"]
  by (auto simp: ex1_fields(17) ex1_lookup)

text \<open>
  C31: \<open>apcu_delete\<close> with an array removes exactly the keys of the array. It returns the elements that are not
  strings and the keys that were absent when their turn came; so the second occurrence of a key counts as a failure.
\<close>

theorem apcu_delete_array:
  assumes "quiet c" "cache_exists c"
  shows "\<exists>c'. apcu_delete rx unp (D_array es) c = Some (R_left (left_over (\<lambda>k. cache_map c k \<noteq> None) es), c') \<and> quiet c' \<and>
    cache_map c' = (\<lambda>k. if E_string k \<in> set es then None else cache_map c k)"
proof -
  obtain c' where r: "delete_keys es c = Some (left_over (\<lambda>k. cache_map c k \<noteq> None) es, c')"
    "only_deleted c (\<lambda>k. k \<in> set (elem_keys es)) c'"
    using delete_keys_ok [OF assms, of es] by blast
  have "k \<in> set (elem_keys es) \<longleftrightarrow> E_string k \<in> set es" for k by (induction es rule: elem_keys.induct) auto
  then have "cache_map c' = (\<lambda>k. if E_string k \<in> set es then None else cache_map c k)"
    using r(2) by (simp add: only_deleted_def fun_eq_iff)
  then show ?thesis using r by (simp add: apcu_delete_def only_deleted_def)
qed

theorem apcu_delete_array_witness:
  "\<exists>c'. apcu_delete (\<lambda>_ _. True) (\<lambda>zv _. Some zv) (D_array [E_string ''a'', E_other IS_NULL, E_string ''a'']) ex1 =
    Some (R_left [E_other IS_NULL, E_string ''a''], c') \<and> cache_map c' = Map.empty"
  using apcu_delete_array [OF quiet_ex1(1) ex1_fields(12), of "\<lambda>_ _. True" "\<lambda>zv _. Some zv" "[E_string ''a'', E_other IS_NULL, E_string ''a'']"]
  by (auto simp: ex1_map fun_eq_iff)

subsection \<open>Counters\<close>

text \<open>
  C10: a script that only counts on a live integer, with any mix of \<open>apcu_inc\<close> and \<open>apcu_dec\<close> and any
  steps, gets from each call the exact running total, wrapped to 64 bits; the key ends with the last total and no
  other key is touched.
\<close>

theorem counter_running_totals:
  assumes "quiet c" "cache_exists c" "lookup c key (fst (apc_time c)) = Some en" "e_val en = IS_LONG v" "int64_of v = v"
  shows "\<exists>c' en'. count_all img key ttl calls c =
      Some (map (\<lambda>v. (R_long (int64_of v) :: 'a php_return, True)) (partial_sums v (map amount calls)), c') \<and> quiet c' \<and>
    cache_map c' key = Some en' \<and> e_val en' = IS_LONG (int64_of (v + sum_list (map amount calls))) \<and>
    (\<forall>k. k \<noteq> key \<longrightarrow> cache_map c' k = cache_map c k)"
proof -
  have k: "counting key (fst (apc_time c)) v c" using assms(1-4) by (simp add: counting_def)
  obtain c' where r: "count_all img key ttl calls c =
      Some (map (\<lambda>v. (R_long (int64_of v) :: 'a php_return, True)) (partial_sums v (map amount calls)), c')"
    "counting key (fst (apc_time c)) (int64_of (v + sum_list (map amount calls))) c'"
    "\<forall>k. k \<noteq> key \<longrightarrow> cache_map c' k = cache_map c k"
    using count_all_ok [OF k assms(5)] by blast
  obtain en' where "lookup c' key (fst (apc_time c)) = Some en'" "e_val en' = IS_LONG (int64_of (v + sum_list (map amount calls)))" "quiet c'"
    using r(2) by (auto simp: counting_def)
  then show ?thesis using r(1,3) by (auto simp: lookup_def split: option.splits if_splits)
qed

theorem counter_running_totals_witness:
  "\<exists>c'. count_all (\<lambda>_ _. None) ''a'' 0 [Inc 3, Dec 10, Inc 9223372036854775807] ex1 =
    Some ([(R_long 8, True), (R_long (- 2), True), (R_long 9223372036854775805, True)], c') \<and> quiet c'"
proof -
  have l: "lookup ex1 ''a'' (fst (apc_time ex1)) = Some (ex_entry ''a'' 0)"
    by (simp add: ex1_lookup)
  have v: "e_val (ex_entry ''a'' 0) = IS_LONG 5" by (simp add: ex_data_def)
  show ?thesis
    using counter_running_totals [OF quiet_ex1(1) ex1_fields(12) l v, of "\<lambda>_ _. None" 0 "[Inc 3, Dec 10, Inc 9223372036854775807]"]
    by (auto simp: int64_of_def)
qed




end
