(* ===== verification/Windows_Shm.thy ===== *)
theory Windows_Shm imports Cache_Api "HOL-Library.Char_ord" begin

text \<open>
  Start-up on Windows, where the processes of an application pool share one named segment: the names of the
  kernel objects and the mapping (\<open>apc_windows_shm.c\<close>), initialising or attaching the allocator (the Windows
  part of \<open>apc_sma.c\<close>), the table of serializers (\<open>apc.c\<close>), and the start of the module
  (\<open>PHP_MINIT_FUNCTION(apcu)\<close> of \<open>php_apc.c\<close>). What the operating system answers is the argument \<open>os\<close>; pointers
  into the segment are offsets from the address at which it is mapped.
\<close>

subsection \<open>Serializers\<close>

text \<open>The table has \<open>APC_MAX_SERIALIZERS\<close> places; a place whose name is \<open>None\<close> is empty.\<close>

record 'f serializer =
  ser_name :: "string option"
  ser_fns :: 'f

definition APC_MAX_SERIALIZERS :: nat where
  "APC_MAX_SERIALIZERS = 16"

fun register_at :: "nat \<Rightarrow> string option \<Rightarrow> 'f \<Rightarrow> 'f serializer list \<Rightarrow> bool \<times> 'f serializer list" where
  "register_at 0 name fns tab = (False, tab)"
| "register_at (Suc left) name fns tab =
     (let i = APC_MAX_SERIALIZERS - Suc left
      in if ser_name (tab ! i) = None
         then (let tab = tab[i := \<lparr>ser_name = name, ser_fns = fns\<rparr>]
               in (True, if i < APC_MAX_SERIALIZERS - 1 then tab[i + 1 := (tab ! (i + 1))\<lparr>ser_name := None\<rparr>] else tab))
         else register_at left name fns tab)"

definition apc_register_serializer :: "string option \<Rightarrow> 'f \<Rightarrow> 'f serializer list \<Rightarrow> bool \<times> 'f serializer list" where
  "apc_register_serializer = register_at APC_MAX_SERIALIZERS"

fun find_at :: "nat \<Rightarrow> string \<Rightarrow> 'f serializer list \<Rightarrow> 'f serializer option" where
  "find_at 0 name tab = None"
| "find_at (Suc left) name tab =
     (let s = tab ! (APC_MAX_SERIALIZERS - Suc left)
      in if ser_name s = Some name then Some s else find_at left name tab)"

definition apc_find_serializer :: "string \<Rightarrow> 'f serializer list \<Rightarrow> 'f serializer option" where
  "apc_find_serializer = find_at APC_MAX_SERIALIZERS"

text \<open>\<open>apc_cache_serializer\<close>: a cache that has no serializer yet takes the one of that name.\<close>

definition apc_cache_serializer ::
  "string \<Rightarrow> 'f serializer list \<Rightarrow> 'f serializer option option \<Rightarrow> 'f serializer option option" where
  "apc_cache_serializer name tab cache = (case cache of Some None \<Rightarrow> Some (apc_find_serializer name tab) | _ \<Rightarrow> cache)"

subsection \<open>Names of kernel objects\<close>

definition APC_SHM_NAME_MAX :: nat where
  "APC_SHM_NAME_MAX = 200"

definition name_char_ok :: "char \<Rightarrow> bool" where
  "name_char_ok p \<longleftrightarrow> CHR ''A'' \<le> p \<and> p \<le> CHR ''Z'' \<or> CHR ''a'' \<le> p \<and> p \<le> CHR ''z'' \<or>
     CHR ''0'' \<le> p \<and> p \<le> CHR ''9'' \<or> p = CHR ''_'' \<or> p = CHR ''-'' \<or> p = CHR ''.''"

definition apc_windows_shm_validate_name :: "string option \<Rightarrow> bool" where
  "apc_windows_shm_validate_name name =
     (case name of
        None \<Rightarrow> False
      | Some s \<Rightarrow> if s = [] then False else if APC_SHM_NAME_MAX < length s then False else list_all name_char_ok s)"

text \<open>\<open>snprintf\<close> into a buffer of \<open>n\<close> bytes keeps the first \<open>n - 1\<close> characters. Character 92 is the backslash.\<close>

definition snprintf :: "nat \<Rightarrow> string \<Rightarrow> string" where
  "snprintf n s = take (n - 1) s"

definition init_mutex_name :: "string \<Rightarrow> string" where
  "init_mutex_name s = snprintf 256 (''Local'' @ [CHR 0x5C] @ ''APCu_'' @ s @ ''_init'')"

definition file_mapping_name :: "string \<Rightarrow> string" where
  "file_mapping_name s = snprintf 256 (''Local'' @ [CHR 0x5C] @ ''APCu_'' @ s @ ''_0'')"

subsection \<open>Answers of the operating system\<close>

datatype wait_result = WAIT_OBJECT_0 | WAIT_ABANDONED | WAIT_TIMEOUT | WAIT_FAILED

text \<open>
  Whether the DACL could be built (for the mutex and for the mapping), whether \<open>CreateMutexA\<close> and
  \<open>MapViewOfFile\<close> succeed, what the wait returns, whether \<open>CreateFileMappingA\<close> of a name and a size in two halves
  succeeds with a new object, and the size of the region that \<open>VirtualQuery\<close> reports.
\<close>

record win_os =
  os_mutex_dacl :: bool
  os_mutex :: "string \<Rightarrow> bool"
  os_wait :: "string \<Rightarrow> wait_result"
  os_mapping_dacl :: bool
  os_mapping :: "string \<Rightarrow> nat \<Rightarrow> nat \<Rightarrow> bool option"
  os_view :: bool
  os_region :: "nat option"

datatype win_error =
    Invalid_name
  | No_dacl
  | No_mutex
  | Wait_failed
  | Wait_timeout
  | No_segment
  | No_cache
  | Abi_mismatch nat
  | Init_never_completed
  | Serializer_mismatch string string
  | Attach_failed

text \<open>The handle of the mutex is its name.\<close>

definition apc_windows_shm_init_lock :: "win_os \<Rightarrow> string option \<Rightarrow> win_error + string" where
  "apc_windows_shm_init_lock os shm_name =
     (if \<not> apc_windows_shm_validate_name shm_name then Inl Invalid_name
      else let mutex_name = init_mutex_name (the shm_name)
           in if \<not> os_mutex_dacl os then Inl No_dacl
              else if \<not> os_mutex os mutex_name then Inl No_mutex
              else case os_wait os mutex_name of
                     WAIT_FAILED \<Rightarrow> Inl Wait_failed
                   | WAIT_TIMEOUT \<Rightarrow> Inl Wait_timeout
                   | _ \<Rightarrow> Inr mutex_name)"

record apc_windows_shm_t =
  mapping_handle :: string
  map_size :: nat
  is_new :: bool

definition apc_windows_shm_create :: "win_os \<Rightarrow> string option \<Rightarrow> nat \<Rightarrow> apc_windows_shm_t option" where
  "apc_windows_shm_create os shm_name sz =
     (if \<not> apc_windows_shm_validate_name shm_name then None
      else let mapping_name = file_mapping_name (the shm_name)
           in if \<not> os_mapping_dacl os then None
              else let size_high = sz div 2 ^ 32 mod 2 ^ 32; size_low = sz mod 2 ^ 32
                   in case os_mapping os mapping_name size_high size_low of
                        None \<Rightarrow> None
                      | Some new \<Rightarrow>
                          if \<not> os_view os then None
                          else case os_region os of
                                 None \<Rightarrow> None
                               | Some actual_size \<Rightarrow>
                                   Some \<lparr>mapping_handle = mapping_name,
                                     map_size = (if \<not> new \<and> actual_size \<noteq> sz then actual_size else sz), is_new = new\<rparr>)"

subsection \<open>The allocator in a named segment\<close>

definition APC_SHM_ABI_VERSION :: nat where
  "APC_SHM_ABI_VERSION = 2"

definition apc_sma_init_from_addr :: "nat \<Rightarrow> nat \<Rightarrow> ('p, 'z) sma_scheme \<Rightarrow> ('p, 'z) sma_scheme" where
  "apc_sma_init_from_addr sz0 min_alloc_size s =
     (if sma_initialized s then s
      else
        let sz = alignword sz0;
            av = usub (usub (usub sz (hdr_size s)) BHDR) BHDR;
            ma = usub av BHDR
        in sma_init_free_list (s\<lparr>sma_initialized := True, sma_size := sz, sma_locked := False,
             min_block_size := (if 0 < min_alloc_size then alignword (uadd min_alloc_size BHDR) else MINBLOCKSIZE),
             avail := av, sma_max_alloc_size := ma, abi_version := APC_SHM_ABI_VERSION, cache_header_offset := 0,
             shm_nslots := 0, shm_max_alloc_size := ma, seg_size := sz, init_complete := False\<rparr>))"

definition apc_sma_attach :: "nat \<Rightarrow> ('p, 'z) sma_scheme \<Rightarrow> win_error + ('p, 'z) sma_scheme" where
  "apc_sma_attach sz0 s =
     (if sma_initialized s then Inr s
      else
        let s = s\<lparr>sma_initialized := True\<rparr>
        in if abi_version s \<noteq> APC_SHM_ABI_VERSION then Inl (Abi_mismatch (abi_version s))
           else
             let min_viable = uadd (hdr_size s) (umul 3 BHDR);
                 actual_limit = alignword sz0;
                 s = (if 0 < seg_size s
                      then if seg_size s < min_viable \<or> actual_limit < seg_size s then s\<lparr>sma_size := actual_limit\<rparr>
                           else s\<lparr>sma_size := seg_size s\<rparr>
                      else s\<lparr>sma_size := actual_limit\<rparr>)
             in Inr (if 0 < shm_max_alloc_size s \<and> shm_max_alloc_size s < sma_size s
                     then s\<lparr>sma_max_alloc_size := shm_max_alloc_size s\<rparr>
                     else s\<lparr>sma_max_alloc_size := usub (usub (sma_size s) (hdr_size s)) (umul 3 BHDR)\<rparr>))"

text \<open>The name of the serializer has 32 bytes with its final 0; a longer name is reported and ends the function.\<close>

definition apc_sma_set_cache_info :: "nat \<Rightarrow> nat \<Rightarrow> string option \<Rightarrow> ('p, 'z) sma_scheme \<Rightarrow> ('p, 'z) sma_scheme" where
  "apc_sma_set_cache_info off n name s =
     (let s = s\<lparr>cache_header_offset := off, shm_nslots := n, shm_serializer_name := []\<rparr>
      in case name of
           Some (x # xs) \<Rightarrow>
             if 32 \<le> length (x # xs) then s
             else s\<lparr>shm_serializer_name := x # xs, init_complete := True\<rparr>
         | _ \<Rightarrow> s\<lparr>init_complete := True\<rparr>)"

definition apc_sma_get_cache_offset :: "('p, 'z) sma_scheme \<Rightarrow> nat" where
  "apc_sma_get_cache_offset s = cache_header_offset s"

definition apc_sma_get_cache_nslots :: "('p, 'z) sma_scheme \<Rightarrow> nat" where
  "apc_sma_get_cache_nslots s = shm_nslots s"

definition apc_sma_get_serializer_name :: "('p, 'z) sma_scheme \<Rightarrow> string" where
  "apc_sma_get_serializer_name s = shm_serializer_name s"

definition apc_sma_is_init_complete :: "('p, 'z) sma_scheme \<Rightarrow> bool" where
  "apc_sma_is_init_complete s = init_complete s"

subsection \<open>The start of the module\<close>

text \<open>\<open>cfg_entry_size\<close> is \<open>APC_ENTRY_SIZE(0)\<close>; an absent string is a null pointer.\<close>

record win_cfg =
  cfg_shm_name :: "string option"
  cfg_shared_only :: bool
  cfg_shm_size :: int
  cfg_serializer :: "string option"
  cfg_entries_hint :: int
  cfg_gc_ttl :: int
  cfg_ttl :: int
  cfg_smart :: int
  cfg_defend :: bool
  cfg_entry_size :: nat

text \<open>The branch of the process that has created the segment, and that of a process that finds it.\<close>

definition create_in_segment :: "win_cfg \<Rightarrow> nat \<Rightarrow> ('v, 'x) cstate \<Rightarrow> (win_error + ('v, 'x) cstate) option" where
  "create_in_segment cfg sz c = do {
     r \<leftarrow> apc_cache_create (cfg_entries_hint cfg) (cfg_gc_ttl cfg) (cfg_ttl cfg) (cfg_smart cfg) (cfg_defend cfg)
            (apc_sma_init_from_addr sz (cfg_entry_size cfg) c);
     Some (if \<not> fst r then Inl No_cache
           else Inr (apc_sma_set_cache_info (c_header (snd r)) (nslots (snd r)) (cfg_serializer cfg) (snd r)))
   }"

text \<open>
  The process that waits holds the mutex of the name, so no other process sets \<open>init_complete\<close> meanwhile: the wait
  ends at once or after its 30 seconds.
\<close>

definition attach_to_segment :: "win_cfg \<Rightarrow> nat \<Rightarrow> ('v, 'x) cstate \<Rightarrow> win_error + ('v, 'x) cstate" where
  "attach_to_segment cfg sz c =
     (case apc_sma_attach sz c of
        Inl e \<Rightarrow> Inl e
      | Inr c \<Rightarrow>
          if \<not> apc_sma_is_init_complete c then Inl Init_never_completed
          else
            let creator_ser = apc_sma_get_serializer_name c;
                local_ser = (case cfg_serializer cfg of None \<Rightarrow> [] | Some s \<Rightarrow> s)
            in if creator_ser \<noteq> [] \<and> creator_ser \<noteq> local_ser then Inl (Serializer_mismatch creator_ser local_ser)
               else case apc_cache_attach (cfg_gc_ttl cfg) (cfg_ttl cfg) (cfg_smart cfg) (cfg_defend cfg) c of
                      (ok, c) \<Rightarrow> if ok then Inr c else Inl Attach_failed)"

definition minit_named :: "win_os \<Rightarrow> win_cfg \<Rightarrow> ('v, 'x) cstate \<Rightarrow> (win_error + ('v, 'x) cstate) option" where
  "minit_named os cfg c =
     (let shm_size = alignword (if 0 < cfg_shm_size cfg then nat (cfg_shm_size cfg) else SMA_DEFAULT_SEGSIZE)
      in case apc_windows_shm_init_lock os (cfg_shm_name cfg) of
           Inl e \<Rightarrow> Some (Inl e)
         | Inr init_lock \<Rightarrow>
             (case apc_windows_shm_create os (cfg_shm_name cfg) shm_size of
                None \<Rightarrow> Some (Inl No_segment)
              | Some shm \<Rightarrow>
                  if is_new shm then create_in_segment cfg shm_size c
                  else Some (attach_to_segment cfg (map_size shm) c)))"

text \<open>The module is ready, or switched off (\<open>APCG(enabled) = 0\<close>), or the process ends with a fatal error.\<close>

datatype 'c minit = Ready 'c | Disabled | Fatal win_error

definition minit_apcu :: "win_os \<Rightarrow> win_cfg \<Rightarrow> ('v, 'x) cstate \<Rightarrow> ('v, 'x) cstate minit option" where
  "minit_apcu os cfg c =
     (if cfg_shm_name cfg \<noteq> None \<and> the (cfg_shm_name cfg) \<noteq> []
      then map_option (case_sum Fatal Ready) (minit_named os cfg c)
      else if cfg_shared_only cfg then Some Disabled
      else do {
        r \<leftarrow> apc_cache_create (cfg_entries_hint cfg) (cfg_gc_ttl cfg) (cfg_ttl cfg) (cfg_smart cfg) (cfg_defend cfg)
               (apc_sma_init (nat (cfg_shm_size cfg mod 2 ^ 64)) (cfg_entry_size cfg) c);
        Some (if fst r then Ready (snd r) else Fatal No_cache)
      })"

end
