(* ===== verification/Windows_Correct.thy ===== *)
theory Windows_Correct imports Windows_Shm Cache_Behaviour begin

text \<open>
  What start-up on Windows guarantees: names that are distinct and fit their buffers, a first process that publishes
  a working cache, and later processes that find exactly this cache.
\<close>

subsection \<open>Serializers\<close>

text \<open>The first serializer of a list that has the name, and the number of places taken from the front.\<close>

definition taken :: "nat \<Rightarrow> 'f serializer list \<Rightarrow> bool" where
  "taken n tab \<longleftrightarrow> length tab = APC_MAX_SERIALIZERS \<and> n \<le> APC_MAX_SERIALIZERS \<and>
     (\<forall>i<APC_MAX_SERIALIZERS. ser_name (tab ! i) = None \<longleftrightarrow> n \<le> i)"

lemma takenD: "taken n tab \<Longrightarrow> i < n \<Longrightarrow> i < length tab \<and> ser_name (tab ! i) \<noteq> None"
  unfolding taken_def by (metis less_le_trans not_le)

lemma find_at_first:
  assumes "length tab = APC_MAX_SERIALIZERS" "left \<le> APC_MAX_SERIALIZERS"
  shows "find_at left name tab = find (\<lambda>s. ser_name s = Some name) (drop (APC_MAX_SERIALIZERS - left) tab)"
  using assms
proof (induction left)
  case (Suc left)
  have "drop (APC_MAX_SERIALIZERS - Suc left) tab =
      tab ! (APC_MAX_SERIALIZERS - Suc left) # drop (APC_MAX_SERIALIZERS - left) tab"
    using Suc.prems Cons_nth_drop_Suc [of "APC_MAX_SERIALIZERS - Suc left" tab] by (simp add: Suc_diff_Suc)
  then show ?case using Suc by (simp add: Let_def)
qed simp

lemma register_at_free:
  assumes "taken n tab" "left \<le> APC_MAX_SERIALIZERS" "APC_MAX_SERIALIZERS - left \<le> n" "n < APC_MAX_SERIALIZERS"
  shows "register_at left name fns tab = (True, let tab = tab[n := \<lparr>ser_name = name, ser_fns = fns\<rparr>]
    in if n < APC_MAX_SERIALIZERS - 1 then tab[n + 1 := (tab ! (n + 1))\<lparr>ser_name := None\<rparr>] else tab)"
  using assms
proof (induction left)
  case 0
  then show ?case by simp
next
  case (Suc left)
  let ?i = "APC_MAX_SERIALIZERS - Suc left"
  have i: "ser_name (tab ! ?i) = None \<longleftrightarrow> n \<le> ?i" using Suc.prems by (simp add: taken_def)
  show ?case
  proof (cases "n \<le> ?i")
    case True
    then show ?thesis using i Suc.prems(3) by (simp add: Let_def)
  next
    case False
    then have "register_at left name fns tab = (True, let tab = tab[n := \<lparr>ser_name = name, ser_fns = fns\<rparr>]
      in if n < APC_MAX_SERIALIZERS - 1 then tab[n + 1 := (tab ! (n + 1))\<lparr>ser_name := None\<rparr>] else tab)"
      using Suc.prems by (intro Suc.IH) simp_all
    moreover have "register_at (Suc left) name fns tab = register_at left name fns tab"
      using i False unfolding register_at.simps Let_def by (intro if_not_P) simp
    ultimately show ?thesis by simp
  qed
qed

lemma register_at_full: "taken APC_MAX_SERIALIZERS tab \<Longrightarrow> left \<le> APC_MAX_SERIALIZERS \<Longrightarrow> register_at left name fns tab = (False, tab)"
  by (induction left) (auto simp: taken_def Let_def)

lemma register_ok:
  assumes "taken n tab"
  shows "apc_register_serializer (Some name) fns tab =
     (if n < APC_MAX_SERIALIZERS then (True, snd (apc_register_serializer (Some name) fns tab)) else (False, tab))"
    "n < APC_MAX_SERIALIZERS \<Longrightarrow> taken (Suc n) (snd (apc_register_serializer (Some name) fns tab)) \<and>
       take (Suc n) (snd (apc_register_serializer (Some name) fns tab)) = take n tab @ [\<lparr>ser_name = Some name, ser_fns = fns\<rparr>]"
proof -
  have l: "length tab = APC_MAX_SERIALIZERS" "n \<le> APC_MAX_SERIALIZERS" using assms by (simp_all add: taken_def)
  let ?s = "\<lparr>ser_name = Some name, ser_fns = fns\<rparr>"
  have e: "apc_register_serializer (Some name) fns tab = (True, let tab = tab[n := ?s]
      in if n < APC_MAX_SERIALIZERS - 1 then tab[n + 1 := (tab ! (n + 1))\<lparr>ser_name := None\<rparr>] else tab)" if "n < APC_MAX_SERIALIZERS"
    unfolding apc_register_serializer_def by (rule register_at_free [OF assms]) (use that in simp_all)
  show "apc_register_serializer (Some name) fns tab =
     (if n < APC_MAX_SERIALIZERS then (True, snd (apc_register_serializer (Some name) fns tab)) else (False, tab))"
    using e register_at_full [of tab] assms l(2) by (cases "n < APC_MAX_SERIALIZERS") (auto simp: apc_register_serializer_def)
  show "taken (Suc n) (snd (apc_register_serializer (Some name) fns tab)) \<and>
       take (Suc n) (snd (apc_register_serializer (Some name) fns tab)) = take n tab @ [?s]" if n: "n < APC_MAX_SERIALIZERS"
  proof
    have t: "take (Suc n) (tab[n := ?s]) = take n tab @ [?s]" using n l by (simp add: take_Suc_conv_app_nth)
    show "take (Suc n) (snd (apc_register_serializer (Some name) fns tab)) = take n tab @ [?s]"
      unfolding e [OF n] using t by (simp add: Let_def)
    show "taken (Suc n) (snd (apc_register_serializer (Some name) fns tab))"
      unfolding e [OF n] using assms n by (auto simp: taken_def Let_def nth_list_update)
  qed
qed

lemma find_ok:
  assumes "taken n tab"
  shows "apc_find_serializer name tab = find (\<lambda>s. ser_name s = Some name) (take n tab)"
proof -
  have l: "length tab = APC_MAX_SERIALIZERS" using assms by (simp add: taken_def)
  have "\<forall>s\<in>set (drop n tab). ser_name s \<noteq> Some name"
    using assms by (fastforce simp: taken_def in_set_conv_nth less_diff_conv add.commute)
  then have "find (\<lambda>s. ser_name s = Some name) (drop n tab) = None" by (simp add: find_None_iff)
  then have "find (\<lambda>s. ser_name s = Some name) (take n tab @ drop n tab) = find (\<lambda>s. ser_name s = Some name) (take n tab)"
    unfolding find_append by (simp split: option.split)
  then show ?thesis using find_at_first [of tab APC_MAX_SERIALIZERS name] l by (simp add: apc_find_serializer_def)
qed

text \<open>
  What a client may rely on: a table of bounded size that keeps the order of registration, in which the first entry
  of a name is found.
\<close>

locale name_table =
  fixes ok :: "'s \<Rightarrow> bool" and entries :: "'s \<Rightarrow> (string \<times> 'f) list" and cap :: nat
    and register :: "string \<Rightarrow> 'f \<Rightarrow> 's \<Rightarrow> bool \<times> 's" and search :: "string \<Rightarrow> 's \<Rightarrow> 'f option"
  assumes room: "ok s \<Longrightarrow> length (entries s) < cap \<Longrightarrow> fst (register n f s) \<and> ok (snd (register n f s)) \<and>
      entries (snd (register n f s)) = entries s @ [(n, f)]"
    and full: "ok s \<Longrightarrow> cap \<le> length (entries s) \<Longrightarrow> register n f s = (False, s)"
    and first: "ok s \<Longrightarrow> search n s = map_of (entries s) n"
begin

definition register_all :: "(string \<times> 'f) list \<Rightarrow> 's \<Rightarrow> 's" where
  "register_all nfs s = fold (\<lambda>nf s. snd (register (fst nf) (snd nf) s)) nfs s"

lemma register_all_entries:
  "ok s \<Longrightarrow> length (entries s) \<le> cap \<Longrightarrow> ok (register_all nfs s) \<and> entries (register_all nfs s) = take cap (entries s @ nfs)"
proof (induction nfs arbitrary: s)
  case Nil
  then show ?case by (simp add: register_all_def)
next
  case (Cons nf nfs)
  show ?case
  proof (cases "length (entries s) < cap")
    case True
    then show ?thesis using Cons.IH [of "snd (register (fst nf) (snd nf) s)"] room [OF Cons.prems(1) True, of "fst nf" "snd nf"]
      by (simp add: register_all_def)
  next
    case False
    then have "register_all (nf # nfs) s = register_all nfs s" using full [OF Cons.prems(1)] by (simp add: register_all_def)
    then show ?thesis using False Cons by simp
  qed
qed

lemma search_first:
  assumes "ok s" "entries s = []" "length nfs \<le> cap"
  shows "search n (register_all nfs s) = map_of nfs n"
  using register_all_entries [OF assms(1), of nfs] first [of "register_all nfs s" n] assms by simp

end

definition serializer_entries :: "'f serializer list \<Rightarrow> (string \<times> 'f) list" where
  "serializer_entries tab = map (\<lambda>s. (the (ser_name s), ser_fns s)) (takeWhile (\<lambda>s. ser_name s \<noteq> None) tab)"

lemma taken_entries: "taken n tab \<Longrightarrow> serializer_entries tab = map (\<lambda>s. (the (ser_name s), ser_fns s)) (take n tab)"
  "taken n tab \<Longrightarrow> length (serializer_entries tab) = n"
proof -
  assume t: "taken n tab"
  then have "takeWhile (\<lambda>s. ser_name s \<noteq> None) tab = take n tab"
    by (intro takeWhile_eq_take_P_nth takenD [THEN conjunct2]) (auto simp: taken_def)
  then show "serializer_entries tab = map (\<lambda>s. (the (ser_name s), ser_fns s)) (take n tab)" by (simp add: serializer_entries_def)
  then show "length (serializer_entries tab) = n" using t by (simp add: taken_def)
qed

lemma find_map_of:
  "\<forall>s\<in>set tab. ser_name s \<noteq> None \<Longrightarrow>
   map_option ser_fns (find (\<lambda>s. ser_name s = Some name) tab) = map_of (map (\<lambda>s. (the (ser_name s), ser_fns s)) tab) name"
  by (induction tab) auto

interpretation serializers: name_table "\<lambda>tab. \<exists>n. taken n tab" serializer_entries APC_MAX_SERIALIZERS
  "\<lambda>name. apc_register_serializer (Some name)" "\<lambda>name tab. map_option ser_fns (apc_find_serializer name tab)"
proof
  fix tab :: "'f serializer list" and name and fns :: 'f
  assume "\<exists>n. taken n tab"
  then obtain n where t: "taken n tab" by blast
  note e = taken_entries [OF t] and r = register_ok [OF t, of name fns]
  show "fst (apc_register_serializer (Some name) fns tab) \<and> (\<exists>n. taken n (snd (apc_register_serializer (Some name) fns tab))) \<and>
      serializer_entries (snd (apc_register_serializer (Some name) fns tab)) = serializer_entries tab @ [(name, fns)]"
    if "length (serializer_entries tab) < APC_MAX_SERIALIZERS"
  proof -
    have n: "n < APC_MAX_SERIALIZERS" using that e(2) by simp
    have "fst (apc_register_serializer (Some name) fns tab)" using arg_cong [OF r(1), of fst] n by simp
    then show ?thesis using r(2) [OF n] taken_entries(1) e(1) by fastforce
  qed
  show "apc_register_serializer (Some name) fns tab = (False, tab)" if "APC_MAX_SERIALIZERS \<le> length (serializer_entries tab)"
    using r(1) that e(2) by simp
  have "\<forall>s\<in>set (take n tab). ser_name s \<noteq> None" using takenD [OF t] by (fastforce simp: in_set_conv_nth)
  then show "map_option ser_fns (apc_find_serializer name tab) = map_of (serializer_entries tab) name"
    unfolding find_ok [OF t] e(1) by (rule find_map_of)
qed

text \<open>Of up to 16 serializers registered in an empty table, the first with a name is the one that is found.\<close>

lemma serializer_first_wins:
  assumes "length nfs \<le> APC_MAX_SERIALIZERS"
  shows "map_option ser_fns (apc_find_serializer name
      (serializers.register_all nfs (replicate APC_MAX_SERIALIZERS \<lparr>ser_name = None, ser_fns = f\<rparr>))) = map_of nfs name"
proof -
  have t: "taken 0 (replicate APC_MAX_SERIALIZERS \<lparr>ser_name = None, ser_fns = f\<rparr>)" by (simp add: taken_def)
  have "serializer_entries (replicate APC_MAX_SERIALIZERS \<lparr>ser_name = None, ser_fns = f\<rparr>) = []" using taken_entries(1) [OF t] by simp
  then show ?thesis using serializers.search_first [OF _ _ assms] t by blast
qed

subsection \<open>Names\<close>

lemma validate_length: "apc_windows_shm_validate_name (Some s) \<Longrightarrow> s \<noteq> [] \<and> length s \<le> 200"
  by (auto simp: apc_windows_shm_validate_name_def APC_SHM_NAME_MAX_def split: if_splits)

lemma names_uncut:
  assumes "apc_windows_shm_validate_name (Some s)"
  shows "init_mutex_name s = ''Local'' @ [CHR 0x5C] @ ''APCu_'' @ s @ ''_init''"
    "file_mapping_name s = ''Local'' @ [CHR 0x5C] @ ''APCu_'' @ s @ ''_0''"
proof -
  have "length (''Local'' @ [CHR 0x5C] @ ''APCu_'' @ s @ ''_init'') \<le> 255" "length (''Local'' @ [CHR 0x5C] @ ''APCu_'' @ s @ ''_0'') \<le> 255"
    using validate_length [OF assms] by simp_all
  then show "init_mutex_name s = ''Local'' @ [CHR 0x5C] @ ''APCu_'' @ s @ ''_init''"
    "file_mapping_name s = ''Local'' @ [CHR 0x5C] @ ''APCu_'' @ s @ ''_0''"
    unfolding init_mutex_name_def file_mapping_name_def snprintf_def by (simp_all only: take_all_iff)
qed

subsection \<open>The first process\<close>

definition minit_size :: "win_cfg \<Rightarrow> nat" where
  "minit_size cfg = alignword (if 0 < cfg_shm_size cfg then nat (cfg_shm_size cfg) else SMA_DEFAULT_SEGSIZE)"

definition serializer_name :: "win_cfg \<Rightarrow> string" where
  "serializer_name cfg = (case cfg_serializer cfg of None \<Rightarrow> [] | Some s \<Rightarrow> s)"

text \<open>The shared header describes the cache that the process uses.\<close>

definition published :: "win_cfg \<Rightarrow> ('v, 'x) cstate \<Rightarrow> bool" where
  "published cfg c \<longleftrightarrow> abi_version c = APC_SHM_ABI_VERSION \<and> cache_header_offset c = c_header c \<and> shm_nslots c = nslots c \<and>
     shm_max_alloc_size c = sma_max_alloc_size c \<and> seg_size c = sma_size c \<and>
     (if length (serializer_name cfg) < 32 then init_complete c \<and> shm_serializer_name c = serializer_name cfg
      else \<not> init_complete c)"

lemma config_header:
  assumes "same_config c c'"
  shows "abi_version c' = abi_version c" "cache_header_offset c' = cache_header_offset c" "shm_nslots c' = shm_nslots c"
    "shm_max_alloc_size c' = shm_max_alloc_size c" "seg_size c' = seg_size c" "init_complete c' = init_complete c"
    "shm_serializer_name c' = shm_serializer_name c" "sma_size c' = sma_size c"
proof -
  have "config c' = config c" using assms by (simp add: same_config_def)
  from arg_cong [OF this, of abi_version] arg_cong [OF this, of cache_header_offset] arg_cong [OF this, of shm_nslots]
    arg_cong [OF this, of shm_max_alloc_size] arg_cong [OF this, of seg_size] arg_cong [OF this, of init_complete]
    arg_cong [OF this, of shm_serializer_name] arg_cong [OF this, of sma_size]
  show "abi_version c' = abi_version c" "cache_header_offset c' = cache_header_offset c" "shm_nslots c' = shm_nslots c"
    "shm_max_alloc_size c' = shm_max_alloc_size c" "seg_size c' = seg_size c" "init_complete c' = init_complete c"
    "shm_serializer_name c' = shm_serializer_name c" "sma_size c' = sma_size c"
    by (simp_all add: config_def core_def)
qed

lemma published_env: "same_env c c' \<Longrightarrow> published cfg c \<Longrightarrow> published cfg c'"
  using config_header [of "c\<lparr>cache_lock_results := []\<rparr>" "c'\<lparr>cache_lock_results := []\<rparr>"] same_env_sel(2,5,17) [of c c']
  by (simp add: published_def same_env_def)

lemma init_from_addr_eq:
  assumes "\<not> sma_initialized s" "0 < n"
  shows "apc_sma_init_from_addr n ma s = (apc_sma_init n ma s)\<lparr>abi_version := APC_SHM_ABI_VERSION, cache_header_offset := 0,
     shm_nslots := 0, shm_max_alloc_size := sma_max_alloc_size (apc_sma_init n ma s), seg_size := alignword n, init_complete := False\<rparr>"
  using assms by (simp add: apc_sma_init_from_addr_def apc_sma_init_def sma_init_free_list_def Let_def)

lemma set_cache_info_published:
  "published cfg (apc_sma_set_cache_info (c_header c) (nslots c) (cfg_serializer cfg) c) \<longleftrightarrow>
     abi_version c = APC_SHM_ABI_VERSION \<and> shm_max_alloc_size c = sma_max_alloc_size c \<and> seg_size c = sma_size c \<and>
     (length (serializer_name cfg) < 32 \<or> \<not> init_complete c)"
  by (auto simp: published_def apc_sma_set_cache_info_def serializer_name_def Let_def split: option.splits list.splits)

text \<open>States that agree on everything that the invariant and the map depend on.\<close>

definition same_cache :: "('v, 'x) cstate \<Rightarrow> ('v, 'x) cstate \<Rightarrow> bool" where
  "same_cache c c' \<longleftrightarrow> blk c' = blk c \<and> avail c' = avail c \<and> dat c' = dat c \<and> hdr_size c' = hdr_size c \<and>
     sma_size c' = sma_size c \<and> sma_locked c' = sma_locked c \<and> sma_lock_results c' = sma_lock_results c \<and>
     min_block_size c' = min_block_size c \<and> sma_max_alloc_size c' = sma_max_alloc_size c \<and>
     c_header c' = c_header c \<and> header_bytes c' = header_bytes c \<and> gc_offset c' = gc_offset c \<and>
     nslots c' = nslots c \<and> zstr_hash c' = zstr_hash c \<and> h_nentries c' = h_nentries c \<and> h_mem_size c' = h_mem_size c"

lemma same_cache_ok:
  assumes "same_cache c c'"
  shows "cache_inv c' L = cache_inv c L" "cache_map c' = cache_map c" "garbage c' = garbage c" "bucket c' i = bucket c i"
proof -
  have f: "cache_inv c' L = cache_inv c L" "heads c' = heads c" "slots c' = slots c" "slot_at c' = slot_at c" "gc_at c' = gc_at c" for L
    using cache_inv_fields(1) [where c' = c' and c = c and L = L] cache_inv_fields(2-5) [where c' = c' and c = c] assms
    by (simp_all add: same_cache_def)
  have e: "dat c' = dat c" "nslots c' = nslots c" "zstr_hash c' = zstr_hash c" "blk c' = blk c" "hdr_size c' = hdr_size c"
    "sma_size c' = sma_size c" "c_header c' = c_header c"
    using assms unfolding same_cache_def by blast+
  have l: "cache_lists c' = cache_lists c" "contents c' = contents c" "slot_of c' = slot_of c"
    by (intro ext; simp add: cache_lists_def sma_blocks_def contents_def slot_of_def e)+
  show "cache_inv c' L = cache_inv c L" by (rule f(1))
  show b: "bucket c' i = bucket c i" for i by (simp add: bucket_def f l)
  show "garbage c' = garbage c" by (simp add: garbage_def f l)
  show "cache_map c' = cache_map c" by (simp add: cache_map_def b l fun_eq_iff)
qed

lemma set_cache_info_same: "same_cache c (apc_sma_set_cache_info off n name c)"
  "cache_exists (apc_sma_set_cache_info off n name c) = cache_exists c" "cache_lock (apc_sma_set_cache_info off n name c) = cache_lock c"
  "entry_level (apc_sma_set_cache_info off n name c) = entry_level c"
  by (auto simp: same_cache_def apc_sma_set_cache_info_def Let_def split: option.splits list.splits)

text \<open>The number of slots for a segment of that size, and the conditions on the platform and the configuration.\<close>

definition slots_for :: "win_cfg \<Rightarrow> nat \<Rightarrow> nat" where
  "slots_for cfg sz = nat (make_prime (int32_of (if 0 < cfg_entries_hint cfg then cfg_entries_hint cfg else int (alignword sz div 2048))))"

definition first_start :: "win_cfg \<Rightarrow> nat \<Rightarrow> ('v, 'x) cstate \<Rightarrow> bool" where
  "first_start cfg sz c \<longleftrightarrow> \<not> sma_initialized c \<and> \<not> cache_exists c \<and> sma_lock_results c = [] \<and> 0 < hdr_size c \<and> 8 dvd hdr_size c \<and>
     0 < gc_offset c \<and> gc_offset c + 8 \<le> header_bytes c \<and>
     hdr_size c + header_bytes c + 8 * slots_for cfg sz + 4 * BHDR \<le> sz \<and> sz + 8 < SEG_MAX \<and> cfg_entry_size cfg + 40 < SEG_MAX"

definition same_platform :: "('v, 'x) cstate \<Rightarrow> ('v, 'x) cstate \<Rightarrow> bool" where
  "same_platform c c' \<longleftrightarrow> hdr_size c' = hdr_size c \<and> header_bytes c' = header_bytes c \<and> gc_offset c' = gc_offset c \<and> zstr_hash c' = zstr_hash c"

lemma create_in_segment_ok:
  assumes "first_start cfg sz c"
  shows "\<exists>c1. create_in_segment cfg sz c = Some (Inr c1) \<and> cache_inv c1 (\<lambda>_. []) \<and> cache_exists c1 \<and> lockable c1 \<and>
    published cfg c1 \<and> same_platform c c1 \<and> sma_size c1 = alignword sz \<and> nslots c1 = slots_for cfg sz \<and> h_nentries c1 = 0"
proof -
  let ?s = "apc_sma_init sz (cfg_entry_size cfg) c" and ?c0 = "apc_sma_init_from_addr sz (cfg_entry_size cfg) c"
  have a: "\<not> sma_initialized c" "\<not> cache_exists c" "sma_lock_results c = []" "0 < hdr_size c" "8 dvd hdr_size c"
    "0 < gc_offset c" "gc_offset c + 8 \<le> header_bytes c" "hdr_size c + header_bytes c + 8 * slots_for cfg sz + 4 * BHDR \<le> sz"
    "sz + 8 < SEG_MAX" "cfg_entry_size cfg + 40 < SEG_MAX"
    using assms unfolding first_start_def by blast+
  have h3: "hdr_size c + 3 * BHDR \<le> sz" using a(8) by simp
  note f = apc_sma_init_facts [OF a(1,4,5) h3 a(9,10)]
  have inv: "sma_inv ?s [first_block (hdr_size c)] [first_block (hdr_size c)]" using f by blast
  have g: "sma_ready ?s" "sma_live ?s = {}" "sma_size ?s = alignword sz" "avail ?s = alignword sz - hdr_size c - 2 * BHDR"
    "\<And>k. sma_fits k ?s \<longleftrightarrow> alignword (k + BHDR) \<le> avail ?s"
    using f by blast+
  have sz: "0 < sz" "sz \<le> alignword sz" using a(4,8,9) alignword_ge [of sz] by simp_all
  have k: "cache_exists ?s = cache_exists c" "sma_lock_results ?s = sma_lock_results c" "hdr_size ?s = hdr_size c" "gc_offset ?s = gc_offset c"
    "header_bytes ?s = header_bytes c" "zstr_hash ?s = zstr_hash c"
    by (simp_all add: apc_sma_init_def sma_init_free_list_def Let_def)
  note e = init_from_addr_eq [OF a(1) sz(1), of "cfg_entry_size cfg"]
  have k0: "cache_exists ?c0 = cache_exists c" "sma_lock_results ?c0 = sma_lock_results c" "hdr_size ?c0 = hdr_size c" "gc_offset ?c0 = gc_offset c"
    "header_bytes ?c0 = header_bytes c" "zstr_hash ?c0 = zstr_hash c" "blk ?c0 = blk ?s" "sma_size ?c0 = sma_size ?s" "avail ?c0 = avail ?s"
    "min_block_size ?c0 = min_block_size ?s" "sma_max_alloc_size ?c0 = sma_max_alloc_size ?s" "sma_locked ?c0 = sma_locked ?s"
    "abi_version ?c0 = APC_SHM_ABI_VERSION" "shm_max_alloc_size ?c0 = sma_max_alloc_size ?s" "seg_size ?c0 = alignword sz" "\<not> init_complete ?c0"
    unfolding e by (simp_all add: k)
  note cg = sma_cong [of ?c0 ?s, OF k0(7) _ k0(8-11), unfolded k0(3) k(3), OF refl]
  have rd: "sma_ready ?c0" "sma_live ?c0 = {}" "sma_size ?c0 = alignword sz"
    using g(1-3) cg(1,2) k0(8,12) by (simp_all add: sma_ready_def)
  have fr: "sma_frees ?c0 = [first_block (hdr_size ?c0)]"
  proof -
    have "sma_inv ?c0 [first_block (hdr_size c)] [first_block (hdr_size c)]"
      using inv unfolding sma_inv_def k0 k by simp
    from sma_inv_walk(2) [OF this] show ?thesis by (simp add: k0)
  qed
  have n: "slots_wanted (cfg_entries_hint cfg) ?c0 = slots_for cfg sz" by (simp add: slots_wanted_def slots_for_def rd(3))
  let ?need = "header_bytes c + 8 * slots_for cfg sz"
  have mx: "sma_max_alloc_size ?s + hdr_size c + 3 * BHDR = alignword sz" using inv g(3) k(3) unfolding sma_inv_def by metis
  have need: "?need \<le> sma_max_alloc_size ?s" using mx a(8) sz(2) by simp
  have "alignword (?need + BHDR) \<le> avail ?s" using g(4) alignword_le [of "?need + BHDR"] a(8) sz(2) by linarith
  then have fits: "sma_fits ?need ?c0" using g(5) cg(5) by blast
  have cond: "sma_lock_results ?c0 = []" "\<not> cache_exists ?c0" "0 < gc_offset ?c0" "gc_offset ?c0 + 8 \<le> header_bytes ?c0"
    "header_bytes ?c0 + 8 * slots_wanted (cfg_entries_hint cfg) ?c0 \<le> sma_max_alloc_size ?c0"
    "sma_fits (header_bytes ?c0 + 8 * slots_wanted (cfg_entries_hint cfg) ?c0) ?c0"
    using a(2,3,6,7) need fits unfolding n k0 by blast+
  obtain c2 where c2: "apc_cache_create (cfg_entries_hint cfg) (cfg_gc_ttl cfg) (cfg_ttl cfg) (cfg_smart cfg) (cfg_defend cfg) ?c0 = Some (True, c2)"
    "cache_inv c2 (\<lambda>_. [])" "cache_exists c2" "nslots c2 = slots_wanted (cfg_entries_hint cfg) ?c0" "cache_lock c2 = Unlocked" "h_nentries c2 = 0"
    "same_segment ?c0 c2"
    using create_ok [OF rd(1) cond(1) rd(2) fr cond(2-6), of "cfg_gc_ttl cfg" "cfg_ttl cfg" "cfg_smart cfg" "cfg_defend cfg"]
    by (elim exE conjE) (rule that)
  let ?c1 = "apc_sma_set_cache_info (c_header c2) (nslots c2) (cfg_serializer cfg) c2"
  note sc = set_cache_info_same [where off = "c_header c2" and n = "nslots c2" and name = "cfg_serializer cfg" and c = c2]
  have "published cfg ?c1"
    using c2(7) rd(3) k0 unfolding set_cache_info_published same_segment_def by simp
  moreover have "same_platform c ?c1"
    using sc(1) c2(7) k0 by (simp add: same_platform_def same_cache_def same_segment_def)
  moreover have "sma_size ?c1 = alignword sz" "nslots ?c1 = slots_for cfg sz" "h_nentries ?c1 = 0"
    using sc(1) c2(4,6,7) n rd(3) by (simp_all add: same_cache_def same_segment_def)
  moreover have "lockable ?c1" using sc(3) c2(5) by (simp add: lockable_def)
  moreover have "cache_inv ?c1 (\<lambda>_. [])" using same_cache_ok(1) [OF sc(1)] c2(2) by simp
  moreover have "create_in_segment cfg sz c = Some (Inr ?c1)" using c2(1) by (simp add: create_in_segment_def)
  ultimately show ?thesis using sc(2) c2(3) by blast
qed

subsection \<open>Later processes\<close>

text \<open>The process \<open>p\<close> with the segment of \<open>c\<close> mapped: its own descriptors, and the shared memory of \<open>c\<close>.\<close>

definition map_segment :: "('v, 'x) cstate \<Rightarrow> ('v, 'x) cstate \<Rightarrow> ('v, 'x) cstate" where
  "map_segment c p = p\<lparr>sma_locked := sma_locked c, min_block_size := min_block_size c, avail := avail c, blk := blk c, dat := dat c,
     abi_version := abi_version c, cache_header_offset := cache_header_offset c, shm_nslots := shm_nslots c,
     shm_max_alloc_size := shm_max_alloc_size c, seg_size := seg_size c, shm_serializer_name := shm_serializer_name c,
     init_complete := init_complete c, h_nhits := h_nhits c, h_nmisses := h_nmisses c, h_ninserts := h_ninserts c,
     h_ncleanups := h_ncleanups c, h_ndefragmentations := h_ndefragmentations c, h_nexpunges := h_nexpunges c,
     h_nentries := h_nentries c, h_mem_size := h_mem_size c, h_stime := h_stime c, h_lastkey := h_lastkey c\<rparr>"

lemma layout_fits:
  assumes "cache_inv c L"
  shows "attach_layout_ok (header_bytes c) (c_header c) (nslots c) (sma_size c)"
proof -
  note D = cache_invD [OF assms]
  note h = header_okD [OF D(6)]
  obtain n where n: "sma_allocs c (c_header c) = Some n" "header_bytes c + 8 * nslots c \<le> n" using h(6) by blast
  have lv: "c_header c \<in> sma_live c" using n(1) sma_allocs_dom [of c] by blast
  have "c_header c + n + BHDR \<le> sma_size c"
    using sma_live_range(2) [OF D(2) lv] n(1) sma_allocs_room [OF lv] by simp
  moreover have "sma_size c < SEG_MAX" using sma_ok_facts(1,2) [OF D(2)] by simp
  ultimately show ?thesis using n(2) h(1,2) by (simp add: attach_layout_ok_def Let_def umul_small uadd_small)
qed

text \<open>Attaching finds the cache of the segment as its users left it.\<close>

lemma attach_to_segment_ok:
  assumes I: "cache_inv c L" and pub: "published cfg c" "length (serializer_name cfg) < 32"
    and p: "\<not> sma_initialized p" "same_platform c p" "sma_lock_results p = []"
    and ser: "serializer_name cfg = [] \<or> serializer_name cfg' = serializer_name cfg" and sz: "seg_size c \<le> alignword sz"
  shows "\<exists>c2. attach_to_segment cfg' sz (map_segment c p) = Inr c2 \<and> same_cache c c2 \<and> cache_exists c2 \<and>
    cache_lock c2 = cache_lock p \<and> entry_level c2 = entry_level p \<and> c_ttl c2 = cfg_ttl cfg' \<and> c_gc_ttl c2 = cfg_gc_ttl cfg' \<and>
    c_defend c2 = cfg_defend cfg' \<and> c_smart c2 = cfg_smart cfg' \<and>
    cache_lock_results c2 = cache_lock_results p \<and> fst (apc_time c2) = fst (apc_time p)"
proof -
  note D = cache_invD [OF I]
  note pb = pub(1) [unfolded published_def if_P [OF pub(2)]]
  have mx: "sma_max_alloc_size c + hdr_size c + 3 * BHDR = sma_size c" "sma_size c < SEG_MAX"
    using sma_ok_facts(1,2) [OF D(2)] by simp_all
  have mv: "uadd (hdr_size c) (umul 3 BHDR) \<le> sma_size c" "uadd (hdr_size c) (umul 3 BHDR) = hdr_size c + 3 * BHDR"
    using mx by (simp_all add: uadd_small umul_def)
  have n: "header_bytes p = header_bytes c" "hdr_size p = hdr_size c" "gc_offset p = gc_offset c" "zstr_hash p = zstr_hash c"
    using p(2) by (simp_all add: same_platform_def)
  let ?p = "(map_segment c p)\<lparr>sma_initialized := True, sma_size := sma_size c, sma_max_alloc_size := sma_max_alloc_size c\<rparr>"
  have u: "usub (usub (sma_size c) (hdr_size c)) (umul 3 BHDR) = sma_max_alloc_size c"
    using mx by (simp add: usub_small umul_def)
  have at: "apc_sma_attach sz (map_segment c p) = Inr ?p"
    using p(1) pb mv sz mx u by (auto simp: apc_sma_attach_def map_segment_def Let_def n)
  have cs: "shm_serializer_name c = serializer_name cfg" "init_complete c" using pb by simp_all
  have ls: "(case cfg_serializer cfg' of None \<Rightarrow> [] | Some s \<Rightarrow> s) = serializer_name cfg'" by (simp add: serializer_name_def)
  let ?c2 = "?p\<lparr>cache_exists := True, c_header := c_header c, nslots := nslots c, c_gc_ttl := cfg_gc_ttl cfg', c_ttl := cfg_ttl cfg',
    c_smart := cfg_smart cfg', c_defend := cfg_defend cfg'\<rparr>"
  have "apc_cache_attach (cfg_gc_ttl cfg') (cfg_ttl cfg') (cfg_smart cfg') (cfg_defend cfg') ?p = (True, ?c2)"
    using layout_fits [OF I] pb by (simp add: apc_cache_attach_def Let_def map_segment_def n)
  then have "attach_to_segment cfg' sz (map_segment c p) = Inr ?c2"
    using ser cs unfolding attach_to_segment_def at sum.case Let_def ls
    by (auto simp: apc_sma_is_init_complete_def apc_sma_get_serializer_name_def map_segment_def)
  moreover have "same_cache c ?c2" using D(3) p(3) n by (simp add: same_cache_def map_segment_def)
  ultimately show ?thesis by (intro exI [of _ ?c2]) (simp add: map_segment_def apc_time_def Let_def)
qed

subsection \<open>The start of the module\<close>

text \<open>The operating system does what is asked; \<open>new\<close> tells whether the mapping is new, \<open>r\<close> is the size of its region.\<close>

definition os_works :: "win_os \<Rightarrow> win_cfg \<Rightarrow> bool \<Rightarrow> nat \<Rightarrow> bool" where
  "os_works os cfg new r \<longleftrightarrow> apc_windows_shm_validate_name (cfg_shm_name cfg) \<and> os_mutex_dacl os \<and>
     os_mutex os (init_mutex_name (the (cfg_shm_name cfg))) \<and>
     (case os_wait os (init_mutex_name (the (cfg_shm_name cfg))) of WAIT_OBJECT_0 \<Rightarrow> True | WAIT_ABANDONED \<Rightarrow> True | _ \<Rightarrow> False) \<and>
     os_mapping_dacl os \<and>
     os_mapping os (file_mapping_name (the (cfg_shm_name cfg))) (minit_size cfg div 2 ^ 32 mod 2 ^ 32) (minit_size cfg mod 2 ^ 32) = Some new \<and>
     os_view os \<and> os_region os = Some r"

lemma minit_works:
  assumes "os_works os cfg new r"
  shows "minit_apcu os cfg c = map_option (case_sum Fatal Ready)
    (if new then create_in_segment cfg (minit_size cfg) c else Some (attach_to_segment cfg r c))"
proof -
  have v: "apc_windows_shm_validate_name (cfg_shm_name cfg)" using assms by (simp add: os_works_def)
  then obtain s where s: "cfg_shm_name cfg = Some s" "s \<noteq> []"
    by (cases "cfg_shm_name cfg") (auto simp: apc_windows_shm_validate_name_def split: if_splits)
  have o: "os_mutex_dacl os" "os_mutex os (init_mutex_name s)" "os_mapping_dacl os" "os_view os" "os_region os = Some r"
    "os_wait os (init_mutex_name s) = WAIT_OBJECT_0 \<or> os_wait os (init_mutex_name s) = WAIT_ABANDONED"
    "os_mapping os (file_mapping_name s) (minit_size cfg div 2 ^ 32 mod 2 ^ 32) (minit_size cfg mod 2 ^ 32) = Some new"
    using assms unfolding os_works_def s(1) option.sel by (auto split: wait_result.splits)
  have l: "apc_windows_shm_init_lock os (cfg_shm_name cfg) = Inr (init_mutex_name s)"
    using v o(1,2,6) s by (auto simp: apc_windows_shm_init_lock_def)
  have c: "apc_windows_shm_create os (cfg_shm_name cfg) (minit_size cfg) =
      Some \<lparr>mapping_handle = file_mapping_name s, map_size = (if \<not> new \<and> r \<noteq> minit_size cfg then r else minit_size cfg), is_new = new\<rparr>"
    using v unfolding apc_windows_shm_create_def s(1) option.sel Let_def o(5,7) option.case by (simp add: o(3,4))
  have m: "cfg_shm_name cfg \<noteq> None \<and> the (cfg_shm_name cfg) \<noteq> []" using s by simp
  show ?thesis
    unfolding minit_apcu_def if_P [OF m] minit_named_def minit_size_def [symmetric] Let_def l c sum.case option.case by simp
qed

end
