(* ===== verification/Windows_Properties.thy ===== *)
theory Windows_Properties imports Windows_Correct begin

text \<open>
  The properties of start-up on Windows, from the names of the kernel objects to what a process finds in a segment
  that another one has created.
\<close>

subsection \<open>Names\<close>

text \<open>
  For every name that \<open>apc_windows_shm_validate_name\<close> accepts, the names of the mutex and of the mapping fit
  the buffers of 256 bytes uncut; different names give different objects, and no mutex has the name of a mapping.
\<close>

theorem object_names_distinct:
  assumes "apc_windows_shm_validate_name (Some s)" "apc_windows_shm_validate_name (Some s')"
  shows "length (init_mutex_name s) < 255 \<and> length (file_mapping_name s) < 255 \<and>
    (init_mutex_name s = init_mutex_name s' \<longleftrightarrow> s = s') \<and> (file_mapping_name s = file_mapping_name s' \<longleftrightarrow> s = s') \<and>
    init_mutex_name s \<noteq> file_mapping_name s'"
proof -
  note n = names_uncut [OF assms(1)] names_uncut [OF assms(2)]
  have l: "length s \<le> 200" using validate_length [OF assms(1)] by simp
  have "last (init_mutex_name s) \<noteq> last (file_mapping_name s')" unfolding n by simp
  then show ?thesis using l unfolding n by auto
qed

theorem object_names_distinct_witness:
  "init_mutex_name ''pool-1'' \<noteq> file_mapping_name ''pool-1'' \<and> init_mutex_name ''pool-1'' \<noteq> init_mutex_name ''pool-2''"
  using object_names_distinct [of "''pool-1''" "''pool-2''"] object_names_distinct [of "''pool-1''" "''pool-1''"]
  by (simp add: apc_windows_shm_validate_name_def APC_SHM_NAME_MAX_def name_char_ok_def less_eq_char_def)

subsection \<open>The first process\<close>

text \<open>
  C22: the first process of a pool, on a segment with room for the allocator and the cache, starts with an empty cache
  in which the invariant holds, and the shared header then describes this cache completely.
\<close>

theorem first_process_publishes:
  assumes "os_works os cfg True r" "first_start cfg (minit_size cfg) c"
  shows "\<exists>c1. minit_apcu os cfg c = Some (Ready c1) \<and> cache_ok c1 \<and> cache_exists c1 \<and> lockable c1 \<and> cache_map c1 = Map.empty \<and>
    published cfg c1 \<and> same_platform c c1"
proof -
  obtain c1 where c1: "create_in_segment cfg (minit_size cfg) c = Some (Inr c1)" "cache_inv c1 (\<lambda>_. [])" "cache_exists c1" "lockable c1"
    "published cfg c1" "same_platform c c1"
    using create_in_segment_ok [OF assms(2)] by blast
  have "cache_map c1 = Map.empty" by (rule cache_map_empty [OF c1(2)]) simp
  then show ?thesis using c1 cache_inv_ok [OF c1(2)] minit_works [OF assms(1), of c] by simp
qed

text \<open>A segment of 64 KB with 257 slots, and a process that has not started yet.\<close>

definition ex_cfg :: "string \<Rightarrow> win_cfg" where
  "ex_cfg ser = \<lparr>cfg_shm_name = Some ''pool-1'', cfg_shared_only = True, cfg_shm_size = 65536, cfg_serializer = Some ser,
     cfg_entries_hint = 100, cfg_gc_ttl = 3600, cfg_ttl = 0, cfg_smart = 0, cfg_defend = True, cfg_entry_size = 100\<rparr>"

definition ex_os :: "bool \<Rightarrow> win_os" where
  "ex_os new = \<lparr>os_mutex_dacl = True, os_mutex = \<lambda>_. True, os_wait = \<lambda>_. WAIT_OBJECT_0, os_mapping_dacl = True,
     os_mapping = \<lambda>_ _ _. Some new, os_view = True, os_region = Some 65536\<rparr>"

definition ex_process :: "nat cache" where
  "ex_process = ex1\<lparr>sma_initialized := False, cache_exists := False\<rparr>"

lemma ex_size: "minit_size (ex_cfg ser) = 65536"
  by (simp add: minit_size_def ex_cfg_def alignword_def uadd_def)

lemma ex_serializer: "serializer_name (ex_cfg ser) = ser"
  by (simp add: serializer_name_def ex_cfg_def)

lemma ex_os_works: "os_works (ex_os new) (ex_cfg ser) new 65536"
proof -
  have "apc_windows_shm_validate_name (Some ''pool-1'')"
    by (simp add: apc_windows_shm_validate_name_def APC_SHM_NAME_MAX_def name_char_ok_def less_eq_char_def)
  then show ?thesis by (simp add: os_works_def ex_os_def) (simp add: ex_cfg_def)
qed

lemma ex_first_start: "first_start (ex_cfg ser) 65536 ex_process"
proof -
  have "slots_for (ex_cfg ser) 65536 = 257" by (simp add: slots_for_def ex_cfg_def int32_of_def make_prime_def) (simp add: primes_def)
  then show ?thesis by (simp add: first_start_def ex_process_def) (simp add: ex_cache_def ex_cfg_def)
qed

theorem first_process_publishes_witness:
  "\<exists>c1. minit_apcu (ex_os True) (ex_cfg ''php'') ex_process = Some (Ready c1) \<and> cache_ok c1 \<and> init_complete c1 \<and>
    shm_serializer_name c1 = ''php''"
  using first_process_publishes [OF ex_os_works, of "''php''" ex_process] ex_first_start [of "''php''"]
  by (auto simp: ex_size published_def ex_serializer)

subsection \<open>Later processes\<close>

text \<open>
  C2: a process that starts later with the same name and serializer, at any time, finds in the segment exactly the
  cache that the first process created and others have used since: every key has the same entry, and the invariant
  holds for the state of the new process, with its own ttl settings.
\<close>

theorem later_process_sees_cache:
  assumes "os_works os cfg True r" "first_start cfg (minit_size cfg) c" "minit_apcu os cfg c = Some (Ready c1)"
    "same_env c1 c2" "cache_ok c2" "length (serializer_name cfg) < 32"
    "os_works os' cfg' False r'" "minit_size cfg \<le> r'" "r' + 7 < U64" "serializer_name cfg' = serializer_name cfg"
    "\<not> sma_initialized p" "same_platform c p" "sma_lock_results p = []"
  shows "\<exists>c3. minit_apcu os' cfg' (map_segment c2 p) = Some (Ready c3) \<and> cache_ok c3 \<and> cache_exists c3 \<and>
    cache_map c3 = cache_map c2 \<and> garbage c3 = garbage c2 \<and> c_ttl c3 = cfg_ttl cfg' \<and> c_gc_ttl c3 = cfg_gc_ttl cfg'"
proof -
  obtain x where x: "create_in_segment cfg (minit_size cfg) c = Some (Inr x)" "published cfg x" "same_platform c x"
    "sma_size x = alignword (minit_size cfg)"
    using create_in_segment_ok [OF assms(2)] by blast
  have c1: "c1 = x" using assms(3) x(1) minit_works [OF assms(1), of c] by simp
  have pub: "published cfg c2" using published_env [OF assms(4)] x(2) c1 by simp
  have "8 dvd minit_size cfg" "minit_size cfg + 7 < U64" using assms(2) by (simp_all add: minit_size_def first_start_def)
  then have sz: "sma_size x = minit_size cfg" using x(4) by (simp add: alignword_id)
  have "seg_size c2 = seg_size x" using assms(4) c1 config_header(5) unfolding same_env_def by fastforce
  then have "seg_size c2 \<le> alignword r'"
    using x(2) sz assms(8) alignword_ge [OF assms(9)] by (simp add: published_def)
  moreover have "same_platform c2 p"
    using assms(12) x(3) c1 same_env_sel(3,4,12,18) [OF assms(4)] by (simp add: same_platform_def)
  ultimately obtain c3 where c3: "attach_to_segment cfg' r' (map_segment c2 p) = Inr c3" "same_cache c2 c3" "cache_exists c3"
    "c_ttl c3 = cfg_ttl cfg'" "c_gc_ttl c3 = cfg_gc_ttl cfg'"
    using attach_to_segment_ok [OF cache_okI [OF assms(5)] pub assms(6,11) _ assms(13), of cfg' r'] assms(10) by blast
  have "cache_ok c3" using cache_inv_ok [of c3 "cache_lists c2"] same_cache_ok(1) [OF c3(2)] cache_okI [OF assms(5)] by simp
  then show ?thesis using c3 same_cache_ok(2,3) [OF c3(2)] minit_works [OF assms(7), of "map_segment c2 p"] by simp
qed

theorem later_process_sees_cache_witness:
  "\<exists>c1 c3. minit_apcu (ex_os True) (ex_cfg ''php'') ex_process = Some (Ready c1) \<and>
    minit_apcu (ex_os False) (ex_cfg ''php'') (map_segment c1 (ex_process\<lparr>pid := 8\<rparr>)) = Some (Ready c3) \<and> cache_ok c3 \<and>
    cache_map c3 = Map.empty"
proof -
  let ?p = "ex_process\<lparr>pid := 8\<rparr>"
  have f: "first_start (ex_cfg ''php'') (minit_size (ex_cfg ''php'')) ex_process" using ex_first_start [of "''php''"] by (simp add: ex_size)
  obtain c1 where c1: "minit_apcu (ex_os True) (ex_cfg ''php'') ex_process = Some (Ready c1)" "cache_ok c1" "cache_map c1 = Map.empty"
    using first_process_publishes [OF ex_os_works f] by blast
  have s: "length (serializer_name (ex_cfg ''php'')) < 32" by (simp add: ex_serializer)
  have p: "\<not> sma_initialized ?p" "same_platform ex_process ?p" "sma_lock_results ?p = []"
    by (simp_all add: ex_process_def same_platform_def) (simp_all add: ex_cache_def)
  show ?thesis
    using later_process_sees_cache [OF ex_os_works f c1(1) same_env_refl c1(2) s ex_os_works [of False "''php''"] _ _ refl p] c1
    by (auto simp: ex_size)
qed

text \<open>
  C33: a serializer name of 32 or more characters lets the first process start, but every later process waits in vain
  and ends with the error that initialisation never completed, because the name is rejected before the segment is
  marked as complete.
\<close>

theorem long_serializer_blocks_others:
  assumes "os_works os cfg True r" "first_start cfg (minit_size cfg) c" "32 \<le> length (serializer_name cfg)"
    "os_works os' cfg' False r'" "\<not> sma_initialized p"
  shows "\<exists>c1. minit_apcu os cfg c = Some (Ready c1) \<and> cache_ok c1 \<and>
    minit_apcu os' cfg' (map_segment c1 p) = Some (Fatal Init_never_completed)"
proof -
  obtain c1 where c1: "minit_apcu os cfg c = Some (Ready c1)" "cache_ok c1" "published cfg c1"
    using first_process_publishes [OF assms(1,2)] by blast
  have "abi_version c1 = APC_SHM_ABI_VERSION" "\<not> init_complete c1" using c1(3) assms(3) by (simp_all add: published_def)
  then have "attach_to_segment cfg' r' (map_segment c1 p) = Inl Init_never_completed"
    using assms(5) by (simp add: attach_to_segment_def apc_sma_attach_def map_segment_def Let_def apc_sma_is_init_complete_def)
  then show ?thesis using c1(1,2) minit_works [OF assms(4), of "map_segment c1 p"] by simp
qed

theorem long_serializer_blocks_others_witness:
  "\<exists>c1. minit_apcu (ex_os True) (ex_cfg (replicate 32 CHR ''s'')) ex_process = Some (Ready c1) \<and>
    minit_apcu (ex_os False) (ex_cfg ''php'') (map_segment c1 ex_process) = Some (Fatal Init_never_completed)"
proof -
  let ?cfg = "ex_cfg (replicate 32 CHR ''s'')"
  have "first_start ?cfg (minit_size ?cfg) ex_process" using ex_first_start [of "replicate 32 CHR ''s''"] by (simp add: ex_size)
  moreover have "32 \<le> length (serializer_name ?cfg)" by (simp add: ex_serializer)
  moreover have "\<not> sma_initialized ex_process" by (simp add: ex_process_def)
  ultimately show ?thesis using long_serializer_blocks_others [OF ex_os_works _ _ ex_os_works] by blast
qed

subsection \<open>Bounds\<close>

text \<open>
  C37: whatever a shared header with the right version contains, \<open>apc_sma_attach\<close> makes the allocator of the
  process use no byte behind the mapped region, provided the region can hold an allocator at all: the size used lies
  between the minimum and the mapped size, and the largest request stays below it. Nothing in shared memory changes.
\<close>

theorem apc_sma_attach_bounds:
  assumes "\<not> sma_initialized s" "abi_version s = APC_SHM_ABI_VERSION" "0 < hdr_size s" "hdr_size s + 3 * BHDR \<le> alignword sz"
  shows "\<exists>s'. apc_sma_attach sz s = Inr s' \<and> hdr_size s + 3 * BHDR \<le> sma_size s' \<and> sma_size s' \<le> alignword sz \<and>
    sma_max_alloc_size s' < sma_size s' \<and>
    s' = s\<lparr>sma_initialized := True, sma_size := sma_size s', sma_max_alloc_size := sma_max_alloc_size s'\<rparr>"
proof -
  have lt: "hdr_size s + 3 * BHDR < U64" by (rule le_less_trans [OF assms(4) alignword_lt])
  have m: "uadd (hdr_size s) (umul 3 BHDR) = hdr_size s + 3 * BHDR"
    using lt by (simp add: uadd_small umul_def)
  define n where "n = (if 0 < seg_size s \<and> hdr_size s + 3 * BHDR \<le> seg_size s \<and> seg_size s \<le> alignword sz then seg_size s else alignword sz)"
  have n: "hdr_size s + 3 * BHDR \<le> n" "n \<le> alignword sz" using assms(4) by (simp_all add: n_def)
  define ma where "ma = (if 0 < shm_max_alloc_size s \<and> shm_max_alloc_size s < n then shm_max_alloc_size s else n - hdr_size s - 3 * BHDR)"
  have u: "usub (usub k (hdr_size s)) (umul 3 BHDR) = k - (hdr_size s + 96)" if "hdr_size s + 96 \<le> k" "k \<le> alignword sz" for k
    using that le_less_trans [OF that(2) alignword_lt] by (simp add: usub_small umul_def)
  have "apc_sma_attach sz s = Inr (s\<lparr>sma_initialized := True, sma_size := n, sma_max_alloc_size := ma\<rparr>)"
    using assms(1,2,4) unfolding apc_sma_attach_def Let_def by (simp add: m n_def ma_def u)
  moreover have "ma < n" using n assms(3) by (simp add: ma_def)
  ultimately show ?thesis using n by simp
qed

theorem apc_sma_attach_bounds_witness:
  "\<exists>s'. apc_sma_attach 4096 (ex_process\<lparr>abi_version := 2, seg_size := 2 ^ 40, shm_max_alloc_size := 2 ^ 40\<rparr>) = Inr s' \<and>
    sma_size s' \<le> 4096 \<and> sma_max_alloc_size s' < 4096"
proof -
  let ?s = "ex_process\<lparr>abi_version := 2, seg_size := 2 ^ 40, shm_max_alloc_size := 2 ^ 40\<rparr>"
  have h: "hdr_size ?s = 64" "\<not> sma_initialized ?s" "abi_version ?s = APC_SHM_ABI_VERSION" "alignword 4096 = 4096"
    by (simp_all add: ex_process_def APC_SHM_ABI_VERSION_def alignword_def uadd_def) (simp add: ex_cache_def)
  then obtain s' where "apc_sma_attach 4096 ?s = Inr s'" "sma_size s' \<le> 4096" "sma_max_alloc_size s' < sma_size s'"
    using apc_sma_attach_bounds [OF h(2,3), of 4096] unfolding h by auto
  then show ?thesis by (intro exI [of _ s']) simp
qed

end
