(* ===== verification/Preload.thy ===== *)
theory Preload imports Php_Correct begin

text \<open>
  Loading prepared data files into the cache at start (\<open>apc_cache_preload\<close> of \<open>apc_cache.c\<close>, builds without threads).
  Parameters: the slash of the platform, \<open>MAXPATHLEN\<close>, the names that \<open>php_scandir\<close> returns in order, the files,
  \<open>php_var_unserialize\<close> on the contents of a file, and \<open>EG(uninitialized_zval)\<close>.
\<close>

subsection \<open>Strings\<close>




subsection \<open>Files\<close>







subsection \<open>Preloading is adding an array\<close>







subsection \<open>The property\<close>





end
