(* ===== verification/Spec2Isabelle.thy ===== *)
theory Spec2Isabelle imports Sma_Properties Cache_Behaviour Rwlock_Properties Iterator_Properties Persist_Properties
  Php_Properties Windows_Properties Preload begin

text \<open>
  A verification development for APCu with named shared segments on Windows: a shared memory user cache for PHP.

  The program is a PHP extension in C. A process maps a shared memory segment and runs, from the bottom up: the
  allocator of that segment (\<open>apc_sma.c\<close>), a lock (\<open>apc_lock.c\<close>), the cache of entries in the segment
  (\<open>apc_cache.c\<close>), the copying of PHP values into and out of entries (\<open>apc_persist.c\<close>), the iterator
  (\<open>apc_iterator.c\<close>, \<open>apc_stack.c\<close>), the functions for scripts and the start of the module (\<open>php_apc.c\<close>, with
  \<open>apc_windows_shm.c\<close> for segments that the processes of an application pool share by name). The allocator calls back
  into the cache when it runs out of memory (\<open>apc_cache_default_expunge\<close>) and when it moves an allocation
  (\<open>apc_cache_wlocked_move_entry\<close>); the cache allocates through \<open>apc_sma_malloc\<close> when it persists a value.

  How the model corresponds to the code. One record holds the state: the descriptors of the process (\<open>apc_sma_t\<close>,
  \<open>apc_cache_t\<close>), the shared headers (\<open>sma_header_t\<close>, \<open>apc_cache_header_t\<close>), the segment and the environment of the
  process (clock, process id, \<open>APCG\<close> values). \<open>map_segment\<close> is the state of another process on the same memory. Each
  function is a definition of the same name that returns its result and the new state. Machine integers: \<open>size_t\<close>
  values are naturals and the arithmetic on them is \<open>uadd\<close>, \<open>usub\<close>, \<open>umul\<close> (modulo 2 to the 64, related to 64-bit words
  in \<open>Prelude\<close>); \<open>zend_long\<close> values are integers reduced by \<open>int64_of\<close>, and the casts to 32 bits are \<open>int32_of\<close> and
  \<open>uint32_of\<close>. A pointer into the segment is its offset. The segment is seen as two typed memories: block headers
  (\<open>blk\<close>) and the objects that callers keep in their allocations (\<open>dat\<close>). A loop that the code does not bound is a
  partial function: \<open>None\<close> means that it does not return, and the properties show that a result is returned. The
  functions of \<open>apc_persist.c\<close> that follow pointers take fuel, the number of nested structures they may enter; for a
  value with a tree its depth is enough, which the properties show. The outcomes of attempts to lock are an
  arbitrary list in the state (the empty list: they succeed).

  Parameters for code that is not here: the encoding of a value for an entry and back (\<open>img\<close>, \<open>unp\<close>; instantiated
  with the model of \<open>apc_persist\<close> in \<open>Persist_Properties\<close>), user serializers, the hash of a string, the sizes and offsets
  of Zend's structures, the user function of \<open>apcu_entry\<close>, the regular expressions of the iterator, and the answers
  of Windows (\<open>win_os\<close>, \<open>lock_sys\<close>).

  Theories and what their lemmas show:
  \<^item> \<open>Prelude\<close>: arithmetic, alignment, memory moves; \<open>Zval\<close>: PHP values.
  \<^item> Allocator. \<open>Sma_Blocks\<close>, \<open>Sma_Chain\<close>: block headers, the free list, the segment invariant and the steps that keep it;
    \<open>Sma\<close>: the operations; \<open>Sma_Correct\<close>: allocation and deallocation; \<open>Sma_Api\<close>: the executable invariant \<open>sma_ok\<close>, the
    contract \<open>block_store\<close> for clients and \<open>expunger\<close> for the callback; \<open>Sma_Defrag\<close>: defragmentation and the contract
    \<open>relocatable\<close> of owners of movable allocations; \<open>Sma_Properties\<close>.
  \<^item> Cache. \<open>Cache\<close>, \<open>Cache_Api\<close>: data and operations; \<open>Cache_Lists\<close>, \<open>Cache_Inv\<close>, \<open>Cache_Steps\<close>: linked lists, the invariant,
    the loops under the write lock; \<open>Cache_View\<close>: the abstraction to lists of entries with the abstract operations;
    \<open>Cache_Move\<close>, \<open>Cache_Expunge\<close>, \<open>Cache_Client\<close>: the cache as provider of the allocator's callbacks and as its client;
    \<open>Cache_Map\<close>: the abstraction to a map from keys to entries; \<open>Cache_Calls\<close>, \<open>Cache_Reads\<close>, \<open>Cache_Updates\<close>, \<open>Cache_Store\<close>,
    \<open>Cache_Create\<close>, \<open>Cache_Entry\<close>: each function of the API over that map, with errors and lock failures;
    \<open>Cache_Example\<close>: a concrete cache; \<open>Cache_Properties\<close>, \<open>Cache_Behaviour\<close>.
  \<^item> Lock. \<open>Rwlock\<close>: the Windows lock as a step relation over all interleavings of processes that may die at any point,
    its invariant by rule induction; \<open>Rwlock_Properties\<close>.
  \<^item> Iterator. \<open>Stack\<close> (contract \<open>item_stack\<close>), \<open>Iterator\<close>, \<open>Iterator_Correct\<close>, \<open>Iterator_Delete\<close>, \<open>Iterator_Properties\<close>.
  \<^item> Copying of values. \<open>Persist\<close>: the functions; \<open>Persist_Tree\<close>: values as trees; \<open>Persist_Copy\<close>, \<open>Persist_Run\<close>: the size
    computed is the size used and the copy has the tree of the original; \<open>Persist_Back\<close>: the way back;
    \<open>Persist_Properties\<close>.
  \<^item> Functions for scripts. \<open>Php_Api\<close>, \<open>Php_Correct\<close>, \<open>Php_Properties\<close>: arrays of keys, counters, lifetimes.
  \<^item> \<open>Preload\<close>: prepared data files that are added to the cache at start.
  \<^item> Start on Windows. \<open>Windows_Shm\<close>: names, mutex and mapping, initialising and attaching, the table of serializers
    (contract \<open>name_table\<close>), \<open>PHP_MINIT\<close>; \<open>Windows_Correct\<close>, \<open>Windows_Properties\<close>.
  \<^item> This theory: what one process stores another process fetches.

  Not modelled: the pthread, fcntl and spin lock variants of the lock and the mutex wrappers (they call the operating
  system or are inline assembly; a lock attempt is an outcome in the state), how the memory of the segment is obtained
  (\<open>apc_mmap.c\<close>, \<open>apc_shm.c\<close>), access control lists (\<open>apc_windows_security.c\<close>), signals (\<open>apc_signal.c\<close>),
  \<open>phpinfo\<close>, class and setting registration, warnings, bailouts of the engine inside a critical section, assertions
  (but those of the stack) and the canaries of debug builds, and 32-bit platforms.
\<close>

subsection \<open>From one process to another\<close>

text \<open>
  C1: a value that one process of a pool stores with \<open>apcu_store\<close> is what \<open>apcu_fetch\<close> returns in another process
  that starts afterwards on the same segment with the same serializer, as long as the ttl has not passed there.
\<close>

theorem value_shared_between_processes:
  assumes "cache_ok c" "lockable c" "cache_exists c" "published cfg c" "length (serializer_name cfg) < 32"
    "\<forall>sz zv data. img key val = Some (sz, zv, data) \<longrightarrow> 0 < sz \<and> unp zv data = Some val"
    "apcu_store lts img (S_string key (Some val)) ttl c = Some (R_bool True, c')"
    "os_works os cfg' False r" "seg_size c \<le> alignword r" "serializer_name cfg' = serializer_name cfg"
    "\<not> sma_initialized p" "same_platform c p" "sma_lock_results p = []" "lockable p" "cache_lock_results p = []"
    "int32_of ttl = 0 \<or> fst (apc_time p) \<le> int64_of (fst (apc_time c) + int32_of ttl)"
  shows "\<exists>c1 c2. minit_apcu os cfg' (map_segment c' p) = Some (Ready c1) \<and>
    apcu_fetch unp (K_string key) c1 = Some ((R_value val, True), c2) \<and> quiet c2"
proof -
  have img: "\<forall>sz zv data. img key val = Some (sz, zv, data) \<longrightarrow> 0 < sz" using assms(6) by blast
  obtain L where I: "cache_inv c' L" "same_env c c'"
    using apcu_store_entry [OF cache_okI [OF assms(1)] assms(2,3) img assms(7)] by blast
  have pub: "published cfg c'" by (rule published_env [OF I(2) assms(4)])
  have "seg_size c' = seg_size c" using I(2) config_header(5) unfolding same_env_def by fastforce
  moreover have "same_platform c' p"
    using assms(12) same_env_sel(3,4,12,18) [OF I(2)] by (simp add: same_platform_def)
  ultimately obtain c1 where c1: "attach_to_segment cfg' r (map_segment c' p) = Inr c1" "same_cache c' c1" "cache_exists c1"
    "cache_lock c1 = cache_lock p" "entry_level c1 = entry_level p" "cache_lock_results c1 = []" "fst (apc_time c1) = fst (apc_time p)"
    using attach_to_segment_ok [OF I(1) pub assms(5,11) _ assms(13), of cfg' r] assms(9,10,15) by auto
  have q: "quiet c1"
    by (rule quietI [of c1 L]) (use same_cache_ok(1) [OF c1(2)] I(1) c1(4-6) assms(14) in \<open>simp_all add: lockable_def\<close>)
  have m: "cache_map c1 key = cache_map c' key" using same_cache_ok(2) [OF c1(2)] by simp
  show ?thesis
    using store_then_fetch_later [OF assms(1-3) img assms(7) q c1(3) m, of unp] assms(6,16) c1(1,7)
      minit_works [OF assms(8), of "map_segment c' p"] by auto
qed

text \<open>The cache \<open>ex1\<close> with its description in the shared header.\<close>

definition ex_published :: "nat cache" where
  "ex_published = ex1\<lparr>abi_version := 2, cache_header_offset := 128, shm_nslots := 2, shm_max_alloc_size := 864, seg_size := 1024,
     shm_serializer_name := ''php'', init_complete := True\<rparr>"

lemma ex_published: "same_cache ex1 ex_published" "published (ex_cfg ''php'') ex_published" "lockable ex_published"
  "cache_exists ex_published" "lock_gets ex_published" "sma_max_alloc_size ex_published = 864" "sma_fits 90 ex_published"
  "\<not> fst (apc_cache_defense key (fst (apc_time ex_published)) (snd (apc_time ex_published)))" "fst (apc_time ex_published) = 20"
proof -
  show "same_cache ex1 ex_published" by (simp add: same_cache_def ex_published_def)
  show "published (ex_cfg ''php'') ex_published"
    by (simp add: published_def ex_serializer ex_published_def ex1_fields APC_SHM_ABI_VERSION_def) (simp add: ex_cache_def)
  show "lockable ex_published" "cache_exists ex_published" "lock_gets ex_published" "sma_max_alloc_size ex_published = 864"
    using ex1_fields(12,13,14,19) by (simp_all add: ex_published_def lockable_def lock_gets_def)
  show "sma_fits 90 ex_published" using ex1_fits sma_cong(5) [of ex_published ex1 90] by (simp add: ex_published_def)
  show "\<not> fst (apc_cache_defense key (fst (apc_time ex_published)) (snd (apc_time ex_published)))" "fst (apc_time ex_published) = 20"
    by (simp_all add: apc_cache_defense_def Let_def ex_published_def ex_cache_def no_key_def apc_time_def)
qed

theorem value_shared_between_processes_witness:
  "\<exists>c' c1 c2. apcu_store (\<lambda>_. []) (\<lambda>key v. Some (90, IS_LONG v, 3)) (S_string ''ab'' (Some 4)) 60 ex_published = Some (R_bool True, c') \<and>
    minit_apcu (ex_os False) (ex_cfg ''php'') (map_segment c' (ex_process\<lparr>pid := 8, clock := 50\<rparr>)) = Some (Ready c1) \<and>
    apcu_fetch (\<lambda>zv _. Some (z_lval zv)) (K_string ''ab'') c1 = Some ((R_value 4, True), c2)"
proof -
  let ?img = "\<lambda>key v. Some (90, IS_LONG v, 3)" and ?p = "ex_process\<lparr>pid := 8, clock := 50\<rparr>"
  have ok: "cache_ok ex_published" using cache_inv_ok same_cache_ok(1) [OF ex_published(1)] ex1_inv by blast
  obtain c' where "apc_cache_store ?img ''ab'' 4 60 False ex_published = Some (True, c')"
    using store_succeeds [OF cache_okI [OF ok] ex_published(3,4,5,8), of ?img "''ab''" 4 90 "IS_LONG 4" 3 False 60] ex_published(6,7) by auto
  then have st: "apcu_store (\<lambda>_. []) ?img (S_string ''ab'' (Some 4)) 60 ex_published = Some (R_bool True, c')"
    by (simp add: apcu_store_def apc_store_helper_def int32_of_def uint32_of_def)
  have p: "\<not> sma_initialized ?p" "same_platform ex_published ?p" "sma_lock_results ?p = []" "lockable ?p" "cache_lock_results ?p = []"
    "fst (apc_time ?p) = 50"
    by (simp_all add: ex_process_def same_platform_def ex_published_def lockable_def ex_cache_def apc_time_def)
  have s: "length (serializer_name (ex_cfg ''php'')) < 32" by (simp add: ex_serializer)
  have sz: "seg_size ex_published \<le> alignword 65536" by (simp add: ex_published_def alignword_def uadd_def)
  show ?thesis
    using value_shared_between_processes [OF ok ex_published(3,4,2) s _ st ex_os_works [of False "''php''"] sz HOL.refl p(1-5), of "\<lambda>zv _. Some (z_lval zv)"]
      st p(6) ex_published(9) by (auto simp: int32_of_def int64_of_def)
qed

end
